(* ===== verification/Prelude.thy ===== *)
theory Prelude
  imports Main "HOL-Library.Word"
begin

text \<open>
  Shared vocabulary of the development: the machine types of the C sources
  (\<open>unsigned char\<close>, \<open>uint32_t\<close>, \<open>uint64_t\<close>), return codes as sums, the
  \<open>CHK\<close> idiom (``call, and leave with the code if it is not zero''), the
  memory primitives \<open>memcpy\<close> and \<open>memset\<close> on byte lists, the byte-order
  macros \<open>GET_UINT32_BE\<close> and friends, and the generic lemmas on lists and
  words that the component theories use.
\<close>

unbundle bit_operations_syntax

type_synonym byte = "8 word"
type_synonym u16 = "16 word"
type_synonym u32 = "32 word"
type_synonym u64 = "64 word"

text \<open>
  A fallible C function returns 0 or a negative code. \<open>Inr x\<close> is the return
  of 0 with the updated objects \<open>x\<close>, \<open>Inl e\<close> the return of the code \<open>e\<close>.
\<close>

type_synonym 'a res = "int + 'a"

definition chk :: "'a res \<Rightarrow> ('a \<Rightarrow> 'b res) \<Rightarrow> 'b res" where
  "chk r f = (case r of Inl e \<Rightarrow> Inl e | Inr x \<Rightarrow> f x)"

text \<open>
  A marker that is no return code of the library: an access past the end of
  an array, undefined behaviour of the C program. The theorems of the
  components show that no operation reaches it.
\<close>

definition OUT_OF_BOUNDS :: int where "OUT_OF_BOUNDS = 1"

definition in_bounds :: "'a option \<Rightarrow> 'a res" where
  "in_bounds r = (case r of None \<Rightarrow> Inl OUT_OF_BOUNDS | Some x \<Rightarrow> Inr x)"

named_theorems mem_simps \<open>lengths and contents of buffers after memcpy and memset\<close>
named_theorems bytes_simps \<open>byte-order conversions\<close>

lemma chk_Inr [simp]: "chk (Inr x) f = f x"
  by (simp add: chk_def)

lemma chk_Inl [simp]: "chk (Inl e) f = Inl e"
  by (simp add: chk_def)

lemma chk_eq_Inr: "chk r f = Inr y \<longleftrightarrow> (\<exists>x. r = Inr x \<and> f x = Inr y)"
  by (cases r) auto

lemma chk_eq_Inl: "chk r f = Inl e \<longleftrightarrow> r = Inl e \<or> (\<exists>x. r = Inr x \<and> f x = Inl e)"
  by (cases r) auto

lemma chk_assoc: "chk (chk r f) g = chk r (\<lambda>x. chk (f x) g)"
  by (cases r) auto

lemma chk_cong [fundef_cong]:
  "r = r' \<Longrightarrow> (\<And>x. r' = Inr x \<Longrightarrow> f x = f' x) \<Longrightarrow> chk r f = chk r' f'"
  by (cases r') auto


subsection \<open>Memory primitives\<close>

definition memcpy :: "'a list \<Rightarrow> nat \<Rightarrow> 'a list \<Rightarrow> 'a list" where
  "memcpy buf off src = take off buf @ src @ drop (off + length src) buf"

definition memset :: "'a list \<Rightarrow> nat \<Rightarrow> 'a \<Rightarrow> nat \<Rightarrow> 'a list" where
  "memset buf off v n = memcpy buf off (replicate n v)"

lemma length_memcpy [mem_simps]:
  "off + length src \<le> length buf \<Longrightarrow> length (memcpy buf off src) = length buf"
  by (simp add: memcpy_def)

lemma length_memset [mem_simps]:
  "off + n \<le> length buf \<Longrightarrow> length (memset buf off v n) = length buf"
  by (simp add: memset_def length_memcpy)

lemma take_memcpy [mem_simps]:
  "off \<le> length buf \<Longrightarrow> take (off + length src) (memcpy buf off src) = take off buf @ src"
  by (simp add: memcpy_def)

lemma take_memcpy_le:
  "k \<le> off \<Longrightarrow> off \<le> length buf \<Longrightarrow> take k (memcpy buf off src) = take k buf"
  by (simp add: memcpy_def min_def)

lemma memcpy_full:
  "off \<le> length buf \<Longrightarrow> off + length src = length buf \<Longrightarrow> memcpy buf off src = take off buf @ src"
  by (simp add: memcpy_def)

lemma memcpy_suffix: "length zs = length ys \<Longrightarrow> memcpy (xs @ ys) (length xs) zs = xs @ zs"
  by (simp add: memcpy_def)

lemma memcpy_Nil [simp]: "memcpy buf off [] = buf"
  by (simp add: memcpy_def)

lemma memcpy_adjacent:
  assumes "off + length xs \<le> length buf"
  shows "memcpy (memcpy buf off xs) (off + length xs) ys = memcpy buf off (xs @ ys)"
  using assms by (simp add: memcpy_def add.commute add.left_commute)

lemma memset_memcpy:
  "off \<le> length buf \<Longrightarrow> off + length xs \<le> length buf \<Longrightarrow>
   memset (memcpy buf off xs) (off + length xs) v n = memcpy buf off (xs @ replicate n v)"
  by (simp add: memset_def memcpy_adjacent)


subsection \<open>Byte order\<close>

text \<open>The macros \<open>GET_UINT32_BE\<close>, \<open>PUT_UINT32_BE\<close>, their little-endian and 64-bit kin.\<close>

definition GET_UINT32_BE :: "byte list \<Rightarrow> nat \<Rightarrow> u32" where
  "GET_UINT32_BE b i = push_bit 24 (ucast (b ! i)) OR push_bit 16 (ucast (b ! (i + 1)))
     OR push_bit 8 (ucast (b ! (i + 2))) OR ucast (b ! (i + 3))"

definition GET_UINT32_LE :: "byte list \<Rightarrow> nat \<Rightarrow> u32" where
  "GET_UINT32_LE b i = ucast (b ! i) OR push_bit 8 (ucast (b ! (i + 1)))
     OR push_bit 16 (ucast (b ! (i + 2))) OR push_bit 24 (ucast (b ! (i + 3)))"

definition GET_UINT64_BE :: "byte list \<Rightarrow> nat \<Rightarrow> u64" where
  "GET_UINT64_BE b i = push_bit 56 (ucast (b ! i)) OR push_bit 48 (ucast (b ! (i + 1)))
     OR push_bit 40 (ucast (b ! (i + 2))) OR push_bit 32 (ucast (b ! (i + 3)))
     OR push_bit 24 (ucast (b ! (i + 4))) OR push_bit 16 (ucast (b ! (i + 5)))
     OR push_bit 8 (ucast (b ! (i + 6))) OR ucast (b ! (i + 7))"

definition be32 :: "u32 \<Rightarrow> byte list" where
  "be32 n = [ucast (drop_bit 24 n), ucast (drop_bit 16 n), ucast (drop_bit 8 n), ucast n]"

definition le32 :: "u32 \<Rightarrow> byte list" where
  "le32 n = [ucast n, ucast (drop_bit 8 n), ucast (drop_bit 16 n), ucast (drop_bit 24 n)]"

definition be64 :: "u64 \<Rightarrow> byte list" where
  "be64 n = [ucast (drop_bit 56 n), ucast (drop_bit 48 n), ucast (drop_bit 40 n),
     ucast (drop_bit 32 n), ucast (drop_bit 24 n), ucast (drop_bit 16 n),
     ucast (drop_bit 8 n), ucast n]"

definition PUT_UINT32_BE :: "u32 \<Rightarrow> byte list \<Rightarrow> nat \<Rightarrow> byte list" where
  "PUT_UINT32_BE n b i = memcpy b i (be32 n)"

definition PUT_UINT32_LE :: "u32 \<Rightarrow> byte list \<Rightarrow> nat \<Rightarrow> byte list" where
  "PUT_UINT32_LE n b i = memcpy b i (le32 n)"

definition PUT_UINT64_BE :: "u64 \<Rightarrow> byte list \<Rightarrow> nat \<Rightarrow> byte list" where
  "PUT_UINT64_BE n b i = memcpy b i (be64 n)"

lemma length_be32 [simp]: "length (be32 n) = 4"
  by (simp add: be32_def)

lemma length_le32 [simp]: "length (le32 n) = 4"
  by (simp add: le32_def)

lemma length_be64 [simp]: "length (be64 n) = 8"
  by (simp add: be64_def)

text \<open>A row of \<open>PUT\<close> calls at consecutive offsets writes the concatenation.\<close>

lemma PUT_UINT32_BE_chain [bytes_simps]:
  "PUT_UINT32_BE n out 0 = memcpy out 0 (be32 n)"
  "off = length xs \<Longrightarrow> off \<le> length out \<Longrightarrow>
   PUT_UINT32_BE n (memcpy out 0 xs) off = memcpy out 0 (xs @ be32 n)"
  using memcpy_adjacent [of 0 xs out "be32 n"] by (simp_all add: PUT_UINT32_BE_def)

lemma PUT_UINT32_LE_chain [bytes_simps]:
  "PUT_UINT32_LE n out 0 = memcpy out 0 (le32 n)"
  "off = length xs \<Longrightarrow> off \<le> length out \<Longrightarrow>
   PUT_UINT32_LE n (memcpy out 0 xs) off = memcpy out 0 (xs @ le32 n)"
  using memcpy_adjacent [of 0 xs out "le32 n"] by (simp_all add: PUT_UINT32_LE_def)

lemma PUT_UINT64_BE_chain [bytes_simps]:
  "PUT_UINT64_BE n out 0 = memcpy out 0 (be64 n)"
  "off = length xs \<Longrightarrow> off \<le> length out \<Longrightarrow>
   PUT_UINT64_BE n (memcpy out 0 xs) off = memcpy out 0 (xs @ be64 n)"
  using memcpy_adjacent [of 0 xs out "be64 n"] by (simp_all add: PUT_UINT64_BE_def)

lemma PUT_UINT32_BE_pair:
  "60 \<le> length b \<Longrightarrow> PUT_UINT32_BE lo (PUT_UINT32_BE hi b 56) 60 = memcpy b 56 (be32 hi @ be32 lo)"
  using memcpy_adjacent [of 56 "be32 hi" b "be32 lo"] by (simp add: PUT_UINT32_BE_def)

lemma PUT_UINT32_LE_pair:
  "60 \<le> length b \<Longrightarrow> PUT_UINT32_LE hi (PUT_UINT32_LE lo b 56) 60 = memcpy b 56 (le32 lo @ le32 hi)"
  using memcpy_adjacent [of 56 "le32 lo" b "le32 hi"] by (simp add: PUT_UINT32_LE_def)

lemma PUT_UINT64_BE_pair:
  "120 \<le> length b \<Longrightarrow> PUT_UINT64_BE lo (PUT_UINT64_BE hi b 112) 120 = memcpy b 112 (be64 hi @ be64 lo)"
  using memcpy_adjacent [of 112 "be64 hi" b "be64 lo"] by (simp add: PUT_UINT64_BE_def)

lemma list8_conv: "length xs = 8 \<longleftrightarrow> (\<exists>a b c d e f g h. xs = [a, b, c, d, e, f, g, h])"
  by (auto simp: numeral_eq_Suc length_Suc_conv)

lemma list5_conv: "length xs = 5 \<longleftrightarrow> (\<exists>a b c d e. xs = [a, b, c, d, e])"
  by (auto simp: numeral_eq_Suc length_Suc_conv)

lemma list2_conv: "length xs = 2 \<longleftrightarrow> (\<exists>a b. xs = [a, b])"
  by (auto simp: numeral_eq_Suc length_Suc_conv)

lemma list4_conv: "length xs = 4 \<longleftrightarrow> (\<exists>a b c d. xs = [a, b, c, d])"
  by (auto simp: numeral_eq_Suc length_Suc_conv)

lemma memcpy_nth:
  "off + length src \<le> length buf \<Longrightarrow> j < length src \<Longrightarrow> memcpy buf off src ! (off + j) = src ! j"
  by (simp add: memcpy_def nth_append)

text \<open>Reading back what was written, for each macro pair.\<close>

lemma GET_PUT_UINT32_BE [bytes_simps]:
  assumes "i + 4 \<le> length b"
  shows "GET_UINT32_BE (PUT_UINT32_BE n b i) i = n"
proof -
  have nth: "PUT_UINT32_BE n b i ! (i + j) = be32 n ! j" if "j < 4" for j
    using memcpy_nth [of i "be32 n" b j] assms that by (simp add: PUT_UINT32_BE_def)
  have "GET_UINT32_BE (PUT_UINT32_BE n b i) i
      = push_bit 24 (ucast (be32 n ! 0)) OR push_bit 16 (ucast (be32 n ! 1))
        OR push_bit 8 (ucast (be32 n ! 2)) OR ucast (be32 n ! 3)"
    using nth [of 0] nth [of 1] nth [of 2] nth [of 3] by (simp add: GET_UINT32_BE_def)
  also have "\<dots> = n"
  proof (rule bit_word_eqI)
    fix k assume "k < LENGTH(32)"
    then consider "k < 8" | "8 \<le> k" "k < 16" | "16 \<le> k" "k < 24" | "24 \<le> k" "k < 32"
      by fastforce
    then show "bit (push_bit 24 (ucast (be32 n ! 0)) OR push_bit 16 (ucast (be32 n ! 1))
        OR push_bit 8 (ucast (be32 n ! 2)) OR ucast (be32 n ! 3) :: u32) k = bit n k"
      by cases (auto simp: be32_def bit_simps)
  qed
  finally show ?thesis .
qed

lemma GET_PUT_UINT32_LE [bytes_simps]:
  assumes "i + 4 \<le> length b"
  shows "GET_UINT32_LE (PUT_UINT32_LE n b i) i = n"
proof -
  have nth: "PUT_UINT32_LE n b i ! (i + j) = le32 n ! j" if "j < 4" for j
    using memcpy_nth [of i "le32 n" b j] assms that by (simp add: PUT_UINT32_LE_def)
  have "GET_UINT32_LE (PUT_UINT32_LE n b i) i
      = ucast (le32 n ! 0) OR push_bit 8 (ucast (le32 n ! 1))
        OR push_bit 16 (ucast (le32 n ! 2)) OR push_bit 24 (ucast (le32 n ! 3))"
    using nth [of 0] nth [of 1] nth [of 2] nth [of 3] by (simp add: GET_UINT32_LE_def)
  also have "\<dots> = n"
  proof (rule bit_word_eqI)
    fix k assume "k < LENGTH(32)"
    then consider "k < 8" | "8 \<le> k" "k < 16" | "16 \<le> k" "k < 24" | "24 \<le> k" "k < 32"
      by fastforce
    then show "bit (ucast (le32 n ! 0) OR push_bit 8 (ucast (le32 n ! 1))
        OR push_bit 16 (ucast (le32 n ! 2)) OR push_bit 24 (ucast (le32 n ! 3)) :: u32) k = bit n k"
      by cases (auto simp: le32_def bit_simps)
  qed
  finally show ?thesis .
qed

text \<open>The 64-bit length field, written as two 32-bit halves.\<close>

lemma be64_halves: "be64 w = be32 (ucast (drop_bit 32 w)) @ be32 (ucast w)"
  by (simp add: be64_def be32_def) (auto intro!: bit_word_eqI simp: bit_simps)

definition le64 :: "u64 \<Rightarrow> byte list" where
  "le64 n = rev (be64 n)"

lemma le64_halves: "le64 w = le32 (ucast w) @ le32 (ucast (drop_bit 32 w))"
  by (simp add: le64_def be64_halves be32_def le32_def)

text \<open>The counter words shifted by three: the bit length of a byte count.\<close>

lemma bit_count_halves:
  fixes t0 t1 :: u32
  defines "w \<equiv> of_nat (8 * (unat t0 + 2 ^ 32 * unat t1)) :: u64"
  shows "ucast (drop_bit 32 w) = drop_bit 29 t0 OR push_bit 3 t1"
    and "ucast w = push_bit 3 t0"
proof -
  have "w = push_bit 3 (ucast t0 OR push_bit 32 (ucast t1))"
  proof -
    have "ucast t0 OR push_bit 32 (ucast t1) = (ucast t0 + push_bit 32 (ucast t1) :: u64)"
      by (rule disjunctive_add [symmetric]) (auto simp: bit_simps dest: bit_imp_le_length)
    then show ?thesis
      by (simp add: w_def push_bit_eq_mult of_nat_unat distrib_left)
  qed
  then show "ucast (drop_bit 32 w) = drop_bit 29 t0 OR push_bit 3 t1" "ucast w = push_bit 3 t0"
    by (auto intro!: bit_word_eqI simp: bit_simps)
qed

lemma byte_bits_eqI:
  fixes a b :: byte
  assumes "bit a 0 = bit b 0" "bit a 1 = bit b 1" "bit a 2 = bit b 2" "bit a 3 = bit b 3"
    "bit a 4 = bit b 4" "bit a 5 = bit b 5" "bit a 6 = bit b 6" "bit a 7 = bit b 7"
  shows "a = b"
proof (rule bit_word_eqI)
  fix k assume "k < LENGTH(8)"
  then have "k \<in> {0, 1, 2, 3, 4, 5, 6, 7}"
    by auto
  then show "bit a k = bit b k"
    using assms by auto
qed

lemma unat_byte_less: "unat (a :: byte) < 256"
  using unsigned_less [of a, where 'a = nat] by simp

lemma ucast_and_0xFF [simp]: "ucast (x AND 0xFF :: 'a :: len word) = (ucast x :: byte)"
proof -
  have m: "(0xFF :: 'a word) = mask 8"
    by (simp add: mask_eq_exp_minus_1)
  show ?thesis
    unfolding m using bit_imp_le_length [of x] by (auto intro!: bit_word_eqI simp: bit_simps)
qed

lemma disjoint_bytes: "x AND y = 0 \<Longrightarrow> x + y = x OR (y :: byte)"
  using disjunctive_add [of x y] by (metis bit_0_eq bit_and_iff bot_apply bot_bool_def)

lemma and_all_ones32 [simp]: "(x :: u32) AND 0xFFFFFFFF = x"
proof -
  have "(0xFFFFFFFF :: u32) = - 1"
    by simp
  then show ?thesis
    by (simp only: and.right_neutral)
qed

end
