(* ===== verification/Hash_Stream.thy ===== *)
theory Hash_Stream
  imports Prelude
begin

text \<open>
  The streaming layer that \<open>md5.c\<close>, \<open>sha1.c\<close>, \<open>sha256.c\<close>, \<open>sha512.c\<close> and
  \<open>ripemd160.c\<close> share: a context of two counter words, a chaining state and
  one block of buffered bytes; an \<open>update\<close> that completes the buffered block,
  runs over whole blocks and keeps the tail; a \<open>finish\<close> that appends 0x80,
  zeros and the bit length. The locale \<open>block_hash\<close> is the interface between
  this layer and a block function: whatever the compression is, \<open>update\<close> and
  \<open>finish\<close> compute it over the padded message, cut into blocks.
\<close>

subsection \<open>Cutting a message into blocks\<close>

function blocks :: "nat \<Rightarrow> 'a list \<Rightarrow> 'a list list" where
  "blocks n xs = (if 0 < n \<and> n \<le> length xs then take n xs # blocks n (drop n xs) else [])"
  by pat_completeness auto
termination
  by (relation "measure (\<lambda>(n, xs). length xs)") auto

declare blocks.simps [simp del]

definition rest :: "nat \<Rightarrow> 'a list \<Rightarrow> 'a list" where
  "rest n xs = drop (length xs - length xs mod n) xs"

lemma blocks_short [simp]: "length xs < n \<Longrightarrow> blocks n xs = []"
  by (simp add: blocks.simps)

lemma blocks_long: "0 < n \<Longrightarrow> n \<le> length xs \<Longrightarrow> blocks n xs = take n xs # blocks n (drop n xs)"
  by (simp add: blocks.simps [of n xs])

lemma blocks_append:
  assumes "length xs mod n = 0"
  shows "blocks n (xs @ ys) = blocks n xs @ blocks n ys"
  using assms
proof (induction n xs rule: blocks.induct)
  case (1 n xs)
  show ?case
  proof (cases "0 < n \<and> n \<le> length xs")
    case True
    then have "length (drop n xs) mod n = 0"
      using 1(2) by (simp add: le_mod_geq)
    with 1(1) True have "blocks n (drop n xs @ ys) = blocks n (drop n xs) @ blocks n ys"
      by simp
    with True show ?thesis
      using blocks_long [of n xs] blocks_long [of n "xs @ ys"] by simp
  next
    case False
    then have "xs = []" using 1(2)
      by (cases "n = 0") auto
    then show ?thesis by (auto simp: blocks.simps [of _ "[]"] blocks.simps [of 0])
  qed
qed

lemma blocks_one: "length xs = n \<Longrightarrow> 0 < n \<Longrightarrow> blocks n xs = [xs]"
  by (simp add: blocks_long)

lemma blocks_two: "length xs = n \<Longrightarrow> length ys = n \<Longrightarrow> 0 < n \<Longrightarrow> blocks n (xs @ ys) = [xs, ys]"
  by (simp add: blocks_append blocks_one)

lemma in_blocks_length: "b \<in> set (blocks n xs) \<Longrightarrow> length b = n"
proof (induction n xs rule: blocks.induct)
  case (1 n xs)
  then show ?case
    by (cases "0 < n \<and> n \<le> length xs") (auto simp: blocks.simps [of n xs])
qed

lemma drop_append_len: "drop (length xs + k) (xs @ ys) = drop k ys"
  by simp

lemma length_rest: "length (rest n xs) = length xs mod n"
  by (simp add: rest_def)

lemma split_rest: "xs = take (length xs - length xs mod n) xs @ rest n xs"
  by (simp add: rest_def)

lemma rest_append:
  assumes "length xs mod n = 0"
  shows "rest n (xs @ ys) = rest n ys"
proof -
  have eq: "(length xs + length ys) mod n = length ys mod n"
    using assms by (metis add_0 mod_add_left_eq)
  have "length ys mod n \<le> length ys"
    by simp
  then have "length xs + length ys - length ys mod n = length xs + (length ys - length ys mod n)"
    by linarith
  then have "drop (length xs + length ys - length ys mod n) (xs @ ys) = rest n ys"
    by (simp only: drop_append_len rest_def)
  then show ?thesis
    by (simp add: rest_def [of n "xs @ ys"] eq del: drop_append)
qed

lemma rest_short [simp]: "length xs < n \<Longrightarrow> rest n xs = xs"
  by (simp add: rest_def)

lemma blocks_pending: "blocks n (xs @ ys) = blocks n xs @ blocks n (rest n xs @ ys)"
proof -
  let ?p = "take (length xs - length xs mod n) xs"
  have m: "length ?p mod n = 0"
    by (simp add: minus_mod_eq_mult_div)
  have "blocks n (rest n xs) = []"
  proof (cases "n = 0")
    case True
    then show ?thesis by (simp add: blocks.simps)
  next
    case False
    then show ?thesis by (simp add: length_rest)
  qed
  then have "blocks n xs = blocks n ?p"
    using blocks_append [OF m, of "rest n xs"] split_rest [of xs n] by simp
  moreover have "blocks n (xs @ ys) = blocks n ?p @ blocks n (rest n xs @ ys)"
    using blocks_append [OF m, of "rest n xs @ ys"] split_rest [of xs n] by (metis append.assoc)
  ultimately show ?thesis by simp
qed

lemma rest_pending: "rest n (xs @ ys) = rest n (rest n xs @ ys)"
proof -
  let ?p = "take (length xs - length xs mod n) xs"
  have m: "length ?p mod n = 0"
    by (simp add: minus_mod_eq_mult_div)
  show ?thesis
    using rest_append [OF m, of "rest n xs @ ys"] split_rest [of xs n] by (metis append.assoc)
qed


lemma add_mod_less_iff:
  fixes x l b :: nat
  assumes "x < b" and "l < b"
  shows "(x + l) mod b < l \<longleftrightarrow> b \<le> x + l"
  using assms by (cases "x + l < b") (simp_all add: le_mod_geq not_less)

text \<open>Adding to the low digit of a two-digit counter with a carry into the high one.\<close>

lemma two_digit_add:
  fixes x y l b :: nat
  assumes "x < b" and "l < b"
  shows "(x + l) mod b + b * ((y + (if b \<le> x + l then 1 else 0)) mod b) = (x + l + b * y) mod (b * b)"
proof -
  have "(x + l) div b = (if b \<le> x + l then 1 else 0)"
    using assms by (auto simp: div_nat_eqI)
  moreover have "(x + l + b * y) div b = y + (x + l) div b"
    using assms by simp
  ultimately show ?thesis
    using mod_mult2_eq [of "x + l + b * y" b b] by simp
qed


subsection \<open>The context and the two operations\<close>

record 'u hash_ctx =
  total0 :: 'u
  total1 :: 'u
  state :: "'u list"
  buffer :: "byte list"

text \<open>The loop \<open>while( ilen >= 64 ) { process( ctx, input ); input += 64; ilen -= 64; }\<close>.\<close>

function process_blocks ::
  "nat \<Rightarrow> ('c \<Rightarrow> byte list \<Rightarrow> 'c res) \<Rightarrow> 'c \<Rightarrow> byte list \<Rightarrow> ('c \<times> byte list) res" where
  "process_blocks n process ctx input =
     (if 0 < n \<and> n \<le> length input
      then chk (process ctx (take n input)) (\<lambda>ctx. process_blocks n process ctx (drop n input))
      else Inr (ctx, input))"
  by pat_completeness auto
termination
  by (relation "measure (\<lambda>(n, process, ctx, input). length input)") auto

declare process_blocks.simps [simp del]

definition stream_update ::
  "nat \<Rightarrow> (('w::len word, 'z) hash_ctx_scheme \<Rightarrow> byte list \<Rightarrow> ('w word, 'z) hash_ctx_scheme res)
   \<Rightarrow> ('w word, 'z) hash_ctx_scheme \<Rightarrow> byte list \<Rightarrow> ('w word, 'z) hash_ctx_scheme res" where
  "stream_update n process ctx input =
    (if length input = 0 then Inr ctx
     else
       let left = unat (total0 ctx AND (of_nat n - 1));
           fill = n - left;
           ilen = of_nat (length input);
           ctx = ctx\<lparr>total0 := total0 ctx + ilen\<rparr>;
           ctx = (if total0 ctx < ilen then ctx\<lparr>total1 := total1 ctx + 1\<rparr> else ctx)
       in chk (if left \<noteq> 0 \<and> fill \<le> length input
               then let ctx = ctx\<lparr>buffer := memcpy (buffer ctx) left (take fill input)\<rparr>
                    in chk (process ctx (buffer ctx)) (\<lambda>ctx. Inr (ctx, drop fill input, 0))
               else Inr (ctx, input, left))
            (\<lambda>(ctx, input, left).
              chk (process_blocks n process ctx input)
                (\<lambda>(ctx, input).
                  if 0 < length input
                  then Inr (ctx\<lparr>buffer := memcpy (buffer ctx) left input\<rparr>)
                  else Inr ctx)))"

lemma total0_mask:
  fixes ctx :: "(u32, 'z) hash_ctx_scheme"
  shows "ctx\<lparr>total0 := total0 ctx AND 0xFFFFFFFF\<rparr> = ctx"
  by simp

lemma mask_63: "of_nat 64 - 1 = (0x3F :: u32)"
  by simp

lemma unat_and_63: "unat (x AND (0x3F :: u32)) < 64"
proof -
  have "unat (x AND 0x3F) \<le> unat (0x3F :: u32)"
    by (rule word_and_le1 [THEN word_le_nat_alt [THEN iffD1]])
  then show ?thesis by simp
qed

definition stream_pad ::
  "nat \<Rightarrow> nat \<Rightarrow> ('w word \<Rightarrow> 'w word \<Rightarrow> byte list)
   \<Rightarrow> (('w::len word, 'z) hash_ctx_scheme \<Rightarrow> byte list \<Rightarrow> ('w word, 'z) hash_ctx_scheme res)
   \<Rightarrow> ('w word, 'z) hash_ctx_scheme \<Rightarrow> ('w word, 'z) hash_ctx_scheme res" where
  "stream_pad n l lenbytes process ctx =
    (let used = unat (total0 ctx AND (of_nat n - 1));
         buf = (buffer ctx)[used := 0x80];
         used = used + 1
     in chk (if used \<le> n - l
             then Inr (ctx\<lparr>buffer := memset buf used 0 (n - l - used)\<rparr>)
             else let buf = memset buf used 0 (n - used)
                  in chk (process (ctx\<lparr>buffer := buf\<rparr>) buf)
                       (\<lambda>ctx. Inr (ctx\<lparr>buffer := memset (buffer ctx) 0 0 (n - l)\<rparr>)))
          (\<lambda>ctx. let buf = memcpy (buffer ctx) (n - l) (lenbytes (total0 ctx) (total1 ctx))
                 in process (ctx\<lparr>buffer := buf\<rparr>) buf))"

text \<open>The length field of the 64-byte hashes, from the two counter words, in either byte order.\<close>

definition length_be :: "u32 \<Rightarrow> u32 \<Rightarrow> byte list" where
  "length_be t0 t1 = be32 (drop_bit 29 t0 OR push_bit 3 t1) @ be32 (push_bit 3 t0)"

definition length_le :: "u32 \<Rightarrow> u32 \<Rightarrow> byte list" where
  "length_le t0 t1 = le32 (push_bit 3 t0) @ le32 (drop_bit 29 t0 OR push_bit 3 t1)"

lemma length_length_be [simp]: "length (length_be a b) = 8"
  by (simp add: length_be_def)

lemma length_length_le [simp]: "length (length_le a b) = 8"
  by (simp add: length_le_def)

text \<open>What \<open>finish\<close> hashes: the message, 0x80, zeros, and the \<open>l\<close> bytes of its length.\<close>

definition md_pad :: "nat \<Rightarrow> byte list \<Rightarrow> byte list \<Rightarrow> byte list" where
  "md_pad n len m =
     m @ 0x80 # replicate ((2 * n - length len - 1 - length m mod n) mod n) 0 @ len"

definition byte_count :: "('w::len word, 'z) hash_ctx_scheme \<Rightarrow> nat" where
  "byte_count c = unat (total0 c) + 2 ^ LENGTH('w) * unat (total1 c)"

definition absorbed ::
  "nat \<Rightarrow> ('w word list \<Rightarrow> byte list \<Rightarrow> 'w word list) \<Rightarrow> 'w word list
   \<Rightarrow> ('w::len word, 'z) hash_ctx_scheme \<Rightarrow> byte list \<Rightarrow> bool" where
  "absorbed n compress iv c m \<longleftrightarrow>
     state c = foldl compress iv (blocks n m) \<and>
     length (buffer c) = n \<and>
     take (length m mod n) (buffer c) = rest n m \<and>
     byte_count c = length m mod 2 ^ (2 * LENGTH('w))"


lemma of_nat_mod_exp: "(of_nat (8 * (m mod 2 ^ 64)) :: u64) = of_nat (8 * m)"
proof -
  have "(8 * (m mod 2 ^ 64)) mod 2 ^ 64 = (8 * m) mod (2 ^ 64 :: nat)"
    by (simp add: mod_mult_right_eq)
  then show ?thesis
    by (simp add: word_of_nat_eq_iff take_bit_eq_mod del: of_nat_mult)
qed

lemma length_fields:
  fixes c :: "(u32, 'z) hash_ctx_scheme"
  assumes "byte_count c = m mod 2 ^ (2 * LENGTH(32))"
  shows "length_be (total0 c) (total1 c) = be64 (of_nat (8 * m))"
    and "length_le (total0 c) (total1 c) = le64 (of_nat (8 * m))"
proof -
  have "(of_nat (8 * (unat (total0 c) + 2 ^ 32 * unat (total1 c))) :: u64) = of_nat (8 * m)"
    using assms of_nat_mod_exp [of m] by (simp add: byte_count_def)
  then show "length_be (total0 c) (total1 c) = be64 (of_nat (8 * m))"
    "length_le (total0 c) (total1 c) = le64 (of_nat (8 * m))"
    using bit_count_halves [of "total0 c" "total1 c"]
    by (simp_all only: length_be_def length_le_def be64_halves le64_halves)
qed

text \<open>Absorbing a message piece by piece: a caller's sequence of \<open>update\<close> calls.\<close>

fun updates :: "('c \<Rightarrow> byte list \<Rightarrow> 'c res) \<Rightarrow> 'c \<Rightarrow> byte list list \<Rightarrow> 'c res" where
  "updates upd ctx [] = Inr ctx"
| "updates upd ctx (p # ps) = chk (upd ctx p) (\<lambda>ctx. updates upd ctx ps)"


subsection \<open>The interface of a block function\<close>

text \<open>
  \<open>process\<close> is the C block function on the context, \<open>compress\<close> the
  function of the chaining state and the block that it computes. The law: on a
  full block it returns 0 and changes nothing but the chaining state.
\<close>

locale block_hash =
  fixes k :: nat
    and process :: "('w::len word, 'z) hash_ctx_scheme \<Rightarrow> byte list \<Rightarrow> ('w word, 'z) hash_ctx_scheme res"
    and compress :: "'w word list \<Rightarrow> byte list \<Rightarrow> 'w word list"
  assumes block_small: "k < LENGTH('w)"
    and process_block: "length b = 2 ^ k \<Longrightarrow>
      process c b = Inr (c\<lparr>state := compress (state c) b\<rparr>)"
begin

lemma process_blocks_eq:
  "process_blocks (2 ^ k) process c xs =
   Inr (c\<lparr>state := foldl compress (state c) (blocks (2 ^ k) xs)\<rparr>, rest (2 ^ k) xs)"
proof (induction xs arbitrary: c rule: length_induct)
  case (1 xs)
  show ?case
  proof (cases "2 ^ k \<le> length xs")
    case True
    then have "rest (2 ^ k) xs = rest (2 ^ k) (drop (2 ^ k) xs)"
      using rest_append [of "take (2 ^ k) xs" "2 ^ k" "drop (2 ^ k) xs"] by simp
    moreover have "length (drop (2 ^ k) xs) < length xs"
      using True less_le_trans [of 0 "2 ^ k" "length xs"] by (simp del: length_greater_0_conv)
    ultimately show ?thesis
      using 1 True
      by (simp add: process_blocks.simps [of "2 ^ k" process c xs] process_block blocks_long)
  next
    case False
    then show ?thesis by (simp add: process_blocks.simps)
  qed
qed

lemma left_eq:
  fixes c :: "('w word, 'z) hash_ctx_scheme"
  assumes "byte_count c = length m mod 2 ^ (2 * LENGTH('w))"
  shows "unat (total0 c AND (of_nat (2 ^ k) - 1)) = length m mod 2 ^ k"
proof -
  have "total0 c AND (of_nat (2 ^ k) - 1) = take_bit k (total0 c)"
    by (simp add: take_bit_eq_mask mask_eq_exp_minus_1)
  then have "unat (total0 c AND (of_nat (2 ^ k) - 1)) = unat (total0 c) mod 2 ^ k"
    by (simp add: unsigned_take_bit_eq flip: take_bit_eq_mod)
  also have "\<dots> = byte_count c mod 2 ^ k"
  proof -
    have "(2::nat) ^ LENGTH('w) = 2 ^ k * 2 ^ (LENGTH('w) - k)"
      using block_small by (simp flip: power_add)
    then show ?thesis
      by (simp add: byte_count_def mult.assoc)
  qed
  also have "\<dots> = length m mod 2 ^ k"
    using block_small by (simp add: assms mod_mod_cancel le_imp_power_dvd)
  finally show ?thesis .
qed

lemma count_step:
  fixes c :: "('w word, 'z) hash_ctx_scheme"
  assumes "byte_count c = a mod 2 ^ (2 * LENGTH('w))" and "l < 2 ^ LENGTH('w)"
  shows "byte_count (c\<lparr>total0 := total0 c + of_nat l,
      total1 := (if total0 c + of_nat l < of_nat l then total1 c + 1 else total1 c)\<rparr>)
    = (a + l) mod 2 ^ (2 * LENGTH('w))"
proof -
  let ?B = "2 ^ LENGTH('w) :: nat" and ?x = "unat (total0 c)" and ?y = "unat (total1 c)"
  have B: "(2::nat) ^ (2 * LENGTH('w)) = ?B * ?B"
    by (simp add: mult_2 power_add)
  have x: "?x < ?B" and y: "?y < ?B"
    by (rule unsigned_less)+
  have l: "unat (of_nat l :: 'w word) = l"
    using assms(2) by (simp add: unat_of_nat)
  have t0: "unat (total0 c + of_nat l) = (?x + l) mod ?B"
    by (simp only: unat_word_ariths l)
  have carry: "total0 c + of_nat l < of_nat l \<longleftrightarrow> ?B \<le> ?x + l"
    using add_mod_less_iff [OF x assms(2)] by (simp only: word_less_nat_alt t0 l)
  have t1: "unat (if total0 c + of_nat l < of_nat l then total1 c + 1 else total1 c)
      = (?y + (if ?B \<le> ?x + l then 1 else 0)) mod ?B"
    using y by (simp add: carry unat_word_ariths(1))
  have "(?x + l + ?B * ?y) mod (?B * ?B) = (byte_count c + l) mod (?B * ?B)"
    by (simp add: byte_count_def algebra_simps)
  also have "\<dots> = (a + l) mod (?B * ?B)"
    by (simp only: assms(1) B mod_add_left_eq)
  finally have "unat (total0 c + of_nat l) + ?B *
      unat (if total0 c + of_nat l < of_nat l then total1 c + 1 else total1 c)
      = (a + l) mod (?B * ?B)"
    using two_digit_add [OF x assms(2), of ?y] by (simp only: t0 t1)
  then show ?thesis
    by (simp add: byte_count_def B del: of_nat_add)
qed

lemma absorbedD:
  assumes "absorbed (2 ^ k) compress iv c m"
  shows "state c = foldl compress iv (blocks (2 ^ k) m)"
    and "length (buffer c) = 2 ^ k"
    and "take (length m mod 2 ^ k) (buffer c) = rest (2 ^ k) m"
    and "byte_count c = length m mod 2 ^ (2 * LENGTH('w))"
  using assms by (simp_all add: absorbed_def)

text \<open>The tail copy at the end of \<open>update\<close>: \<open>memcpy( ctx->buffer + left, input, ilen )\<close>.\<close>

lemma tail_copy:
  assumes "length (buffer c) = n" and "left + length t < n" and "take left (buffer c) = r"
  shows "length (buffer (if 0 < length t then c\<lparr>buffer := memcpy (buffer c) left t\<rparr> else c)) = n"
    and "take (left + length t)
      (buffer (if 0 < length t then c\<lparr>buffer := memcpy (buffer c) left t\<rparr> else c)) = r @ t"
  using assms by (auto simp: mem_simps)

lemma stream_update_absorbs:
  assumes abs: "absorbed (2 ^ k) compress iv c m" and len: "length xs < 2 ^ LENGTH('w)"
  shows "\<exists>c'. stream_update (2 ^ k) process c xs = Inr c' \<and>
    absorbed (2 ^ k) compress iv c' (m @ xs) \<and> hash_ctx.more c' = hash_ctx.more c"
proof (cases "xs = []")
  case True
  with abs show ?thesis by (simp add: stream_update_def)
next
  case False
  let ?n = "2 ^ k :: nat" and ?r = "length m mod 2 ^ k"
  note D = absorbedD [OF abs]
  define c1 where "c1 = c\<lparr>total0 := total0 c + of_nat (length xs),
      total1 := (if total0 c + of_nat (length xs) < of_nat (length xs)
                 then total1 c + 1 else total1 c)\<rparr>"
  have cnt: "byte_count c1 = (length m + length xs) mod 2 ^ (2 * LENGTH('w))"
    unfolding c1_def by (rule count_step [OF D(4) len])
  have c1: "buffer c1 = buffer c" "state c1 = state c" "hash_ctx.more c1 = hash_ctx.more c"
    by (simp_all add: c1_def)
  have r: "?r < ?n" "length (rest ?n m) = ?r"
    by (simp_all add: length_rest)
  have up: "stream_update ?n process c xs =
     chk (if ?r \<noteq> 0 \<and> ?n - ?r \<le> length xs
               then let ctx = c1\<lparr>buffer := memcpy (buffer c1) ?r (take (?n - ?r) xs)\<rparr>
                    in chk (process ctx (buffer ctx)) (\<lambda>ctx. Inr (ctx, drop (?n - ?r) xs, 0))
               else Inr (c1, xs, ?r))
            (\<lambda>(ctx, input, left).
              chk (process_blocks ?n process ctx input)
                (\<lambda>(ctx, input).
                  if 0 < length input
                  then Inr (ctx\<lparr>buffer := memcpy (buffer ctx) left input\<rparr>)
                  else Inr ctx))"
    using False left_eq [OF D(4)] by (auto simp: stream_update_def c1_def Let_def dvd_imp_mod_0 cong: if_cong)
  show ?thesis
  proof (cases "?r \<noteq> 0 \<and> ?n - ?r \<le> length xs")
    case True
    let ?b = "rest ?n m @ take (?n - ?r) xs" and ?t = "rest ?n (drop (?n - ?r) xs)"
    have b: "length ?b = ?n"
      using True r by simp
    have buf: "memcpy (buffer c) ?r (take (?n - ?r) xs) = ?b"
      using True r D(2,3) by (simp add: memcpy_full)
    have split: "rest ?n m @ xs = ?b @ drop (?n - ?r) xs"
      by simp
    define c2 where "c2 = c1\<lparr>buffer := ?b,
        state := foldl compress (compress (state c) ?b) (blocks ?n (drop (?n - ?r) xs))\<rparr>"
    define c3 where "c3 = (if 0 < length ?t then c2\<lparr>buffer := memcpy (buffer c2) 0 ?t\<rparr> else c2)"
    have "stream_update ?n process c xs = Inr c3"
      using True b by (simp add: up c1 buf process_block process_blocks_eq c3_def c2_def)
    moreover have "blocks ?n (m @ xs) = blocks ?n m @ ?b # blocks ?n (drop (?n - ?r) xs)"
      unfolding blocks_pending [of ?n m xs] split
      using b by (subst blocks_append) (simp_all add: blocks_one)
    moreover have "rest ?n (m @ xs) = ?t"
      unfolding rest_pending [of ?n m xs] split using b by (subst rest_append) simp_all
    moreover have "length (buffer c3) = ?n \<and> take (0 + length ?t) (buffer c3) = [] @ ?t"
      unfolding c3_def using tail_copy [of c2 ?n 0 ?t "[]"] b
      by (simp add: c2_def length_rest)
    ultimately show ?thesis
      using cnt D(1) length_rest [of ?n "m @ xs"]
      by (simp add: absorbed_def c3_def c2_def c1 byte_count_def)
  next
    case False
    then have short: "?r = 0 \<or> length xs + ?r < ?n"
      by linarith
    let ?t = "rest ?n xs"
    define c2 where "c2 = c1\<lparr>state := foldl compress (state c) (blocks ?n xs)\<rparr>"
    define c3 where "c3 = (if 0 < length ?t then c2\<lparr>buffer := memcpy (buffer c2) ?r ?t\<rparr> else c2)"
    have "stream_update ?n process c xs = Inr c3"
      unfolding up if_not_P [OF False] by (simp add: c1 process_blocks_eq c3_def c2_def)
    moreover have "blocks ?n (rest ?n m @ xs) = blocks ?n xs"
      using short r by auto
    moreover have "rest ?n (m @ xs) = rest ?n m @ ?t"
      unfolding rest_pending [of ?n m xs] using short r by auto
    moreover have "length (buffer c3) = ?n \<and> take (?r + length ?t) (buffer c3) = rest ?n m @ ?t"
      unfolding c3_def using tail_copy [of c2 ?n ?r ?t "rest ?n m"] D(2,3) short r
      by (auto simp: c2_def c1 length_rest)
    ultimately show ?thesis
      using cnt D(1) length_rest [of ?n "m @ xs"] r(2)
      by (simp add: absorbed_def c3_def c2_def c1 byte_count_def blocks_pending [of ?n m xs])
  qed
qed

lemma md_pad_one:
  assumes "length len < 2 ^ k" and "length m mod 2 ^ k + 1 \<le> 2 ^ k - length len"
  shows "md_pad (2 ^ k) len m =
    m @ 0x80 # replicate (2 ^ k - length len - (length m mod 2 ^ k + 1)) 0 @ len"
proof -
  define d where "d = 2 ^ k - length len - (length m mod 2 ^ k + 1)"
  have "2 * 2 ^ k - length len - 1 - length m mod 2 ^ k = 2 ^ k + d" and "d < 2 ^ k"
    using assms by (auto simp: d_def)
  then have "(2 * 2 ^ k - length len - 1 - length m mod 2 ^ k) mod 2 ^ k = d"
    by (simp only: mod_add_self1 mod_less)
  then show ?thesis
    by (simp only: md_pad_def d_def)
qed

lemma md_pad_two:
  assumes "length len < 2 ^ k" and "\<not> length m mod 2 ^ k + 1 \<le> 2 ^ k - length len"
  shows "md_pad (2 ^ k) len m = m @ (0x80 # replicate (2 ^ k - (length m mod 2 ^ k + 1)) 0) @
    replicate (2 ^ k - length len) 0 @ len"
proof -
  have r: "length m mod 2 ^ k < 2 ^ k"
    by simp
  have "2 * 2 ^ k - length len - 1 - length m mod 2 ^ k
      = (2 ^ k - (length m mod 2 ^ k + 1)) + (2 ^ k - length len)"
    using assms(1) r by linarith
  moreover have "2 * 2 ^ k - length len - 1 - length m mod 2 ^ k < 2 ^ k"
    using assms r by linarith
  ultimately show ?thesis
    by (simp only: md_pad_def mod_less replicate_add append.assoc append_Cons)
qed

lemma stream_pad_state:
  assumes abs: "absorbed (2 ^ k) compress iv c m"
    and l: "length (lenbytes (total0 c) (total1 c)) = l" and small: "l < 2 ^ k"
  shows "\<exists>c'. stream_pad (2 ^ k) l lenbytes process c = Inr c' \<and>
    state c' = foldl compress iv (blocks (2 ^ k) (md_pad (2 ^ k) (lenbytes (total0 c) (total1 c)) m)) \<and>
    hash_ctx.more c' = hash_ctx.more c"
proof -
  let ?n = "2 ^ k :: nat" and ?r = "length m mod 2 ^ k"
  let ?len = "lenbytes (total0 c) (total1 c)"
  note D = absorbedD [OF abs]
  have r: "?r < ?n" "length (rest ?n m) = ?r"
    by (simp_all add: length_rest)
  have mark: "(buffer c)[?r := 0x80] = memcpy (buffer c) ?r [0x80]"
    using r D(2) by (simp add: memcpy_def upd_conv_take_nth_drop)
  have fill: "memset (memcpy (buffer c) ?r [0x80]) (?r + 1) 0 q
      = rest ?n m @ 0x80 # replicate q 0 @ drop (?r + 1 + q) (buffer c)" for q
    using memset_memcpy [of ?r "buffer c" "[0x80]" 0 q] r D(2,3)
    by (simp add: memcpy_def)
  show ?thesis
  proof (cases "?r + 1 \<le> ?n - l")
    case True
    define z where "z = ?n - l - (?r + 1)"
    have z: "?r + 1 + z + l = ?n" "?n - l = ?r + 1 + z"
      using True by (simp_all add: z_def)
    let ?p = "rest ?n m @ 0x80 # replicate z 0"
    let ?b = "?p @ ?len"
    have p: "length ?p = ?n - l" and b: "length ?b = ?n"
      using z r l by simp_all
    have "memcpy (?p @ drop (?r + 1 + z) (buffer c)) (length ?p) ?len = ?b"
      using z l D(2) by (intro memcpy_suffix) simp
    then have "memcpy (memset (memcpy (buffer c) ?r [0x80]) (?r + 1) 0 (?n - l - (?r + 1))) (?n - l) ?len = ?b"
      unfolding fill z_def [symmetric] p by simp
    then have "stream_pad ?n l lenbytes process c =
        Inr (c\<lparr>buffer := ?b, state := compress (state c) ?b\<rparr>)"
      using True b left_eq [OF D(4)]
      by (simp add: stream_pad_def mark process_block Let_def)
    moreover have "blocks ?n (md_pad ?n ?len m) = blocks ?n m @ [?b]"
      using md_pad_one [of ?len m] True l small blocks_one [OF b]
      by (simp add: blocks_pending [of ?n m] z_def del: replicate.simps)
    ultimately show ?thesis
      using D(1) by simp
  next
    case False
    let ?b1 = "rest ?n m @ 0x80 # replicate (?n - (?r + 1)) 0"
      and ?b2 = "replicate (?n - l) 0 @ ?len"
    have b1: "length ?b1 = ?n"
      unfolding length_append list.size(4) length_replicate r(2) using r(1) by linarith
    have b2: "length ?b2 = ?n"
      using l small by simp
    have f1: "memset (memcpy (buffer c) ?r [0x80]) (?r + 1) 0 (?n - (?r + 1)) = ?b1"
      unfolding fill using r D(2) by simp
    have f2: "memcpy (memset ?b1 0 0 (?n - l)) (?n - l) ?len = ?b2"
      using b1 l small by (simp add: memset_def memcpy_def)
    have "stream_pad ?n l lenbytes process c =
        Inr (c\<lparr>buffer := ?b2, state := compress (compress (state c) ?b1) ?b2\<rparr>)"
      using False b1 b2 left_eq [OF D(4)] f1 f2
      by (simp add: stream_pad_def mark process_block Let_def)
    moreover have "blocks ?n (md_pad ?n ?len m) = blocks ?n m @ [?b1, ?b2]"
    proof -
      have "md_pad ?n ?len m = m @ (0x80 # replicate (?n - (?r + 1)) 0) @ ?b2"
        using md_pad_two [of ?len m] False l small by simp
      then have "blocks ?n (md_pad ?n ?len m) = blocks ?n m @ blocks ?n (?b1 @ ?b2)"
        by (simp only: blocks_pending [of ?n m] append.assoc)
      also have "blocks ?n (?b1 @ ?b2) = [?b1, ?b2]"
        by (rule blocks_two [OF b1 b2]) simp
      finally show ?thesis .
    qed
    ultimately show ?thesis
      using D(1) by simp
  qed
qed

text \<open>
  The law of \<open>finish\<close>, for the modules whose code is \<open>stream_pad\<close> followed
  by writing out the chaining state.
\<close>

lemma finish_from_pad:
  assumes eq: "\<And>c. length (buffer c) = 2 ^ k \<Longrightarrow> finish c out =
      chk (stream_pad (2 ^ k) l lenbytes process c) (\<lambda>c. Inr (c, g (hash_ctx.more c) (state c)))"
    and l: "\<And>a b. length (lenbytes a b) = l" and small: "l < 2 ^ k"
    and field: "\<And>m. byte_count c = m mod 2 ^ (2 * LENGTH('w)) \<Longrightarrow>
      lenbytes (total0 c) (total1 c) = field m"
    and abs: "absorbed (2 ^ k) compress iv c m"
  shows "\<exists>c'. finish c out = Inr (c', g (hash_ctx.more c)
    (foldl compress iv (blocks (2 ^ k) (md_pad (2 ^ k) (field (length m)) m))))"
proof -
  from stream_pad_state [where lenbytes = lenbytes, OF abs l small] obtain c'
    where "stream_pad (2 ^ k) l lenbytes process c = Inr c'"
      and "state c' = foldl compress iv (blocks (2 ^ k)
        (md_pad (2 ^ k) (lenbytes (total0 c) (total1 c)) m))"
      and "hash_ctx.more c' = hash_ctx.more c"
    by blast
  then show ?thesis
    using eq [OF absorbedD(2) [OF abs]] field [OF absorbedD(4) [OF abs]] by simp
qed

lemma absorbed_start:
  "state c = iv \<Longrightarrow> total0 c = 0 \<Longrightarrow> total1 c = 0 \<Longrightarrow> length (buffer c) = 2 ^ k \<Longrightarrow>
   absorbed (2 ^ k) compress iv c []"
  by (simp add: absorbed_def byte_count_def)

end

subsection \<open>The interface of a hash module\<close>

text \<open>
  What a module promises its callers: \<open>update\<close> appends to the absorbed message
  (for pieces whose length fits the counter word) and \<open>finish\<close> writes the digest
  of the absorbed message. From these laws alone a whole session computes the digest
  of the concatenation of its pieces.
\<close>

locale hash_module =
  fixes n :: nat
    and compress :: "'w::len word list \<Rightarrow> byte list \<Rightarrow> 'w word list"
    and update :: "('w word, 'z) hash_ctx_scheme \<Rightarrow> byte list \<Rightarrow> ('w word, 'z) hash_ctx_scheme res"
    and finish :: "('w word, 'z) hash_ctx_scheme \<Rightarrow> byte list \<Rightarrow>
      (('w word, 'z) hash_ctx_scheme \<times> byte list) res"
    and field :: "nat \<Rightarrow> byte list"
    and digest_bytes :: "'z \<Rightarrow> 'w word list \<Rightarrow> byte list"
    and outlen :: nat
  assumes update_law: "absorbed n compress iv c m \<Longrightarrow> length p < 2 ^ LENGTH('w) \<Longrightarrow>
      \<exists>c'. update c p = Inr c' \<and> absorbed n compress iv c' (m @ p) \<and>
        hash_ctx.more c' = hash_ctx.more c"
    and finish_law: "absorbed n compress iv c m \<Longrightarrow> length out = outlen \<Longrightarrow>
      \<exists>c'. finish c out = Inr (c', memcpy out 0 (digest_bytes (hash_ctx.more c)
        (foldl compress iv (blocks n (md_pad n (field (length m)) m)))))"
begin

lemma updates_absorb:
  assumes "absorbed n compress iv c m" and "\<forall>p \<in> set ps. length p < 2 ^ LENGTH('w)"
  shows "\<exists>c'. updates update c ps = Inr c' \<and> absorbed n compress iv c' (m @ concat ps) \<and>
    hash_ctx.more c' = hash_ctx.more c"
  using assms
proof (induction ps arbitrary: c m)
  case Nil
  then show ?case by simp
next
  case (Cons p ps)
  from Cons.prems(2) have p: "length p < 2 ^ LENGTH('w)" and ps: "\<forall>p \<in> set ps. length p < 2 ^ LENGTH('w)"
    by simp_all
  from update_law [OF Cons.prems(1) p] obtain c1
    where c1: "update c p = Inr c1"
      and abs: "absorbed n compress iv c1 (m @ p)" "hash_ctx.more c1 = hash_ctx.more c"
    by blast
  from Cons.IH [OF abs(1) ps] c1 abs(2) show ?case
    by simp
qed

lemma session:
  assumes "absorbed n compress iv c []" and "length out = outlen"
    and "\<forall>p \<in> set ps. length p < 2 ^ LENGTH('w)"
  shows "chk (updates update c ps) (\<lambda>c. chk (finish c out) (\<lambda>(c, out). Inr out)) =
    Inr (memcpy out 0 (digest_bytes (hash_ctx.more c)
      (foldl compress iv (blocks n (md_pad n (field (length (concat ps))) (concat ps))))))"
proof -
  from updates_absorb [OF assms(1,3)] obtain c1
    where c1: "updates update c ps = Inr c1" "absorbed n compress iv c1 (concat ps)"
      "hash_ctx.more c1 = hash_ctx.more c"
    by auto
  from finish_law [OF c1(2) assms(2)] obtain c2
    where "finish c1 out = Inr (c2, memcpy out 0 (digest_bytes (hash_ctx.more c1)
        (foldl compress iv (blocks n (md_pad n (field (length (concat ps))) (concat ps))))))"
    by blast
  with c1 show ?thesis by simp
qed

end

end
