(* ===== verification/Md5.thy ===== *)
theory Md5
  imports Hash_Stream
begin

text \<open>
  \<open>mbedtls/library/md5.c\<close>: context, block function and streaming interface.
  The block function's 64 calls of the macro \<open>P\<close> are the four tables below, one
  entry per call, its places \<open>A..D\<close> numbered 0 to 3.
\<close>

type_synonym md5_context = "u32 hash_ctx"

definition mbedtls_md5_init :: md5_context where
  "mbedtls_md5_init = \<lparr>total0 = 0, total1 = 0, state = replicate 4 0,
     buffer = replicate 64 0\<rparr>"

definition mbedtls_md5_free :: "md5_context \<Rightarrow> md5_context" where
  "mbedtls_md5_free ctx = \<lparr>total0 = 0, total1 = 0, state = replicate 4 0,
     buffer = replicate 64 0\<rparr>"

definition mbedtls_md5_clone :: "md5_context \<Rightarrow> md5_context \<Rightarrow> md5_context" where
  "mbedtls_md5_clone dst src = src"

definition md5_iv :: "u32 list" where
  "md5_iv = [0x67452301, 0xEFCDAB89, 0x98BADCFE, 0x10325476]"

definition mbedtls_md5_starts_ret :: "md5_context \<Rightarrow> md5_context res" where
  "mbedtls_md5_starts_ret ctx = Inr (ctx\<lparr>total0 := 0, total1 := 0, state := md5_iv\<rparr>)"

definition md5_S :: "u32 \<Rightarrow> nat \<Rightarrow> u32" where
  "md5_S x n = push_bit n x OR drop_bit (32 - n) (x AND 0xFFFFFFFF)"

definition md5_F1 :: "u32 \<Rightarrow> u32 \<Rightarrow> u32 \<Rightarrow> u32" where
  "md5_F1 x y z = z XOR (x AND (y XOR z))"

definition md5_F2 :: "u32 \<Rightarrow> u32 \<Rightarrow> u32 \<Rightarrow> u32" where
  "md5_F2 x y z = y XOR (z AND (x XOR y))"

definition md5_F3 :: "u32 \<Rightarrow> u32 \<Rightarrow> u32 \<Rightarrow> u32" where
  "md5_F3 x y z = x XOR y XOR z"

definition md5_F4 :: "u32 \<Rightarrow> u32 \<Rightarrow> u32 \<Rightarrow> u32" where
  "md5_F4 x y z = y XOR (x OR NOT z)"

definition md5_P :: "(u32 \<Rightarrow> u32 \<Rightarrow> u32 \<Rightarrow> u32) \<Rightarrow> u32 list \<Rightarrow> u32 list
  \<Rightarrow> nat \<times> nat \<times> nat \<times> nat \<times> nat \<times> nat \<times> u32 \<Rightarrow> u32 list" where
  "md5_P F X V = (\<lambda>(a, b, c, d, k, s, t).
     let V = V[a := V ! a + F (V ! b) (V ! c) (V ! d) + X ! k + t]
     in V[a := md5_S (V ! a) s + V ! b])"

definition md5_round1 :: "(nat \<times> nat \<times> nat \<times> nat \<times> nat \<times> nat \<times> u32) list" where
  "md5_round1 =
     [(0, 1, 2, 3, 0, 7, 0xD76AA478), (3, 0, 1, 2, 1, 12, 0xE8C7B756),
      (2, 3, 0, 1, 2, 17, 0x242070DB), (1, 2, 3, 0, 3, 22, 0xC1BDCEEE),
      (0, 1, 2, 3, 4, 7, 0xF57C0FAF), (3, 0, 1, 2, 5, 12, 0x4787C62A),
      (2, 3, 0, 1, 6, 17, 0xA8304613), (1, 2, 3, 0, 7, 22, 0xFD469501),
      (0, 1, 2, 3, 8, 7, 0x698098D8), (3, 0, 1, 2, 9, 12, 0x8B44F7AF),
      (2, 3, 0, 1, 10, 17, 0xFFFF5BB1), (1, 2, 3, 0, 11, 22, 0x895CD7BE),
      (0, 1, 2, 3, 12, 7, 0x6B901122), (3, 0, 1, 2, 13, 12, 0xFD987193),
      (2, 3, 0, 1, 14, 17, 0xA679438E), (1, 2, 3, 0, 15, 22, 0x49B40821)]"

definition md5_round2 :: "(nat \<times> nat \<times> nat \<times> nat \<times> nat \<times> nat \<times> u32) list" where
  "md5_round2 =
     [(0, 1, 2, 3, 1, 5, 0xF61E2562), (3, 0, 1, 2, 6, 9, 0xC040B340),
      (2, 3, 0, 1, 11, 14, 0x265E5A51), (1, 2, 3, 0, 0, 20, 0xE9B6C7AA),
      (0, 1, 2, 3, 5, 5, 0xD62F105D), (3, 0, 1, 2, 10, 9, 0x02441453),
      (2, 3, 0, 1, 15, 14, 0xD8A1E681), (1, 2, 3, 0, 4, 20, 0xE7D3FBC8),
      (0, 1, 2, 3, 9, 5, 0x21E1CDE6), (3, 0, 1, 2, 14, 9, 0xC33707D6),
      (2, 3, 0, 1, 3, 14, 0xF4D50D87), (1, 2, 3, 0, 8, 20, 0x455A14ED),
      (0, 1, 2, 3, 13, 5, 0xA9E3E905), (3, 0, 1, 2, 2, 9, 0xFCEFA3F8),
      (2, 3, 0, 1, 7, 14, 0x676F02D9), (1, 2, 3, 0, 12, 20, 0x8D2A4C8A)]"

definition md5_round3 :: "(nat \<times> nat \<times> nat \<times> nat \<times> nat \<times> nat \<times> u32) list" where
  "md5_round3 =
     [(0, 1, 2, 3, 5, 4, 0xFFFA3942), (3, 0, 1, 2, 8, 11, 0x8771F681),
      (2, 3, 0, 1, 11, 16, 0x6D9D6122), (1, 2, 3, 0, 14, 23, 0xFDE5380C),
      (0, 1, 2, 3, 1, 4, 0xA4BEEA44), (3, 0, 1, 2, 4, 11, 0x4BDECFA9),
      (2, 3, 0, 1, 7, 16, 0xF6BB4B60), (1, 2, 3, 0, 10, 23, 0xBEBFBC70),
      (0, 1, 2, 3, 13, 4, 0x289B7EC6), (3, 0, 1, 2, 0, 11, 0xEAA127FA),
      (2, 3, 0, 1, 3, 16, 0xD4EF3085), (1, 2, 3, 0, 6, 23, 0x04881D05),
      (0, 1, 2, 3, 9, 4, 0xD9D4D039), (3, 0, 1, 2, 12, 11, 0xE6DB99E5),
      (2, 3, 0, 1, 15, 16, 0x1FA27CF8), (1, 2, 3, 0, 2, 23, 0xC4AC5665)]"

definition md5_round4 :: "(nat \<times> nat \<times> nat \<times> nat \<times> nat \<times> nat \<times> u32) list" where
  "md5_round4 =
     [(0, 1, 2, 3, 0, 6, 0xF4292244), (3, 0, 1, 2, 7, 10, 0x432AFF97),
      (2, 3, 0, 1, 14, 15, 0xAB9423A7), (1, 2, 3, 0, 5, 21, 0xFC93A039),
      (0, 1, 2, 3, 12, 6, 0x655B59C3), (3, 0, 1, 2, 3, 10, 0x8F0CCC92),
      (2, 3, 0, 1, 10, 15, 0xFFEFF47D), (1, 2, 3, 0, 1, 21, 0x85845DD1),
      (0, 1, 2, 3, 8, 6, 0x6FA87E4F), (3, 0, 1, 2, 15, 10, 0xFE2CE6E0),
      (2, 3, 0, 1, 6, 15, 0xA3014314), (1, 2, 3, 0, 13, 21, 0x4E0811A1),
      (0, 1, 2, 3, 4, 6, 0xF7537E82), (3, 0, 1, 2, 11, 10, 0xBD3AF235),
      (2, 3, 0, 1, 2, 15, 0x2AD7D2BB), (1, 2, 3, 0, 9, 21, 0xEB86D391)]"

definition md5_compress :: "u32 list \<Rightarrow> byte list \<Rightarrow> u32 list" where
  "md5_compress st data =
     (let X = map (\<lambda>i. GET_UINT32_LE data (4 * i)) [0..<16];
          V = [st ! 0, st ! 1, st ! 2, st ! 3];
          V = foldl (md5_P md5_F1 X) V md5_round1;
          V = foldl (md5_P md5_F2 X) V md5_round2;
          V = foldl (md5_P md5_F3 X) V md5_round3;
          V = foldl (md5_P md5_F4 X) V md5_round4
      in [st ! 0 + V ! 0, st ! 1 + V ! 1, st ! 2 + V ! 2, st ! 3 + V ! 3])"

definition mbedtls_internal_md5_process :: "md5_context \<Rightarrow> byte list \<Rightarrow> md5_context res" where
  "mbedtls_internal_md5_process ctx data = Inr (ctx\<lparr>state := md5_compress (state ctx) data\<rparr>)"

definition mbedtls_md5_update_ret :: "md5_context \<Rightarrow> byte list \<Rightarrow> md5_context res" where
  "mbedtls_md5_update_ret ctx input =
    (if length input = 0 then Inr ctx
     else
       let left = unat (total0 ctx AND 0x3F);
           fill = 64 - left;
           ilen = of_nat (length input);
           ctx = ctx\<lparr>total0 := total0 ctx + ilen\<rparr>;
           ctx = ctx\<lparr>total0 := total0 ctx AND 0xFFFFFFFF\<rparr>;
           ctx = (if total0 ctx < ilen then ctx\<lparr>total1 := total1 ctx + 1\<rparr> else ctx)
       in chk (if left \<noteq> 0 \<and> fill \<le> length input
               then let ctx = ctx\<lparr>buffer := memcpy (buffer ctx) left (take fill input)\<rparr>
                    in chk (mbedtls_internal_md5_process ctx (buffer ctx))
                         (\<lambda>ctx. Inr (ctx, drop fill input, 0))
               else Inr (ctx, input, left))
            (\<lambda>(ctx, input, left).
              chk (process_blocks 64 mbedtls_internal_md5_process ctx input)
                (\<lambda>(ctx, input).
                  if 0 < length input
                  then Inr (ctx\<lparr>buffer := memcpy (buffer ctx) left input\<rparr>)
                  else Inr ctx)))"

definition mbedtls_md5_finish_ret ::
  "md5_context \<Rightarrow> byte list \<Rightarrow> (md5_context \<times> byte list) res" where
  "mbedtls_md5_finish_ret ctx output =
    (let used = unat (total0 ctx AND 0x3F);
         buf = (buffer ctx)[used := 0x80];
         used = used + 1
     in chk (if used \<le> 56
             then Inr (ctx\<lparr>buffer := memset buf used 0 (56 - used)\<rparr>)
             else let buf = memset buf used 0 (64 - used)
                  in chk (mbedtls_internal_md5_process (ctx\<lparr>buffer := buf\<rparr>) buf)
                       (\<lambda>ctx. Inr (ctx\<lparr>buffer := memset (buffer ctx) 0 0 56\<rparr>)))
          (\<lambda>ctx.
            let high = drop_bit 29 (total0 ctx) OR push_bit 3 (total1 ctx);
                low = push_bit 3 (total0 ctx);
                buf = PUT_UINT32_LE low (buffer ctx) 56;
                buf = PUT_UINT32_LE high buf 60
            in chk (mbedtls_internal_md5_process (ctx\<lparr>buffer := buf\<rparr>) buf)
                 (\<lambda>ctx.
                   let output = PUT_UINT32_LE (state ctx ! 0) output 0;
                       output = PUT_UINT32_LE (state ctx ! 1) output 4;
                       output = PUT_UINT32_LE (state ctx ! 2) output 8;
                       output = PUT_UINT32_LE (state ctx ! 3) output 12
                   in Inr (ctx, output))))"

definition mbedtls_md5_ret :: "byte list \<Rightarrow> byte list \<Rightarrow> byte list res" where
  "mbedtls_md5_ret input output =
     chk (mbedtls_md5_starts_ret mbedtls_md5_init)
       (\<lambda>ctx. chk (mbedtls_md5_update_ret ctx input)
         (\<lambda>ctx. chk (mbedtls_md5_finish_ret ctx output)
           (\<lambda>(ctx, output). Inr output)))"

lemma length_md5_compress [simp]: "length (md5_compress st data) = 4"
  by (simp add: md5_compress_def Let_def)

subsection \<open>The module as a provider for the streaming layer\<close>

interpretation md5: block_hash 6 mbedtls_internal_md5_process md5_compress
  by unfold_locales (simp_all add: mbedtls_internal_md5_process_def)

lemma mbedtls_md5_update_ret_eq:
  "mbedtls_md5_update_ret = stream_update 64 mbedtls_internal_md5_process"
  by (intro ext)
    (simp only: mbedtls_md5_update_ret_def stream_update_def Let_def total0_mask mask_63)

lemma mbedtls_md5_finish_ret_eq:
  assumes "length (buffer ctx) = 64" and "length output = 16"
  shows "mbedtls_md5_finish_ret ctx output =
    chk (stream_pad 64 8 length_le mbedtls_internal_md5_process ctx)
      (\<lambda>ctx. Inr (ctx, memcpy output 0 (concat (map le32 (state ctx)))))"
proof -
  have out: "(let output = PUT_UINT32_LE (h ! 0) output 0;
              output = PUT_UINT32_LE (h ! 1) output 4;
              output = PUT_UINT32_LE (h ! 2) output 8;
              output = PUT_UINT32_LE (h ! 3) output 12
          in output) = memcpy output 0 (concat (map le32 h))" if "length h = 4" for h
    using that assms(2) by (auto simp: list4_conv bytes_simps Let_def)
  show ?thesis
    using assms unat_and_63 [of "total0 ctx"] out
    by (auto simp: mbedtls_md5_finish_ret_def stream_pad_def Let_def mask_63 length_le_def
      PUT_UINT32_LE_pair mbedtls_internal_md5_process_def mem_simps)
qed

interpretation md5m: hash_module 64 md5_compress mbedtls_md5_update_ret
  mbedtls_md5_finish_ret "\<lambda>l. le64 (of_nat (8 * l))" "\<lambda>_ h. concat (map le32 h)" 16
proof unfold_locales
  fix iv and c :: md5_context and m p :: "byte list"
  assume "absorbed 64 md5_compress iv c m" and "length p < 2 ^ LENGTH(32)"
  then show "\<exists>c'. mbedtls_md5_update_ret c p = Inr c' \<and>
      absorbed 64 md5_compress iv c' (m @ p) \<and> hash_ctx.more c' = hash_ctx.more c"
    using md5.stream_update_absorbs [of iv c m p] by (simp add: mbedtls_md5_update_ret_eq)
next
  fix iv and c :: md5_context and m out
  assume abs: "absorbed 64 md5_compress iv c m" and out: "length (out :: byte list) = 16"
  have "\<exists>c'. mbedtls_md5_finish_ret c out = Inr (c', memcpy out 0 (concat (map le32
      (foldl md5_compress iv (blocks (2 ^ 6) (md_pad (2 ^ 6) (le64 (of_nat (8 * length m))) m))))))"
    using abs out length_fields(2)
    by (intro md5.finish_from_pad [where lenbytes = length_le and l = 8 and g = "\<lambda>_ h. memcpy out 0 (concat (map le32 h))"])
      (simp_all add: mbedtls_md5_finish_ret_eq)
  then show "\<exists>c'. mbedtls_md5_finish_ret c out = Inr (c', memcpy out 0 (concat (map le32
      (foldl md5_compress iv (blocks 64 (md_pad 64 (le64 (of_nat (8 * length m))) m))))))"
    by simp
qed

subsection \<open>Properties\<close>

definition md5_digest :: "byte list \<Rightarrow> byte list" where
  "md5_digest m = concat (map le32 (foldl md5_compress md5_iv
     (blocks 64 (md_pad 64 (le64 (of_nat (8 * length m))) m))))"

text \<open>
  After \<open>mbedtls_md5_starts_ret\<close>, any sequence of
  \<open>mbedtls_md5_update_ret\<close> calls on pieces shorter than 4 GiB and a final
  \<open>mbedtls_md5_finish_ret\<close> return 0 and write the MD5 digest of the
  concatenated pieces.
\<close>

theorem md5_stream_correct:
  assumes "length (buffer ctx) = 64" and "length output = 16"
    and "\<forall>p \<in> set ps. length p < 2 ^ 32"
  shows "chk (mbedtls_md5_starts_ret ctx)
      (\<lambda>ctx. chk (updates mbedtls_md5_update_ret ctx ps)
        (\<lambda>ctx. chk (mbedtls_md5_finish_ret ctx output) (\<lambda>(ctx, output). Inr output)))
    = Inr (memcpy output 0 (md5_digest (concat ps)))"
proof -
  let ?c = "ctx\<lparr>total0 := 0, total1 := 0, state := md5_iv\<rparr>"
  have "absorbed 64 md5_compress md5_iv ?c []"
    using md5.absorbed_start [of ?c md5_iv] assms(1) by simp
  from md5m.session [OF this assms(2), of ps] assms(3) show ?thesis
    by (simp add: mbedtls_md5_starts_ret_def md5_digest_def)
qed

theorem md5_stream_correct_witness:
  "chk (mbedtls_md5_starts_ret mbedtls_md5_init)
      (\<lambda>ctx. chk (updates mbedtls_md5_update_ret ctx [[0x61], [0x62, 0x63]])
        (\<lambda>ctx. chk (mbedtls_md5_finish_ret ctx (replicate 16 0)) (\<lambda>(ctx, output). Inr output)))
    = Inr (memcpy (replicate 16 0) 0 (md5_digest [0x61, 0x62, 0x63]))"
  using md5_stream_correct [of mbedtls_md5_init "replicate 16 0" "[[0x61], [0x62, 0x63]]"]
  by (simp add: mbedtls_md5_init_def)

end
