(* ===== verification/Sha1.thy ===== *)
theory Sha1
  imports Hash_Stream
begin

text \<open>
  \<open>mbedtls/library/sha1.c\<close>: context, block function and streaming interface.
  The 80 calls of the macro \<open>P\<close> are four tables of twenty, one entry per call:
  the places \<open>A..E\<close> numbered 0 to 4 and the round number, which is the index of
  \<open>W\<close> below 16 and the argument of \<open>R\<close> from 16 on.
\<close>

type_synonym sha1_context = "u32 hash_ctx"

definition mbedtls_sha1_init :: sha1_context where
  "mbedtls_sha1_init = \<lparr>total0 = 0, total1 = 0, state = replicate 5 0,
     buffer = replicate 64 0\<rparr>"

definition mbedtls_sha1_free :: "sha1_context \<Rightarrow> sha1_context" where
  "mbedtls_sha1_free ctx = \<lparr>total0 = 0, total1 = 0, state = replicate 5 0,
     buffer = replicate 64 0\<rparr>"

definition mbedtls_sha1_clone :: "sha1_context \<Rightarrow> sha1_context \<Rightarrow> sha1_context" where
  "mbedtls_sha1_clone dst src = src"

definition sha1_iv :: "u32 list" where
  "sha1_iv = [0x67452301, 0xEFCDAB89, 0x98BADCFE, 0x10325476, 0xC3D2E1F0]"

definition mbedtls_sha1_starts_ret :: "sha1_context \<Rightarrow> sha1_context res" where
  "mbedtls_sha1_starts_ret ctx = Inr (ctx\<lparr>total0 := 0, total1 := 0, state := sha1_iv\<rparr>)"

definition sha1_S :: "u32 \<Rightarrow> nat \<Rightarrow> u32" where
  "sha1_S x n = push_bit n x OR drop_bit (32 - n) (x AND 0xFFFFFFFF)"

text \<open>\<open>R(t)\<close> keeps the schedule in a ring of sixteen words.\<close>

definition sha1_R :: "u32 list \<Rightarrow> nat \<Rightarrow> u32 list" where
  "sha1_R W t =
     (let temp = W ! ((t - 3) AND 0x0F) XOR W ! ((t - 8) AND 0x0F) XOR
                 W ! ((t - 14) AND 0x0F) XOR W ! (t AND 0x0F)
      in W[t AND 0x0F := sha1_S temp 1])"

definition sha1_F1 :: "u32 \<Rightarrow> u32 \<Rightarrow> u32 \<Rightarrow> u32" where
  "sha1_F1 x y z = z XOR (x AND (y XOR z))"

definition sha1_F2 :: "u32 \<Rightarrow> u32 \<Rightarrow> u32 \<Rightarrow> u32" where
  "sha1_F2 x y z = x XOR y XOR z"

definition sha1_F3 :: "u32 \<Rightarrow> u32 \<Rightarrow> u32 \<Rightarrow> u32" where
  "sha1_F3 x y z = (x AND y) OR (z AND (x OR y))"

definition sha1_P :: "(u32 \<Rightarrow> u32 \<Rightarrow> u32 \<Rightarrow> u32) \<Rightarrow> u32 \<Rightarrow> u32 list
  \<Rightarrow> nat \<Rightarrow> nat \<Rightarrow> nat \<Rightarrow> nat \<Rightarrow> nat \<Rightarrow> u32 \<Rightarrow> u32 list" where
  "sha1_P F K V a b c d e x =
     (let V = V[e := V ! e + (sha1_S (V ! a) 5 + F (V ! b) (V ! c) (V ! d) + K + x)]
      in V[b := sha1_S (V ! b) 30])"

text \<open>One line of the source: \<open>P( a, b, c, d, e, W[t] )\<close> or \<open>P( a, b, c, d, e, R(t) )\<close>.\<close>

definition sha1_line :: "(u32 \<Rightarrow> u32 \<Rightarrow> u32 \<Rightarrow> u32) \<Rightarrow> u32 \<Rightarrow> u32 list \<times> u32 list
  \<Rightarrow> nat \<times> nat \<times> nat \<times> nat \<times> nat \<times> nat \<Rightarrow> u32 list \<times> u32 list" where
  "sha1_line F K VW = (\<lambda>(a, b, c, d, e, t).
     let (V, W) = VW;
         W = (if t < 16 then W else sha1_R W t)
     in (sha1_P F K V a b c d e (if t < 16 then W ! t else W ! (t AND 0x0F)), W))"

definition sha1_lines1 :: "(nat \<times> nat \<times> nat \<times> nat \<times> nat \<times> nat) list" where
  "sha1_lines1 =
     [(0, 1, 2, 3, 4, 0), (4, 0, 1, 2, 3, 1), (3, 4, 0, 1, 2, 2), (2, 3, 4, 0, 1, 3),
      (1, 2, 3, 4, 0, 4), (0, 1, 2, 3, 4, 5), (4, 0, 1, 2, 3, 6), (3, 4, 0, 1, 2, 7),
      (2, 3, 4, 0, 1, 8), (1, 2, 3, 4, 0, 9), (0, 1, 2, 3, 4, 10), (4, 0, 1, 2, 3, 11),
      (3, 4, 0, 1, 2, 12), (2, 3, 4, 0, 1, 13), (1, 2, 3, 4, 0, 14), (0, 1, 2, 3, 4, 15),
      (4, 0, 1, 2, 3, 16), (3, 4, 0, 1, 2, 17), (2, 3, 4, 0, 1, 18), (1, 2, 3, 4, 0, 19)]"

definition sha1_lines2 :: "(nat \<times> nat \<times> nat \<times> nat \<times> nat \<times> nat) list" where
  "sha1_lines2 =
     [(0, 1, 2, 3, 4, 20), (4, 0, 1, 2, 3, 21), (3, 4, 0, 1, 2, 22), (2, 3, 4, 0, 1, 23),
      (1, 2, 3, 4, 0, 24), (0, 1, 2, 3, 4, 25), (4, 0, 1, 2, 3, 26), (3, 4, 0, 1, 2, 27),
      (2, 3, 4, 0, 1, 28), (1, 2, 3, 4, 0, 29), (0, 1, 2, 3, 4, 30), (4, 0, 1, 2, 3, 31),
      (3, 4, 0, 1, 2, 32), (2, 3, 4, 0, 1, 33), (1, 2, 3, 4, 0, 34), (0, 1, 2, 3, 4, 35),
      (4, 0, 1, 2, 3, 36), (3, 4, 0, 1, 2, 37), (2, 3, 4, 0, 1, 38), (1, 2, 3, 4, 0, 39)]"

definition sha1_lines3 :: "(nat \<times> nat \<times> nat \<times> nat \<times> nat \<times> nat) list" where
  "sha1_lines3 =
     [(0, 1, 2, 3, 4, 40), (4, 0, 1, 2, 3, 41), (3, 4, 0, 1, 2, 42), (2, 3, 4, 0, 1, 43),
      (1, 2, 3, 4, 0, 44), (0, 1, 2, 3, 4, 45), (4, 0, 1, 2, 3, 46), (3, 4, 0, 1, 2, 47),
      (2, 3, 4, 0, 1, 48), (1, 2, 3, 4, 0, 49), (0, 1, 2, 3, 4, 50), (4, 0, 1, 2, 3, 51),
      (3, 4, 0, 1, 2, 52), (2, 3, 4, 0, 1, 53), (1, 2, 3, 4, 0, 54), (0, 1, 2, 3, 4, 55),
      (4, 0, 1, 2, 3, 56), (3, 4, 0, 1, 2, 57), (2, 3, 4, 0, 1, 58), (1, 2, 3, 4, 0, 59)]"

definition sha1_lines4 :: "(nat \<times> nat \<times> nat \<times> nat \<times> nat \<times> nat) list" where
  "sha1_lines4 =
     [(0, 1, 2, 3, 4, 60), (4, 0, 1, 2, 3, 61), (3, 4, 0, 1, 2, 62), (2, 3, 4, 0, 1, 63),
      (1, 2, 3, 4, 0, 64), (0, 1, 2, 3, 4, 65), (4, 0, 1, 2, 3, 66), (3, 4, 0, 1, 2, 67),
      (2, 3, 4, 0, 1, 68), (1, 2, 3, 4, 0, 69), (0, 1, 2, 3, 4, 70), (4, 0, 1, 2, 3, 71),
      (3, 4, 0, 1, 2, 72), (2, 3, 4, 0, 1, 73), (1, 2, 3, 4, 0, 74), (0, 1, 2, 3, 4, 75),
      (4, 0, 1, 2, 3, 76), (3, 4, 0, 1, 2, 77), (2, 3, 4, 0, 1, 78), (1, 2, 3, 4, 0, 79)]"

definition sha1_compress :: "u32 list \<Rightarrow> byte list \<Rightarrow> u32 list" where
  "sha1_compress st data =
     (let W = map (\<lambda>i. GET_UINT32_BE data (4 * i)) [0..<16];
          V = [st ! 0, st ! 1, st ! 2, st ! 3, st ! 4];
          VW = foldl (sha1_line sha1_F1 0x5A827999) (V, W) sha1_lines1;
          VW = foldl (sha1_line sha1_F2 0x6ED9EBA1) VW sha1_lines2;
          VW = foldl (sha1_line sha1_F3 0x8F1BBCDC) VW sha1_lines3;
          (V, W) = foldl (sha1_line sha1_F2 0xCA62C1D6) VW sha1_lines4
      in [st ! 0 + V ! 0, st ! 1 + V ! 1, st ! 2 + V ! 2, st ! 3 + V ! 3, st ! 4 + V ! 4])"

definition mbedtls_internal_sha1_process :: "sha1_context \<Rightarrow> byte list \<Rightarrow> sha1_context res" where
  "mbedtls_internal_sha1_process ctx data = Inr (ctx\<lparr>state := sha1_compress (state ctx) data\<rparr>)"

definition mbedtls_sha1_update_ret :: "sha1_context \<Rightarrow> byte list \<Rightarrow> sha1_context res" where
  "mbedtls_sha1_update_ret ctx input =
    (if length input = 0 then Inr ctx
     else
       let left = unat (total0 ctx AND 0x3F);
           fill = 64 - left;
           ilen = of_nat (length input);
           ctx = ctx\<lparr>total0 := total0 ctx + ilen\<rparr>;
           ctx = ctx\<lparr>total0 := total0 ctx AND 0xFFFFFFFF\<rparr>;
           ctx = (if total0 ctx < ilen then ctx\<lparr>total1 := total1 ctx + 1\<rparr> else ctx)
       in chk (if left \<noteq> 0 \<and> fill \<le> length input
               then let ctx = ctx\<lparr>buffer := memcpy (buffer ctx) left (take fill input)\<rparr>
                    in chk (mbedtls_internal_sha1_process ctx (buffer ctx))
                         (\<lambda>ctx. Inr (ctx, drop fill input, 0))
               else Inr (ctx, input, left))
            (\<lambda>(ctx, input, left).
              chk (process_blocks 64 mbedtls_internal_sha1_process ctx input)
                (\<lambda>(ctx, input).
                  if 0 < length input
                  then Inr (ctx\<lparr>buffer := memcpy (buffer ctx) left input\<rparr>)
                  else Inr ctx)))"

definition mbedtls_sha1_finish_ret ::
  "sha1_context \<Rightarrow> byte list \<Rightarrow> (sha1_context \<times> byte list) res" where
  "mbedtls_sha1_finish_ret ctx output =
    (let used = unat (total0 ctx AND 0x3F);
         buf = (buffer ctx)[used := 0x80];
         used = used + 1
     in chk (if used \<le> 56
             then Inr (ctx\<lparr>buffer := memset buf used 0 (56 - used)\<rparr>)
             else let buf = memset buf used 0 (64 - used)
                  in chk (mbedtls_internal_sha1_process (ctx\<lparr>buffer := buf\<rparr>) buf)
                       (\<lambda>ctx. Inr (ctx\<lparr>buffer := memset (buffer ctx) 0 0 56\<rparr>)))
          (\<lambda>ctx.
            let high = drop_bit 29 (total0 ctx) OR push_bit 3 (total1 ctx);
                low = push_bit 3 (total0 ctx);
                buf = PUT_UINT32_BE high (buffer ctx) 56;
                buf = PUT_UINT32_BE low buf 60
            in chk (mbedtls_internal_sha1_process (ctx\<lparr>buffer := buf\<rparr>) buf)
                 (\<lambda>ctx.
                   let output = PUT_UINT32_BE (state ctx ! 0) output 0;
                       output = PUT_UINT32_BE (state ctx ! 1) output 4;
                       output = PUT_UINT32_BE (state ctx ! 2) output 8;
                       output = PUT_UINT32_BE (state ctx ! 3) output 12;
                       output = PUT_UINT32_BE (state ctx ! 4) output 16
                   in Inr (ctx, output))))"

definition mbedtls_sha1_ret :: "byte list \<Rightarrow> byte list \<Rightarrow> byte list res" where
  "mbedtls_sha1_ret input output =
     chk (mbedtls_sha1_starts_ret mbedtls_sha1_init)
       (\<lambda>ctx. chk (mbedtls_sha1_update_ret ctx input)
         (\<lambda>ctx. chk (mbedtls_sha1_finish_ret ctx output)
           (\<lambda>(ctx, output). Inr output)))"

lemma length_sha1_compress [simp]: "length (sha1_compress st data) = 5"
  by (simp add: sha1_compress_def Let_def split: prod.split)

subsection \<open>The module as a provider for the streaming layer\<close>

interpretation sha1: block_hash 6 mbedtls_internal_sha1_process sha1_compress
  by unfold_locales (simp_all add: mbedtls_internal_sha1_process_def)

lemma mbedtls_sha1_update_ret_eq:
  "mbedtls_sha1_update_ret = stream_update 64 mbedtls_internal_sha1_process"
  by (intro ext)
    (simp only: mbedtls_sha1_update_ret_def stream_update_def Let_def total0_mask mask_63)

lemma mbedtls_sha1_finish_ret_eq:
  assumes "length (buffer ctx) = 64" and "length output = 20"
  shows "mbedtls_sha1_finish_ret ctx output =
    chk (stream_pad 64 8 length_be mbedtls_internal_sha1_process ctx)
      (\<lambda>ctx. Inr (ctx, memcpy output 0 (concat (map be32 (state ctx)))))"
proof -
  have out: "(let output = PUT_UINT32_BE (h ! 0) output 0;
              output = PUT_UINT32_BE (h ! 1) output 4;
              output = PUT_UINT32_BE (h ! 2) output 8;
              output = PUT_UINT32_BE (h ! 3) output 12;
              output = PUT_UINT32_BE (h ! 4) output 16
          in output) = memcpy output 0 (concat (map be32 h))" if "length h = 5" for h
    using that assms(2) by (auto simp: list5_conv bytes_simps Let_def)
  show ?thesis
    using assms unat_and_63 [of "total0 ctx"] out
    by (auto simp: mbedtls_sha1_finish_ret_def stream_pad_def Let_def mask_63 length_be_def
      PUT_UINT32_BE_pair mbedtls_internal_sha1_process_def mem_simps)
qed

interpretation sha1m: hash_module 64 sha1_compress mbedtls_sha1_update_ret
  mbedtls_sha1_finish_ret "\<lambda>l. be64 (of_nat (8 * l))" "\<lambda>_ h. concat (map be32 h)" 20
proof unfold_locales
  fix iv and c :: sha1_context and m p :: "byte list"
  assume "absorbed 64 sha1_compress iv c m" and "length p < 2 ^ LENGTH(32)"
  then show "\<exists>c'. mbedtls_sha1_update_ret c p = Inr c' \<and>
      absorbed 64 sha1_compress iv c' (m @ p) \<and> hash_ctx.more c' = hash_ctx.more c"
    using sha1.stream_update_absorbs [of iv c m p] by (simp add: mbedtls_sha1_update_ret_eq)
next
  fix iv and c :: sha1_context and m out
  assume abs: "absorbed 64 sha1_compress iv c m" and out: "length (out :: byte list) = 20"
  have "\<exists>c'. mbedtls_sha1_finish_ret c out = Inr (c', memcpy out 0 (concat (map be32
      (foldl sha1_compress iv (blocks (2 ^ 6) (md_pad (2 ^ 6) (be64 (of_nat (8 * length m))) m))))))"
    using abs out length_fields(1)
    by (intro sha1.finish_from_pad [where lenbytes = length_be and l = 8 and g = "\<lambda>_ h. memcpy out 0 (concat (map be32 h))"])
      (simp_all add: mbedtls_sha1_finish_ret_eq)
  then show "\<exists>c'. mbedtls_sha1_finish_ret c out = Inr (c', memcpy out 0 (concat (map be32
      (foldl sha1_compress iv (blocks 64 (md_pad 64 (be64 (of_nat (8 * length m))) m))))))"
    by simp
qed

subsection \<open>Properties\<close>

definition sha1_digest :: "byte list \<Rightarrow> byte list" where
  "sha1_digest m = concat (map be32 (foldl sha1_compress sha1_iv
     (blocks 64 (md_pad 64 (be64 (of_nat (8 * length m))) m))))"

text \<open>
  After \<open>mbedtls_sha1_starts_ret\<close>, any sequence of
  \<open>mbedtls_sha1_update_ret\<close> calls on pieces shorter than 4 GiB and a final
  \<open>mbedtls_sha1_finish_ret\<close> return 0 and write the SHA-1 digest of the
  concatenated pieces.
\<close>

theorem sha1_stream_correct:
  assumes "length (buffer ctx) = 64" and "length output = 20"
    and "\<forall>p \<in> set ps. length p < 2 ^ 32"
  shows "chk (mbedtls_sha1_starts_ret ctx)
      (\<lambda>ctx. chk (updates mbedtls_sha1_update_ret ctx ps)
        (\<lambda>ctx. chk (mbedtls_sha1_finish_ret ctx output) (\<lambda>(ctx, output). Inr output)))
    = Inr (memcpy output 0 (sha1_digest (concat ps)))"
proof -
  let ?c = "ctx\<lparr>total0 := 0, total1 := 0, state := sha1_iv\<rparr>"
  have "absorbed 64 sha1_compress sha1_iv ?c []"
    using sha1.absorbed_start [of ?c sha1_iv] assms(1) by simp
  from sha1m.session [OF this assms(2), of ps] assms(3) show ?thesis
    by (simp add: mbedtls_sha1_starts_ret_def sha1_digest_def)
qed

theorem sha1_stream_correct_witness:
  "chk (mbedtls_sha1_starts_ret mbedtls_sha1_init)
      (\<lambda>ctx. chk (updates mbedtls_sha1_update_ret ctx [[0x61], [0x62, 0x63]])
        (\<lambda>ctx. chk (mbedtls_sha1_finish_ret ctx (replicate 20 0)) (\<lambda>(ctx, output). Inr output)))
    = Inr (memcpy (replicate 20 0) 0 (sha1_digest [0x61, 0x62, 0x63]))"
  using sha1_stream_correct [of mbedtls_sha1_init "replicate 20 0" "[[0x61], [0x62, 0x63]]"]
  by (simp add: mbedtls_sha1_init_def)

end
