(* ===== verification/Sha256.thy ===== *)
theory Sha256
  imports Hash_Stream
begin

text \<open>
  \<open>mbedtls/library/sha256.c\<close>: the context, the block function with its
  eight-fold unrolled rounds, the rolled variant the file holds under
  \<open>MBEDTLS_SHA256_SMALLER\<close>, and the streaming interface. Shown here: the
  unrolled block function equals the rolled one, and absorbing a message in any
  pieces and finishing gives the digest of the padded message.
\<close>

record sha256_context = "u32 hash_ctx" +
  is224 :: int

definition mbedtls_sha256_init :: sha256_context where
  "mbedtls_sha256_init = \<lparr>total0 = 0, total1 = 0, state = replicate 8 0,
     buffer = replicate 64 0, is224 = 0\<rparr>"

definition mbedtls_sha256_free :: "sha256_context \<Rightarrow> sha256_context" where
  "mbedtls_sha256_free ctx = \<lparr>total0 = 0, total1 = 0, state = replicate 8 0,
     buffer = replicate 64 0, is224 = 0\<rparr>"

definition mbedtls_sha256_clone :: "sha256_context \<Rightarrow> sha256_context \<Rightarrow> sha256_context" where
  "mbedtls_sha256_clone dst src = src"

definition sha256_iv :: "int \<Rightarrow> u32 list" where
  "sha256_iv is = (if is = 0
     then [0x6A09E667, 0xBB67AE85, 0x3C6EF372, 0xA54FF53A,
           0x510E527F, 0x9B05688C, 0x1F83D9AB, 0x5BE0CD19]
     else [0xC1059ED8, 0x367CD507, 0x3070DD17, 0xF70E5939,
           0xFFC00B31, 0x68581511, 0x64F98FA7, 0xBEFA4FA4])"

definition mbedtls_sha256_starts_ret :: "sha256_context \<Rightarrow> int \<Rightarrow> sha256_context res" where
  "mbedtls_sha256_starts_ret ctx is =
     Inr (ctx\<lparr>total0 := 0, total1 := 0, state := sha256_iv is, is224 := is\<rparr>)"

definition sha256_K :: "u32 list" where
  "sha256_K =
    [0x428A2F98, 0x71374491, 0xB5C0FBCF, 0xE9B5DBA5, 0x3956C25B, 0x59F111F1,
     0x923F82A4, 0xAB1C5ED5, 0xD807AA98, 0x12835B01, 0x243185BE, 0x550C7DC3,
     0x72BE5D74, 0x80DEB1FE, 0x9BDC06A7, 0xC19BF174, 0xE49B69C1, 0xEFBE4786,
     0x0FC19DC6, 0x240CA1CC, 0x2DE92C6F, 0x4A7484AA, 0x5CB0A9DC, 0x76F988DA,
     0x983E5152, 0xA831C66D, 0xB00327C8, 0xBF597FC7, 0xC6E00BF3, 0xD5A79147,
     0x06CA6351, 0x14292967, 0x27B70A85, 0x2E1B2138, 0x4D2C6DFC, 0x53380D13,
     0x650A7354, 0x766A0ABB, 0x81C2C92E, 0x92722C85, 0xA2BFE8A1, 0xA81A664B,
     0xC24B8B70, 0xC76C51A3, 0xD192E819, 0xD6990624, 0xF40E3585, 0x106AA070,
     0x19A4C116, 0x1E376C08, 0x2748774C, 0x34B0BCB5, 0x391C0CB3, 0x4ED8AA4A,
     0x5B9CCA4F, 0x682E6FF3, 0x748F82EE, 0x78A5636F, 0x84C87814, 0x8CC70208,
     0x90BEFFFA, 0xA4506CEB, 0xBEF9A3F7, 0xC67178F2]"

definition sha256_SHR :: "u32 \<Rightarrow> nat \<Rightarrow> u32" where
  "sha256_SHR x n = drop_bit n (x AND 0xFFFFFFFF)"

definition sha256_ROTR :: "u32 \<Rightarrow> nat \<Rightarrow> u32" where
  "sha256_ROTR x n = sha256_SHR x n OR push_bit (32 - n) x"

definition sha256_S0 :: "u32 \<Rightarrow> u32" where
  "sha256_S0 x = sha256_ROTR x 7 XOR sha256_ROTR x 18 XOR sha256_SHR x 3"

definition sha256_S1 :: "u32 \<Rightarrow> u32" where
  "sha256_S1 x = sha256_ROTR x 17 XOR sha256_ROTR x 19 XOR sha256_SHR x 10"

definition sha256_S2 :: "u32 \<Rightarrow> u32" where
  "sha256_S2 x = sha256_ROTR x 2 XOR sha256_ROTR x 13 XOR sha256_ROTR x 22"

definition sha256_S3 :: "u32 \<Rightarrow> u32" where
  "sha256_S3 x = sha256_ROTR x 6 XOR sha256_ROTR x 11 XOR sha256_ROTR x 25"

definition sha256_F0 :: "u32 \<Rightarrow> u32 \<Rightarrow> u32 \<Rightarrow> u32" where
  "sha256_F0 x y z = (x AND y) OR (z AND (x OR y))"

definition sha256_F1 :: "u32 \<Rightarrow> u32 \<Rightarrow> u32 \<Rightarrow> u32" where
  "sha256_F1 x y z = z XOR (x AND (y XOR z))"

text \<open>The macro \<open>R(t)\<close>: it stores the new schedule word, whose value the caller then reads.\<close>

definition sha256_R :: "u32 list \<Rightarrow> nat \<Rightarrow> u32 list" where
  "sha256_R W t = W[t := sha256_S1 (W ! (t - 2)) + W ! (t - 7) +
                         sha256_S0 (W ! (t - 15)) + W ! (t - 16)]"

text \<open>The macro \<open>P\<close>; its first eight arguments are places of the array \<open>A\<close>.\<close>

definition sha256_P ::
  "u32 list \<Rightarrow> nat \<Rightarrow> nat \<Rightarrow> nat \<Rightarrow> nat \<Rightarrow> nat \<Rightarrow> nat \<Rightarrow> nat \<Rightarrow> nat \<Rightarrow> u32 \<Rightarrow> u32 \<Rightarrow> u32 list" where
  "sha256_P A a b c d e f g h x K =
     (let temp1 = A ! h + sha256_S3 (A ! e) + sha256_F1 (A ! e) (A ! f) (A ! g) + K + x;
          temp2 = sha256_S2 (A ! a) + sha256_F0 (A ! a) (A ! b) (A ! c)
      in A[d := A ! d + temp1, h := temp1 + temp2])"

text \<open>The bodies of the two unrolled loops, eight rounds each.\<close>

definition sha256_first8 :: "u32 list \<Rightarrow> u32 list \<Rightarrow> nat \<Rightarrow> u32 list" where
  "sha256_first8 W A i =
     (let
        A = sha256_P A 0 1 2 3 4 5 6 7 (W ! (i + 0)) (sha256_K ! (i + 0));
        A = sha256_P A 7 0 1 2 3 4 5 6 (W ! (i + 1)) (sha256_K ! (i + 1));
        A = sha256_P A 6 7 0 1 2 3 4 5 (W ! (i + 2)) (sha256_K ! (i + 2));
        A = sha256_P A 5 6 7 0 1 2 3 4 (W ! (i + 3)) (sha256_K ! (i + 3));
        A = sha256_P A 4 5 6 7 0 1 2 3 (W ! (i + 4)) (sha256_K ! (i + 4));
        A = sha256_P A 3 4 5 6 7 0 1 2 (W ! (i + 5)) (sha256_K ! (i + 5));
        A = sha256_P A 2 3 4 5 6 7 0 1 (W ! (i + 6)) (sha256_K ! (i + 6));
        A = sha256_P A 1 2 3 4 5 6 7 0 (W ! (i + 7)) (sha256_K ! (i + 7))
      in A)"

definition sha256_next8 :: "u32 list \<times> u32 list \<Rightarrow> nat \<Rightarrow> u32 list \<times> u32 list" where
  "sha256_next8 AW i =
     (let (A, W) = AW;
        W = sha256_R W (i + 0); A = sha256_P A 0 1 2 3 4 5 6 7 (W ! (i + 0)) (sha256_K ! (i + 0));
        W = sha256_R W (i + 1); A = sha256_P A 7 0 1 2 3 4 5 6 (W ! (i + 1)) (sha256_K ! (i + 1));
        W = sha256_R W (i + 2); A = sha256_P A 6 7 0 1 2 3 4 5 (W ! (i + 2)) (sha256_K ! (i + 2));
        W = sha256_R W (i + 3); A = sha256_P A 5 6 7 0 1 2 3 4 (W ! (i + 3)) (sha256_K ! (i + 3));
        W = sha256_R W (i + 4); A = sha256_P A 4 5 6 7 0 1 2 3 (W ! (i + 4)) (sha256_K ! (i + 4));
        W = sha256_R W (i + 5); A = sha256_P A 3 4 5 6 7 0 1 2 (W ! (i + 5)) (sha256_K ! (i + 5));
        W = sha256_R W (i + 6); A = sha256_P A 2 3 4 5 6 7 0 1 (W ! (i + 6)) (sha256_K ! (i + 6));
        W = sha256_R W (i + 7); A = sha256_P A 1 2 3 4 5 6 7 0 (W ! (i + 7)) (sha256_K ! (i + 7))
      in (A, W))"

definition sha256_compress :: "u32 list \<Rightarrow> byte list \<Rightarrow> u32 list" where
  "sha256_compress st data =
     (let A = st;
          W = map (\<lambda>i. GET_UINT32_BE data (4 * i)) [0..<16] @ replicate 48 0;
          A = foldl (sha256_first8 W) A [0, 8];
          (A, W) = foldl sha256_next8 (A, W) [16, 24, 32, 40, 48, 56]
      in map (\<lambda>i. st ! i + A ! i) [0..<8])"

definition mbedtls_internal_sha256_process ::
  "sha256_context \<Rightarrow> byte list \<Rightarrow> sha256_context res" where
  "mbedtls_internal_sha256_process ctx data =
     Inr (ctx\<lparr>state := sha256_compress (state ctx) data\<rparr>)"

text \<open>The rolled loop of \<open>MBEDTLS_SHA256_SMALLER\<close>.\<close>

definition sha256_small_round ::
  "byte list \<Rightarrow> u32 list \<times> u32 list \<Rightarrow> nat \<Rightarrow> u32 list \<times> u32 list" where
  "sha256_small_round data AW i =
     (let (A, W) = AW;
          W = (if i < 16 then W[i := GET_UINT32_BE data (4 * i)] else sha256_R W i);
          A = sha256_P A 0 1 2 3 4 5 6 7 (W ! i) (sha256_K ! i);
          temp1 = A ! 7;
          A = A[7 := A ! 6]; A = A[6 := A ! 5]; A = A[5 := A ! 4]; A = A[4 := A ! 3];
          A = A[3 := A ! 2]; A = A[2 := A ! 1]; A = A[1 := A ! 0]; A = A[0 := temp1]
      in (A, W))"

definition sha256_small_compress :: "u32 list \<Rightarrow> byte list \<Rightarrow> u32 list" where
  "sha256_small_compress st data =
     (let (A, W) = foldl (sha256_small_round data) (st, replicate 64 0) [0..<64]
      in map (\<lambda>i. st ! i + A ! i) [0..<8])"

definition mbedtls_sha256_update_ret ::
  "sha256_context \<Rightarrow> byte list \<Rightarrow> sha256_context res" where
  "mbedtls_sha256_update_ret ctx input =
    (if length input = 0 then Inr ctx
     else
       let left = unat (total0 ctx AND 0x3F);
           fill = 64 - left;
           ilen = of_nat (length input);
           ctx = ctx\<lparr>total0 := total0 ctx + ilen\<rparr>;
           ctx = ctx\<lparr>total0 := total0 ctx AND 0xFFFFFFFF\<rparr>;
           ctx = (if total0 ctx < ilen then ctx\<lparr>total1 := total1 ctx + 1\<rparr> else ctx)
       in chk (if left \<noteq> 0 \<and> fill \<le> length input
               then let ctx = ctx\<lparr>buffer := memcpy (buffer ctx) left (take fill input)\<rparr>
                    in chk (mbedtls_internal_sha256_process ctx (buffer ctx))
                         (\<lambda>ctx. Inr (ctx, drop fill input, 0))
               else Inr (ctx, input, left))
            (\<lambda>(ctx, input, left).
              chk (process_blocks 64 mbedtls_internal_sha256_process ctx input)
                (\<lambda>(ctx, input).
                  if 0 < length input
                  then Inr (ctx\<lparr>buffer := memcpy (buffer ctx) left input\<rparr>)
                  else Inr ctx)))"

definition mbedtls_sha256_finish_ret ::
  "sha256_context \<Rightarrow> byte list \<Rightarrow> (sha256_context \<times> byte list) res" where
  "mbedtls_sha256_finish_ret ctx output =
    (let used = unat (total0 ctx AND 0x3F);
         buf = (buffer ctx)[used := 0x80];
         used = used + 1
     in chk (if used \<le> 56
             then Inr (ctx\<lparr>buffer := memset buf used 0 (56 - used)\<rparr>)
             else let buf = memset buf used 0 (64 - used)
                  in chk (mbedtls_internal_sha256_process (ctx\<lparr>buffer := buf\<rparr>) buf)
                       (\<lambda>ctx. Inr (ctx\<lparr>buffer := memset (buffer ctx) 0 0 56\<rparr>)))
          (\<lambda>ctx.
            let high = drop_bit 29 (total0 ctx) OR push_bit 3 (total1 ctx);
                low = push_bit 3 (total0 ctx);
                buf = PUT_UINT32_BE high (buffer ctx) 56;
                buf = PUT_UINT32_BE low buf 60
            in chk (mbedtls_internal_sha256_process (ctx\<lparr>buffer := buf\<rparr>) buf)
                 (\<lambda>ctx.
                   let output = PUT_UINT32_BE (state ctx ! 0) output 0;
                       output = PUT_UINT32_BE (state ctx ! 1) output 4;
                       output = PUT_UINT32_BE (state ctx ! 2) output 8;
                       output = PUT_UINT32_BE (state ctx ! 3) output 12;
                       output = PUT_UINT32_BE (state ctx ! 4) output 16;
                       output = PUT_UINT32_BE (state ctx ! 5) output 20;
                       output = PUT_UINT32_BE (state ctx ! 6) output 24;
                       output = (if is224 ctx = 0
                                 then PUT_UINT32_BE (state ctx ! 7) output 28 else output)
                   in Inr (ctx, output))))"

definition mbedtls_sha256_ret :: "byte list \<Rightarrow> byte list \<Rightarrow> int \<Rightarrow> byte list res" where
  "mbedtls_sha256_ret input output is =
     chk (mbedtls_sha256_starts_ret mbedtls_sha256_init is)
       (\<lambda>ctx. chk (mbedtls_sha256_update_ret ctx input)
         (\<lambda>ctx. chk (mbedtls_sha256_finish_ret ctx output)
           (\<lambda>(ctx, output). Inr output)))"


subsection \<open>The block function as a provider for the streaming layer\<close>

interpretation sha256: block_hash 6 mbedtls_internal_sha256_process sha256_compress
  by unfold_locales (simp_all add: mbedtls_internal_sha256_process_def)

lemma mbedtls_sha256_update_ret_eq:
  "mbedtls_sha256_update_ret = stream_update 64 mbedtls_internal_sha256_process"
  by (intro ext)
    (simp only: mbedtls_sha256_update_ret_def stream_update_def Let_def total0_mask mask_63)


definition sha256_digest :: "int \<Rightarrow> byte list \<Rightarrow> byte list" where
  "sha256_digest is m =
     (let h = foldl sha256_compress (sha256_iv is)
                (blocks 64 (md_pad 64 (be64 (of_nat (8 * length m))) m))
      in concat (map be32 (if is = 0 then h else take 7 h)))"

lemma length_sha256_compress [simp]: "length (sha256_compress st data) = 8"
  by (simp add: sha256_compress_def Let_def split: prod.split)

lemma length_sha256_fold: "length iv = 8 \<Longrightarrow> length (foldl sha256_compress iv bs) = 8"
  by (induction bs rule: rev_induct) simp_all

lemma mbedtls_sha256_finish_ret_eq:
  assumes "length (buffer ctx) = 64" and "length output = 32"
  shows "mbedtls_sha256_finish_ret ctx output =
    chk (stream_pad 64 8 length_be mbedtls_internal_sha256_process ctx)
      (\<lambda>ctx. Inr (ctx, memcpy output 0 (concat (map be32
        (if is224 ctx = 0 then state ctx else take 7 (state ctx))))))"
proof -
  have out: "(let output = PUT_UINT32_BE (h ! 0) output 0;
              output = PUT_UINT32_BE (h ! 1) output 4;
              output = PUT_UINT32_BE (h ! 2) output 8;
              output = PUT_UINT32_BE (h ! 3) output 12;
              output = PUT_UINT32_BE (h ! 4) output 16;
              output = PUT_UINT32_BE (h ! 5) output 20;
              output = PUT_UINT32_BE (h ! 6) output 24
          in if i then PUT_UINT32_BE (h ! 7) output 28 else output)
    = memcpy output 0 (concat (map be32 (if i then h else take 7 h)))" if "length h = 8" for h i
    using that assms(2) by (auto simp: list8_conv bytes_simps Let_def)
  show ?thesis
    using assms unat_and_63 [of "total0 ctx"] out
    by (auto simp: mbedtls_sha256_finish_ret_def stream_pad_def Let_def mask_63 length_be_def
      PUT_UINT32_BE_pair mbedtls_internal_sha256_process_def mem_simps)
qed


definition sha256_bytes :: "unit sha256_context_ext \<Rightarrow> u32 list \<Rightarrow> byte list" where
  "sha256_bytes z h = concat (map be32
     (if is224 (hash_ctx.extend (hash_ctx.make 0 0 [] []) z) = 0 then h else take 7 h))"

lemma is224_more: "is224 (hash_ctx.extend (hash_ctx.make 0 0 [] []) (hash_ctx.more ctx)) = is224 ctx"
  by (cases ctx) (simp add: hash_ctx.defs)

interpretation sha256m: hash_module 64 sha256_compress mbedtls_sha256_update_ret
  mbedtls_sha256_finish_ret "\<lambda>l. be64 (of_nat (8 * l))" sha256_bytes 32
proof unfold_locales
  fix iv and c :: sha256_context and m p :: "byte list"
  assume "absorbed 64 sha256_compress iv c m" and "length p < 2 ^ LENGTH(32)"
  then show "\<exists>c'. mbedtls_sha256_update_ret c p = Inr c' \<and>
      absorbed 64 sha256_compress iv c' (m @ p) \<and> hash_ctx.more c' = hash_ctx.more c"
    using sha256.stream_update_absorbs [of iv c m p] by (simp add: mbedtls_sha256_update_ret_eq)
next
  fix iv and c :: sha256_context and m out
  assume abs: "absorbed 64 sha256_compress iv c m" and out: "length (out :: byte list) = 32"
  have "\<exists>c'. mbedtls_sha256_finish_ret c out = Inr (c', memcpy out 0 (sha256_bytes (hash_ctx.more c)
      (foldl sha256_compress iv (blocks (2 ^ 6) (md_pad (2 ^ 6) (be64 (of_nat (8 * length m))) m)))))"
    using abs out length_fields(1)
    by (intro sha256.finish_from_pad [where lenbytes = length_be and l = 8])
      (simp_all add: mbedtls_sha256_finish_ret_eq sha256_bytes_def is224_more)
  then show "\<exists>c'. mbedtls_sha256_finish_ret c out = Inr (c', memcpy out 0 (sha256_bytes (hash_ctx.more c)
      (foldl sha256_compress iv (blocks 64 (md_pad 64 (be64 (of_nat (8 * length m))) m)))))"
    by simp
qed

subsection \<open>The unrolled rounds are the rolled ones\<close>

definition sha256_rot :: "nat \<Rightarrow> u32 list \<Rightarrow> u32 list" where
  "sha256_rot j A = map (\<lambda>i. A ! ((i + 8 - j) mod 8)) [0..<8]"

definition sha256_P_at :: "nat \<Rightarrow> u32 list \<Rightarrow> u32 \<Rightarrow> u32 \<Rightarrow> u32 list" where
  "sha256_P_at j A = sha256_P A ((0 + 8 - j) mod 8) ((1 + 8 - j) mod 8) ((2 + 8 - j) mod 8)
     ((3 + 8 - j) mod 8) ((4 + 8 - j) mod 8) ((5 + 8 - j) mod 8) ((6 + 8 - j) mod 8) ((7 + 8 - j) mod 8)"

definition sha256_turn :: "u32 list \<Rightarrow> u32 \<Rightarrow> u32 \<Rightarrow> u32 list" where
  "sha256_turn A x K =
     (let A = sha256_P A 0 1 2 3 4 5 6 7 x K;
          temp1 = A ! 7;
          A = A[7 := A ! 6]; A = A[6 := A ! 5]; A = A[5 := A ! 4]; A = A[4 := A ! 3];
          A = A[3 := A ! 2]; A = A[2 := A ! 1]; A = A[1 := A ! 0]; A = A[0 := temp1]
      in A)"

lemma upt_8: "[0..<8] = [0, 1, 2, 3, 4, 5, 6, 7::nat]"
  by (simp add: upt_rec)

lemma less_8: "(j::nat) < 8 \<Longrightarrow> j = 0 \<or> j = 1 \<or> j = 2 \<or> j = 3 \<or> j = 4 \<or> j = 5 \<or> j = 6 \<or> j = 7"
  by arith

lemma length_sha256_P [simp]: "length (sha256_P A a b c d e f g h x K) = length A"
  by (simp add: sha256_P_def Let_def)

lemma length_sha256_P_at [simp]: "length (sha256_P_at j A x K) = length A"
  by (simp add: sha256_P_at_def)

text \<open>One rolled round on the rotated array is one unrolled round, rotated once more.\<close>

lemma sha256_turn_rot:
  assumes "length A = 8" and "j < 8"
  shows "sha256_turn (sha256_rot j A) x K = sha256_rot (Suc j) (sha256_P_at j A x K)"
proof -
  obtain a b c d e f g h where A: "A = [a, b, c, d, e, f, g, h]"
    using assms(1) by (auto simp: list8_conv)
  show ?thesis
    using less_8 [OF assms(2)] unfolding A
    by (elim disjE) (simp_all add: sha256_turn_def sha256_rot_def sha256_P_at_def sha256_P_def upt_8 Let_def)
qed

lemma sha256_small_round_turn:
  "sha256_small_round data (A, W) i =
     (let W = (if i < 16 then W[i := GET_UINT32_BE data (4 * i)] else sha256_R W i)
      in (sha256_turn A (W ! i) (sha256_K ! i), W))"
  by (simp add: sha256_small_round_def sha256_turn_def Let_def)

lemma sha256_rot_ends: "length A = 8 \<Longrightarrow> sha256_rot 0 A = A" "length A = 8 \<Longrightarrow> sha256_rot 8 A = A"
  by (auto simp: list8_conv sha256_rot_def upt_8)

text \<open>Up to eight rounds from \<open>t\<close>, with the schedule word of each round given by \<open>step\<close>.\<close>

lemma sha256_rounds_rot:
  assumes A: "length A = 8" and "m \<le> 8"
    and step: "\<And>j B. j < m \<Longrightarrow> sha256_small_round data (B, W j) (t + j)
      = (sha256_turn B (x j) (sha256_K ! (t + j)), W (Suc j))"
  shows "length (foldl (\<lambda>A j. sha256_P_at j A (x j) (sha256_K ! (t + j))) A [0..<m]) = 8 \<and>
    foldl (sha256_small_round data) (A, W 0) (map (\<lambda>j. t + j) [0..<m]) =
      (sha256_rot m (foldl (\<lambda>A j. sha256_P_at j A (x j) (sha256_K ! (t + j))) A [0..<m]), W m)"
  using assms(2,3)
proof (induction m)
  case 0
  then show ?case using A by (simp add: sha256_rot_ends)
next
  case (Suc m)
  then show ?case by (simp add: sha256_turn_rot)
qed

lemmas sha256_unroll = sha256_P_at_def upt_8 Let_def sha256_rot_ends

lemma sha256_next8_small:
  assumes A: "length A = 8" and t: "16 \<le> t"
  shows "foldl (sha256_small_round data) (A, W) (map (\<lambda>j. t + j) [0..<8]) = sha256_next8 (A, W) t"
proof -
  define V where "V j = foldl (\<lambda>W j. sha256_R W (t + j)) W [0..<j]" for j
  have V: "V 0 = W" "V (Suc j) = sha256_R (V j) (t + j)" for j
    by (simp_all add: V_def)
  have Vn: "V (numeral k) = sha256_R (V (pred_numeral k)) (t + pred_numeral k)" for k
    by (simp add: numeral_eq_Suc V)
  have *: "sha256_small_round data (B, V j) (t + j)
      = (sha256_turn B (V (Suc j) ! (t + j)) (sha256_K ! (t + j)), V (Suc j))" for j B
    using t by (simp add: sha256_small_round_turn V Let_def)
  show ?thesis
    using sha256_rounds_rot [of A 8 data V t "\<lambda>j. V (Suc j) ! (t + j)", OF A order_refl *] A
    by (simp add: sha256_next8_def sha256_unroll V Vn)
qed

text \<open>In the first sixteen rounds the rolled loop fills the schedule as it goes.\<close>

lemma take_replicate_update:
  assumes "t < length V" and "length V \<le> n"
  shows "(take t V @ replicate (n - t) a)[t := V ! t] = take (Suc t) V @ replicate (n - Suc t) a"
proof -
  obtain r where "n - t = Suc r" "n - Suc t = r"
    using assms by (metis Suc_diff_Suc less_le_trans)
  then show ?thesis
    using assms by (simp add: take_Suc_conv_app_nth list_update_append)
qed

lemma sha256_first8_small:
  assumes A: "length A = 8" and t: "t + 8 \<le> 16" and V: "V = map (\<lambda>i. GET_UINT32_BE data (4 * i)) [0..<16]"
  shows "foldl (sha256_small_round data) (A, take t V @ replicate (64 - t) 0) (map (\<lambda>j. t + j) [0..<8])
    = (sha256_first8 (V @ replicate 48 0) A t, take (t + 8) V @ replicate (64 - (t + 8)) 0)"
proof -
  let ?W = "\<lambda>j. take (t + j) V @ replicate (64 - (t + j)) 0"
  have *: "sha256_small_round data (B, ?W j) (t + j)
      = (sha256_turn B ((V @ replicate 48 0) ! (t + j)) (sha256_K ! (t + j)), ?W (Suc j))"
    if "j < 8" for j B
  proof -
    have "(?W j)[t + j := GET_UINT32_BE data (4 * (t + j))] = ?W (Suc j)"
      using take_replicate_update [of "t + j" V 64 0] t that by (simp add: V)
    moreover have "?W (Suc j) ! (t + j) = (V @ replicate 48 0) ! (t + j)"
      using t that by (simp add: V nth_append)
    ultimately show ?thesis
      using t that by (simp add: sha256_small_round_turn Let_def)
  qed
  show ?thesis
    using sha256_rounds_rot [of A 8 data ?W t "\<lambda>j. (V @ replicate 48 0) ! (t + j)", OF A order_refl *] A
    by (simp add: sha256_first8_def sha256_unroll)
qed

lemma length_sha256_first8 [simp]: "length (sha256_first8 W A i) = length A"
  by (simp add: sha256_first8_def Let_def)

lemma length_sha256_next8: "length (fst (sha256_next8 AW i)) = length (fst AW)"
  by (cases AW) (simp add: sha256_next8_def Let_def)

subsection \<open>Properties\<close>

text \<open>
  Property C1. After \<open>mbedtls_sha256_starts_ret\<close>, any sequence of
  \<open>mbedtls_sha256_update_ret\<close> calls on pieces shorter than 4 GiB and a final
  \<open>mbedtls_sha256_finish_ret\<close> return 0 and write the SHA-256 (SHA-224) digest
  of the concatenated pieces: the chaining value over the padded message. How the
  message is cut into pieces makes no difference.
\<close>

theorem sha256_stream_correct:
  assumes "length (buffer ctx) = 64" and "length output = 32"
    and "\<forall>p \<in> set ps. length p < 2 ^ 32"
  shows "chk (mbedtls_sha256_starts_ret ctx is)
      (\<lambda>ctx. chk (updates mbedtls_sha256_update_ret ctx ps)
        (\<lambda>ctx. chk (mbedtls_sha256_finish_ret ctx output) (\<lambda>(ctx, output). Inr output)))
    = Inr (memcpy output 0 (sha256_digest is (concat ps)))"
proof -
  let ?c = "ctx\<lparr>total0 := 0, total1 := 0, state := sha256_iv is, is224 := is\<rparr>"
  have "absorbed 64 sha256_compress (sha256_iv is) ?c []"
    using sha256.absorbed_start [of ?c "sha256_iv is"] assms(1) by simp
  from sha256m.session [OF this assms(2), of ps] assms(3) show ?thesis
    by (simp add: mbedtls_sha256_starts_ret_def sha256_digest_def sha256_bytes_def is224_more Let_def)
qed

theorem sha256_stream_correct_witness:
  "chk (mbedtls_sha256_starts_ret mbedtls_sha256_init 0)
      (\<lambda>ctx. chk (updates mbedtls_sha256_update_ret ctx [[0x61], [0x62, 0x63]])
        (\<lambda>ctx. chk (mbedtls_sha256_finish_ret ctx (replicate 32 0)) (\<lambda>(ctx, output). Inr output)))
    = Inr (memcpy (replicate 32 0) 0 (sha256_digest 0 [0x61, 0x62, 0x63]))"
  using sha256_stream_correct [of mbedtls_sha256_init "replicate 32 0" "[[0x61], [0x62, 0x63]]" 0]
  by (simp add: mbedtls_sha256_init_def)


text \<open>
  The block function as compiled, with its two loops of eight unrolled
  rounds and rotated argument places, computes the same chaining state as the rolled
  loop of 64 rounds that the file holds for small targets.
\<close>

theorem sha256_unrolled_eq_rolled:
  assumes "length st = 8"
  shows "sha256_compress st data = sha256_small_compress st data"
proof -
  let ?V = "map (\<lambda>i. GET_UINT32_BE data (4 * i)) [0..<16]"
  let ?f = "foldl (sha256_small_round data)" and ?g = "\<lambda>t. map (\<lambda>j. t + j) [0..<8]"
  have seq: "[0..<64] = ?g 0 @ ?g 8 @ ?g 16 @ ?g 24 @ ?g 32 @ ?g 40 @ ?g 48 @ ?g 56"
    by (simp add: upt_rec)
  have first: "?f (?f (st, replicate 64 0) (?g 0)) (?g 8) =
      (foldl (sha256_first8 (?V @ replicate 48 0)) st [0, 8], ?V @ replicate 48 0)"
    using sha256_first8_small [OF assms, of 0 ?V data]
      sha256_first8_small [of "sha256_first8 (?V @ replicate 48 0) st 0" 8 ?V data] assms
    by simp
  have nxt: "?f AW (?g t) = sha256_next8 AW t" if "length (fst AW) = 8" "16 \<le> t" for AW t
    using sha256_next8_small [of "fst AW" t data "snd AW"] that by simp
  have "length (fst (foldl (sha256_first8 (?V @ replicate 48 0)) st [0, 8], ?V @ replicate 48 0)) = 8"
    using assms by simp
  then have "?f (st, replicate 64 0) [0..<64] =
      foldl sha256_next8 (foldl (sha256_first8 (?V @ replicate 48 0)) st [0, 8], ?V @ replicate 48 0)
        [16, 24, 32, 40, 48, 56]"
    unfolding seq foldl_append first
    by (simp add: nxt length_sha256_next8 del: upt.simps split del: prod.split)
  then show ?thesis
    by (simp only: sha256_small_compress_def sha256_compress_def Let_def)
qed

theorem sha256_unrolled_eq_rolled_witness:
  "sha256_compress (sha256_iv 0) (replicate 64 0x61) = sha256_small_compress (sha256_iv 0) (replicate 64 0x61)"
  using sha256_unrolled_eq_rolled [of "sha256_iv 0" "replicate 64 0x61"] by (simp add: sha256_iv_def)

text \<open>
  The byte counter only sees the low 32 bits of \<open>ilen\<close>: one update of
  exactly 4 GiB absorbs all its blocks but leaves both counter words as they were, so the
  length that \<open>finish\<close> appends is that of a message without those 4 GiB.
\<close>

theorem sha256_update_4GiB_not_counted:
  assumes "length input = 2 ^ 32" and "total0 ctx AND 0x3F = 0"
  shows "\<exists>ctx'. mbedtls_sha256_update_ret ctx input = Inr ctx' \<and>
    total0 ctx' = total0 ctx \<and> total1 ctx' = total1 ctx \<and>
    state ctx' = foldl sha256_compress (state ctx) (blocks 64 input)"
proof -
  have "rest 64 input = []"
    using assms(1) by (simp flip: length_0_conv add: length_rest)
  moreover have "of_nat (length input) = (0 :: u32)" and "input \<noteq> []"
    using assms(1) by auto
  ultimately show ?thesis
    using assms(2) sha256.process_blocks_eq [of _ input]
    by (auto simp: mbedtls_sha256_update_ret_def Let_def)
qed

theorem sha256_update_4GiB_not_counted_witness:
  "\<exists>ctx'. mbedtls_sha256_update_ret mbedtls_sha256_init (replicate (2 ^ 32) 0x61) = Inr ctx' \<and>
    total0 ctx' = 0 \<and> total1 ctx' = 0 \<and>
    state ctx' = foldl sha256_compress (replicate 8 0) (blocks 64 (replicate (2 ^ 32) 0x61))"
  using sha256_update_4GiB_not_counted [of "replicate (2 ^ 32) 0x61" mbedtls_sha256_init]
  by (simp add: mbedtls_sha256_init_def)

end
