(* ===== verification/Sha512.thy ===== *)
theory Sha512
  imports Hash_Stream
begin

text \<open>
  \<open>mbedtls/library/sha512.c\<close>: context (64-bit counter words, blocks of 128
  bytes), block function and streaming interface of SHA-512 and SHA-384.
\<close>

record sha512_context = "u64 hash_ctx" +
  is384 :: int

definition mbedtls_sha512_init :: sha512_context where
  "mbedtls_sha512_init = \<lparr>total0 = 0, total1 = 0, state = replicate 8 0,
     buffer = replicate 128 0, is384 = 0\<rparr>"

definition mbedtls_sha512_free :: "sha512_context \<Rightarrow> sha512_context" where
  "mbedtls_sha512_free ctx = \<lparr>total0 = 0, total1 = 0, state = replicate 8 0,
     buffer = replicate 128 0, is384 = 0\<rparr>"

definition mbedtls_sha512_clone :: "sha512_context \<Rightarrow> sha512_context \<Rightarrow> sha512_context" where
  "mbedtls_sha512_clone dst src = src"

definition sha512_iv :: "int \<Rightarrow> u64 list" where
  "sha512_iv is = (if is = 0
     then [0x6A09E667F3BCC908, 0xBB67AE8584CAA73B, 0x3C6EF372FE94F82B,
           0xA54FF53A5F1D36F1, 0x510E527FADE682D1, 0x9B05688C2B3E6C1F,
           0x1F83D9ABFB41BD6B, 0x5BE0CD19137E2179]
     else [0xCBBB9D5DC1059ED8, 0x629A292A367CD507, 0x9159015A3070DD17,
           0x152FECD8F70E5939, 0x67332667FFC00B31, 0x8EB44A8768581511,
           0xDB0C2E0D64F98FA7, 0x47B5481DBEFA4FA4])"

definition mbedtls_sha512_starts_ret :: "sha512_context \<Rightarrow> int \<Rightarrow> sha512_context res" where
  "mbedtls_sha512_starts_ret ctx is =
     Inr (ctx\<lparr>total0 := 0, total1 := 0, state := sha512_iv is, is384 := is\<rparr>)"

definition sha512_K :: "u64 list" where
  "sha512_K =
    [0x428A2F98D728AE22, 0x7137449123EF65CD, 0xB5C0FBCFEC4D3B2F, 0xE9B5DBA58189DBBC,
     0x3956C25BF348B538, 0x59F111F1B605D019, 0x923F82A4AF194F9B, 0xAB1C5ED5DA6D8118,
     0xD807AA98A3030242, 0x12835B0145706FBE, 0x243185BE4EE4B28C, 0x550C7DC3D5FFB4E2,
     0x72BE5D74F27B896F, 0x80DEB1FE3B1696B1, 0x9BDC06A725C71235, 0xC19BF174CF692694,
     0xE49B69C19EF14AD2, 0xEFBE4786384F25E3, 0x0FC19DC68B8CD5B5, 0x240CA1CC77AC9C65,
     0x2DE92C6F592B0275, 0x4A7484AA6EA6E483, 0x5CB0A9DCBD41FBD4, 0x76F988DA831153B5,
     0x983E5152EE66DFAB, 0xA831C66D2DB43210, 0xB00327C898FB213F, 0xBF597FC7BEEF0EE4,
     0xC6E00BF33DA88FC2, 0xD5A79147930AA725, 0x06CA6351E003826F, 0x142929670A0E6E70,
     0x27B70A8546D22FFC, 0x2E1B21385C26C926, 0x4D2C6DFC5AC42AED, 0x53380D139D95B3DF,
     0x650A73548BAF63DE, 0x766A0ABB3C77B2A8, 0x81C2C92E47EDAEE6, 0x92722C851482353B,
     0xA2BFE8A14CF10364, 0xA81A664BBC423001, 0xC24B8B70D0F89791, 0xC76C51A30654BE30,
     0xD192E819D6EF5218, 0xD69906245565A910, 0xF40E35855771202A, 0x106AA07032BBD1B8,
     0x19A4C116B8D2D0C8, 0x1E376C085141AB53, 0x2748774CDF8EEB99, 0x34B0BCB5E19B48A8,
     0x391C0CB3C5C95A63, 0x4ED8AA4AE3418ACB, 0x5B9CCA4F7763E373, 0x682E6FF3D6B2B8A3,
     0x748F82EE5DEFB2FC, 0x78A5636F43172F60, 0x84C87814A1F0AB72, 0x8CC702081A6439EC,
     0x90BEFFFA23631E28, 0xA4506CEBDE82BDE9, 0xBEF9A3F7B2C67915, 0xC67178F2E372532B,
     0xCA273ECEEA26619C, 0xD186B8C721C0C207, 0xEADA7DD6CDE0EB1E, 0xF57D4F7FEE6ED178,
     0x06F067AA72176FBA, 0x0A637DC5A2C898A6, 0x113F9804BEF90DAE, 0x1B710B35131C471B,
     0x28DB77F523047D84, 0x32CAAB7B40C72493, 0x3C9EBE0A15C9BEBC, 0x431D67C49C100D4C,
     0x4CC5D4BECB3E42B6, 0x597F299CFC657E2A, 0x5FCB6FAB3AD6FAEC, 0x6C44198C4A475817]"

definition sha512_SHR :: "u64 \<Rightarrow> nat \<Rightarrow> u64" where
  "sha512_SHR x n = drop_bit n x"

definition sha512_ROTR :: "u64 \<Rightarrow> nat \<Rightarrow> u64" where
  "sha512_ROTR x n = sha512_SHR x n OR push_bit (64 - n) x"

definition sha512_S0 :: "u64 \<Rightarrow> u64" where
  "sha512_S0 x = sha512_ROTR x 1 XOR sha512_ROTR x 8 XOR sha512_SHR x 7"

definition sha512_S1 :: "u64 \<Rightarrow> u64" where
  "sha512_S1 x = sha512_ROTR x 19 XOR sha512_ROTR x 61 XOR sha512_SHR x 6"

definition sha512_S2 :: "u64 \<Rightarrow> u64" where
  "sha512_S2 x = sha512_ROTR x 28 XOR sha512_ROTR x 34 XOR sha512_ROTR x 39"

definition sha512_S3 :: "u64 \<Rightarrow> u64" where
  "sha512_S3 x = sha512_ROTR x 14 XOR sha512_ROTR x 18 XOR sha512_ROTR x 41"

definition sha512_F0 :: "u64 \<Rightarrow> u64 \<Rightarrow> u64 \<Rightarrow> u64" where
  "sha512_F0 x y z = (x AND y) OR (z AND (x OR y))"

definition sha512_F1 :: "u64 \<Rightarrow> u64 \<Rightarrow> u64 \<Rightarrow> u64" where
  "sha512_F1 x y z = z XOR (x AND (y XOR z))"

definition sha512_P ::
  "u64 list \<Rightarrow> nat \<Rightarrow> nat \<Rightarrow> nat \<Rightarrow> nat \<Rightarrow> nat \<Rightarrow> nat \<Rightarrow> nat \<Rightarrow> nat \<Rightarrow> u64 \<Rightarrow> u64 \<Rightarrow> u64 list" where
  "sha512_P V a b c d e f g h x K =
     (let temp1 = V ! h + sha512_S3 (V ! e) + sha512_F1 (V ! e) (V ! f) (V ! g) + K + x;
          temp2 = sha512_S2 (V ! a) + sha512_F0 (V ! a) (V ! b) (V ! c)
      in V[d := V ! d + temp1, h := temp1 + temp2])"

text \<open>The schedule: sixteen words of the block, then 64 more by the recurrence.\<close>

definition sha512_W :: "u64 list \<Rightarrow> nat \<Rightarrow> u64 list" where
  "sha512_W W i = W[i := sha512_S1 (W ! (i - 2)) + W ! (i - 7) + sha512_S0 (W ! (i - 15)) + W ! (i - 16)]"

text \<open>The body of the do-while loop: eight rounds from round \<open>i\<close> on, \<open>A..H\<close> as places 0 to 7.\<close>

definition sha512_rounds8 :: "u64 list \<Rightarrow> u64 list \<Rightarrow> nat \<Rightarrow> u64 list" where
  "sha512_rounds8 W V i =
     (let
        V = sha512_P V 0 1 2 3 4 5 6 7 (W ! (i + 0)) (sha512_K ! (i + 0));
        V = sha512_P V 7 0 1 2 3 4 5 6 (W ! (i + 1)) (sha512_K ! (i + 1));
        V = sha512_P V 6 7 0 1 2 3 4 5 (W ! (i + 2)) (sha512_K ! (i + 2));
        V = sha512_P V 5 6 7 0 1 2 3 4 (W ! (i + 3)) (sha512_K ! (i + 3));
        V = sha512_P V 4 5 6 7 0 1 2 3 (W ! (i + 4)) (sha512_K ! (i + 4));
        V = sha512_P V 3 4 5 6 7 0 1 2 (W ! (i + 5)) (sha512_K ! (i + 5));
        V = sha512_P V 2 3 4 5 6 7 0 1 (W ! (i + 6)) (sha512_K ! (i + 6));
        V = sha512_P V 1 2 3 4 5 6 7 0 (W ! (i + 7)) (sha512_K ! (i + 7))
      in V)"

definition sha512_compress :: "u64 list \<Rightarrow> byte list \<Rightarrow> u64 list" where
  "sha512_compress st data =
     (let W = map (\<lambda>i. GET_UINT64_BE data (push_bit 3 i)) [0..<16] @ replicate 64 0;
          W = foldl sha512_W W [16..<80];
          V = map (\<lambda>i. st ! i) [0..<8];
          V = foldl (sha512_rounds8 W) V [0, 8, 16, 24, 32, 40, 48, 56, 64, 72]
      in map (\<lambda>i. st ! i + V ! i) [0..<8])"

definition mbedtls_internal_sha512_process ::
  "sha512_context \<Rightarrow> byte list \<Rightarrow> sha512_context res" where
  "mbedtls_internal_sha512_process ctx data =
     Inr (ctx\<lparr>state := sha512_compress (state ctx) data\<rparr>)"

definition mbedtls_sha512_update_ret :: "sha512_context \<Rightarrow> byte list \<Rightarrow> sha512_context res" where
  "mbedtls_sha512_update_ret ctx input =
    (if length input = 0 then Inr ctx
     else
       let left = unat (total0 ctx AND 0x7F);
           fill = 128 - left;
           ilen = of_nat (length input);
           ctx = ctx\<lparr>total0 := total0 ctx + ilen\<rparr>;
           ctx = (if total0 ctx < ilen then ctx\<lparr>total1 := total1 ctx + 1\<rparr> else ctx)
       in chk (if left \<noteq> 0 \<and> fill \<le> length input
               then let ctx = ctx\<lparr>buffer := memcpy (buffer ctx) left (take fill input)\<rparr>
                    in chk (mbedtls_internal_sha512_process ctx (buffer ctx))
                         (\<lambda>ctx. Inr (ctx, drop fill input, 0))
               else Inr (ctx, input, left))
            (\<lambda>(ctx, input, left).
              chk (process_blocks 128 mbedtls_internal_sha512_process ctx input)
                (\<lambda>(ctx, input).
                  if 0 < length input
                  then Inr (ctx\<lparr>buffer := memcpy (buffer ctx) left input\<rparr>)
                  else Inr ctx)))"

definition mbedtls_sha512_finish_ret ::
  "sha512_context \<Rightarrow> byte list \<Rightarrow> (sha512_context \<times> byte list) res" where
  "mbedtls_sha512_finish_ret ctx output =
    (let used = unat (total0 ctx AND 0x7F);
         buf = (buffer ctx)[used := 0x80];
         used = used + 1
     in chk (if used \<le> 112
             then Inr (ctx\<lparr>buffer := memset buf used 0 (112 - used)\<rparr>)
             else let buf = memset buf used 0 (128 - used)
                  in chk (mbedtls_internal_sha512_process (ctx\<lparr>buffer := buf\<rparr>) buf)
                       (\<lambda>ctx. Inr (ctx\<lparr>buffer := memset (buffer ctx) 0 0 112\<rparr>)))
          (\<lambda>ctx.
            let high = drop_bit 61 (total0 ctx) OR push_bit 3 (total1 ctx);
                low = push_bit 3 (total0 ctx);
                buf = PUT_UINT64_BE high (buffer ctx) 112;
                buf = PUT_UINT64_BE low buf 120
            in chk (mbedtls_internal_sha512_process (ctx\<lparr>buffer := buf\<rparr>) buf)
                 (\<lambda>ctx.
                   let output = PUT_UINT64_BE (state ctx ! 0) output 0;
                       output = PUT_UINT64_BE (state ctx ! 1) output 8;
                       output = PUT_UINT64_BE (state ctx ! 2) output 16;
                       output = PUT_UINT64_BE (state ctx ! 3) output 24;
                       output = PUT_UINT64_BE (state ctx ! 4) output 32;
                       output = PUT_UINT64_BE (state ctx ! 5) output 40;
                       output = (if is384 ctx = 0
                                 then PUT_UINT64_BE (state ctx ! 7) (PUT_UINT64_BE (state ctx ! 6) output 48) 56
                                 else output)
                   in Inr (ctx, output))))"

definition mbedtls_sha512_ret :: "byte list \<Rightarrow> byte list \<Rightarrow> int \<Rightarrow> byte list res" where
  "mbedtls_sha512_ret input output is =
     chk (mbedtls_sha512_starts_ret mbedtls_sha512_init is)
       (\<lambda>ctx. chk (mbedtls_sha512_update_ret ctx input)
         (\<lambda>ctx. chk (mbedtls_sha512_finish_ret ctx output)
           (\<lambda>(ctx, output). Inr output)))"

lemma length_sha512_compress [simp]: "length (sha512_compress st data) = 8"
  by (simp add: sha512_compress_def Let_def)

subsection \<open>The module as a provider for the streaming layer\<close>

interpretation sha512: block_hash 7 mbedtls_internal_sha512_process sha512_compress
  by unfold_locales (simp_all add: mbedtls_internal_sha512_process_def)

lemma mask_127: "of_nat 128 - 1 = (0x7F :: u64)"
  by simp

lemma unat_and_127: "unat (x AND (0x7F :: u64)) < 128"
proof -
  have "unat (x AND 0x7F) \<le> unat (0x7F :: u64)"
    by (rule word_and_le1 [THEN word_le_nat_alt [THEN iffD1]])
  then show ?thesis by simp
qed

lemma mbedtls_sha512_update_ret_eq:
  "mbedtls_sha512_update_ret = stream_update 128 mbedtls_internal_sha512_process"
  by (intro ext) (simp only: mbedtls_sha512_update_ret_def stream_update_def Let_def mask_127)

definition length128_be :: "u64 \<Rightarrow> u64 \<Rightarrow> byte list" where
  "length128_be t0 t1 = be64 (drop_bit 61 t0 OR push_bit 3 t1) @ be64 (push_bit 3 t0)"

definition length128 :: "nat \<Rightarrow> byte list" where
  "length128 l = be64 (of_nat (8 * l div 2 ^ 64)) @ be64 (of_nat (8 * l))"

lemma length_length128_be [simp]: "length (length128_be a b) = 16"
  by (simp add: length128_be_def)

lemma length128_field:
  fixes c :: "(u64, 'z) hash_ctx_scheme"
  assumes "byte_count c = m mod 2 ^ (2 * LENGTH(64))"
  shows "length128_be (total0 c) (total1 c) = length128 m"
proof -
  let ?w = "of_nat (8 * (unat (total0 c) + 2 ^ 64 * unat (total1 c))) :: 128 word"
  have "?w = push_bit 3 (ucast (total0 c) OR push_bit 64 (ucast (total1 c)))"
  proof -
    have "ucast (total0 c) OR push_bit 64 (ucast (total1 c))
        = (ucast (total0 c) + push_bit 64 (ucast (total1 c)) :: 128 word)"
      by (rule disjunctive_add [symmetric]) (auto simp: bit_simps dest: bit_imp_le_length)
    then show ?thesis
      by (simp add: push_bit_eq_mult distrib_left)
  qed
  then have halves: "ucast (drop_bit 64 ?w) = drop_bit 61 (total0 c) OR push_bit 3 (total1 c)"
    "ucast ?w = push_bit 3 (total0 c)"
    by (auto intro!: bit_word_eqI simp: bit_simps)
  have w: "?w = of_nat (8 * m)"
  proof -
    have "(8 * (m mod 2 ^ 128)) mod 2 ^ 128 = (8 * m) mod (2 ^ 128 :: nat)"
      by (simp add: mod_mult_right_eq)
    then show ?thesis
      using assms by (simp add: byte_count_def word_of_nat_eq_iff take_bit_eq_mod del: of_nat_mult)
  qed
  have "ucast (of_nat (8 * m) :: 128 word) = (of_nat (8 * m) :: u64)"
    by (simp add: word_unat_eq_iff unsigned_ucast_eq unsigned_of_nat take_bit_take_bit del: of_nat_mult)
  moreover have "ucast (drop_bit 64 (of_nat (8 * m) :: 128 word)) = (of_nat (8 * m div 2 ^ 64) :: u64)"
  proof -
    have "ucast (drop_bit 64 (of_nat x :: 128 word)) = (of_nat (drop_bit 64 x) :: u64)" for x :: nat
      by (rule bit_word_eqI) (auto simp: bit_simps)
    then show ?thesis
      by (simp only: drop_bit_eq_div)
  qed
  ultimately show ?thesis
    using halves unfolding w length128_be_def length128_def by (simp only:)
qed

lemma mbedtls_sha512_finish_ret_eq:
  assumes "length (buffer ctx) = 128" and "length output = 64"
  shows "mbedtls_sha512_finish_ret ctx output =
    chk (stream_pad 128 16 length128_be mbedtls_internal_sha512_process ctx)
      (\<lambda>ctx. Inr (ctx, memcpy output 0 (concat (map be64
        (if is384 ctx = 0 then state ctx else take 6 (state ctx))))))"
proof -
  have out: "(let output = PUT_UINT64_BE (h ! 0) output 0;
              output = PUT_UINT64_BE (h ! 1) output 8;
              output = PUT_UINT64_BE (h ! 2) output 16;
              output = PUT_UINT64_BE (h ! 3) output 24;
              output = PUT_UINT64_BE (h ! 4) output 32;
              output = PUT_UINT64_BE (h ! 5) output 40
          in if i then PUT_UINT64_BE (h ! 7) (PUT_UINT64_BE (h ! 6) output 48) 56 else output)
    = memcpy output 0 (concat (map be64 (if i then h else take 6 h)))" if "length h = 8" for h i
    using that assms(2) by (auto simp: list8_conv bytes_simps Let_def)
  show ?thesis
    using assms unat_and_127 [of "total0 ctx"] out
    by (auto simp: mbedtls_sha512_finish_ret_def stream_pad_def Let_def mask_127 length128_be_def
      PUT_UINT64_BE_pair mbedtls_internal_sha512_process_def mem_simps)
qed

definition sha512_bytes :: "unit sha512_context_ext \<Rightarrow> u64 list \<Rightarrow> byte list" where
  "sha512_bytes z h = concat (map be64
     (if is384 (hash_ctx.extend (hash_ctx.make 0 0 [] []) z) = 0 then h else take 6 h))"

lemma is384_more: "is384 (hash_ctx.extend (hash_ctx.make 0 0 [] []) (hash_ctx.more ctx)) = is384 ctx"
  by (cases ctx) (simp add: hash_ctx.defs)

interpretation sha512m: hash_module 128 sha512_compress mbedtls_sha512_update_ret
  mbedtls_sha512_finish_ret length128 sha512_bytes 64
proof unfold_locales
  fix iv and c :: sha512_context and m p :: "byte list"
  assume "absorbed 128 sha512_compress iv c m" and "length p < 2 ^ LENGTH(64)"
  then show "\<exists>c'. mbedtls_sha512_update_ret c p = Inr c' \<and>
      absorbed 128 sha512_compress iv c' (m @ p) \<and> hash_ctx.more c' = hash_ctx.more c"
    using sha512.stream_update_absorbs [of iv c m p] by (simp add: mbedtls_sha512_update_ret_eq)
next
  fix iv and c :: sha512_context and m out
  assume abs: "absorbed 128 sha512_compress iv c m" and out: "length (out :: byte list) = 64"
  have "\<exists>c'. mbedtls_sha512_finish_ret c out = Inr (c', memcpy out 0 (sha512_bytes (hash_ctx.more c)
      (foldl sha512_compress iv (blocks (2 ^ 7) (md_pad (2 ^ 7) (length128 (length m)) m)))))"
    using abs out length128_field
    by (intro sha512.finish_from_pad [where lenbytes = length128_be and l = 16 and field = length128])
      (simp_all add: mbedtls_sha512_finish_ret_eq sha512_bytes_def is384_more)
  then show "\<exists>c'. mbedtls_sha512_finish_ret c out = Inr (c', memcpy out 0 (sha512_bytes (hash_ctx.more c)
      (foldl sha512_compress iv (blocks 128 (md_pad 128 (length128 (length m)) m)))))"
    by simp
qed

subsection \<open>Properties\<close>

definition sha512_digest :: "int \<Rightarrow> byte list \<Rightarrow> byte list" where
  "sha512_digest is m =
     (let h = foldl sha512_compress (sha512_iv is) (blocks 128 (md_pad 128 (length128 (length m)) m))
      in concat (map be64 (if is = 0 then h else take 6 h)))"

text \<open>
  After \<open>mbedtls_sha512_starts_ret\<close>, any sequence of
  \<open>mbedtls_sha512_update_ret\<close> calls and a final \<open>mbedtls_sha512_finish_ret\<close>
  return 0 and write the SHA-512 (SHA-384) digest of the concatenated pieces; the bound
  on each piece is the range of \<open>size_t\<close>.
\<close>

theorem sha512_stream_correct:
  assumes "length (buffer ctx) = 128" and "length output = 64"
    and "\<forall>p \<in> set ps. length p < 2 ^ 64"
  shows "chk (mbedtls_sha512_starts_ret ctx is)
      (\<lambda>ctx. chk (updates mbedtls_sha512_update_ret ctx ps)
        (\<lambda>ctx. chk (mbedtls_sha512_finish_ret ctx output) (\<lambda>(ctx, output). Inr output)))
    = Inr (memcpy output 0 (sha512_digest is (concat ps)))"
proof -
  let ?c = "ctx\<lparr>total0 := 0, total1 := 0, state := sha512_iv is, is384 := is\<rparr>"
  have "absorbed 128 sha512_compress (sha512_iv is) ?c []"
    using sha512.absorbed_start [of ?c "sha512_iv is"] assms(1) by simp
  from sha512m.session [OF this assms(2), of ps] assms(3) show ?thesis
    by (simp add: mbedtls_sha512_starts_ret_def sha512_digest_def sha512_bytes_def is384_more Let_def)
qed

theorem sha512_stream_correct_witness:
  "chk (mbedtls_sha512_starts_ret mbedtls_sha512_init 1)
      (\<lambda>ctx. chk (updates mbedtls_sha512_update_ret ctx [[0x61], [0x62, 0x63]])
        (\<lambda>ctx. chk (mbedtls_sha512_finish_ret ctx (replicate 64 0)) (\<lambda>(ctx, output). Inr output)))
    = Inr (memcpy (replicate 64 0) 0 (sha512_digest 1 [0x61, 0x62, 0x63]))"
  using sha512_stream_correct [of mbedtls_sha512_init "replicate 64 0" "[[0x61], [0x62, 0x63]]" 1]
  by (simp add: mbedtls_sha512_init_def)

end
