(* ===== verification/Ripemd160.thy ===== *)
theory Ripemd160
  imports Hash_Stream
begin

text \<open>
  \<open>mbedtls/library/ripemd160.c\<close>: context, block function and streaming
  interface. The 80 calls of \<open>P2\<close> are five tables of sixteen, one entry per call;
  \<open>V\<close> holds \<open>A..E\<close> and \<open>Vp\<close> the parallel line \<open>Ap..Ep\<close>. Unlike the
  other modules, \<open>finish\<close> pads by calling \<open>update\<close> itself.
\<close>

type_synonym ripemd160_context = "u32 hash_ctx"

definition mbedtls_ripemd160_init :: ripemd160_context where
  "mbedtls_ripemd160_init = \<lparr>total0 = 0, total1 = 0, state = replicate 5 0,
     buffer = replicate 64 0\<rparr>"

definition mbedtls_ripemd160_free :: "ripemd160_context \<Rightarrow> ripemd160_context" where
  "mbedtls_ripemd160_free ctx = \<lparr>total0 = 0, total1 = 0, state = replicate 5 0,
     buffer = replicate 64 0\<rparr>"

definition mbedtls_ripemd160_clone :: "ripemd160_context \<Rightarrow> ripemd160_context \<Rightarrow> ripemd160_context" where
  "mbedtls_ripemd160_clone dst src = src"

definition ripemd160_iv :: "u32 list" where
  "ripemd160_iv = [0x67452301, 0xEFCDAB89, 0x98BADCFE, 0x10325476, 0xC3D2E1F0]"

definition mbedtls_ripemd160_starts_ret :: "ripemd160_context \<Rightarrow> ripemd160_context res" where
  "mbedtls_ripemd160_starts_ret ctx =
     Inr (ctx\<lparr>total0 := 0, total1 := 0, state := ripemd160_iv\<rparr>)"

definition rmd_F1 :: "u32 \<Rightarrow> u32 \<Rightarrow> u32 \<Rightarrow> u32" where
  "rmd_F1 x y z = x XOR y XOR z"

definition rmd_F2 :: "u32 \<Rightarrow> u32 \<Rightarrow> u32 \<Rightarrow> u32" where
  "rmd_F2 x y z = (x AND y) OR (NOT x AND z)"

definition rmd_F3 :: "u32 \<Rightarrow> u32 \<Rightarrow> u32 \<Rightarrow> u32" where
  "rmd_F3 x y z = (x OR NOT y) XOR z"

definition rmd_F4 :: "u32 \<Rightarrow> u32 \<Rightarrow> u32 \<Rightarrow> u32" where
  "rmd_F4 x y z = (x AND z) OR (y AND NOT z)"

definition rmd_F5 :: "u32 \<Rightarrow> u32 \<Rightarrow> u32 \<Rightarrow> u32" where
  "rmd_F5 x y z = x XOR (y OR NOT z)"

definition rmd_S :: "u32 \<Rightarrow> nat \<Rightarrow> u32" where
  "rmd_S x n = push_bit n x OR drop_bit (32 - n) x"

definition rmd_P :: "u32 list \<Rightarrow> u32 list \<Rightarrow> nat \<Rightarrow> nat \<Rightarrow> nat \<Rightarrow> nat \<Rightarrow> nat \<Rightarrow> nat \<Rightarrow> nat
  \<Rightarrow> (u32 \<Rightarrow> u32 \<Rightarrow> u32 \<Rightarrow> u32) \<Rightarrow> u32 \<Rightarrow> u32 list" where
  "rmd_P X V a b c d e r s f k =
     (let V = V[a := V ! a + (f (V ! b) (V ! c) (V ! d) + X ! r + k)];
          V = V[a := rmd_S (V ! a) s + V ! e]
      in V[c := rmd_S (V ! c) 10])"

definition rmd_P2 :: "u32 list \<Rightarrow> (u32 \<Rightarrow> u32 \<Rightarrow> u32 \<Rightarrow> u32) \<Rightarrow> u32
  \<Rightarrow> (u32 \<Rightarrow> u32 \<Rightarrow> u32 \<Rightarrow> u32) \<Rightarrow> u32 \<Rightarrow> u32 list \<times> u32 list
  \<Rightarrow> nat \<times> nat \<times> nat \<times> nat \<times> nat \<times> nat \<times> nat \<times> nat \<times> nat \<Rightarrow> u32 list \<times> u32 list" where
  "rmd_P2 X F K Fp Kp VV = (\<lambda>(a, b, c, d, e, r, s, rp, sp).
     let (V, Vp) = VV
     in (rmd_P X V a b c d e r s F K, rmd_P X Vp a b c d e rp sp Fp Kp))"

definition rmd_lines1 ::
  "(nat \<times> nat \<times> nat \<times> nat \<times> nat \<times> nat \<times> nat \<times> nat \<times> nat) list" where
  "rmd_lines1 =
     [(0, 1, 2, 3, 4, 0, 11, 5, 8), (4, 0, 1, 2, 3, 1, 14, 14, 9),
      (3, 4, 0, 1, 2, 2, 15, 7, 9), (2, 3, 4, 0, 1, 3, 12, 0, 11),
      (1, 2, 3, 4, 0, 4, 5, 9, 13), (0, 1, 2, 3, 4, 5, 8, 2, 15),
      (4, 0, 1, 2, 3, 6, 7, 11, 15), (3, 4, 0, 1, 2, 7, 9, 4, 5),
      (2, 3, 4, 0, 1, 8, 11, 13, 7), (1, 2, 3, 4, 0, 9, 13, 6, 7),
      (0, 1, 2, 3, 4, 10, 14, 15, 8), (4, 0, 1, 2, 3, 11, 15, 8, 11),
      (3, 4, 0, 1, 2, 12, 6, 1, 14), (2, 3, 4, 0, 1, 13, 7, 10, 14),
      (1, 2, 3, 4, 0, 14, 9, 3, 12), (0, 1, 2, 3, 4, 15, 8, 12, 6)]"

definition rmd_lines2 ::
  "(nat \<times> nat \<times> nat \<times> nat \<times> nat \<times> nat \<times> nat \<times> nat \<times> nat) list" where
  "rmd_lines2 =
     [(4, 0, 1, 2, 3, 7, 7, 6, 9), (3, 4, 0, 1, 2, 4, 6, 11, 13),
      (2, 3, 4, 0, 1, 13, 8, 3, 15), (1, 2, 3, 4, 0, 1, 13, 7, 7),
      (0, 1, 2, 3, 4, 10, 11, 0, 12), (4, 0, 1, 2, 3, 6, 9, 13, 8),
      (3, 4, 0, 1, 2, 15, 7, 5, 9), (2, 3, 4, 0, 1, 3, 15, 10, 11),
      (1, 2, 3, 4, 0, 12, 7, 14, 7), (0, 1, 2, 3, 4, 0, 12, 15, 7),
      (4, 0, 1, 2, 3, 9, 15, 8, 12), (3, 4, 0, 1, 2, 5, 9, 12, 7),
      (2, 3, 4, 0, 1, 2, 11, 4, 6), (1, 2, 3, 4, 0, 14, 7, 9, 15),
      (0, 1, 2, 3, 4, 11, 13, 1, 13), (4, 0, 1, 2, 3, 8, 12, 2, 11)]"

definition rmd_lines3 ::
  "(nat \<times> nat \<times> nat \<times> nat \<times> nat \<times> nat \<times> nat \<times> nat \<times> nat) list" where
  "rmd_lines3 =
     [(3, 4, 0, 1, 2, 3, 11, 15, 9), (2, 3, 4, 0, 1, 10, 13, 5, 7),
      (1, 2, 3, 4, 0, 14, 6, 1, 15), (0, 1, 2, 3, 4, 4, 7, 3, 11),
      (4, 0, 1, 2, 3, 9, 14, 7, 8), (3, 4, 0, 1, 2, 15, 9, 14, 6),
      (2, 3, 4, 0, 1, 8, 13, 6, 6), (1, 2, 3, 4, 0, 1, 15, 9, 14),
      (0, 1, 2, 3, 4, 2, 14, 11, 12), (4, 0, 1, 2, 3, 7, 8, 8, 13),
      (3, 4, 0, 1, 2, 0, 13, 12, 5), (2, 3, 4, 0, 1, 6, 6, 2, 14),
      (1, 2, 3, 4, 0, 13, 5, 10, 13), (0, 1, 2, 3, 4, 11, 12, 0, 13),
      (4, 0, 1, 2, 3, 5, 7, 4, 7), (3, 4, 0, 1, 2, 12, 5, 13, 5)]"

definition rmd_lines4 ::
  "(nat \<times> nat \<times> nat \<times> nat \<times> nat \<times> nat \<times> nat \<times> nat \<times> nat) list" where
  "rmd_lines4 =
     [(2, 3, 4, 0, 1, 1, 11, 8, 15), (1, 2, 3, 4, 0, 9, 12, 6, 5),
      (0, 1, 2, 3, 4, 11, 14, 4, 8), (4, 0, 1, 2, 3, 10, 15, 1, 11),
      (3, 4, 0, 1, 2, 0, 14, 3, 14), (2, 3, 4, 0, 1, 8, 15, 11, 14),
      (1, 2, 3, 4, 0, 12, 9, 15, 6), (0, 1, 2, 3, 4, 4, 8, 0, 14),
      (4, 0, 1, 2, 3, 13, 9, 5, 6), (3, 4, 0, 1, 2, 3, 14, 12, 9),
      (2, 3, 4, 0, 1, 7, 5, 2, 12), (1, 2, 3, 4, 0, 15, 6, 13, 9),
      (0, 1, 2, 3, 4, 14, 8, 9, 12), (4, 0, 1, 2, 3, 5, 6, 7, 5),
      (3, 4, 0, 1, 2, 6, 5, 10, 15), (2, 3, 4, 0, 1, 2, 12, 14, 8)]"

definition rmd_lines5 ::
  "(nat \<times> nat \<times> nat \<times> nat \<times> nat \<times> nat \<times> nat \<times> nat \<times> nat) list" where
  "rmd_lines5 =
     [(1, 2, 3, 4, 0, 4, 9, 12, 8), (0, 1, 2, 3, 4, 0, 15, 15, 5),
      (4, 0, 1, 2, 3, 5, 5, 10, 12), (3, 4, 0, 1, 2, 9, 11, 4, 9),
      (2, 3, 4, 0, 1, 7, 6, 1, 12), (1, 2, 3, 4, 0, 12, 8, 5, 5),
      (0, 1, 2, 3, 4, 2, 13, 8, 14), (4, 0, 1, 2, 3, 10, 12, 7, 6),
      (3, 4, 0, 1, 2, 14, 5, 6, 8), (2, 3, 4, 0, 1, 1, 12, 2, 13),
      (1, 2, 3, 4, 0, 3, 13, 13, 6), (0, 1, 2, 3, 4, 8, 14, 14, 5),
      (4, 0, 1, 2, 3, 11, 11, 0, 15), (3, 4, 0, 1, 2, 6, 8, 3, 13),
      (2, 3, 4, 0, 1, 15, 5, 9, 11), (1, 2, 3, 4, 0, 13, 6, 11, 11)]"

definition ripemd160_compress :: "u32 list \<Rightarrow> byte list \<Rightarrow> u32 list" where
  "ripemd160_compress st data =
     (let X = map (\<lambda>i. GET_UINT32_LE data (4 * i)) [0..<16];
          V = [st ! 0, st ! 1, st ! 2, st ! 3, st ! 4];
          VV = foldl (rmd_P2 X rmd_F1 0x00000000 rmd_F5 0x50A28BE6) (V, V) rmd_lines1;
          VV = foldl (rmd_P2 X rmd_F2 0x5A827999 rmd_F4 0x5C4DD124) VV rmd_lines2;
          VV = foldl (rmd_P2 X rmd_F3 0x6ED9EBA1 rmd_F3 0x6D703EF3) VV rmd_lines3;
          VV = foldl (rmd_P2 X rmd_F4 0x8F1BBCDC rmd_F2 0x7A6D76E9) VV rmd_lines4;
          (V, Vp) = foldl (rmd_P2 X rmd_F5 0xA953FD4E rmd_F1 0x00000000) VV rmd_lines5
      in [st ! 1 + V ! 2 + Vp ! 3, st ! 2 + V ! 3 + Vp ! 4, st ! 3 + V ! 4 + Vp ! 0,
          st ! 4 + V ! 0 + Vp ! 1, st ! 0 + V ! 1 + Vp ! 2])"

definition mbedtls_internal_ripemd160_process ::
  "ripemd160_context \<Rightarrow> byte list \<Rightarrow> ripemd160_context res" where
  "mbedtls_internal_ripemd160_process ctx data =
     Inr (ctx\<lparr>state := ripemd160_compress (state ctx) data\<rparr>)"

definition mbedtls_ripemd160_update_ret :: "ripemd160_context \<Rightarrow> byte list \<Rightarrow> ripemd160_context res" where
  "mbedtls_ripemd160_update_ret ctx input =
    (if length input = 0 then Inr ctx
     else
       let left = unat (total0 ctx AND 0x3F);
           fill = 64 - left;
           ilen = of_nat (length input);
           ctx = ctx\<lparr>total0 := total0 ctx + ilen\<rparr>;
           ctx = ctx\<lparr>total0 := total0 ctx AND 0xFFFFFFFF\<rparr>;
           ctx = (if total0 ctx < ilen then ctx\<lparr>total1 := total1 ctx + 1\<rparr> else ctx)
       in chk (if left \<noteq> 0 \<and> fill \<le> length input
               then let ctx = ctx\<lparr>buffer := memcpy (buffer ctx) left (take fill input)\<rparr>
                    in chk (mbedtls_internal_ripemd160_process ctx (buffer ctx))
                         (\<lambda>ctx. Inr (ctx, drop fill input, 0))
               else Inr (ctx, input, left))
            (\<lambda>(ctx, input, left).
              chk (process_blocks 64 mbedtls_internal_ripemd160_process ctx input)
                (\<lambda>(ctx, input).
                  if 0 < length input
                  then Inr (ctx\<lparr>buffer := memcpy (buffer ctx) left input\<rparr>)
                  else Inr ctx)))"

definition ripemd160_padding :: "byte list" where
  "ripemd160_padding = 0x80 # replicate 63 0"

definition mbedtls_ripemd160_finish_ret ::
  "ripemd160_context \<Rightarrow> byte list \<Rightarrow> (ripemd160_context \<times> byte list) res" where
  "mbedtls_ripemd160_finish_ret ctx output =
    (let high = drop_bit 29 (total0 ctx) OR push_bit 3 (total1 ctx);
         low = push_bit 3 (total0 ctx);
         msglen = PUT_UINT32_LE low (replicate 8 0) 0;
         msglen = PUT_UINT32_LE high msglen 4;
         last = unat (total0 ctx AND 0x3F);
         padn = (if last < 56 then 56 - last else 120 - last)
     in chk (mbedtls_ripemd160_update_ret ctx (take padn ripemd160_padding))
          (\<lambda>ctx. chk (mbedtls_ripemd160_update_ret ctx msglen)
            (\<lambda>ctx.
              let output = PUT_UINT32_LE (state ctx ! 0) output 0;
                  output = PUT_UINT32_LE (state ctx ! 1) output 4;
                  output = PUT_UINT32_LE (state ctx ! 2) output 8;
                  output = PUT_UINT32_LE (state ctx ! 3) output 12;
                  output = PUT_UINT32_LE (state ctx ! 4) output 16
              in Inr (ctx, output))))"

definition mbedtls_ripemd160_ret :: "byte list \<Rightarrow> byte list \<Rightarrow> byte list res" where
  "mbedtls_ripemd160_ret input output =
     chk (mbedtls_ripemd160_starts_ret mbedtls_ripemd160_init)
       (\<lambda>ctx. chk (mbedtls_ripemd160_update_ret ctx input)
         (\<lambda>ctx. chk (mbedtls_ripemd160_finish_ret ctx output)
           (\<lambda>(ctx, output). Inr output)))"

lemma length_ripemd160_compress [simp]: "length (ripemd160_compress st data) = 5"
  by (simp add: ripemd160_compress_def Let_def split: prod.split)

subsection \<open>The module as a provider for the streaming layer\<close>

interpretation ripemd160: block_hash 6 mbedtls_internal_ripemd160_process ripemd160_compress
  by unfold_locales (simp_all add: mbedtls_internal_ripemd160_process_def)

lemma mbedtls_ripemd160_update_ret_eq:
  "mbedtls_ripemd160_update_ret = stream_update 64 mbedtls_internal_ripemd160_process"
  by (intro ext)
    (simp only: mbedtls_ripemd160_update_ret_def stream_update_def Let_def total0_mask mask_63)

lemma ripemd160_update_absorbs:
  "absorbed 64 ripemd160_compress iv c m \<Longrightarrow> length p < 2 ^ 32 \<Longrightarrow>
   \<exists>c'. mbedtls_ripemd160_update_ret c p = Inr c' \<and> absorbed 64 ripemd160_compress iv c' (m @ p) \<and>
     hash_ctx.more c' = hash_ctx.more c"
  using ripemd160.stream_update_absorbs [of iv c m p] by (simp add: mbedtls_ripemd160_update_ret_eq)

text \<open>The two pieces that \<open>finish\<close> feeds to \<open>update\<close> are the padding of the message.\<close>

lemma ripemd160_pad_pieces:
  assumes "r = length m mod 64" and "length len = 8"
  shows "m @ take (if r < 56 then 56 - r else 120 - r) ripemd160_padding @ len = md_pad 64 len m"
proof -
  have "r < 64"
    using assms(1) by simp
  then have "take (if r < 56 then 56 - r else 120 - r) ripemd160_padding
      = 0x80 # replicate ((2 * 64 - 8 - 1 - r) mod 64) 0"
    by (auto simp: ripemd160_padding_def take_Cons' le_mod_geq)
  then show ?thesis
    using assms by (simp add: md_pad_def)
qed

lemma ripemd160_state_length:
  assumes "absorbed 64 ripemd160_compress iv c m" and "64 \<le> length m"
  shows "length (state c) = 5"
proof -
  have "state c = foldl ripemd160_compress (ripemd160_compress iv (take 64 m)) (blocks 64 (drop 64 m))"
    using ripemd160.absorbedD(1) [of iv c m] assms by (simp add: blocks_long)
  moreover have "length (foldl ripemd160_compress h bs) = 5" if "length h = 5" for h bs
    using that by (induction bs rule: rev_induct) simp_all
  ultimately show ?thesis by simp
qed

interpretation ripemd160m: hash_module 64 ripemd160_compress mbedtls_ripemd160_update_ret
  mbedtls_ripemd160_finish_ret "\<lambda>l. le64 (of_nat (8 * l))" "\<lambda>_ h. concat (map le32 h)" 20
proof unfold_locales
  fix iv and c :: ripemd160_context and m p :: "byte list"
  assume "absorbed 64 ripemd160_compress iv c m" and "length p < 2 ^ LENGTH(32)"
  then show "\<exists>c'. mbedtls_ripemd160_update_ret c p = Inr c' \<and>
      absorbed 64 ripemd160_compress iv c' (m @ p) \<and> hash_ctx.more c' = hash_ctx.more c"
    using ripemd160_update_absorbs by simp
next
  fix iv and c :: ripemd160_context and m out
  assume abs: "absorbed 64 ripemd160_compress iv c m" and out: "length (out :: byte list) = 20"
  let ?len = "length_le (total0 c) (total1 c)"
  let ?last = "unat (total0 c AND 0x3F)"
  let ?pad = "take (if ?last < 56 then 56 - ?last else 120 - ?last) ripemd160_padding"
  have D: "byte_count c = length m mod 2 ^ (2 * LENGTH(32))"
    using ripemd160.absorbedD(4) [of iv c m] abs by simp
  have lst: "?last = length m mod 64"
    using ripemd160.left_eq [of c m] D by simp
  have len: "?len = le64 (of_nat (8 * length m))"
    by (rule length_fields(2) [OF D])
  have msg: "PUT_UINT32_LE (drop_bit 29 (total0 c) OR push_bit 3 (total1 c))
      (PUT_UINT32_LE (push_bit 3 (total0 c)) (replicate 8 0) 0) 4 = ?len"
    by (simp add: PUT_UINT32_LE_chain length_le_def) (simp add: memcpy_def)
  have "length ?pad < 2 ^ 32"
    by (simp add: ripemd160_padding_def)
  from ripemd160_update_absorbs [OF abs this] obtain c1
    where c1: "mbedtls_ripemd160_update_ret c ?pad = Inr c1"
      and abs1: "absorbed 64 ripemd160_compress iv c1 (m @ ?pad)" by blast
  from ripemd160_update_absorbs [OF abs1, of ?len] obtain c2
    where c2: "mbedtls_ripemd160_update_ret c1 ?len = Inr c2"
      and "absorbed 64 ripemd160_compress iv c2 ((m @ ?pad) @ ?len)" by auto
  then have abs2: "absorbed 64 ripemd160_compress iv c2 (md_pad 64 ?len m)"
    using ripemd160_pad_pieces [OF lst, of ?len] by simp
  have "64 \<le> length (m @ ?pad @ ?len)"
    using lst by (cases "length m < 64") (auto simp: ripemd160_padding_def)
  then have "length (state c2) = 5"
    using ripemd160_pad_pieces [OF lst, of ?len] abs2 by (intro ripemd160_state_length) simp_all
  then have put: "(let output = PUT_UINT32_LE (state c2 ! 0) out 0;
                  output = PUT_UINT32_LE (state c2 ! 1) output 4;
                  output = PUT_UINT32_LE (state c2 ! 2) output 8;
                  output = PUT_UINT32_LE (state c2 ! 3) output 12;
                  output = PUT_UINT32_LE (state c2 ! 4) output 16
              in output) = memcpy out 0 (concat (map le32 (state c2)))"
    using out by (auto simp: list5_conv bytes_simps Let_def)
  have "state c2 = foldl ripemd160_compress iv (blocks 64 (md_pad 64 (le64 (of_nat (8 * length m))) m))"
    using ripemd160.absorbedD(1) [of iv c2] abs2 len by simp
  then show "\<exists>c'. mbedtls_ripemd160_finish_ret c out = Inr (c', memcpy out 0 (concat (map le32
      (foldl ripemd160_compress iv (blocks 64 (md_pad 64 (le64 (of_nat (8 * length m))) m))))))"
    using c1 c2 put by (simp add: mbedtls_ripemd160_finish_ret_def msg Let_def)
qed

subsection \<open>Properties\<close>

definition ripemd160_digest :: "byte list \<Rightarrow> byte list" where
  "ripemd160_digest m = concat (map le32 (foldl ripemd160_compress ripemd160_iv
     (blocks 64 (md_pad 64 (le64 (of_nat (8 * length m))) m))))"

text \<open>
  After \<open>mbedtls_ripemd160_starts_ret\<close>, any sequence of
  \<open>mbedtls_ripemd160_update_ret\<close> calls on pieces shorter than 4 GiB and a final
  \<open>mbedtls_ripemd160_finish_ret\<close> return 0 and write the RIPEMD-160 digest of the
  concatenated pieces.
\<close>

theorem ripemd160_stream_correct:
  assumes "length (buffer ctx) = 64" and "length output = 20"
    and "\<forall>p \<in> set ps. length p < 2 ^ 32"
  shows "chk (mbedtls_ripemd160_starts_ret ctx)
      (\<lambda>ctx. chk (updates mbedtls_ripemd160_update_ret ctx ps)
        (\<lambda>ctx. chk (mbedtls_ripemd160_finish_ret ctx output) (\<lambda>(ctx, output). Inr output)))
    = Inr (memcpy output 0 (ripemd160_digest (concat ps)))"
proof -
  let ?c = "ctx\<lparr>total0 := 0, total1 := 0, state := ripemd160_iv\<rparr>"
  have "absorbed 64 ripemd160_compress ripemd160_iv ?c []"
    using ripemd160.absorbed_start [of ?c ripemd160_iv] assms(1) by simp
  from ripemd160m.session [OF this assms(2), of ps] assms(3) show ?thesis
    by (simp add: mbedtls_ripemd160_starts_ret_def ripemd160_digest_def)
qed

theorem ripemd160_stream_correct_witness:
  "chk (mbedtls_ripemd160_starts_ret mbedtls_ripemd160_init)
      (\<lambda>ctx. chk (updates mbedtls_ripemd160_update_ret ctx [[0x61], [0x62, 0x63]])
        (\<lambda>ctx. chk (mbedtls_ripemd160_finish_ret ctx (replicate 20 0)) (\<lambda>(ctx, output). Inr output)))
    = Inr (memcpy (replicate 20 0) 0 (ripemd160_digest [0x61, 0x62, 0x63]))"
  using ripemd160_stream_correct [of mbedtls_ripemd160_init "replicate 20 0" "[[0x61], [0x62, 0x63]]"]
  by (simp add: mbedtls_ripemd160_init_def)

end
