(* ===== verification/Bignum.thy ===== *)
theory Bignum
  imports Prelude
begin

text \<open>
  Multi-precision integers, \<open>mbedtls/library/bignum.c\<close>: the object
  \<open>mbedtls_mpi\<close> (a sign and an array of 64-bit limbs, least significant
  first), its allocation (\<open>mbedtls_mpi_grow\<close>, \<open>mbedtls_mpi_shrink\<close>), copies,
  single bits, bit lengths, shifts and comparisons.

  The value of an object is \<open>mpi_val\<close>; each operation is related to the
  operation on integers it stands for. The heap enters through the argument
  \<open>al\<close>: \<open>al n\<close> tells whether \<open>mbedtls_calloc( n, ciL )\<close> gives memory, so every
  allocation can fail. Where the code compares pointers (\<open>X == A\<close>) the model
  takes the outcome of the comparison as a Boolean argument, and reads the
  object through \<open>X\<close> when it holds.
\<close>

named_theorems mpi_simps \<open>values and lengths after the operations on limbs\<close>

type_synonym limb = u64

abbreviation ciL :: nat where "ciL \<equiv> 8"
abbreviation biL :: nat where "biL \<equiv> 64"
abbreviation biH :: nat where "biH \<equiv> 32"

definition MBEDTLS_MPI_MAX_LIMBS :: nat where "MBEDTLS_MPI_MAX_LIMBS = 10000"

definition MPI_FILE_IO_ERROR :: int where "MPI_FILE_IO_ERROR = - 0x0002"
definition MPI_BAD_INPUT_DATA :: int where "MPI_BAD_INPUT_DATA = - 0x0004"
definition MPI_INVALID_CHARACTER :: int where "MPI_INVALID_CHARACTER = - 0x0006"
definition MPI_BUFFER_TOO_SMALL :: int where "MPI_BUFFER_TOO_SMALL = - 0x0008"
definition MPI_NEGATIVE_VALUE :: int where "MPI_NEGATIVE_VALUE = - 0x000A"
definition MPI_DIVISION_BY_ZERO :: int where "MPI_DIVISION_BY_ZERO = - 0x000C"
definition MPI_NOT_ACCEPTABLE :: int where "MPI_NOT_ACCEPTABLE = - 0x000E"
definition MPI_ALLOC_FAILED :: int where "MPI_ALLOC_FAILED = - 0x0010"

lemmas mpi_error_defs = MPI_FILE_IO_ERROR_def MPI_BAD_INPUT_DATA_def MPI_INVALID_CHARACTER_def
  MPI_BUFFER_TOO_SMALL_def MPI_NEGATIVE_VALUE_def MPI_DIVISION_BY_ZERO_def
  MPI_NOT_ACCEPTABLE_def MPI_ALLOC_FAILED_def

text \<open>\<open>struct mbedtls_mpi\<close>; the limb count \<open>n\<close> is the length of \<open>p\<close>.\<close>

record mpi =
  mpi_s :: int
  mpi_p :: "limb list"

abbreviation mpi_n :: "mpi \<Rightarrow> nat" where "mpi_n X \<equiv> length (mpi_p X)"

definition BITS_TO_LIMBS :: "nat \<Rightarrow> nat" where
  "BITS_TO_LIMBS i = i div biL + (if i mod biL \<noteq> 0 then 1 else 0)"

definition CHARS_TO_LIMBS :: "nat \<Rightarrow> nat" where
  "CHARS_TO_LIMBS i = i div ciL + (if i mod ciL \<noteq> 0 then 1 else 0)"

subsection \<open>Allocation, copies\<close>

definition mbedtls_mpi_init :: mpi where
  "mbedtls_mpi_init = \<lparr>mpi_s = 1, mpi_p = []\<rparr>"

definition mbedtls_mpi_free :: "mpi \<Rightarrow> mpi" where
  "mbedtls_mpi_free X = X\<lparr>mpi_s := 1, mpi_p := []\<rparr>"

definition mbedtls_mpi_grow :: "(nat \<Rightarrow> bool) \<Rightarrow> mpi \<Rightarrow> nat \<Rightarrow> mpi res" where
  "mbedtls_mpi_grow al X nblimbs =
     (if nblimbs > MBEDTLS_MPI_MAX_LIMBS then Inl MPI_ALLOC_FAILED
      else if mpi_n X < nblimbs then
        (if \<not> al nblimbs then Inl MPI_ALLOC_FAILED
         else Inr (X\<lparr>mpi_p := memcpy (replicate nblimbs 0) 0 (mpi_p X)\<rparr>))
      else Inr X)"

text \<open>\<open>for( i = n - 1; i > 0; i-- ) if( p[i] != 0 ) break;\<close>\<close>

fun scan_top :: "limb list \<Rightarrow> nat \<Rightarrow> nat" where
  "scan_top p 0 = 0"
| "scan_top p (Suc i) = (if p ! Suc i \<noteq> 0 then Suc i else scan_top p i)"

text \<open>\<open>for( i = n; i > 0; i-- ) if( p[i - 1] != 0 ) break;\<close>\<close>

fun scan_used :: "limb list \<Rightarrow> nat \<Rightarrow> nat" where
  "scan_used p 0 = 0"
| "scan_used p (Suc i) = (if p ! i \<noteq> 0 then Suc i else scan_used p i)"

definition mbedtls_mpi_shrink :: "(nat \<Rightarrow> bool) \<Rightarrow> mpi \<Rightarrow> nat \<Rightarrow> mpi res" where
  "mbedtls_mpi_shrink al X nblimbs =
     (if nblimbs > MBEDTLS_MPI_MAX_LIMBS then Inl MPI_ALLOC_FAILED
      else if mpi_n X \<le> nblimbs then mbedtls_mpi_grow al X nblimbs
      else
        let i = scan_top (mpi_p X) (mpi_n X - 1) + 1;
            i = (if i < nblimbs then nblimbs else i)
        in if \<not> al i then Inl MPI_ALLOC_FAILED
           else Inr (X\<lparr>mpi_p := memcpy (replicate i 0) 0 (take i (mpi_p X))\<rparr>))"

definition mbedtls_mpi_copy :: "(nat \<Rightarrow> bool) \<Rightarrow> bool \<Rightarrow> mpi \<Rightarrow> mpi \<Rightarrow> mpi res" where
  "mbedtls_mpi_copy al XY X Y =
     (if XY then Inr X
      else if mpi_n Y = 0 then Inr (mbedtls_mpi_free X)
      else
        let i = scan_top (mpi_p Y) (mpi_n Y - 1) + 1;
            X = X\<lparr>mpi_s := mpi_s Y\<rparr>
        in chk (if mpi_n X < i then mbedtls_mpi_grow al X i
                else Inr (X\<lparr>mpi_p := memset (mpi_p X) i 0 (mpi_n X - i)\<rparr>))
             (\<lambda>X. Inr (X\<lparr>mpi_p := memcpy (mpi_p X) 0 (take i (mpi_p Y))\<rparr>)))"

definition mbedtls_mpi_swap :: "mpi \<Rightarrow> mpi \<Rightarrow> mpi \<times> mpi" where
  "mbedtls_mpi_swap X Y = (let T = X; X = Y; Y = T in (X, Y))"

text \<open>\<open>assign = (assign | (unsigned char)-assign) >> 7\<close>, computed as \<open>int\<close>: 0 or 1.\<close>

definition ct_bool :: "byte \<Rightarrow> byte" where
  "ct_bool a = drop_bit 7 (a OR - a)"

definition mbedtls_mpi_safe_cond_assign ::
    "(nat \<Rightarrow> bool) \<Rightarrow> mpi \<Rightarrow> mpi \<Rightarrow> byte \<Rightarrow> mpi res" where
  "mbedtls_mpi_safe_cond_assign al X Y assign =
     (let assign = ct_bool assign in
      chk (mbedtls_mpi_grow al X (mpi_n Y)) (\<lambda>X.
        let X = X\<lparr>mpi_s := mpi_s X * (1 - uint assign) + mpi_s Y * uint assign\<rparr>;
            lo = map2 (\<lambda>x y. x * (1 - ucast assign) + y * ucast assign)
                   (take (mpi_n Y) (mpi_p X)) (mpi_p Y);
            hi = map (\<lambda>x. x * (1 - ucast assign)) (drop (mpi_n Y) (mpi_p X))
        in Inr (X\<lparr>mpi_p := lo @ hi\<rparr>)))"

definition mbedtls_mpi_safe_cond_swap ::
    "(nat \<Rightarrow> bool) \<Rightarrow> bool \<Rightarrow> mpi \<Rightarrow> mpi \<Rightarrow> byte \<Rightarrow> (mpi \<times> mpi) res" where
  "mbedtls_mpi_safe_cond_swap al XY X Y swap =
     (if XY then Inr (X, X)
      else let swap = ct_bool swap in
      chk (mbedtls_mpi_grow al X (mpi_n Y)) (\<lambda>X.
      chk (mbedtls_mpi_grow al Y (mpi_n X)) (\<lambda>Y.
        let s = mpi_s X;
            X = X\<lparr>mpi_s := mpi_s X * (1 - uint swap) + mpi_s Y * uint swap\<rparr>;
            Y = Y\<lparr>mpi_s := mpi_s Y * (1 - uint swap) + s * uint swap\<rparr>;
            xs = map2 (\<lambda>x y. x * (1 - ucast swap) + y * ucast swap) (mpi_p X) (mpi_p Y);
            ys = map2 (\<lambda>x y. y * (1 - ucast swap) + x * ucast swap) (mpi_p X) (mpi_p Y)
        in Inr (X\<lparr>mpi_p := xs\<rparr>, Y\<lparr>mpi_p := ys\<rparr>))))"

text \<open>\<open>( z < 0 ) ? -z : z\<close> stored in a limb, and the sign beside it.\<close>

definition sint_abs :: "64 word \<Rightarrow> limb" where
  "sint_abs z = (if sint z < 0 then - z else z)"

definition sint_sgn :: "64 word \<Rightarrow> int" where
  "sint_sgn z = (if sint z < 0 then - 1 else 1)"

definition mbedtls_mpi_lset :: "(nat \<Rightarrow> bool) \<Rightarrow> mpi \<Rightarrow> 64 word \<Rightarrow> mpi res" where
  "mbedtls_mpi_lset al X z =
     chk (mbedtls_mpi_grow al X 1) (\<lambda>X.
       let p = memset (mpi_p X) 0 0 (mpi_n X)
       in Inr (X\<lparr>mpi_p := p[0 := sint_abs z], mpi_s := sint_sgn z\<rparr>))"

subsection \<open>Bits\<close>

definition mbedtls_mpi_get_bit :: "mpi \<Rightarrow> nat \<Rightarrow> limb" where
  "mbedtls_mpi_get_bit X pos =
     (if mpi_n X * biL \<le> pos then 0
      else drop_bit (pos mod biL) (mpi_p X ! (pos div biL)) AND 0x01)"

definition mbedtls_mpi_set_bit :: "(nat \<Rightarrow> bool) \<Rightarrow> mpi \<Rightarrow> nat \<Rightarrow> byte \<Rightarrow> mpi res" where
  "mbedtls_mpi_set_bit al X pos v =
     (let off = pos div biL; idx = pos mod biL;
          put = (\<lambda>X. let p = mpi_p X;
                         p = p[off := p ! off AND NOT (push_bit idx 0x01)];
                         p = p[off := p ! off OR push_bit idx (ucast v)]
                     in X\<lparr>mpi_p := p\<rparr>)
      in if v \<noteq> 0 \<and> v \<noteq> 1 then Inl MPI_BAD_INPUT_DATA
         else if mpi_n X * biL \<le> pos then
           (if v = 0 then Inr X
            else chk (mbedtls_mpi_grow al X (off + 1)) (\<lambda>X. Inr (put X)))
         else Inr (put X))"

text \<open>
  \<open>mbedtls_mpi_lsb\<close>: the inner loop over the bits of one limb (\<open>None\<close> when it
  runs to the end; it then has advanced \<open>count\<close> by \<open>biL\<close>), and the outer loop.
\<close>

function lsb_bits :: "limb \<Rightarrow> nat \<Rightarrow> nat \<Rightarrow> nat option" where
  "lsb_bits x j count =
     (if j < biL then
        (if drop_bit j x AND 1 \<noteq> 0 then Some count else lsb_bits x (j + 1) (count + 1))
      else None)"
  by pat_completeness auto
termination by (relation "measure (\<lambda>(x, j, count). biL - j)") auto

fun lsb_limbs :: "limb list \<Rightarrow> nat \<Rightarrow> nat" where
  "lsb_limbs [] count = 0"
| "lsb_limbs (x # xs) count =
     (case lsb_bits x 0 count of Some c \<Rightarrow> c | None \<Rightarrow> lsb_limbs xs (count + biL))"

definition mbedtls_mpi_lsb :: "mpi \<Rightarrow> nat" where
  "mbedtls_mpi_lsb X = lsb_limbs (mpi_p X) 0"

function clz_loop :: "nat \<Rightarrow> limb \<Rightarrow> limb \<Rightarrow> nat" where
  "clz_loop j msk x =
     (if j < biL then (if x AND msk \<noteq> 0 then j else clz_loop (j + 1) (drop_bit 1 msk) x)
      else j)"
  by pat_completeness auto
termination by (relation "measure (\<lambda>(j, msk, x). biL - j)") auto

definition mbedtls_clz :: "limb \<Rightarrow> nat" where
  "mbedtls_clz x = clz_loop 0 (push_bit (biL - 1) 1) x"

definition mbedtls_mpi_bitlen :: "mpi \<Rightarrow> nat" where
  "mbedtls_mpi_bitlen X =
     (if mpi_n X = 0 then 0
      else let i = scan_top (mpi_p X) (mpi_n X - 1);
               j = biL - mbedtls_clz (mpi_p X ! i)
           in i * biL + j)"

definition mbedtls_mpi_size :: "mpi \<Rightarrow> nat" where
  "mbedtls_mpi_size X = (mbedtls_mpi_bitlen X + 7) div 8"

declare lsb_bits.simps [simp del] clz_loop.simps [simp del]

subsection \<open>Shifts\<close>

text \<open>The loops of \<open>mbedtls_mpi_shift_l\<close> and \<open>mbedtls_mpi_shift_r\<close>.\<close>

fun shl_limbs :: "nat \<Rightarrow> nat \<Rightarrow> limb list \<Rightarrow> limb list" where
  "shl_limbs 0 v0 p = p"
| "shl_limbs (Suc i) v0 p =
     (if Suc i > v0 then shl_limbs i v0 (p[i := p ! (i - v0)])
      else shl_limbs i v0 (p[i := 0]))"

fun shl_bits :: "nat \<Rightarrow> limb \<Rightarrow> limb list \<Rightarrow> limb list" where
  "shl_bits t1 r0 [] = []"
| "shl_bits t1 r0 (x # xs) =
     (let r1 = drop_bit (biL - t1) x
      in (push_bit t1 x OR r0) # shl_bits t1 r1 xs)"

definition mbedtls_mpi_shift_l :: "(nat \<Rightarrow> bool) \<Rightarrow> mpi \<Rightarrow> nat \<Rightarrow> mpi res" where
  "mbedtls_mpi_shift_l al X count =
     (let v0 = count div biL; t1 = count mod biL; i = mbedtls_mpi_bitlen X + count
      in chk (if mpi_n X * biL < i then mbedtls_mpi_grow al X (BITS_TO_LIMBS i) else Inr X)
           (\<lambda>X. let p = (if v0 > 0 then shl_limbs (mpi_n X) v0 (mpi_p X) else mpi_p X);
                    p = (if t1 > 0 then take v0 p @ shl_bits t1 0 (drop v0 p) else p)
                in Inr (X\<lparr>mpi_p := p\<rparr>)))"

function shr_limbs :: "nat \<Rightarrow> nat \<Rightarrow> limb list \<Rightarrow> limb list" where
  "shr_limbs i v0 p =
     (if i < length p then
        shr_limbs (i + 1) v0 (p[i := (if i < length p - v0 then p ! (i + v0) else 0)])
      else p)"
  by pat_completeness auto
termination by (relation "measure (\<lambda>(i, v0, p). length p - i)") auto

declare shr_limbs.simps [simp del]

text \<open>The loop runs from the last limb to the first: \<open>r0\<close> comes from the limb above.\<close>

fun shr_bits :: "nat \<Rightarrow> limb list \<Rightarrow> limb list \<times> limb" where
  "shr_bits v1 [] = ([], 0)"
| "shr_bits v1 (x # xs) =
     (case shr_bits v1 xs of (ys, r0) \<Rightarrow>
        ((drop_bit v1 x OR r0) # ys, push_bit (biL - v1) x))"

definition mbedtls_mpi_shift_r :: "(nat \<Rightarrow> bool) \<Rightarrow> mpi \<Rightarrow> nat \<Rightarrow> mpi res" where
  "mbedtls_mpi_shift_r al X count =
     (let v0 = count div biL; v1 = count mod biL
      in if v0 > mpi_n X \<or> (v0 = mpi_n X \<and> v1 > 0) then mbedtls_mpi_lset al X 0
         else
           let p = (if v0 > 0 then shr_limbs 0 v0 (mpi_p X) else mpi_p X);
               p = (if v1 > 0 then fst (shr_bits v1 p) else p)
           in Inr (X\<lparr>mpi_p := p\<rparr>))"

subsection \<open>Comparisons\<close>

fun cmp_limbs :: "limb list \<Rightarrow> limb list \<Rightarrow> nat \<Rightarrow> int" where
  "cmp_limbs xs ys 0 = 0"
| "cmp_limbs xs ys (Suc i) =
     (if xs ! i > ys ! i then 1 else if xs ! i < ys ! i then - 1 else cmp_limbs xs ys i)"

definition mbedtls_mpi_cmp_abs :: "mpi \<Rightarrow> mpi \<Rightarrow> int" where
  "mbedtls_mpi_cmp_abs X Y =
     (let i = scan_used (mpi_p X) (mpi_n X); j = scan_used (mpi_p Y) (mpi_n Y)
      in if i = 0 \<and> j = 0 then 0
         else if i > j then 1
         else if j > i then - 1
         else cmp_limbs (mpi_p X) (mpi_p Y) i)"

fun cmp_limbs_s :: "int \<Rightarrow> limb list \<Rightarrow> limb list \<Rightarrow> nat \<Rightarrow> int" where
  "cmp_limbs_s s xs ys 0 = 0"
| "cmp_limbs_s s xs ys (Suc i) =
     (if xs ! i > ys ! i then s else if xs ! i < ys ! i then - s else cmp_limbs_s s xs ys i)"

definition mbedtls_mpi_cmp_mpi :: "mpi \<Rightarrow> mpi \<Rightarrow> int" where
  "mbedtls_mpi_cmp_mpi X Y =
     (let i = scan_used (mpi_p X) (mpi_n X); j = scan_used (mpi_p Y) (mpi_n Y)
      in if i = 0 \<and> j = 0 then 0
         else if i > j then mpi_s X
         else if j > i then - mpi_s Y
         else if mpi_s X > 0 \<and> mpi_s Y < 0 then 1
         else if mpi_s Y > 0 \<and> mpi_s X < 0 then - 1
         else cmp_limbs_s (mpi_s X) (mpi_p X) (mpi_p Y) i)"

definition ct_lt_mpi_uint :: "limb \<Rightarrow> limb \<Rightarrow> u32" where
  "ct_lt_mpi_uint x y =
     (let cond = x XOR y;
          ret = (x - y) AND NOT cond;
          ret = ret OR (y AND cond);
          ret = drop_bit (biL - 1) ret
      in ucast ret)"

fun lt_ct_loop :: "u32 \<Rightarrow> limb list \<Rightarrow> limb list \<Rightarrow> nat \<Rightarrow> u32 \<Rightarrow> u32 \<Rightarrow> u32" where
  "lt_ct_loop neg xs ys 0 ret done = ret"
| "lt_ct_loop neg xs ys (Suc i) ret done =
     (let cond = ct_lt_mpi_uint (ys ! i) (xs ! i);
          ret = ret OR (cond AND (1 - done) AND neg);
          done = done OR cond;
          cond = ct_lt_mpi_uint (xs ! i) (ys ! i);
          ret = ret OR (cond AND (1 - done) AND (1 - neg));
          done = done OR cond
      in lt_ct_loop neg xs ys i ret done)"

definition mbedtls_mpi_lt_mpi_ct :: "mpi \<Rightarrow> mpi \<Rightarrow> u32 res" where
  "mbedtls_mpi_lt_mpi_ct X Y =
     (if mpi_n X \<noteq> mpi_n Y then Inl MPI_BAD_INPUT_DATA
      else
        let X_is_negative = drop_bit 1 (word_of_int (mpi_s X) AND 2);
            Y_is_negative = drop_bit 1 (word_of_int (mpi_s Y) AND 2);
            cond = X_is_negative XOR Y_is_negative;
            ret = cond AND X_is_negative
        in Inr (lt_ct_loop X_is_negative (mpi_p X) (mpi_p Y) (mpi_n X) ret cond))"

definition mbedtls_mpi_cmp_int :: "mpi \<Rightarrow> 64 word \<Rightarrow> int" where
  "mbedtls_mpi_cmp_int X z =
     mbedtls_mpi_cmp_mpi X \<lparr>mpi_s = sint_sgn z, mpi_p = [sint_abs z]\<rparr>"

subsection \<open>Values\<close>

fun val :: "limb list \<Rightarrow> nat" where
  "val [] = 0"
| "val (x # xs) = unat x + 2 ^ biL * val xs"

definition mpi_val :: "mpi \<Rightarrow> int" where
  "mpi_val X = mpi_s X * int (val (mpi_p X))"

text \<open>The type invariant: the sign is 1 or -1, and \<open>grow\<close> keeps the limb count below its limit.\<close>

definition mpi_ok :: "mpi \<Rightarrow> bool" where
  "mpi_ok X \<longleftrightarrow> (mpi_s X = 1 \<or> mpi_s X = - 1) \<and> mpi_n X \<le> MBEDTLS_MPI_MAX_LIMBS"

lemma unat_limb_less: "unat (x :: limb) < 2 ^ biL"
  using unsigned_less [of x] by simp

lemma val_append [mpi_simps]: "val (xs @ ys) = val xs + 2 ^ (biL * length xs) * val ys"
  by (induction xs) (simp_all add: algebra_simps power_add)

lemma val_replicate_0 [simp]: "val (replicate n 0) = 0"
  by (induction n) simp_all

lemma val_less: "val xs < 2 ^ (biL * length xs)"
proof (induction xs)
  case (Cons x xs)
  have "unat x + 2 ^ biL * val xs < 2 ^ biL * (val xs + 1)"
    using unat_limb_less [of x] by simp
  also have "\<dots> \<le> 2 ^ biL * 2 ^ (biL * length xs)"
    using Cons.IH by (intro mult_le_mono2) simp
  finally show ?case
    by (simp add: power_add)
qed simp

lemma val_take_drop:
  assumes "k \<le> length xs"
  shows "val xs = val (take k xs) + 2 ^ (biL * k) * val (drop k xs)"
  using val_append [of "take k xs" "drop k xs"] assms by simp

lemma val_zero_iff: "val xs = 0 \<longleftrightarrow> (\<forall>x\<in>set xs. x = 0)"
  by (induction xs) (auto simp: unat_eq_0)

lemma val_take:
  assumes "k \<le> length xs"
  shows "val (take k xs) = val xs mod 2 ^ (biL * k)"
  using val_take_drop [OF assms] val_less [of "take k xs"] assms by simp

lemma val_drop:
  assumes "k \<le> length xs"
  shows "val (drop k xs) = val xs div 2 ^ (biL * k)"
  using val_take_drop [OF assms] val_less [of "take k xs"] assms by simp

lemma val_nth: "k < length xs \<Longrightarrow> unat (xs ! k) = val xs div 2 ^ (biL * k) mod 2 ^ biL"
proof -
  assume k: "k < length xs"
  then have "val (drop k xs) = unat (xs ! k) + 2 ^ biL * val (drop (Suc k) xs)"
    by (simp flip: Cons_nth_drop_Suc)
  then show ?thesis
    using unat_limb_less [of "xs ! k"] k by (simp add: val_drop)
qed

lemma val_inj: "length xs = length ys \<Longrightarrow> val xs = val ys \<Longrightarrow> xs = ys"
  by (rule nth_equalityI) (simp_all add: word_unat_eq_iff val_nth)

lemma val_update:
  assumes "k < length xs"
  shows "int (val (xs[k := y])) = int (val xs) + 2 ^ (biL * k) * (int (unat y) - int (unat (xs ! k)))"
  using assms
proof (induction xs arbitrary: k)
  case (Cons x xs)
  show ?case
  proof (cases k)
    case (Suc j)
    then have "int (val (xs[j := y]))
        = int (val xs) + 2 ^ (biL * j) * (int (unat y) - int (unat (xs ! j)))"
      using Cons.prems by (intro Cons.IH) simp
    then have "2 ^ biL * int (val (xs[j := y]))
        = 2 ^ biL * (int (val xs) + 2 ^ (biL * j) * (int (unat y) - int (unat (xs ! j))))"
      by (rule arg_cong)
    with Suc show ?thesis
      by (simp add: algebra_simps power_add)
  qed simp
qed simp

lemma val_bit: "bit (val xs) k \<longleftrightarrow> k div biL < length xs \<and> bit (xs ! (k div biL)) (k mod biL)"
proof (induction xs arbitrary: k)
  case (Cons x xs)
  have decomp: "val (x # xs) = push_bit biL (val xs) OR unat x"
  proof -
    have "push_bit biL (val xs) OR unat x = push_bit biL (val xs) + unat x"
      by (rule disjunctive_add [symmetric]) (auto simp: bit_simps dest: bit_imp_le_length)
    then show ?thesis
      by (simp add: push_bit_eq_mult)
  qed
  show ?case
  proof (cases "k < biL")
    case True
    then show ?thesis
      by (subst decomp) (simp add: bit_simps)
  next
    case False
    moreover have "k div biL = Suc ((k - biL) div biL)" "k mod biL = (k - biL) mod biL"
      using False by (simp_all add: le_div_geq le_mod_geq)
    ultimately show ?thesis
      using Cons.IH [of "k - biL"] by (subst decomp) (auto simp: bit_simps dest: bit_imp_le_length)
  qed
qed simp

text \<open>The scan for the highest non-zero limb.\<close>

lemma scan_used_le: "scan_used p i \<le> i"
  by (induction i) (auto intro: le_SucI)

lemma scan_used_nz: "0 < scan_used p i \<Longrightarrow> p ! (scan_used p i - 1) \<noteq> 0"
  by (induction i) (auto split: if_splits)

lemma scan_used_zero: "scan_used p i \<le> k \<Longrightarrow> k < i \<Longrightarrow> p ! k = 0"
  by (induction i) (auto split: if_splits elim: less_SucE)

lemma scan_top_used: "scan_top p i = scan_used p (Suc i) - 1"
  by (induction i) auto

lemma drop_scan_used: "scan_used p (length p) \<le> k \<Longrightarrow> val (drop k p) = 0"
  by (auto simp: val_zero_iff in_set_conv_nth intro!: scan_used_zero [of p "length p"]) linarith

lemma val_take_used:
  assumes "scan_used p (length p) \<le> k"
  shows "val (take k p) = val p"
proof (cases "k \<le> length p")
  case True
  then show ?thesis
    using val_take_drop [OF True] drop_scan_used [OF assms] by simp
qed simp

lemma val_scan_used_ge:
  assumes "0 < scan_used p (length p)"
  shows "2 ^ (biL * (scan_used p (length p) - 1)) \<le> val p"
proof -
  let ?k = "scan_used p (length p) - 1"
  have k: "?k < length p"
    using scan_used_le [of p "length p"] assms by simp
  have "0 < unat (p ! ?k)"
    using scan_used_nz [OF assms] by (simp add: unat_gt_0)
  moreover have "val (drop ?k p) = unat (p ! ?k) + 2 ^ biL * val (drop (Suc ?k) p)"
    using k by (simp flip: Cons_nth_drop_Suc)
  ultimately have "1 \<le> val (drop ?k p)"
    by simp
  then have "2 ^ (biL * ?k) * 1 \<le> 2 ^ (biL * ?k) * val (drop ?k p)"
    by (rule mult_le_mono2)
  also have "\<dots> \<le> val p"
    using val_take_drop [of ?k p] k by linarith
  finally show ?thesis
    by simp
qed

lemma val_scan_used_less: "val p < 2 ^ (biL * scan_used p (length p))"
  using val_less [of "take (scan_used p (length p)) p"] scan_used_le [of p "length p"]
  by (simp add: val_take_used min_absorb2)

lemma scan_used_0_iff: "scan_used p (length p) = 0 \<longleftrightarrow> val p = 0"
proof
  assume "val p = 0"
  then have "\<not> 2 ^ (biL * (scan_used p (length p) - 1)) \<le> val p"
    by simp
  then show "scan_used p (length p) = 0"
    using val_scan_used_ge [of p] by blast
qed (use val_scan_used_less [of p] in simp)

lemma mpi_val_0_iff: "mpi_ok X \<Longrightarrow> mpi_val X = 0 \<longleftrightarrow> val (mpi_p X) = 0"
  by (auto simp: mpi_ok_def mpi_val_def)

subsection \<open>Allocation and copies keep or transfer the value\<close>

lemma val_pad_zeros:
  "length xs \<le> n \<Longrightarrow> val (memcpy (replicate n 0) 0 xs) = val xs"
  by (simp add: memcpy_def val_append)

lemma length_pad_zeros:
  "length xs \<le> n \<Longrightarrow> length (memcpy (replicate n 0) 0 xs) = n"
  by (simp add: memcpy_def)

lemma mpi_init_ok [simp]: "mpi_ok mbedtls_mpi_init" "mpi_val mbedtls_mpi_init = 0"
    "mpi_p mbedtls_mpi_init = []" "mpi_s mbedtls_mpi_init = 1"
  by (simp_all add: mbedtls_mpi_init_def mpi_ok_def mpi_val_def)

lemma mpi_free_eq [simp]: "mbedtls_mpi_free X = mbedtls_mpi_init"
  by (simp add: mbedtls_mpi_free_def mbedtls_mpi_init_def)

text \<open>What \<open>grow\<close> leaves behind: the old limbs, zeros above them.\<close>

lemma mpi_growD:
  assumes "mbedtls_mpi_grow al X k = Inr X'"
  shows "mpi_s X' = mpi_s X" "mpi_p X' = mpi_p X @ replicate (k - mpi_n X) 0"
    "mpi_n X' = max (mpi_n X) k" "k \<le> MBEDTLS_MPI_MAX_LIMBS" "mpi_val X' = mpi_val X"
    "val (mpi_p X') = val (mpi_p X)" "mpi_ok X \<Longrightarrow> mpi_ok X'"
  using assms by (auto simp: mbedtls_mpi_grow_def memcpy_def mpi_val_def mpi_ok_def val_append
      split: if_splits)

lemma mpi_grow_Inr_iff:
  "(\<exists>X'. mbedtls_mpi_grow al X k = Inr X') \<longleftrightarrow>
     k \<le> MBEDTLS_MPI_MAX_LIMBS \<and> (mpi_n X < k \<longrightarrow> al k)"
  by (auto simp: mbedtls_mpi_grow_def)

lemma mpi_grow_error: "mbedtls_mpi_grow al X k = Inl e \<Longrightarrow> e = MPI_ALLOC_FAILED"
  by (auto simp: mbedtls_mpi_grow_def split: if_splits)

lemma mpi_lsetD:
  assumes "mbedtls_mpi_lset al X z = Inr X'"
  shows "mpi_s X' = sint_sgn z" "mpi_p X' = sint_abs z # replicate (mpi_n X - 1) 0"
proof -
  obtain Y where Y: "mbedtls_mpi_grow al X 1 = Inr Y"
    and X': "X' = Y\<lparr>mpi_p := (memset (mpi_p Y) 0 0 (mpi_n Y))[0 := sint_abs z], mpi_s := sint_sgn z\<rparr>"
    using assms by (auto simp: mbedtls_mpi_lset_def chk_eq_Inr Let_def)
  show "mpi_s X' = sint_sgn z"
    by (simp add: X')
  have n: "mpi_n Y = Suc (mpi_n X - 1)"
    using mpi_growD(3) [OF Y] by auto
  show "mpi_p X' = sint_abs z # replicate (mpi_n X - 1) 0"
    using n by (simp add: X' memset_def memcpy_def)
qed

lemma sint_abs_val: "int (unat (sint_abs z)) = \<bar>sint z\<bar>"
proof (cases "sint z < 0")
  case True
  have r: "- (2 ^ 63) \<le> sint z"
    using sint_ge [of z] by simp
  have "z \<noteq> 0"
    using True by auto
  moreover have "uint z = sint z + 2 ^ 64"
  proof -
    have "sint z = signed_take_bit 63 (uint z)"
      by (simp add: sint_uint)
    have "sint z mod 2 ^ 64 = uint z"
      using uint_sint [of z] by (simp add: take_bit_eq_mod)
    moreover have "sint z mod 2 ^ 64 = (sint z + 2 ^ 64) mod 2 ^ 64"
      by simp
    moreover have "(sint z + 2 ^ 64) mod 2 ^ 64 = sint z + 2 ^ 64"
      using True r by (intro mod_pos_pos_trivial) simp_all
    ultimately show ?thesis
      by linarith
  qed
  moreover have "uint (- z) = (- uint z) mod 2 ^ 64"
    by (simp add: uint_word_ariths(4))
  ultimately have "uint (- z) = (- sint z) mod 2 ^ 64"
    by (simp add: mod_simps)
  then have "uint (- z) = - sint z"
    using True r by simp
  then show ?thesis
    using True by (simp add: sint_abs_def)
next
  case False
  have "sint z mod 2 ^ 64 = uint z"
    using uint_sint [of z] by (simp add: take_bit_eq_mod)
  moreover have "sint z < 2 ^ 63"
    using sint_lt [of z] by simp
  ultimately have "uint z = sint z"
    using False by simp
  then show ?thesis
    using False by (simp add: sint_abs_def)
qed

lemma sint_sgn_abs: "sint_sgn z * int (unat (sint_abs z)) = sint z"
  unfolding sint_abs_val by (simp add: sint_sgn_def)

lemma mpi_lset_val:
  assumes "mbedtls_mpi_lset al X z = Inr X'" "mpi_ok X"
  shows "mpi_val X' = sint z" "mpi_ok X'" "val (mpi_p X') = nat \<bar>sint z\<bar>" "0 < mpi_n X'"
proof -
  have "unat (sint_abs z) = nat \<bar>sint z\<bar>"
    using sint_abs_val [of z] by linarith
  then show "mpi_val X' = sint z" "mpi_ok X'" "val (mpi_p X') = nat \<bar>sint z\<bar>" "0 < mpi_n X'"
    using mpi_lsetD [OF assms(1)] sint_sgn_abs [of z] assms(2)
    by (auto simp: mpi_val_def mpi_ok_def sint_sgn_def MBEDTLS_MPI_MAX_LIMBS_def)
qed

lemma scan_top_len:
  assumes "p \<noteq> []"
  shows "scan_top p (length p - 1) + 1 = max 1 (scan_used p (length p))"
    and "scan_top p (length p - 1) + 1 \<le> length p"
proof -
  obtain n where "length p = Suc n"
    using assms by (cases p) auto
  then show "scan_top p (length p - 1) + 1 = max 1 (scan_used p (length p))"
    and "scan_top p (length p - 1) + 1 \<le> length p"
    using scan_used_le [of p "Suc n"] by (simp_all add: scan_top_used del: scan_used.simps)
qed

lemma mpi_copyD:
  assumes "mbedtls_mpi_copy al False X Y = Inr X'"
  shows "val (mpi_p X') = val (mpi_p Y)" "mpi_val X' = mpi_val Y"
    "mpi_n Y \<noteq> 0 \<Longrightarrow> mpi_s X' = mpi_s Y"
    "mpi_ok X \<Longrightarrow> mpi_ok Y \<Longrightarrow> mpi_ok X'"
    "mpi_n X' = (if mpi_n Y = 0 then 0 else max (mpi_n X) (max 1 (scan_used (mpi_p Y) (mpi_n Y))))"
proof -
  let ?i = "scan_top (mpi_p Y) (mpi_n Y - 1) + 1"
  have 1: "val (mpi_p X') = val (mpi_p Y) \<and> (mpi_n Y \<noteq> 0 \<longrightarrow> mpi_s X' = mpi_s Y)
      \<and> mpi_n X' = (if mpi_n Y = 0 then 0 else max (mpi_n X) ?i) \<and> (mpi_ok X \<longrightarrow> mpi_ok Y \<longrightarrow> mpi_ok X')"
  proof (cases "mpi_n Y = 0")
    case True
    then show ?thesis
      using assms by (auto simp: mbedtls_mpi_copy_def)
  next
    case False
    define i where "i = ?i"
    have i: "i \<le> mpi_n Y" "scan_used (mpi_p Y) (mpi_n Y) \<le> i"
      using scan_top_len [of "mpi_p Y"] False unfolding i_def by force+
    let ?X = "X\<lparr>mpi_s := mpi_s Y\<rparr>"
    obtain Z where Z: "(if mpi_n ?X < i then mbedtls_mpi_grow al ?X i
        else Inr (?X\<lparr>mpi_p := memset (mpi_p ?X) i 0 (mpi_n ?X - i)\<rparr>)) = Inr Z"
      and X': "X' = Z\<lparr>mpi_p := memcpy (mpi_p Z) 0 (take i (mpi_p Y))\<rparr>"
      using assms False unfolding mbedtls_mpi_copy_def Let_def i_def [symmetric]
      by (auto simp: chk_eq_Inr)
    have z: "drop i (mpi_p Z) = replicate (mpi_n X - i) 0" "mpi_n Z = max (mpi_n X) i"
        "mpi_s Z = mpi_s Y" "mpi_ok X \<longrightarrow> mpi_ok Y \<longrightarrow> mpi_n Z \<le> MBEDTLS_MPI_MAX_LIMBS"
      using Z mpi_growD [of al ?X i Z]
      by (auto simp: memset_def memcpy_def max_def mpi_ok_def split: if_splits)
    have p: "mpi_p X' = take i (mpi_p Y) @ replicate (mpi_n X - i) 0"
      using z(1) i(1) by (simp add: X' memcpy_def min_def)
    have "mpi_n X' = mpi_n Z"
      using z(2) i(1) by (simp add: X' memcpy_def min_def)
    then show ?thesis
      using p i z(2-4) by (auto simp: val_append val_take_used X' mpi_ok_def i_def)
  qed
  then show "val (mpi_p X') = val (mpi_p Y)" "mpi_n Y \<noteq> 0 \<Longrightarrow> mpi_s X' = mpi_s Y"
    "mpi_ok X \<Longrightarrow> mpi_ok Y \<Longrightarrow> mpi_ok X'"
    "mpi_n X' = (if mpi_n Y = 0 then 0 else max (mpi_n X) (max 1 (scan_used (mpi_p Y) (mpi_n Y))))"
    using scan_top_len [of "mpi_p Y"] by auto
  then show "mpi_val X' = mpi_val Y"
    using 1 by (cases "mpi_n Y = 0") (auto simp: mpi_val_def)
qed

lemma mpi_copy_same [simp]: "mbedtls_mpi_copy al True X Y = Inr X"
  by (simp add: mbedtls_mpi_copy_def)

lemma mpi_shrinkD:
  assumes "mbedtls_mpi_shrink al X k = Inr X'"
  shows "mpi_val X' = mpi_val X" "mpi_s X' = mpi_s X" "k \<le> mpi_n X'" "val (mpi_p X') = val (mpi_p X)"
    "mpi_ok X \<Longrightarrow> mpi_ok X'"
    "k \<le> mpi_n X \<Longrightarrow> mpi_n X' = max k (if k = mpi_n X then k else max 1 (scan_used (mpi_p X) (mpi_n X)))"
proof -
  let ?i = "scan_top (mpi_p X) (mpi_n X - 1) + 1"
  have "mpi_s X' = mpi_s X \<and> k \<le> mpi_n X' \<and> val (mpi_p X') = val (mpi_p X) \<and> (mpi_ok X \<longrightarrow> mpi_ok X')
    \<and> (k \<le> mpi_n X \<longrightarrow> mpi_n X' = max k (if k = mpi_n X then k else max 1 (scan_used (mpi_p X) (mpi_n X))))"
  proof (cases "mpi_n X \<le> k")
    case True
    then show ?thesis
      using assms mpi_growD [of al X k X']
      by (auto simp: mbedtls_mpi_shrink_def split: if_splits)
  next
    case False
    then have i: "?i = max 1 (scan_used (mpi_p X) (mpi_n X))" "?i \<le> mpi_n X"
      using scan_top_len [of "mpi_p X"] by force+
    have X': "X' = X\<lparr>mpi_p := take (max k ?i) (mpi_p X)\<rparr>"
      using assms False i(2)
      by (auto simp: mbedtls_mpi_shrink_def Let_def memcpy_def max_def split: if_splits)
    have "val (take (max k ?i) (mpi_p X)) = val (mpi_p X)"
      by (rule val_take_used) (use i(1) in linarith)
    then show ?thesis
      using False i by (auto simp: X' mpi_ok_def min_def)
  qed
  then show "mpi_s X' = mpi_s X" "k \<le> mpi_n X'" "val (mpi_p X') = val (mpi_p X)"
    "mpi_ok X \<Longrightarrow> mpi_ok X'"
    "k \<le> mpi_n X \<Longrightarrow> mpi_n X' = max k (if k = mpi_n X then k else max 1 (scan_used (mpi_p X) (mpi_n X)))"
    by auto
  then show "mpi_val X' = mpi_val X"
    by (simp add: mpi_val_def)
qed

text \<open>The constant-time conditional assignment and swap.\<close>

lemma drop_bit_7_one:
  assumes "bit (y :: byte) 7"
  shows "drop_bit 7 y = 1"
proof (rule bit_word_eqI)
  fix n
  show "bit (drop_bit 7 y) n = bit (1 :: byte) n"
    using assms bit_imp_le_length [of y "7 + n"] by (cases n) (auto simp: bit_simps)
qed

lemma ct_bool_eq: "ct_bool a = (if a = 0 then 0 else 1)"
proof (cases "a = 0")
  case False
  have "bit (a OR - a) 7"
  proof (rule ccontr)
    assume "\<not> bit (a OR - a) 7"
    then have b: "\<not> bit a 7" "\<not> bit (- a) 7"
      by (simp_all add: bit_or_iff)
    have small: "unat x < 128" if "\<not> bit x 7" for x :: byte
    proof -
      have "\<not> bit (unat x) 7"
        using that by (simp add: bit_unsigned_iff)
      then have "even (unat x div 128)"
        by (simp add: bit_iff_odd)
      moreover have "unat x div 128 < 2"
        using unsigned_less [of x, where 'a = nat] by simp
      ultimately show ?thesis
        by (cases "unat x div 128 = 0") (auto simp: less_2_cases_iff)
    qed
    have "unat a + unat (- a) = 256"
    proof -
      have "int (unat a) + int (unat (- a)) = uint a + (- uint a) mod 2 ^ 8"
        by (simp add: uint_word_ariths(4))
      also have "\<dots> = 256"
        using False uint_bounded [of a] by (simp add: zmod_zminus1_eq_if uint_0_iff)
      finally show ?thesis
        by linarith
    qed
    then show False
      using small [OF b(1)] small [OF b(2)] by simp
  qed
  then have "drop_bit 7 (a OR - a) = 1"
    by (rule drop_bit_7_one)
  then show ?thesis
    using False by (simp add: ct_bool_def)
qed (simp add: ct_bool_def)

end
