(* ===== verification/Bignum_Bits.thy ===== *)
theory Bignum_Bits
  imports Bignum
begin

text \<open>
  The bit-level operations of \<open>bignum.c\<close> against the value of the object:
  conditional assignment, single bits, \<open>mbedtls_mpi_lsb\<close>, \<open>mbedtls_mpi_bitlen\<close>,
  the shifts, and the comparisons, the constant-time one included.
\<close>

lemma map2_select:
  "length xs = length ys \<Longrightarrow> map2 (\<lambda>x y. x * (1 - 0) + y * 0) xs ys = (xs :: limb list)"
  "length xs = length ys \<Longrightarrow> map2 (\<lambda>x y. x * (1 - 1) + y * 1) xs ys = (ys :: limb list)"
  by (induction xs ys rule: list_induct2) simp_all

lemma mpi_safe_cond_assignD:
  assumes "mbedtls_mpi_safe_cond_assign al X Y a = Inr X'"
  shows "mpi_val X' = (if a = 0 then mpi_val X else mpi_val Y)"
    "mpi_ok X \<Longrightarrow> mpi_ok Y \<Longrightarrow> mpi_ok X'" "mpi_n X' = max (mpi_n X) (mpi_n Y)"
proof -
  obtain Z where Z: "mbedtls_mpi_grow al X (mpi_n Y) = Inr Z"
    using assms by (auto simp: mbedtls_mpi_safe_cond_assign_def Let_def chk_eq_Inr)
  note g = mpi_growD [OF Z]
  have len: "length (take (mpi_n Y) (mpi_p Z)) = mpi_n Y"
    using g(3) by simp
  have X': "X' = (if a = 0 then Z else Z\<lparr>mpi_s := mpi_s Y,
      mpi_p := mpi_p Y @ replicate (mpi_n Z - mpi_n Y) 0\<rparr>)"
    using assms Z map2_select [OF len]
    by (simp add: mbedtls_mpi_safe_cond_assign_def Let_def ct_bool_eq split: if_splits)
      (simp add: map_replicate_const)
  show "mpi_val X' = (if a = 0 then mpi_val X else mpi_val Y)"
    "mpi_ok X \<Longrightarrow> mpi_ok Y \<Longrightarrow> mpi_ok X'" "mpi_n X' = max (mpi_n X) (mpi_n Y)"
    using g by (auto simp: X' mpi_val_def val_append mpi_ok_def)
qed

lemma mpi_safe_cond_swapD:
  assumes "mbedtls_mpi_safe_cond_swap al False X Y a = Inr (X', Y')"
  shows "mpi_val X' = (if a = 0 then mpi_val X else mpi_val Y)"
    "mpi_val Y' = (if a = 0 then mpi_val Y else mpi_val X)"
    "mpi_ok X \<Longrightarrow> mpi_ok Y \<Longrightarrow> mpi_ok X' \<and> mpi_ok Y'"
proof -
  obtain Z W where Z: "mbedtls_mpi_grow al X (mpi_n Y) = Inr Z"
    and W: "mbedtls_mpi_grow al Y (mpi_n Z) = Inr W"
    using assms by (auto simp: mbedtls_mpi_safe_cond_swap_def Let_def chk_eq_Inr)
  note g = mpi_growD [OF Z] and h = mpi_growD [OF W]
  have len: "length (mpi_p Z) = length (mpi_p W)"
    using g(3) h(3) by simp
  have "(X', Y') = (if a = 0 then (Z, W)
      else (Z\<lparr>mpi_s := mpi_s W, mpi_p := mpi_p W\<rparr>, W\<lparr>mpi_s := mpi_s Z, mpi_p := mpi_p Z\<rparr>))"
    using assms Z W map2_select [OF len] len
    by (simp add: mbedtls_mpi_safe_cond_swap_def Let_def ct_bool_eq split: if_splits)
  then show "mpi_val X' = (if a = 0 then mpi_val X else mpi_val Y)"
    "mpi_val Y' = (if a = 0 then mpi_val Y else mpi_val X)"
    "mpi_ok X \<Longrightarrow> mpi_ok Y \<Longrightarrow> mpi_ok X' \<and> mpi_ok Y'"
    using g h by (auto simp: mpi_val_def mpi_ok_def split: if_splits)
qed

subsection \<open>Bits of the value\<close>

lemma and_one_bit: "drop_bit j (x :: limb) AND 1 = (if bit x j then 1 else 0)"
  by (auto intro!: bit_word_eqI simp: bit_simps)

lemma val_Cons_bit: "bit (val (x # xs)) k \<longleftrightarrow> (if k < biL then bit x k else bit (val xs) (k - biL))"
proof (cases "k < biL")
  case False
  then have "k div biL = Suc ((k - biL) div biL)" "k mod biL = (k - biL) mod biL"
    by (simp_all add: le_div_geq le_mod_geq)
  with False show ?thesis
    by (simp add: val_bit del: val.simps)
qed (simp add: val_bit del: val.simps)

lemma mpi_get_bit_val: "mbedtls_mpi_get_bit X pos = (if bit (val (mpi_p X)) pos then 1 else 0)"
proof -
  have "mpi_n X * biL \<le> pos \<longleftrightarrow> mpi_n X \<le> pos div biL"
    by (simp add: less_eq_div_iff_mult_less_eq)
  then show ?thesis
    by (auto simp: mbedtls_mpi_get_bit_def val_bit and_one_bit)
qed

lemma mpi_set_bitD:
  assumes "mbedtls_mpi_set_bit al X pos v = Inr X'"
  shows "bit (val (mpi_p X')) k = (if k = pos then v = 1 else bit (val (mpi_p X)) k)"
    "mpi_s X' = mpi_s X" "mpi_ok X \<Longrightarrow> mpi_ok X'"
proof -
  let ?off = "pos div biL" and ?idx = "pos mod biL"
  have v: "v = 0 \<or> v = 1"
    using assms by (auto simp: mbedtls_mpi_set_bit_def Let_def split: if_splits)
  have "bit (val (mpi_p X')) k = (if k = pos then v = 1 else bit (val (mpi_p X)) k)
      \<and> mpi_s X' = mpi_s X \<and> (mpi_ok X \<longrightarrow> mpi_ok X')"
  proof (cases "mpi_n X * biL \<le> pos \<and> v = 0")
    case True
    moreover from this have "\<not> bit (val (mpi_p X)) pos"
      by (simp add: val_bit not_less less_eq_div_iff_mult_less_eq)
    ultimately show ?thesis
      using assms by (auto simp: mbedtls_mpi_set_bit_def Let_def)
  next
    case False
    define put where "put p = p[?off := (p ! ?off AND NOT (push_bit ?idx 1)) OR push_bit ?idx (ucast v)]"
      for p :: "limb list"
    obtain Z where Z: "Z = X \<and> ?off < mpi_n X \<or> mbedtls_mpi_grow al X (?off + 1) = Inr Z"
      and X': "X' = Z\<lparr>mpi_p := put (mpi_p Z)\<rparr>" and off: "?off < mpi_n Z"
      using assms False v mpi_growD(3) [of al X "?off + 1"]
      by (fastforce simp: mbedtls_mpi_set_bit_def Let_def put_def chk_eq_Inr not_le less_mult_imp_div_less
          split: if_splits)
    have ZX: "val (mpi_p Z) = val (mpi_p X)" "mpi_s Z = mpi_s X" "mpi_ok X \<longrightarrow> mpi_ok Z"
      using Z mpi_growD [of al X "?off + 1" Z] by auto
    have "bit (val (mpi_p X')) k = (if k = pos then v = 1 else bit (val (mpi_p Z)) k)"
    proof (cases "k div biL = ?off")
      case True
      have "k mod biL = ?idx \<longleftrightarrow> k = pos"
        using True by (metis mult_div_mod_eq)
      then show ?thesis
        using True off v
        by (auto simp: X' put_def val_bit bit_simps)
    next
      case False
      then show ?thesis
        by (auto simp: X' put_def val_bit)
    qed
    then show ?thesis
      using ZX by (auto simp: X' put_def mpi_ok_def)
  qed
  then show "bit (val (mpi_p X')) k = (if k = pos then v = 1 else bit (val (mpi_p X)) k)"
    "mpi_s X' = mpi_s X" "mpi_ok X \<Longrightarrow> mpi_ok X'"
    by auto
qed

lemma all_from_split:
  "(\<forall>k. j \<le> k \<and> k < n \<longrightarrow> P k) \<longleftrightarrow> (j < n \<longrightarrow> P j) \<and> (\<forall>k. Suc j \<le> k \<and> k < n \<longrightarrow> P k)"
  by (metis Suc_leD Suc_leI le_neq_implies_less order_refl)

lemma lsb_bits_None: "lsb_bits x j c = None \<longleftrightarrow> (\<forall>k. j \<le> k \<and> k < biL \<longrightarrow> \<not> bit x k)"
proof (induction x j c rule: lsb_bits.induct)
  case (1 x j c)
  show ?case
    using 1 by (subst lsb_bits.simps, subst all_from_split) (auto simp: and_one_bit)
qed

lemma lsb_bits_Some:
  "lsb_bits x j c = Some r \<Longrightarrow>
     c \<le> r \<and> bit x (j + (r - c)) \<and> j + (r - c) < biL \<and> (\<forall>k. j \<le> k \<and> k < j + (r - c) \<longrightarrow> \<not> bit x k)"
proof (induction x j c rule: lsb_bits.induct)
  case (1 x j c)
  have b: "drop_bit j x AND 1 \<noteq> 0 \<longleftrightarrow> bit x j"
    by (simp add: and_one_bit)
  show ?case
  proof (cases "bit x j")
    case True
    then show ?thesis
      using 1(2) b by (subst (asm) lsb_bits.simps) (auto split: if_splits)
  next
    case False
    then have rec: "j < biL" "lsb_bits x (j + 1) (c + 1) = Some r"
      using 1(2) b by (subst (asm) lsb_bits.simps, simp split: if_splits)+
    have "c + 1 \<le> r \<and> bit x (j + 1 + (r - (c + 1))) \<and> j + 1 + (r - (c + 1)) < biL
      \<and> (\<forall>k. j + 1 \<le> k \<and> k < j + 1 + (r - (c + 1)) \<longrightarrow> \<not> bit x k)"
      by (rule 1(1)) (use False b rec in auto)
    moreover from this have "j + 1 + (r - (c + 1)) = j + (r - c)"
      by linarith
    ultimately show ?thesis
      using False by (subst all_from_split) auto
  qed
qed

lemma lsb_limbs_spec:
  "val xs \<noteq> 0 \<Longrightarrow> c \<le> lsb_limbs xs c \<and> bit (val xs) (lsb_limbs xs c - c)
     \<and> (\<forall>k < lsb_limbs xs c - c. \<not> bit (val xs) k)"
proof (induction xs arbitrary: c)
  case (Cons x xs)
  show ?case
  proof (cases "lsb_bits x 0 c")
    case None
    then have x0: "x = 0"
      by (auto intro!: bit_word_eqI simp: lsb_bits_None)
    with Cons.prems have "val xs \<noteq> 0"
      by simp
    note ih = Cons.IH [OF this, of "c + biL"]
    show ?thesis
      using ih None x0 by (auto simp: val_Cons_bit simp del: val.simps)
  next
    case (Some r)
    note r = lsb_bits_Some [OF Some]
    have "bit (val (x # xs)) k \<longleftrightarrow> bit x k" if "k < biL" for k
      using that by (simp add: val_bit del: val.simps)
    then show ?thesis
      using r Some by (auto simp del: val.simps)
  qed
qed simp

lemma mpi_lsb_spec:
  assumes "val (mpi_p X) \<noteq> 0"
  shows "2 ^ mbedtls_mpi_lsb X dvd val (mpi_p X)" "odd (val (mpi_p X) div 2 ^ mbedtls_mpi_lsb X)"
proof -
  let ?l = "mbedtls_mpi_lsb X" and ?v = "val (mpi_p X)"
  have b: "bit ?v ?l" "\<forall>k < ?l. \<not> bit ?v k"
    using lsb_limbs_spec [OF assms, of 0] by (simp_all add: mbedtls_mpi_lsb_def)
  show "odd (?v div 2 ^ ?l)"
    using b(1) by (simp add: bit_iff_odd)
  have "take_bit ?l ?v = 0"
    by (rule bit_eqI) (use b(2) in \<open>auto simp: bit_simps\<close>)
  then show "2 ^ ?l dvd ?v"
    by (simp add: take_bit_eq_mod mod_eq_0_iff_dvd)
qed

lemma mpi_lsb_zero: "val (mpi_p X) = 0 \<Longrightarrow> mbedtls_mpi_lsb X = 0"
proof -
  have "lsb_limbs xs c = 0" if "val xs = 0" for xs c
    using that
  proof (induction xs arbitrary: c)
    case (Cons x xs)
    then have "x = 0" "val xs = 0"
      by (simp_all add: unat_eq_0)
    moreover from this have "lsb_bits x 0 c = None"
      by (simp add: lsb_bits_None)
    ultimately show ?case
      using Cons.IH by simp
  qed simp
  then show "val (mpi_p X) = 0 \<Longrightarrow> mbedtls_mpi_lsb X = 0"
    by (simp add: mbedtls_mpi_lsb_def)
qed

lemma nat_less_by_bits: "(\<And>k. n \<le> k \<Longrightarrow> \<not> bit m k) \<Longrightarrow> (m :: nat) < 2 ^ n"
proof -
  assume nb: "\<And>k. n \<le> k \<Longrightarrow> \<not> bit m k"
  have "bit m k \<longrightarrow> k < n" for k
    using nb [of k] by fastforce
  then have "take_bit n m = m"
    by (intro bit_eqI) (auto simp: bit_simps)
  then show ?thesis
    by (simp add: take_bit_nat_eq_self_iff)
qed

lemma nat_ge_by_bit: "bit (m :: nat) n \<Longrightarrow> 2 ^ n \<le> m"
proof (rule ccontr)
  assume "bit m n" "\<not> 2 ^ n \<le> m"
  then have "take_bit n m = m"
    by (simp add: take_bit_nat_eq_self_iff)
  then show False
    using \<open>bit m n\<close> by (metis bit_take_bit_iff less_irrefl)
qed

lemma clz_loop_spec:
  "j \<le> biL \<Longrightarrow> (j < biL \<Longrightarrow> m = push_bit (biL - 1 - j) 1) \<Longrightarrow>
   j \<le> clz_loop j m x \<and> clz_loop j m x \<le> biL
   \<and> (clz_loop j m x < biL \<longrightarrow> bit x (biL - 1 - clz_loop j m x))
   \<and> (\<forall>k. biL - clz_loop j m x \<le> k \<and> k < biL - j \<longrightarrow> \<not> bit x k)"
proof (induction j m x rule: clz_loop.induct)
  case (1 j m x)
  show ?case
  proof (cases "j < biL")
    case True
    have hit: "x AND m \<noteq> 0 \<longleftrightarrow> bit x (biL - 1 - j)"
    proof -
      have "bit (x AND m) k \<longleftrightarrow> k = biL - 1 - j \<and> bit x k" for k
        using True 1(3) by (auto simp: bit_simps)
      then show ?thesis
        by (metis bit_0_eq bit_word_eqI bot_apply bot_bool_def)
    qed
    show ?thesis
    proof (cases "bit x (biL - 1 - j)")
      case True
      then show ?thesis
        using hit \<open>j < biL\<close> by (subst (1 2 3 4 5) clz_loop.simps) auto
    next
      case False
      let ?r = "clz_loop (j + 1) (drop_bit 1 m) x"
      have eq: "clz_loop j m x = ?r"
        using hit True False by (subst clz_loop.simps) simp
      have m': "drop_bit 1 m = push_bit (biL - 1 - (j + 1)) 1" if "j + 1 < biL"
      proof -
        have "biL - 1 - j = Suc (biL - 1 - (j + 1))"
          using that by simp
        then show ?thesis
          using 1(3) that by (auto intro!: bit_word_eqI simp: bit_simps)
      qed
      have ih: "j + 1 \<le> ?r \<and> ?r \<le> biL \<and> (?r < biL \<longrightarrow> bit x (biL - 1 - ?r))
          \<and> (\<forall>k. biL - ?r \<le> k \<and> k < biL - (j + 1) \<longrightarrow> \<not> bit x k)"
        by (rule 1(1)) (use True hit False m' in auto)
      have "\<not> bit x k" if "biL - ?r \<le> k" "k < biL - j" for k
      proof (cases "k = biL - 1 - j")
        case False
        then show ?thesis
          using ih that by auto
      qed (use False in simp)
      then show ?thesis
        using ih unfolding eq by auto
    qed
  next
    case False
    then show ?thesis
      using 1(2) by (subst (1 2 3 4 5) clz_loop.simps) auto
  qed
qed

lemma mbedtls_clz_le: "mbedtls_clz x \<le> biL"
  using clz_loop_spec [of 0 "push_bit (biL - 1) 1" x] by (simp add: mbedtls_clz_def)

lemma mbedtls_clz_bounds:
  shows "unat x < 2 ^ (biL - mbedtls_clz x)"
    and "x \<noteq> 0 \<Longrightarrow> mbedtls_clz x < biL \<and> 2 ^ (biL - 1 - mbedtls_clz x) \<le> unat x"
proof -
  let ?r = "mbedtls_clz x"
  have r: "?r \<le> biL" "?r < biL \<longrightarrow> bit x (biL - 1 - ?r)" "\<forall>k. biL - ?r \<le> k \<and> k < biL \<longrightarrow> \<not> bit x k"
    using clz_loop_spec [of 0 "push_bit (biL - 1) 1" x] by (simp_all add: mbedtls_clz_def)
  show "unat x < 2 ^ (biL - ?r)"
    by (rule nat_less_by_bits) (use r(3) bit_imp_le_length [of x] in \<open>auto simp: bit_simps\<close>)
  assume "x \<noteq> 0"
  have lt: "?r < biL"
  proof (rule ccontr)
    assume "\<not> ?r < biL"
    then have "x = 0"
      using r(1,3) by (intro bit_word_eqI) simp
    with \<open>x \<noteq> 0\<close> show False ..
  qed
  then show "?r < biL \<and> 2 ^ (biL - 1 - ?r) \<le> unat x"
    using r(2) by (auto intro!: nat_ge_by_bit simp: bit_simps)
qed

lemma mpi_bitlen_bounds:
  shows "val (mpi_p X) < 2 ^ mbedtls_mpi_bitlen X"
    and "val (mpi_p X) \<noteq> 0 \<Longrightarrow> 0 < mbedtls_mpi_bitlen X \<and> 2 ^ (mbedtls_mpi_bitlen X - 1) \<le> val (mpi_p X)"
    and "val (mpi_p X) = 0 \<Longrightarrow> mbedtls_mpi_bitlen X = 0"
proof -
  let ?p = "mpi_p X"
  have "val ?p < 2 ^ mbedtls_mpi_bitlen X
    \<and> (val ?p \<noteq> 0 \<longrightarrow> 0 < mbedtls_mpi_bitlen X \<and> 2 ^ (mbedtls_mpi_bitlen X - 1) \<le> val ?p)
    \<and> (val ?p = 0 \<longrightarrow> mbedtls_mpi_bitlen X = 0)"
  proof (cases "?p = []")
    case False
    define i where "i = scan_top ?p (mpi_n X - 1)"
    define x where "x = ?p ! i"
    define j where "j = biL - mbedtls_clz x"
    have i: "i < mpi_n X" "i + 1 = max 1 (scan_used ?p (mpi_n X))"
      using scan_top_len [OF False] unfolding i_def by linarith+
    have len: "mbedtls_mpi_bitlen X = i * biL + j"
      using False by (simp add: mbedtls_mpi_bitlen_def Let_def i_def j_def x_def)
    have "val (drop (Suc i) ?p) = 0"
      by (rule drop_scan_used) (use i(2) in linarith)
    then have v: "val ?p = val (take i ?p) + 2 ^ (biL * i) * unat x"
      using val_take_drop [of i ?p] i(1) by (simp add: x_def flip: Cons_nth_drop_Suc)
    have lo: "val (take i ?p) < 2 ^ (biL * i)"
      using val_less [of "take i ?p"] i(1) by simp
    have "unat x + 1 \<le> 2 ^ j"
      using mbedtls_clz_bounds(1) [of x] by (simp add: j_def)
    then have "2 ^ (biL * i) * (unat x + 1) \<le> 2 ^ (biL * i) * 2 ^ j"
      by (rule mult_le_mono2)
    moreover have "2 ^ (biL * i) * (unat x + 1) = 2 ^ (biL * i) * unat x + 2 ^ (biL * i)"
      by (simp add: algebra_simps)
    moreover have "2 ^ (biL * i) * 2 ^ j = (2 ^ mbedtls_mpi_bitlen X :: nat)"
      by (simp add: len power_add mult.commute)
    ultimately have up: "val ?p < 2 ^ mbedtls_mpi_bitlen X"
      using v lo by linarith
    show ?thesis
    proof (cases "x = 0")
      case True
      have "i = 0"
      proof (rule ccontr)
        assume "i \<noteq> 0"
        then have "i = scan_used ?p (mpi_n X) - 1" "0 < scan_used ?p (mpi_n X)"
          using i(2) by linarith+
        then show False
          using scan_used_nz [of ?p "mpi_n X"] True by (simp add: x_def)
      qed
      moreover have "j = 0"
        using mbedtls_clz_bounds(1) [of "0 :: limb"] True
          clz_loop_spec [of 0 "push_bit (biL - 1) 1" "0 :: limb"]
        by (auto simp: j_def mbedtls_clz_def)
      ultimately show ?thesis
        using up v True by (simp add: len)
    next
      case x: False
      then have jj: "0 < j" "j - 1 = biL - 1 - mbedtls_clz x"
        using mbedtls_clz_bounds(2) [of x] by (auto simp: j_def)
      have "2 ^ (j - 1) \<le> unat x"
        using mbedtls_clz_bounds(2) [of x] x jj by simp
      then have "2 ^ (biL * i) * 2 ^ (j - 1) \<le> 2 ^ (biL * i) * unat x"
        by (rule mult_le_mono2)
      moreover have "2 ^ (biL * i) * 2 ^ (j - 1) = (2 ^ (mbedtls_mpi_bitlen X - 1) :: nat)"
        using jj(1) by (simp add: len flip: power_add)
      ultimately have "2 ^ (mbedtls_mpi_bitlen X - 1) \<le> val ?p"
        using v by linarith
      moreover have "val ?p \<noteq> 0"
        using v x by (simp add: unat_eq_0)
      ultimately show ?thesis
        using up jj(1) by (simp add: len)
    qed
  qed (simp add: mbedtls_mpi_bitlen_def)
  then show "val (mpi_p X) < 2 ^ mbedtls_mpi_bitlen X"
    and "val (mpi_p X) \<noteq> 0 \<Longrightarrow> 0 < mbedtls_mpi_bitlen X \<and> 2 ^ (mbedtls_mpi_bitlen X - 1) \<le> val (mpi_p X)"
    and "val (mpi_p X) = 0 \<Longrightarrow> mbedtls_mpi_bitlen X = 0"
    by blast+
qed

lemma mpi_bitlen_le: "mbedtls_mpi_bitlen X \<le> biL * mpi_n X"
proof (cases "mpi_p X = []")
  case False
  have "biL * (scan_top (mpi_p X) (mpi_n X - 1) + 1) \<le> biL * mpi_n X"
    by (rule mult_le_mono2) (rule scan_top_len(2) [OF False])
  then show ?thesis
    using False by (simp add: mbedtls_mpi_bitlen_def Let_def)
qed (simp add: mbedtls_mpi_bitlen_def)

subsection \<open>Shifts multiply and divide by powers of two\<close>

lemma shl_limbs_nth:
  "i \<le> length p \<Longrightarrow> length (shl_limbs i v0 p) = length p \<and>
     (\<forall>k < length p. shl_limbs i v0 p ! k
        = (if k < i then if v0 \<le> k then p ! (k - v0) else 0 else p ! k))"
proof (induction i arbitrary: p)
  case (Suc i)
  let ?q = "p[i := if Suc i > v0 then p ! (i - v0) else 0]"
  have "shl_limbs (Suc i) v0 p = shl_limbs i v0 ?q"
    by simp
  moreover have "length (shl_limbs i v0 ?q) = length ?q \<and>
     (\<forall>k < length ?q. shl_limbs i v0 ?q ! k
        = (if k < i then if v0 \<le> k then ?q ! (k - v0) else 0 else ?q ! k))"
    using Suc.prems by (intro Suc.IH) simp
  ultimately show ?case
    using Suc.prems by (auto simp: nth_list_update less_Suc_eq)
qed simp

lemma shl_limbs_eq: "v0 \<le> length p \<Longrightarrow> shl_limbs (length p) v0 p = replicate v0 0 @ take (length p - v0) p"
  using shl_limbs_nth [of "length p" p v0]
  by (intro nth_equalityI) (auto simp: nth_append)

lemma unat_push_bit_limb: "unat (push_bit t (x :: limb)) = (2 ^ t * unat x) mod 2 ^ biL"
  unfolding unsigned_push_bit_eq by (simp add: take_bit_eq_mod push_bit_eq_mult mult.commute)

lemma unat_drop_bit_limb: "unat (drop_bit t (x :: limb)) = unat x div 2 ^ t"
  unfolding unsigned_drop_bit_eq using unsigned_less [of x, where 'a = nat]
  by (simp add: drop_bit_eq_div take_bit_nat_eq_self)

lemma shift_out_iff: "n < c div biL \<or> (c div biL = n \<and> 0 < c mod biL) \<longleftrightarrow> n * biL < (c :: nat)"
proof -
  have "n < q \<or> (q = n \<and> 0 < r) \<longleftrightarrow> n * biL < biL * q + r" if "r < biL" for q r :: nat
    using that by linarith
  from this [of "c mod biL" "c div biL"] show ?thesis
    by simp
qed

lemma pow_count: "(2 :: nat) ^ (biL * (c div biL)) * 2 ^ (c mod biL) = 2 ^ c"
  by (simp flip: power_add)

lemma or_disjoint_limb:
  fixes hi lo :: limb
  assumes "\<And>k. bit hi k \<Longrightarrow> t \<le> k" "unat lo < 2 ^ t"
  shows "unat (hi OR lo) = unat hi + unat lo"
proof -
  have "\<not> bit lo k" if "t \<le> k" for k
  proof
    assume "bit lo k"
    then have "2 ^ k \<le> unat lo"
      by (intro nat_ge_by_bit) (simp add: bit_unsigned_iff bit_imp_le_length)
    moreover have "(2 :: nat) ^ t \<le> 2 ^ k"
      using that by simp
    ultimately show False
      using assms(2) by linarith
  qed
  then have "unat (hi OR lo) = unat hi OR unat lo" "unat hi OR unat lo = unat hi + unat lo"
    using assms(1) by (auto simp: unsigned_or_eq bit_simps intro!: disjunctive_add [symmetric])
  then show ?thesis
    by simp
qed

lemma shl_bits_val:
  assumes "0 < t" "t < biL"
  shows "unat r < 2 ^ t \<Longrightarrow> length (shl_bits t r xs) = length xs \<and>
     (\<exists>c. val (shl_bits t r xs) + 2 ^ (biL * length xs) * c = 2 ^ t * val xs + unat r)"
proof (induction xs arbitrary: r)
  case (Cons x xs)
  let ?r = "drop_bit (biL - t) x"
  have pw: "(2 :: nat) ^ biL = 2 ^ (biL - t) * 2 ^ t"
    using assms by (simp flip: power_add)
  have r': "unat ?r = (2 ^ t * unat x) div 2 ^ biL"
    unfolding unat_drop_bit_limb pw by (simp add: mult.commute)
  have "unat ?r < 2 ^ t"
    unfolding unat_drop_bit_limb using unat_limb_less [of x] unfolding pw
    by (simp add: less_mult_imp_div_less mult.commute)
  then obtain c where ih: "length (shl_bits t ?r xs) = length xs"
      "val (shl_bits t ?r xs) + 2 ^ (biL * length xs) * c = 2 ^ t * val xs + unat ?r"
    using Cons.IH by blast
  have "unat (push_bit t x OR r) = (2 ^ t * unat x) mod 2 ^ biL + unat r"
    using Cons.prems by (subst or_disjoint_limb [of _ t]) (auto simp: bit_simps unat_push_bit_limb)
  then have "val (shl_bits t r (x # xs)) + 2 ^ (biL * length (x # xs)) * c
      = (2 ^ t * unat x) mod 2 ^ biL + unat r
        + 2 ^ biL * (val (shl_bits t ?r xs) + 2 ^ (biL * length xs) * c)"
    by (simp add: Let_def algebra_simps power_add)
  also have "\<dots> = (2 ^ t * unat x) mod 2 ^ biL + 2 ^ biL * ((2 ^ t * unat x) div 2 ^ biL)
        + unat r + 2 ^ biL * (2 ^ t * val xs)"
    unfolding ih(2) r' by (simp add: algebra_simps)
  also have "\<dots> = 2 ^ t * val (x # xs) + unat r"
    by (simp add: algebra_simps)
  finally show ?case
    using ih(1) by (auto simp: Let_def)
qed simp

lemma BITS_TO_LIMBS_ge: "i \<le> BITS_TO_LIMBS i * biL"
  using mod_less_divisor [of biL i] div_mult_mod_eq [of i biL]
  by (auto simp: BITS_TO_LIMBS_def)

lemma mpi_shift_lD:
  assumes "mbedtls_mpi_shift_l al X count = Inr X'"
  shows "val (mpi_p X') = val (mpi_p X) * 2 ^ count" "mpi_s X' = mpi_s X"
    "mpi_val X' = mpi_val X * 2 ^ count" "mpi_ok X \<Longrightarrow> mpi_ok X'" 
    "mpi_n X' = max (mpi_n X) (if mpi_n X * biL < mbedtls_mpi_bitlen X + count
        then BITS_TO_LIMBS (mbedtls_mpi_bitlen X + count) else 0)"
proof -
  let ?v0 = "count div biL" and ?t = "count mod biL" and ?i = "mbedtls_mpi_bitlen X + count"
  obtain Z where Z: "(if mpi_n X * biL < ?i then mbedtls_mpi_grow al X (BITS_TO_LIMBS ?i) else Inr X) = Inr Z"
    and X': "X' = Z\<lparr>mpi_p := (let p = (if ?v0 > 0 then shl_limbs (mpi_n Z) ?v0 (mpi_p Z) else mpi_p Z)
        in if ?t > 0 then take ?v0 p @ shl_bits ?t 0 (drop ?v0 p) else p)\<rparr>"
    using assms by (auto simp: mbedtls_mpi_shift_l_def Let_def chk_eq_Inr)
  have z: "mpi_s Z = mpi_s X" "val (mpi_p Z) = val (mpi_p X)" "mpi_ok X \<longrightarrow> mpi_ok Z" "?i \<le> mpi_n Z * biL"
     "mpi_n Z = max (mpi_n X) (if mpi_n X * biL < ?i then BITS_TO_LIMBS ?i else 0)"
    using Z mpi_growD [of al X "BITS_TO_LIMBS ?i" Z] BITS_TO_LIMBS_ge [of ?i]
    by (auto split: if_splits simp: max_def)
  have count: "count = biL * ?v0 + ?t"
    by simp
  have v0: "?v0 \<le> mpi_n Z"
    using z(4) by (metis add_leD2 div_le_mono div_mult_self_is_m zero_less_numeral)
  define p where "p = replicate ?v0 0 @ take (mpi_n Z - ?v0) (mpi_p Z)"
  have p: "(if ?v0 > 0 then shl_limbs (mpi_n Z) ?v0 (mpi_p Z) else mpi_p Z) = p"
    using v0 by (simp add: p_def shl_limbs_eq)
  have lenp: "length p = mpi_n Z"
    using v0 by (simp add: p_def)
  have small: "2 ^ count * val (mpi_p X) < 2 ^ (biL * mpi_n Z)"
  proof -
    have "2 ^ count * val (mpi_p X) < 2 ^ count * 2 ^ mbedtls_mpi_bitlen X"
      using mpi_bitlen_bounds(1) [of X] by simp
    also have "\<dots> = 2 ^ ?i"
      by (simp add: power_add)
    also have "\<dots> \<le> 2 ^ (biL * mpi_n Z)"
      using z(4) by (intro power_increasing) (simp_all add: mult.commute)
    finally show ?thesis .
  qed
  have vtake: "val (take (mpi_n Z - ?v0) (mpi_p Z)) = val (mpi_p X)"
  proof -
    have "2 ^ (biL * ?v0) * val (mpi_p X) \<le> 2 ^ count * val (mpi_p X)"
      by (intro mult_le_mono1 power_increasing) simp_all
    also note small
    also have "(2 :: nat) ^ (biL * mpi_n Z) = 2 ^ (biL * ?v0) * 2 ^ (biL * (mpi_n Z - ?v0))"
      using v0 by (simp flip: power_add distrib_left)
    finally have "val (mpi_p X) < 2 ^ (biL * (mpi_n Z - ?v0))"
      by simp
    then show ?thesis
      by (simp add: val_take z(2))
  qed
  have pX': "mpi_p X' = (if ?t > 0 then replicate ?v0 0 @ shl_bits ?t 0 (drop ?v0 p) else p)"
    unfolding X' Let_def p by (simp add: p_def)
  have len: "length (mpi_p X') = mpi_n Z"
    using lenp v0 shl_bits_val [of ?t 0 "drop ?v0 p"] by (auto simp: pX')
  have "2 ^ (biL * ?v0) * (2 ^ ?t * val (mpi_p X)) = val (mpi_p X')"
  proof (cases "?t > 0")
    case True
    have dp: "val (drop ?v0 p) = val (mpi_p X)"
      by (simp add: p_def vtake)
    obtain c where c: "val (shl_bits ?t 0 (drop ?v0 p)) + 2 ^ (biL * (mpi_n Z - ?v0)) * c = 2 ^ ?t * val (mpi_p X)"
      using shl_bits_val [of ?t 0 "drop ?v0 p"] True lenp by (auto simp: dp)
    have "2 ^ (biL * ?v0) * (2 ^ ?t * val (mpi_p X)) = 2 ^ count * val (mpi_p X)"
      using pow_count [of count] by (simp flip: mult.assoc)
    then have "2 ^ (biL * ?v0) * (2 ^ ?t * val (mpi_p X)) < 2 ^ (biL * ?v0) * 2 ^ (biL * (mpi_n Z - ?v0))"
      using small v0 by (simp add: mult.assoc [symmetric] pow_count flip: power_add distrib_left)
    then have "2 ^ ?t * val (mpi_p X) < 2 ^ (biL * (mpi_n Z - ?v0))"
      by simp
    then have "c = 0"
      using c by (cases c) auto
    then show ?thesis
      using True c by (simp add: pX' val_append)
  next
    case False
    then show ?thesis
      by (simp add: pX' p_def val_append vtake)
  qed
  then show v: "val (mpi_p X') = val (mpi_p X) * 2 ^ count"
    by (metis mult.assoc mult.commute pow_count)
  show s: "mpi_s X' = mpi_s X"
    by (simp add: X' z(1))
  show "mpi_val X' = mpi_val X * 2 ^ count"
    by (simp add: mpi_val_def v s)
  show "mpi_ok X \<Longrightarrow> mpi_ok X'"
    using z(3) len s z(1) by (simp add: mpi_ok_def)
  show "mpi_n X' = max (mpi_n X) (if mpi_n X * biL < ?i then BITS_TO_LIMBS ?i else 0)"
    unfolding len by (rule z(5))
qed

lemma shr_limbs_nth:
  "length (shr_limbs i v0 p) = length p \<and>
     (\<forall>k < length p. shr_limbs i v0 p ! k
        = (if i \<le> k then if k < length p - v0 then p ! (k + v0) else 0 else p ! k))"
proof (induction i v0 p rule: shr_limbs.induct)
  case (1 i v0 p)
  let ?q = "p[i := if i < length p - v0 then p ! (i + v0) else 0]"
  show ?case
  proof (cases "i < length p")
    case True
    then have "shr_limbs i v0 p = shr_limbs (i + 1) v0 ?q"
      by (subst shr_limbs.simps) simp
    then have "length (shr_limbs i v0 p) = length p \<and> (\<forall>k < length p. shr_limbs i v0 p ! k
        = (if i + 1 \<le> k then if k < length p - v0 then ?q ! (k + v0) else 0 else ?q ! k))"
      using 1 [OF True] by simp
    then show ?thesis
      using True by (auto simp: nth_list_update not_less_eq_eq le_antisym)
  next
    case False
    then show ?thesis
      by (subst (1 2) shr_limbs.simps) auto
  qed
qed

lemma shr_limbs_eq: "v0 \<le> length p \<Longrightarrow> shr_limbs 0 v0 p = drop v0 p @ replicate v0 0"
  using shr_limbs_nth [of 0 v0 p]
  by (intro nth_equalityI) (auto simp: nth_append add.commute)

lemma shr_bits_val:
  assumes "0 < v" "v < biL"
  shows "length (fst (shr_bits v xs)) = length xs \<and> val (fst (shr_bits v xs)) = val xs div 2 ^ v
    \<and> unat (snd (shr_bits v xs)) = 2 ^ (biL - v) * (val xs mod 2 ^ v)"
proof (induction xs)
  case (Cons x xs)
  obtain ys r where yr: "shr_bits v xs = (ys, r)"
    by force
  have pw: "(2 :: nat) ^ biL = 2 ^ (biL - v) * 2 ^ v"
    using assms by (simp flip: power_add)
  have modx: "val (x # xs) mod 2 ^ v = unat x mod 2 ^ v"
    unfolding val.simps pw by (simp only: mult.assoc mult.left_commute [of "2 ^ (biL - v)"] mod_mult_self2)
  have "unat (drop_bit v x) < 2 ^ (biL - v)"
    unfolding unat_drop_bit_limb using unat_limb_less [of x] unfolding pw
    by (simp add: less_mult_imp_div_less)
  moreover have r: "unat r = 2 ^ (biL - v) * (val xs mod 2 ^ v)"
    using Cons.IH yr by simp
  moreover have "biL - v \<le> k" if "bit r k" for k
  proof -
    have "bit (unat r) k"
      using that by (simp add: bit_unsigned_iff bit_imp_le_length)
    also have "unat r = push_bit (biL - v) (val xs mod 2 ^ v)"
      by (simp add: r push_bit_eq_mult)
    finally show ?thesis
      by (simp add: bit_push_bit_iff)
  qed
  ultimately have "unat (drop_bit v x OR r) = unat x div 2 ^ v + 2 ^ (biL - v) * (val xs mod 2 ^ v)"
    by (subst or.commute, subst or_disjoint_limb [of _ "biL - v"]) (auto simp: unat_drop_bit_limb)
  then have "val (fst (shr_bits v (x # xs)))
      = unat x div 2 ^ v + 2 ^ (biL - v) * (val xs mod 2 ^ v) + 2 ^ biL * (val xs div 2 ^ v)"
    using Cons.IH yr by simp
  also have "\<dots> = unat x div 2 ^ v + 2 ^ (biL - v) * (val xs mod 2 ^ v + 2 ^ v * (val xs div 2 ^ v))"
    unfolding pw by (simp only: distrib_left mult.assoc add.assoc)
  also have "\<dots> = unat x div 2 ^ v + 2 ^ (biL - v) * val xs"
    by simp
  also have "\<dots> = val (x # xs) div 2 ^ v"
    unfolding val.simps pw
    by (simp only: mult.assoc mult.left_commute [of "2 ^ (biL - v)"]) simp
  finally have "val (fst (shr_bits v (x # xs))) = val (x # xs) div 2 ^ v" .
  moreover have "unat (push_bit (biL - v) x) = 2 ^ (biL - v) * (unat x mod 2 ^ v)"
    unfolding unat_push_bit_limb pw by (rule mult_mod_right [symmetric])
  ultimately show ?case
    using Cons.IH yr modx by simp
qed simp

lemma mpi_shift_rD:
  assumes "mbedtls_mpi_shift_r al X count = Inr X'"
  shows "val (mpi_p X') = val (mpi_p X) div 2 ^ count" "mpi_ok X \<Longrightarrow> mpi_ok X'"
    "count \<le> mpi_n X * biL \<Longrightarrow> mpi_s X' = mpi_s X \<and> mpi_n X' = mpi_n X"
    "mpi_val X' = mpi_s X * int (val (mpi_p X) div 2 ^ count)"
proof -
  let ?v0 = "count div biL" and ?v1 = "count mod biL"
  have count: "count = biL * ?v0 + ?v1"
    by simp
  note big = shift_out_iff [of "mpi_n X" count]
  have "val (mpi_p X') = val (mpi_p X) div 2 ^ count \<and> (mpi_ok X \<longrightarrow> mpi_ok X')
     \<and> (count \<le> mpi_n X * biL \<longrightarrow> mpi_s X' = mpi_s X \<and> mpi_n X' = mpi_n X)"
  proof (cases "mpi_n X * biL < count")
    case True
    then have l: "mbedtls_mpi_lset al X 0 = Inr X'"
      using assms big by (auto simp: mbedtls_mpi_shift_r_def Let_def)
    have "val (mpi_p X) < 2 ^ (biL * mpi_n X)"
      by (rule val_less)
    also have "\<dots> \<le> 2 ^ count"
      using True by (intro power_increasing) (simp_all add: mult.commute)
    finally have "val (mpi_p X) div 2 ^ count = 0"
      by simp
    moreover have "sint_abs 0 = 0"
      by (simp add: sint_abs_def)
    ultimately show ?thesis
      using mpi_lsetD [OF l] mpi_lset_val(2) [OF l] True by simp
  next
    case False
    have v0: "?v0 \<le> mpi_n X"
      using False big by auto
    define p where "p = drop ?v0 (mpi_p X) @ replicate ?v0 0"
    have p: "(if ?v0 > 0 then shr_limbs 0 ?v0 (mpi_p X) else mpi_p X) = p"
      using v0 by (simp add: p_def shr_limbs_eq)
    have X': "X' = X\<lparr>mpi_p := if ?v1 > 0 then fst (shr_bits ?v1 p) else p\<rparr>"
      using assms False big p by (auto simp: mbedtls_mpi_shift_r_def Let_def)
    have vp: "val p = val (mpi_p X) div 2 ^ (biL * ?v0)"
      using v0 by (simp add: p_def val_append val_drop)
    have "val (mpi_p X') = val p div 2 ^ ?v1"
      using shr_bits_val [of ?v1 p] by (auto simp: X')
    also have "\<dots> = val (mpi_p X) div 2 ^ count"
      unfolding vp by (simp add: pow_count flip: div_mult2_eq)
    finally show ?thesis
      using shr_bits_val [of ?v1 p] v0 by (auto simp: X' mpi_ok_def p_def)
  qed
  then show 1: "val (mpi_p X') = val (mpi_p X) div 2 ^ count" "mpi_ok X \<Longrightarrow> mpi_ok X'"
    "count \<le> mpi_n X * biL \<Longrightarrow> mpi_s X' = mpi_s X \<and> mpi_n X' = mpi_n X"
    by auto
  show "mpi_val X' = mpi_s X * int (val (mpi_p X) div 2 ^ count)"
  proof (cases "mpi_n X * biL < count")
    case True
    have "val (mpi_p X) < 2 ^ (biL * mpi_n X)"
      by (rule val_less)
    also have "\<dots> \<le> 2 ^ count"
      using True by (intro power_increasing) (simp_all add: mult.commute)
    finally show ?thesis
      using 1(1) by (simp add: mpi_val_def)
  next
    case False
    then show ?thesis
      using 1 by (simp add: mpi_val_def)
  qed
qed

subsection \<open>Comparisons are the order of the values\<close>

lemma val_take_Suc: "i < length xs \<Longrightarrow> val (take (Suc i) xs) = val (take i xs) + 2 ^ (biL * i) * unat (xs ! i)"
  by (simp add: take_Suc_conv_app_nth val_append)

lemma val_take_less: "val (take i xs) < 2 ^ (biL * i)"
proof -
  have "val (take i xs) < 2 ^ (biL * length (take i xs))"
    by (rule val_less)
  also have "\<dots> \<le> 2 ^ (biL * i)"
    by (intro power_increasing) simp_all
  finally show ?thesis .
qed

lemma lex_less:
  fixes a b x y B :: nat
  assumes "a < B" "b < B" "x < y"
  shows "a + B * x < b + B * y"
proof -
  have "a + B * x < B * (x + 1)"
    using assms(1) by simp
  also have "\<dots> \<le> B * y"
    using assms(3) by (intro mult_le_mono2) simp
  finally show ?thesis
    by simp
qed

lemma cmp_limbs_val:
  "i \<le> length xs \<Longrightarrow> i \<le> length ys \<Longrightarrow>
     cmp_limbs xs ys i = sgn (int (val (take i xs)) - int (val (take i ys)))"
proof (induction i)
  case (Suc i)
  let ?B = "2 ^ (biL * i) :: nat"
  have v: "val (take (Suc i) xs) = val (take i xs) + ?B * unat (xs ! i)"
    "val (take (Suc i) ys) = val (take i ys) + ?B * unat (ys ! i)"
    using Suc.prems by (simp_all add: val_take_Suc)
  note l = val_take_less [of i xs] val_take_less [of i ys]
  consider "xs ! i < ys ! i" | "ys ! i < xs ! i" | "xs ! i = ys ! i"
    by (rule linorder_cases)
  then show ?case
  proof cases
    case 1
    then have "unat (xs ! i) < unat (ys ! i)"
      by (simp add: word_less_nat_alt)
    then have "val (take (Suc i) xs) < val (take (Suc i) ys)"
      unfolding v by (rule lex_less [OF l])
    then show ?thesis
      using 1 by (simp del: take_Suc)
  next
    case 2
    then have "unat (ys ! i) < unat (xs ! i)"
      by (simp add: word_less_nat_alt)
    then have "val (take (Suc i) ys) < val (take (Suc i) xs)"
      unfolding v by (rule lex_less [OF l(2,1)])
    then show ?thesis
      using 2 by (simp del: take_Suc)
  next
    case 3
    then show ?thesis
      using Suc by (simp add: v)
  qed
qed simp

lemma cmp_limbs_s_eq: "cmp_limbs_s s xs ys i = s * cmp_limbs xs ys i"
  by (induction i) auto

lemma val_less_by_used:
  assumes "scan_used p (length p) > scan_used q (length q)"
  shows "val q < val p"
proof -
  have "val q < 2 ^ (biL * scan_used q (length q))"
    by (rule val_scan_used_less)
  also have "\<dots> \<le> 2 ^ (biL * (scan_used p (length p) - 1))"
    using assms by (intro power_increasing mult_le_mono2) simp_all
  also have "\<dots> \<le> val p"
    using assms by (intro val_scan_used_ge) simp
  finally show ?thesis .
qed

lemma mpi_cmp_abs_val:
  "mbedtls_mpi_cmp_abs X Y = sgn (int (val (mpi_p X)) - int (val (mpi_p Y)))"
proof -
  let ?i = "scan_used (mpi_p X) (mpi_n X)" and ?j = "scan_used (mpi_p Y) (mpi_n Y)"
  have le: "?i \<le> mpi_n X" "?j \<le> mpi_n Y"
    by (rule scan_used_le)+
  show ?thesis
  proof (cases "?i = ?j")
    case True
    then show ?thesis
      using cmp_limbs_val [of ?i "mpi_p X" "mpi_p Y"] le scan_used_0_iff [of "mpi_p X"] scan_used_0_iff [of "mpi_p Y"]
      by (auto simp: mbedtls_mpi_cmp_abs_def Let_def val_take_used)
  next
    case False
    then consider "?j < ?i" | "?i < ?j"
      by linarith
    then show ?thesis
      using val_less_by_used [of "mpi_p Y" "mpi_p X"] val_less_by_used [of "mpi_p X" "mpi_p Y"]
      by cases (auto simp: mbedtls_mpi_cmp_abs_def Let_def)
  qed
qed

lemma mpi_cmp_mpi_val:
  assumes "mpi_ok X" "mpi_ok Y"
  shows "mbedtls_mpi_cmp_mpi X Y = sgn (mpi_val X - mpi_val Y)"
proof -
  let ?i = "scan_used (mpi_p X) (mpi_n X)" and ?j = "scan_used (mpi_p Y) (mpi_n Y)"
  have le: "?i \<le> mpi_n X" "?j \<le> mpi_n Y"
    by (rule scan_used_le)+
  have s: "mpi_s X = 1 \<or> mpi_s X = - 1" "mpi_s Y = 1 \<or> mpi_s Y = - 1"
    using assms by (auto simp: mpi_ok_def)
  show ?thesis
  proof (cases "?i = ?j")
    case True
    have c: "cmp_limbs (mpi_p X) (mpi_p Y) ?i = sgn (int (val (mpi_p X)) - int (val (mpi_p Y)))"
      using cmp_limbs_val [of ?i "mpi_p X" "mpi_p Y"] le True by (simp add: val_take_used)
    show ?thesis
    proof (cases "?i = 0")
      case True
      then show ?thesis
        using \<open>?i = ?j\<close> scan_used_0_iff [of "mpi_p X"] scan_used_0_iff [of "mpi_p Y"]
        by (simp add: mbedtls_mpi_cmp_mpi_def mpi_val_def)
    next
      case False
      then have "0 < val (mpi_p X)" "0 < val (mpi_p Y)"
        using True scan_used_0_iff [of "mpi_p X"] scan_used_0_iff [of "mpi_p Y"] by simp_all
      then show ?thesis
        using s True False c
        by (auto simp: mbedtls_mpi_cmp_mpi_def Let_def mpi_val_def cmp_limbs_s_eq sgn_if)
    qed
  next
    case False
    then consider "?j < ?i" "val (mpi_p Y) < val (mpi_p X)" | "?i < ?j" "val (mpi_p X) < val (mpi_p Y)"
      using val_less_by_used [of "mpi_p Y" "mpi_p X"] val_less_by_used [of "mpi_p X" "mpi_p Y"] by linarith
    then show ?thesis
      using s by cases (auto simp: mbedtls_mpi_cmp_mpi_def Let_def mpi_val_def sgn_if)
  qed
qed

lemma mpi_of_sint_ok:
  "mpi_ok \<lparr>mpi_s = sint_sgn z, mpi_p = [sint_abs z]\<rparr>"
  "mpi_val \<lparr>mpi_s = sint_sgn z, mpi_p = [sint_abs z]\<rparr> = sint z"
  using sint_sgn_abs [of z] by (simp_all add: mpi_ok_def mpi_val_def sint_sgn_def MBEDTLS_MPI_MAX_LIMBS_def)

lemma mpi_cmp_int_val: "mpi_ok X \<Longrightarrow> mbedtls_mpi_cmp_int X z = sgn (mpi_val X - sint z)"
  by (simp add: mbedtls_mpi_cmp_int_def mpi_cmp_mpi_val mpi_of_sint_ok)

lemma bit_63_iff: "bit (x :: limb) 63 \<longleftrightarrow> 2 ^ 63 \<le> unat x"
proof
  assume "bit x 63"
  then show "2 ^ 63 \<le> unat x"
    by (intro nat_ge_by_bit) (simp add: bit_unsigned_iff)
next
  assume g: "2 ^ 63 \<le> unat x"
  have "unat x div 2 ^ 63 = 1"
    using g unat_limb_less [of x] by (intro div_nat_eqI) simp_all
  then have "bit (unat x) 63"
    by (simp add: bit_iff_odd)
  then show "bit x 63"
    by (simp add: bit_unsigned_iff)
qed

lemma unat_sub_limb:
  "unat (x - y :: limb) = (if y \<le> x then unat x - unat y else 2 ^ 64 + unat x - unat y)"
proof (cases "y \<le> x")
  case True
  then show ?thesis
    by (simp add: unat_sub)
next
  case False
  then have b: "uint x < uint y"
    by (simp add: word_le_def)
  have "uint (x - y) = (uint x - uint y) mod 2 ^ 64"
    by (simp add: uint_word_ariths(2))
  also have "\<dots> = (uint x - uint y + 2 ^ 64) mod 2 ^ 64"
    by simp
  also have "\<dots> = uint x - uint y + 2 ^ 64"
  proof (rule mod_pos_pos_trivial)
    have "0 \<le> uint x" "uint y < 2 ^ 64"
      using uint_bounded [of y] by simp_all
    then show "0 \<le> uint x - uint y + 2 ^ 64"
      by linarith
  qed (use b in linarith)
  finally have "int (unat (x - y)) = int (unat x) - int (unat y) + 18446744073709551616"
    by simp
  then have "unat (x - y) = 18446744073709551616 + unat x - unat y"
    by linarith
  then show ?thesis
    using False by simp
qed

lemma ct_lt_mpi_uint_eq: "ct_lt_mpi_uint x y = (if x < y then 1 else 0)"
proof -
  define w where "w = ((x - y) AND NOT (x XOR y)) OR (y AND (x XOR y))"
  have "bit w 63 \<longleftrightarrow> x < y"
  proof -
    have "bit w 63 \<longleftrightarrow> (if bit x 63 = bit y 63 then bit (x - y) 63 else bit y 63)"
      by (auto simp: w_def bit_simps)
    then show ?thesis
      using unat_limb_less [of x] unat_limb_less [of y]
      by (auto simp: bit_63_iff unat_sub_limb word_le_nat_alt word_less_nat_alt split: if_splits)
  qed
  moreover have "drop_bit 63 w = (if bit w 63 then 1 else 0)"
  proof (rule bit_word_eqI)
    fix n
    show "bit (drop_bit 63 w) n = bit (if bit w 63 then 1 else 0 :: limb) n"
      using bit_imp_le_length [of w "63 + n"] by (cases n) (auto simp: bit_simps)
  qed
  ultimately show ?thesis
    by (simp add: ct_lt_mpi_uint_def Let_def w_def)
qed

lemma lt_ct_loop_val:
  assumes "neg = 0 \<or> neg = 1" "d = 0 \<or> d = 1"
  shows "i \<le> length xs \<Longrightarrow> i \<le> length ys \<Longrightarrow>
    lt_ct_loop neg xs ys i ret d = ret OR
      (if d = 0 \<and> (if neg = 1 then val (take i ys) < val (take i xs) else val (take i xs) < val (take i ys))
       then 1 else 0)"
  using assms(2)
proof (induction i arbitrary: ret d)
  case (Suc i)
  have v: "val (take (Suc i) xs) = val (take i xs) + 2 ^ (biL * i) * unat (xs ! i)"
    "val (take (Suc i) ys) = val (take i ys) + 2 ^ (biL * i) * unat (ys ! i)"
    using Suc.prems by (simp_all add: val_take_Suc)
  note l = val_take_less [of i xs] val_take_less [of i ys]
  consider (lt) "xs ! i < ys ! i" | (gt) "ys ! i < xs ! i" | (eq) "xs ! i = ys ! i"
    by (rule linorder_cases)
  then show ?case
  proof cases
    case lt
    then have "unat (xs ! i) < unat (ys ! i)"
      by (simp add: word_less_nat_alt)
    note c = lex_less [OF l this]
    show ?thesis
      using lt c Suc.prems assms(1) Suc.IH
      by (auto simp: ct_lt_mpi_uint_eq v)
  next
    case gt
    then have "unat (ys ! i) < unat (xs ! i)"
      by (simp add: word_less_nat_alt)
    note c = lex_less [OF l(2,1) this]
    show ?thesis
      using gt c Suc.prems assms(1) Suc.IH
      by (auto simp: ct_lt_mpi_uint_eq v)
  next
    case eq
    then show ?thesis
      using Suc.prems assms(1) Suc.IH by (auto simp: ct_lt_mpi_uint_eq v)
  qed
qed simp

lemma mpi_lt_mpi_ct_val:
  assumes "mpi_ok X" "mpi_ok Y" "mpi_n X = mpi_n Y"
    "mpi_val X = 0 \<longrightarrow> mpi_s X = 1" "mpi_val Y = 0 \<longrightarrow> mpi_s Y = 1"
  shows "mbedtls_mpi_lt_mpi_ct X Y = Inr (if mpi_val X < mpi_val Y then 1 else 0)"
proof -
  have n: "drop_bit 1 (word_of_int (mpi_s X) AND 2 :: u32) = (if mpi_s X = 1 then 0 else 1)" if "mpi_ok X" for X
  proof (cases "mpi_s X = 1")
    case False
    then have "word_of_int (mpi_s X) = (- 1 :: u32)"
      using that by (simp add: mpi_ok_def)
    then have "word_of_int (mpi_s X) AND 2 = (2 :: u32)"
      by (simp only: and.left_neutral)
    then show ?thesis
      using False by simp
  qed simp
  show ?thesis
    using assms n [OF assms(1)] n [OF assms(2)]
    by (auto simp: mbedtls_mpi_lt_mpi_ct_def Let_def lt_ct_loop_val mpi_val_def mpi_ok_def
        split: if_splits)
qed

subsection \<open>Properties\<close>

text \<open>
  The comparisons of big integers decide the order of the values:
  \<open>mbedtls_mpi_cmp_mpi\<close> returns the sign of the difference, \<open>mbedtls_mpi_cmp_abs\<close>
  that of the difference of the magnitudes and \<open>mbedtls_mpi_cmp_int\<close> compares
  with a machine integer, for objects of any two lengths, leading zero limbs
  and both representations of zero included.
\<close>

theorem mpi_compare_correct:
  assumes "mpi_ok X" "mpi_ok Y"
  shows "mbedtls_mpi_cmp_mpi X Y = sgn (mpi_val X - mpi_val Y)
    \<and> mbedtls_mpi_cmp_abs X Y = sgn (\<bar>mpi_val X\<bar> - \<bar>mpi_val Y\<bar>)
    \<and> mbedtls_mpi_cmp_int X z = sgn (mpi_val X - sint z)"
proof -
  have "\<bar>mpi_val U\<bar> = int (val (mpi_p U))" if "mpi_ok U" for U
    using that by (auto simp: mpi_val_def mpi_ok_def abs_mult)
  then show ?thesis
    using assms by (simp add: mpi_cmp_mpi_val mpi_cmp_abs_val mpi_cmp_int_val)
qed

text \<open>The comparison theorem at \<open>-2^64\<close> (with a leading zero limb), 5 and the machine integer -3.\<close>

theorem mpi_compare_correct_witness:
  "mbedtls_mpi_cmp_mpi \<lparr>mpi_s = - 1, mpi_p = [0, 1, 0]\<rparr> \<lparr>mpi_s = 1, mpi_p = [5]\<rparr> = - 1
   \<and> mbedtls_mpi_cmp_abs \<lparr>mpi_s = - 1, mpi_p = [0, 1, 0]\<rparr> \<lparr>mpi_s = 1, mpi_p = [5]\<rparr> = 1
   \<and> mbedtls_mpi_cmp_int \<lparr>mpi_s = - 1, mpi_p = [0, 1, 0]\<rparr> (- 3) = - 1"
proof -
  have ok: "mpi_ok \<lparr>mpi_s = - 1, mpi_p = [0, 1, 0]\<rparr>" "mpi_ok \<lparr>mpi_s = 1, mpi_p = [5]\<rparr>"
    by (simp_all add: mpi_ok_def MBEDTLS_MPI_MAX_LIMBS_def)
  show ?thesis
    using mpi_compare_correct [OF ok, of "- 3"] by (simp add: mpi_val_def)
qed

text \<open>
  \<open>mbedtls_mpi_lt_mpi_ct\<close>, the comparison without branches, decides
  \<open>X < Y\<close> for operands of the same length, and refuses operands of different
  lengths. A zero must carry the sign 1.
\<close>

theorem mpi_lt_mpi_ct_correct:
  assumes "mpi_ok X" "mpi_ok Y" "mpi_val X = 0 \<longrightarrow> mpi_s X = 1" "mpi_val Y = 0 \<longrightarrow> mpi_s Y = 1"
  shows "mbedtls_mpi_lt_mpi_ct X Y =
     (if mpi_n X = mpi_n Y then Inr (if mpi_val X < mpi_val Y then 1 else 0)
      else Inl MPI_BAD_INPUT_DATA)"
proof (cases "mpi_n X = mpi_n Y")
  case True
  then show ?thesis
    using mpi_lt_mpi_ct_val [OF assms(1,2) True assms(3,4)] by simp
qed (simp add: mbedtls_mpi_lt_mpi_ct_def)

theorem mpi_lt_mpi_ct_correct_witness:
  "mbedtls_mpi_lt_mpi_ct \<lparr>mpi_s = - 1, mpi_p = [7, 1]\<rparr> \<lparr>mpi_s = - 1, mpi_p = [9, 0]\<rparr> = Inr 1"
proof -
  have "mpi_ok \<lparr>mpi_s = - 1, mpi_p = [7, 1]\<rparr>" "mpi_ok \<lparr>mpi_s = - 1, mpi_p = [9, 0]\<rparr>"
    by (simp_all add: mpi_ok_def MBEDTLS_MPI_MAX_LIMBS_def)
  then show ?thesis
    using mpi_lt_mpi_ct_correct [of "\<lparr>mpi_s = - 1, mpi_p = [7, 1]\<rparr>" "\<lparr>mpi_s = - 1, mpi_p = [9, 0]\<rparr>"]
    by (simp add: mpi_val_def)
qed

text \<open>
  Shifts are exact: \<open>mbedtls_mpi_shift_l\<close> multiplies the value by
  \<open>2^count\<close> without losing bits, whatever the length of the object, and
  \<open>mbedtls_mpi_shift_r\<close> divides the magnitude by \<open>2^count\<close>, rounding towards
  zero; both keep the type invariant, and the left shift fails only when
  memory or the limb limit is exhausted.
\<close>

theorem mpi_shift_correct:
  assumes "mpi_ok X"
  shows "(case mbedtls_mpi_shift_l al X count of
            Inl e \<Rightarrow> e = MPI_ALLOC_FAILED
          | Inr Y \<Rightarrow> mpi_ok Y \<and> mpi_val Y = mpi_val X * 2 ^ count)
    \<and> (case mbedtls_mpi_shift_r al X count of
            Inl e \<Rightarrow> e = MPI_ALLOC_FAILED
          | Inr Y \<Rightarrow> mpi_ok Y \<and> mpi_val Y = mpi_s X * int (val (mpi_p X) div 2 ^ count))"
proof
  show "case mbedtls_mpi_shift_l al X count of
            Inl e \<Rightarrow> e = MPI_ALLOC_FAILED
          | Inr Y \<Rightarrow> mpi_ok Y \<and> mpi_val Y = mpi_val X * 2 ^ count"
  proof (cases "mbedtls_mpi_shift_l al X count")
    case (Inl e)
    then show ?thesis
      by (auto simp: mbedtls_mpi_shift_l_def Let_def chk_eq_Inl mpi_grow_error split: if_splits)
  qed (use mpi_shift_lD(3,4) assms in auto)
  show "case mbedtls_mpi_shift_r al X count of
            Inl e \<Rightarrow> e = MPI_ALLOC_FAILED
          | Inr Y \<Rightarrow> mpi_ok Y \<and> mpi_val Y = mpi_s X * int (val (mpi_p X) div 2 ^ count)"
  proof (cases "mbedtls_mpi_shift_r al X count")
    case (Inl e)
    then show ?thesis
      by (auto simp: mbedtls_mpi_shift_r_def mbedtls_mpi_lset_def Let_def chk_eq_Inl mpi_grow_error
          split: if_splits)
  qed (use mpi_shift_rD(2,4) assms in auto)
qed

theorem mpi_shift_correct_witness:
  "mbedtls_mpi_shift_l (\<lambda>n. True) \<lparr>mpi_s = - 1, mpi_p = [3]\<rparr> 70 = Inr \<lparr>mpi_s = - 1, mpi_p = [0, 192]\<rparr>
   \<and> mpi_val \<lparr>mpi_s = - 1, mpi_p = [0, 192]\<rparr> = - 3 * 2 ^ 70"
proof -
  have ok: "mpi_ok \<lparr>mpi_s = - 1, mpi_p = [3]\<rparr>"
    by (simp add: mpi_ok_def MBEDTLS_MPI_MAX_LIMBS_def)
  have "mbedtls_mpi_shift_l (\<lambda>n. True) \<lparr>mpi_s = - 1, mpi_p = [3]\<rparr> 70 = Inr \<lparr>mpi_s = - 1, mpi_p = [0, 192]\<rparr>"
    by code_simp
  with mpi_shift_correct [OF ok, where al = "\<lambda>n. True" and count = 70] show ?thesis
    by (simp add: mpi_val_def)
qed

text \<open>
  The bit queries agree with the value: \<open>mbedtls_mpi_get_bit\<close>
  returns the bit, \<open>mbedtls_mpi_bitlen\<close> the position of the highest set bit
  (and 0 for zero), \<open>mbedtls_mpi_size\<close> the number of bytes of the magnitude, and
  \<open>mbedtls_mpi_lsb\<close> the exponent of the power of two in a non-zero value.
\<close>

theorem mpi_bit_queries_correct:
  "mbedtls_mpi_get_bit X k = (if bit (val (mpi_p X)) k then 1 else 0)
   \<and> (\<forall>n. mbedtls_mpi_bitlen X \<le> n \<longleftrightarrow> val (mpi_p X) < 2 ^ n)
   \<and> (\<forall>n. mbedtls_mpi_size X \<le> n \<longleftrightarrow> val (mpi_p X) < 256 ^ n)
   \<and> (val (mpi_p X) = 0 \<or> (2 ^ mbedtls_mpi_lsb X dvd val (mpi_p X)
        \<and> odd (val (mpi_p X) div 2 ^ mbedtls_mpi_lsb X)))"
proof -
  let ?l = "mbedtls_mpi_bitlen X" and ?v = "val (mpi_p X)"
  have len: "?l \<le> n \<longleftrightarrow> ?v < 2 ^ n" for n
  proof
    assume "?l \<le> n"
    then have "(2 :: nat) ^ ?l \<le> 2 ^ n"
      by simp
    with mpi_bitlen_bounds(1) [of X] show "?v < 2 ^ n"
      by linarith
  next
    assume v: "?v < 2 ^ n"
    show "?l \<le> n"
    proof (cases "?v = 0")
      case False
      then have "2 ^ (?l - 1) < (2 :: nat) ^ n"
        using mpi_bitlen_bounds(2) [of X] v by linarith
      then show ?thesis
        by simp
    qed (simp add: mpi_bitlen_bounds(3))
  qed
  moreover have "mbedtls_mpi_size X \<le> n \<longleftrightarrow> ?v < 256 ^ n" for n
  proof -
    have "mbedtls_mpi_size X \<le> n \<longleftrightarrow> ?l \<le> 8 * n"
      unfolding mbedtls_mpi_size_def by linarith
    also have "\<dots> \<longleftrightarrow> ?v < 2 ^ (8 * n)"
      by (rule len)
    finally show ?thesis
      by (simp add: power_mult)
  qed
  ultimately show ?thesis
    using mpi_get_bit_val mpi_lsb_spec [of X] by blast
qed

end
