(* ===== verification/Bignum_Arith.thy ===== *)
theory Bignum_Arith
  imports Bignum_Bits
begin

text \<open>
  Addition, subtraction and multiplication of \<open>bignum.c\<close>: the limb loops with
  their carries and borrows, the aliasing of the destination with an operand,
  and the signed operations on top of them, related to the integer operations
  on the values.
\<close>

definition c_bool :: "bool \<Rightarrow> limb" where
  "c_bool b = (if b then 1 else 0)"

subsection \<open>Addition\<close>

text \<open>
  The loop over the limbs of \<open>B\<close>. Each limb of \<open>B\<close> is read (\<open>tmp\<close>) before the
  limb of \<open>X\<close> at the same index is written, and never again, so the loop sees
  the initial limbs of \<open>B\<close> also when \<open>B\<close> is \<open>X\<close>.
\<close>

fun add_limbs :: "nat \<Rightarrow> limb \<Rightarrow> limb list \<Rightarrow> limb list \<Rightarrow> limb list \<times> limb" where
  "add_limbs (Suc j) c (p # ps) (tmp # os) =
     (let p = p + c; c = c_bool (p < c);
          p = p + tmp; c = c + c_bool (p < tmp);
          (qs, c) = add_limbs j c ps os
      in (p # qs, c))"
| "add_limbs j c ps os = (ps, c)"

function add_carry :: "(nat \<Rightarrow> bool) \<Rightarrow> limb \<Rightarrow> nat \<Rightarrow> mpi \<Rightarrow> mpi res" where
  "add_carry al c i X =
     (if c = 0 then Inr X
      else chk (if i \<ge> mpi_n X then mbedtls_mpi_grow al X (i + 1) else Inr X) (\<lambda>X.
        let p = mpi_p X ! i + c
        in add_carry al (c_bool (p < c)) (i + 1) (X\<lparr>mpi_p := (mpi_p X)[i := p]\<rparr>)))"
  by pat_completeness auto
termination
proof (relation "measure (\<lambda>(al, c, i, X). if c = 0 then 0 else Suc (mpi_n X - i))", goal_cases)
  case (2 al c i X Z p)
  show ?case
  proof (cases "i \<ge> mpi_n X")
    case True
    then have "mbedtls_mpi_grow al X (i + 1) = Inr Z"
      using 2 by simp
    from mpi_growD(2) [OF this] have "mpi_p Z ! i = 0"
      using True by (simp add: nth_append)
    then show ?thesis
      using 2 by (simp add: c_bool_def)
  next
    case False
    then show ?thesis
      using 2 by auto
  qed
qed simp

declare add_carry.simps [simp del]

definition mbedtls_mpi_add_abs :: "(nat \<Rightarrow> bool) \<Rightarrow> bool \<Rightarrow> bool \<Rightarrow> mpi \<Rightarrow> mpi \<Rightarrow> mpi \<Rightarrow> mpi res" where
  "mbedtls_mpi_add_abs al XA XB X A B =
     (let (XA, A, XB, B) = (if XB then (True, X, XA, A) else (XA, A, XB, B))
      in chk (if \<not> XA then mbedtls_mpi_copy al False X A else Inr X) (\<lambda>X.
         let X = X\<lparr>mpi_s := 1\<rparr>;
             B = (if XB then X else B);
             j = scan_used (mpi_p B) (mpi_n B)
         in chk (mbedtls_mpi_grow al X j) (\<lambda>X.
            let (p, c) = add_limbs j 0 (mpi_p X) (mpi_p (if XB then X else B))
            in add_carry al c j (X\<lparr>mpi_p := p\<rparr>))))"

subsection \<open>Subtraction\<close>

text \<open>\<open>None\<close>: the borrow runs past the end of \<open>d\<close>.\<close>

fun sub_borrow :: "limb \<Rightarrow> limb list \<Rightarrow> limb list option" where
  "sub_borrow c [] = (if c = 0 then Some [] else None)"
| "sub_borrow c (d # ds) =
     (if c = 0 then Some (d # ds)
      else let z = c_bool (d < c); d = d - c
           in map_option ((#) d) (sub_borrow z ds))"

fun sub_limbs :: "nat \<Rightarrow> limb \<Rightarrow> limb list \<Rightarrow> limb list \<Rightarrow> limb list option" where
  "sub_limbs 0 c ss ds = sub_borrow c ds"
| "sub_limbs (Suc n) c (s # ss) (d # ds) =
     (let z = c_bool (d < c); d = d - c;
          c = c_bool (d < s) + z; d = d - s
      in map_option ((#) d) (sub_limbs n c ss ds))"
| "sub_limbs (Suc n) c _ _ = None"

definition mpi_sub_hlp :: "nat \<Rightarrow> limb list \<Rightarrow> limb list \<Rightarrow> limb list option" where
  "mpi_sub_hlp n s d = sub_limbs n 0 s d"

definition mbedtls_mpi_sub_abs :: "(nat \<Rightarrow> bool) \<Rightarrow> bool \<Rightarrow> bool \<Rightarrow> mpi \<Rightarrow> mpi \<Rightarrow> mpi \<Rightarrow> mpi res" where
  "mbedtls_mpi_sub_abs al XA XB X A B =
     (let A = (if XA then X else A); B = (if XB then X else B)
      in if mbedtls_mpi_cmp_abs A B < 0 then Inl MPI_NEGATIVE_VALUE
         else
           chk (if XB then mbedtls_mpi_copy al False mbedtls_mpi_init B else Inr B) (\<lambda>B.
           chk (if \<not> XA then mbedtls_mpi_copy al False X A else Inr X) (\<lambda>X.
             let X = X\<lparr>mpi_s := 1\<rparr>;
                 n = scan_used (mpi_p B) (mpi_n B)
             in chk (in_bounds (mpi_sub_hlp n (mpi_p B) (mpi_p X))) (\<lambda>p.
                Inr (X\<lparr>mpi_p := p\<rparr>)))))"

subsection \<open>Signed addition and subtraction\<close>

definition mbedtls_mpi_add_mpi :: "(nat \<Rightarrow> bool) \<Rightarrow> bool \<Rightarrow> bool \<Rightarrow> mpi \<Rightarrow> mpi \<Rightarrow> mpi \<Rightarrow> mpi res" where
  "mbedtls_mpi_add_mpi al XA XB X A B =
     (let A' = (if XA then X else A); B' = (if XB then X else B); s = mpi_s A'
      in if mpi_s A' * mpi_s B' < 0 then
           (if mbedtls_mpi_cmp_abs A' B' \<ge> 0 then
              chk (mbedtls_mpi_sub_abs al XA XB X A B) (\<lambda>X. Inr (X\<lparr>mpi_s := s\<rparr>))
            else
              chk (mbedtls_mpi_sub_abs al XB XA X B A) (\<lambda>X. Inr (X\<lparr>mpi_s := - s\<rparr>)))
         else chk (mbedtls_mpi_add_abs al XA XB X A B) (\<lambda>X. Inr (X\<lparr>mpi_s := s\<rparr>)))"

definition mbedtls_mpi_sub_mpi :: "(nat \<Rightarrow> bool) \<Rightarrow> bool \<Rightarrow> bool \<Rightarrow> mpi \<Rightarrow> mpi \<Rightarrow> mpi \<Rightarrow> mpi res" where
  "mbedtls_mpi_sub_mpi al XA XB X A B =
     (let A' = (if XA then X else A); B' = (if XB then X else B); s = mpi_s A'
      in if mpi_s A' * mpi_s B' > 0 then
           (if mbedtls_mpi_cmp_abs A' B' \<ge> 0 then
              chk (mbedtls_mpi_sub_abs al XA XB X A B) (\<lambda>X. Inr (X\<lparr>mpi_s := s\<rparr>))
            else
              chk (mbedtls_mpi_sub_abs al XB XA X B A) (\<lambda>X. Inr (X\<lparr>mpi_s := - s\<rparr>)))
         else chk (mbedtls_mpi_add_abs al XA XB X A B) (\<lambda>X. Inr (X\<lparr>mpi_s := s\<rparr>)))"

definition mbedtls_mpi_add_int :: "(nat \<Rightarrow> bool) \<Rightarrow> bool \<Rightarrow> mpi \<Rightarrow> mpi \<Rightarrow> 64 word \<Rightarrow> mpi res" where
  "mbedtls_mpi_add_int al XA X A b =
     mbedtls_mpi_add_mpi al XA False X A \<lparr>mpi_s = sint_sgn b, mpi_p = [sint_abs b]\<rparr>"

definition mbedtls_mpi_sub_int :: "(nat \<Rightarrow> bool) \<Rightarrow> bool \<Rightarrow> mpi \<Rightarrow> mpi \<Rightarrow> 64 word \<Rightarrow> mpi res" where
  "mbedtls_mpi_sub_int al XA X A b =
     mbedtls_mpi_sub_mpi al XA False X A \<lparr>mpi_s = sint_sgn b, mpi_p = [sint_abs b]\<rparr>"

subsection \<open>Multiplication\<close>

text \<open>
  The macro \<open>MULADDC_CORE\<close> of \<open>bn_mul.h\<close> (its C version with a double-width
  integer) on \<open>*s\<close>, \<open>b\<close>, the carry \<open>c\<close> and \<open>*d\<close>: the limb stored and the new carry.
\<close>

definition MULADDC_CORE :: "limb \<Rightarrow> limb \<Rightarrow> limb \<Rightarrow> limb \<Rightarrow> limb \<times> limb" where
  "MULADDC_CORE s b c d =
     (let r = (ucast s :: 128 word) * ucast b;
          r0 = ucast r; r1 = ucast (drop_bit biL r);
          r0 = r0 + c; r1 = r1 + c_bool (r0 < c);
          r0 = r0 + d; r1 = r1 + c_bool (r0 < d)
      in (r0, r1))"

text \<open>\<open>k\<close> copies of the macro in a row: limbs written, and what is left of \<open>s\<close>, \<open>d\<close>, \<open>c\<close>.\<close>

fun muladdc :: "nat \<Rightarrow> limb \<Rightarrow> limb list \<Rightarrow> limb list \<Rightarrow> limb \<Rightarrow> limb list \<times> limb list \<times> limb list \<times> limb" where
  "muladdc (Suc k) b (x # s) (y # d) c =
     (let (r, c) = MULADDC_CORE x b c y;
          (out, s, d, c) = muladdc k b s d c
      in (r # out, s, d, c))"
| "muladdc k b s d c = ([], s, d, c)"

text \<open>The three \<open>for\<close> loops of \<open>mpi_mul_hlp\<close>: sixteen, eight and one at a time.\<close>

function mul_unrolled :: "nat \<Rightarrow> limb \<Rightarrow> limb list \<Rightarrow> limb list \<Rightarrow> limb \<Rightarrow> limb list \<times> limb list \<times> limb" where
  "mul_unrolled i b s d c =
     (if i = 0 then ([], d, c)
      else
        let k = (if i \<ge> 16 then 16 else if i \<ge> 8 then 8 else 1);
            (out, s, d, c) = muladdc k b s d c;
            (out', d, c) = mul_unrolled (i - k) b s d c
        in (out @ out', d, c))"
  by pat_completeness auto
termination by (relation "measure (\<lambda>(i, b, s, d, c). i)") (auto split: if_splits)

declare mul_unrolled.simps [simp del]

text \<open>\<open>do { *d += c; c = ( *d < c ); d++; } while( c != 0 );\<close>\<close>

fun mul_carry :: "limb \<Rightarrow> limb list \<Rightarrow> limb list option" where
  "mul_carry c [] = None"
| "mul_carry c (d # ds) =
     (let d = d + c; c = c_bool (d < c)
      in if c \<noteq> 0 then map_option ((#) d) (mul_carry c ds) else Some (d # ds))"

definition mpi_mul_hlp :: "nat \<Rightarrow> limb list \<Rightarrow> limb list \<Rightarrow> limb \<Rightarrow> limb list option" where
  "mpi_mul_hlp i s d b =
     (let (out, d, c) = mul_unrolled i b s d 0
      in map_option ((@) out) (mul_carry c d))"

text \<open>\<open>for( ; j > 0; j-- ) mpi_mul_hlp( i, A->p, X->p + j - 1, B->p[j - 1] );\<close>\<close>

fun mul_rows :: "nat \<Rightarrow> nat \<Rightarrow> limb list \<Rightarrow> limb list \<Rightarrow> limb list \<Rightarrow> limb list option" where
  "mul_rows 0 i a b x = Some x"
| "mul_rows (Suc j) i a b x =
     (case mpi_mul_hlp i a (drop j x) (b ! j) of
        None \<Rightarrow> None
      | Some d \<Rightarrow> mul_rows j i a b (take j x @ d))"

definition mbedtls_mpi_mul_mpi :: "(nat \<Rightarrow> bool) \<Rightarrow> bool \<Rightarrow> bool \<Rightarrow> mpi \<Rightarrow> mpi \<Rightarrow> mpi \<Rightarrow> mpi res" where
  "mbedtls_mpi_mul_mpi al XA XB X A B =
     chk (if XA then mbedtls_mpi_copy al False mbedtls_mpi_init X else Inr A) (\<lambda>A.
     chk (if XB then mbedtls_mpi_copy al False mbedtls_mpi_init X else Inr B) (\<lambda>B.
       let i = scan_used (mpi_p A) (mpi_n A); j = scan_used (mpi_p B) (mpi_n B)
       in chk (mbedtls_mpi_grow al X (i + j)) (\<lambda>X.
          chk (mbedtls_mpi_lset al X 0) (\<lambda>X.
          chk (in_bounds (mul_rows j i (mpi_p A) (mpi_p B) (mpi_p X))) (\<lambda>p.
            Inr (X\<lparr>mpi_p := p, mpi_s := mpi_s A * mpi_s B\<rparr>))))))"

definition mbedtls_mpi_mul_int :: "(nat \<Rightarrow> bool) \<Rightarrow> bool \<Rightarrow> mpi \<Rightarrow> mpi \<Rightarrow> limb \<Rightarrow> mpi res" where
  "mbedtls_mpi_mul_int al XA X A b =
     mbedtls_mpi_mul_mpi al XA False X A \<lparr>mpi_s = 1, mpi_p = [b]\<rparr>"

lemma unat_c_bool [simp]: "unat (c_bool b) = (if b then 1 else 0)"
  by (simp add: c_bool_def)

lemma c_bool_0_iff [simp]: "c_bool b = 0 \<longleftrightarrow> \<not> b"
  by (simp add: c_bool_def)

lemma in_bounds_Some [simp]: "in_bounds (Some x) = Inr x"
  by (simp add: in_bounds_def)

lemma in_bounds_None [simp]: "in_bounds None = Inl OUT_OF_BOUNDS"
  by (simp add: in_bounds_def)

text \<open>One limb: addition and subtraction with the carry the comparison recovers.\<close>

lemma limb_add: "unat (x + y) + 2 ^ biL * unat (c_bool (x + y < y)) = unat x + unat (y :: limb)"
proof (cases "unat x + unat y < 2 ^ biL")
  case True
  then have "unat (x + y) = unat x + unat y"
    by (simp add: unat_word_ariths)
  moreover from this have "\<not> x + y < y"
    by (simp add: word_less_nat_alt)
  ultimately show ?thesis
    by simp
next
  case False
  then have "(unat x + unat y) mod 2 ^ biL = unat x + unat y - 2 ^ biL"
    using unat_limb_less [of x] unat_limb_less [of y] by (simp add: le_mod_geq)
  then have u: "unat (x + y) = unat x + unat y - 2 ^ biL"
    by (simp add: unat_word_ariths)
  moreover have "x + y < y"
    using u False unat_limb_less [of x] by (simp add: word_less_nat_alt)
  ultimately show ?thesis
    using False by simp
qed

lemma limb_sub: "unat (x - y) + unat (y :: limb) = unat x + 2 ^ biL * unat (c_bool (x < y))"
  using unat_limb_less [of y] by (auto simp: unat_sub_limb word_less_nat_alt word_le_nat_alt not_less)

lemma unat_c_bool_add [simp]: "unat (c_bool a + c_bool b) = unat (c_bool a) + unat (c_bool b)"
  by (simp add: c_bool_def)

subsection \<open>Addition\<close>

lemma add_limbs_val:
  "j \<le> length ps \<Longrightarrow> j \<le> length os \<Longrightarrow> add_limbs j c ps os = (qs, c') \<Longrightarrow>
     length qs = length ps \<and> val qs + 2 ^ (biL * j) * unat c' = val ps + val (take j os) + unat c"
proof (induction j arbitrary: c ps os qs c')
  case (Suc j)
  from Suc.prems(1) obtain p ps' where ps: "ps = p # ps'" "j \<le> length ps'"
    by (cases ps) auto
  from Suc.prems(2) obtain tmp os' where os: "os = tmp # os'" "j \<le> length os'"
    by (cases os) auto
  define p1 c1 p2 c2 where "p1 = p + c" "c1 = c_bool (p1 < c)" "p2 = p1 + tmp" "c2 = c1 + c_bool (p2 < tmp)"
  obtain rs where rs: "add_limbs j c2 ps' os' = (rs, c')" "qs = p2 # rs"
    using Suc.prems(3) by (auto simp: ps os p1_c1_p2_c2_def Let_def split: prod.splits)
  have ih: "length rs = length ps' \<and> val rs + 2 ^ (biL * j) * unat c' = val ps' + val (take j os') + unat c2"
    by (rule Suc.IH [OF ps(2) os(2) rs(1)])
  have s1: "unat p1 + 2 ^ biL * unat c1 = unat p + unat c"
    unfolding p1_c1_p2_c2_def by (rule limb_add)
  have s2: "unat p2 + 2 ^ biL * unat (c_bool (p2 < tmp)) = unat p1 + unat tmp"
    unfolding p1_c1_p2_c2_def by (rule limb_add)
  have c2: "unat c2 = unat c1 + unat (c_bool (p2 < tmp))"
    unfolding p1_c1_p2_c2_def by (rule unat_c_bool_add)
  have "val qs + 2 ^ (biL * Suc j) * unat c' = unat p2 + 2 ^ biL * (val rs + 2 ^ (biL * j) * unat c')"
    by (simp add: rs(2) algebra_simps power_add)
  also have "\<dots> = unat p2 + 2 ^ biL * (val ps' + val (take j os') + unat c2)"
    using ih by simp
  also have "\<dots> = unat p2 + 2 ^ biL * unat c1 + 2 ^ biL * unat (c_bool (p2 < tmp))
      + 2 ^ biL * val ps' + 2 ^ biL * val (take j os')"
    unfolding c2 by (simp only: distrib_left)
  also have "\<dots> = unat p + unat c + unat tmp + 2 ^ biL * val ps' + 2 ^ biL * val (take j os')"
    using s1 s2 by linarith
  finally show ?case
    using ih by (simp add: rs(2) ps os)
qed simp

lemma add_carryD:
  "add_carry al c i X = Inr X' \<Longrightarrow> i \<le> mpi_n X \<Longrightarrow>
     val (mpi_p X') = val (mpi_p X) + 2 ^ (biL * i) * unat c \<and> mpi_s X' = mpi_s X
     \<and> (mpi_ok X \<longrightarrow> mpi_ok X')"
proof (induction al c i X rule: add_carry.induct)
  case (1 al c i X)
  show ?case
  proof (cases "c = 0")
    case True
    then show ?thesis
      using "1.prems" by (subst (asm) add_carry.simps) simp
  next
    case False
    define Y where "Y Z = Z\<lparr>mpi_p := (mpi_p Z)[i := mpi_p Z ! i + c]\<rparr>" for Z :: mpi
    obtain Z where Z: "(if mpi_n X \<le> i then mbedtls_mpi_grow al X (i + 1) else Inr X) = Inr Z"
      and rec: "add_carry al (c_bool (mpi_p Z ! i + c < c)) (i + 1) (Y Z) = Inr X'"
      using "1.prems"(1) False by (subst (asm) add_carry.simps) (auto simp: chk_eq_Inr Let_def Y_def)
    have z: "val (mpi_p Z) = val (mpi_p X)" "mpi_s Z = mpi_s X" "i < mpi_n Z" "mpi_ok X \<longrightarrow> mpi_ok Z"
      using Z mpi_growD [of al X "i + 1" Z] by (auto split: if_splits)
    have ih: "val (mpi_p X') = val (mpi_p (Y Z)) + 2 ^ (biL * (i + 1)) * unat (c_bool (mpi_p Z ! i + c < c))"
      "mpi_s X' = mpi_s (Y Z)" "mpi_ok (Y Z) \<longrightarrow> mpi_ok X'"
      using "1.IH" [OF False Z refl, folded Y_def, OF rec] z(3) by (simp_all add: Y_def)
    have "int (val (mpi_p (Y Z))) = int (val (mpi_p Z))
        + 2 ^ (biL * i) * (int (unat (mpi_p Z ! i + c)) - int (unat (mpi_p Z ! i)))"
      using val_update [OF z(3), of "mpi_p Z ! i + c"] by (simp add: Y_def)
    then have "int (val (mpi_p X')) = int (val (mpi_p Z)) + 2 ^ (biL * i) *
       (int (unat (mpi_p Z ! i + c) + 2 ^ biL * unat (c_bool (mpi_p Z ! i + c < c))) - int (unat (mpi_p Z ! i)))"
      unfolding ih(1) by (simp add: algebra_simps power_add)
    also have "\<dots> = int (val (mpi_p Z)) + 2 ^ (biL * i) * int (unat c)"
      unfolding limb_add by simp
    finally have "int (val (mpi_p X')) = int (val (mpi_p X) + 2 ^ (biL * i) * unat c)"
      using z(1) by simp
    then have "val (mpi_p X') = val (mpi_p X) + 2 ^ (biL * i) * unat c"
      by (rule of_nat_eq_iff [THEN iffD1])
    moreover have "mpi_ok Z \<longrightarrow> mpi_ok (Y Z)"
      by (simp add: Y_def mpi_ok_def)
    ultimately show ?thesis
      using ih(2,3) z by (simp add: Y_def)
  qed
qed

lemma mpi_ok_set_s: "mpi_ok X \<Longrightarrow> s = 1 \<or> s = - 1 \<Longrightarrow> mpi_ok (X\<lparr>mpi_s := s\<rparr>)"
  by (simp add: mpi_ok_def)

text \<open>The common tail of \<open>mbedtls_mpi_add_abs\<close>, after the pointers have been sorted out.\<close>

lemma add_tailD:
  assumes "chk (mbedtls_mpi_grow al X (scan_used b (length b))) (\<lambda>Z.
      let (p, c) = add_limbs (scan_used b (length b)) 0 (mpi_p Z) (o' Z)
      in add_carry al c (scan_used b (length b)) (Z\<lparr>mpi_p := p\<rparr>)) = Inr X'"
    and o': "\<And>Z. mbedtls_mpi_grow al X (scan_used b (length b)) = Inr Z \<Longrightarrow>
      take (scan_used b (length b)) (o' Z) = take (scan_used b (length b)) b \<and> scan_used b (length b) \<le> length (o' Z)"
    and s: "mpi_s X = 1"
  shows "val (mpi_p X') = val (mpi_p X) + val b \<and> mpi_s X' = 1 \<and> (mpi_ok X \<longrightarrow> mpi_ok X')"
proof -
  let ?j = "scan_used b (length b)"
  obtain Z where Z: "mbedtls_mpi_grow al X ?j = Inr Z"
    using assms(1) by (auto simp: chk_eq_Inr)
  obtain p c where pc: "add_limbs ?j 0 (mpi_p Z) (o' Z) = (p, c)"
    by force
  have X': "add_carry al c ?j (Z\<lparr>mpi_p := p\<rparr>) = Inr X'"
    using assms(1) Z pc by simp
  note g = mpi_growD [OF Z]
  have l: "length p = mpi_n Z" "val p + 2 ^ (biL * ?j) * unat c = val (mpi_p Z) + val (take ?j (o' Z))"
    using add_limbs_val [OF _ _ pc] g(3) o' [OF Z] by auto
  have "val (take ?j (o' Z)) = val b"
    using o' [OF Z] by (simp add: val_take_used)
  then show ?thesis
    using add_carryD [OF X'] l g s by (auto simp: mpi_ok_def)
qed

lemma mpi_add_absD:
  assumes "mbedtls_mpi_add_abs al XA XB X A B = Inr X'"
  shows "val (mpi_p X') = val (mpi_p (if XA then X else A)) + val (mpi_p (if XB then X else B))"
    "mpi_s X' = 1" "mpi_ok X \<Longrightarrow> mpi_ok A \<Longrightarrow> mpi_ok B \<Longrightarrow> mpi_ok X'"
proof -
  define XA' A' XB' B' where "XA' = (XB \<or> XA)" "A' = (if XB then X else A)"
     "XB' = (if XB then XA else False)" "B' = (if XB then A else B)"
  note d = XA'_A'_XB'_B'_def
  have e: "(if XB then (True, X, XA, A) else (XA, A, XB, B)) = (XA', A', XB', B')"
    by (simp add: d)
  obtain Y where Y: "(if \<not> XA' then mbedtls_mpi_copy al False X A' else Inr X) = Inr Y"
    and tl: "(let X = Y\<lparr>mpi_s := 1\<rparr>; B = (if XB' then X else B'); j = scan_used (mpi_p B) (mpi_n B)
      in chk (mbedtls_mpi_grow al X j) (\<lambda>X.
            let (p, c) = add_limbs j 0 (mpi_p X) (mpi_p (if XB' then X else B))
            in add_carry al c j (X\<lparr>mpi_p := p\<rparr>))) = Inr X'"
    using assms unfolding mbedtls_mpi_add_abs_def e by (auto simp: chk_eq_Inr)
  let ?Y = "Y\<lparr>mpi_s := 1\<rparr>"
  let ?b = "mpi_p (if XB' then ?Y else B')"
  have y: "val (mpi_p Y) = val (mpi_p (if XA' then X else A'))" "mpi_ok X \<longrightarrow> mpi_ok A \<longrightarrow> mpi_ok ?Y"
      "XA' \<longrightarrow> Y = X"
    using Y mpi_copyD [of al X A' Y] by (auto simp: d mpi_ok_set_s split: if_splits)
  have "val (mpi_p X') = val (mpi_p ?Y) + val ?b \<and> mpi_s X' = 1 \<and> (mpi_ok ?Y \<longrightarrow> mpi_ok X')"
  proof (rule add_tailD [where o' = "\<lambda>Z. mpi_p (if XB' then Z else if XB' then ?Y else B')"])
    show "chk (mbedtls_mpi_grow al ?Y (scan_used ?b (length ?b))) (\<lambda>Z.
      let (p, c) = add_limbs (scan_used ?b (length ?b)) 0 (mpi_p Z) (mpi_p (if XB' then Z else if XB' then ?Y else B'))
      in add_carry al c (scan_used ?b (length ?b)) (Z\<lparr>mpi_p := p\<rparr>)) = Inr X'"
      using tl by (simp add: Let_def)
  next
    fix Z assume "mbedtls_mpi_grow al ?Y (scan_used ?b (length ?b)) = Inr Z"
    from mpi_growD(2,3) [OF this]
    show "take (scan_used ?b (length ?b)) (mpi_p (if XB' then Z else if XB' then ?Y else B'))
          = take (scan_used ?b (length ?b)) ?b
        \<and> scan_used ?b (length ?b) \<le> length (mpi_p (if XB' then Z else if XB' then ?Y else B'))"
      using scan_used_le [of ?b "length ?b"] by auto
  qed simp
  then show "val (mpi_p X') = val (mpi_p (if XA then X else A)) + val (mpi_p (if XB then X else B))"
    "mpi_s X' = 1" "mpi_ok X \<Longrightarrow> mpi_ok A \<Longrightarrow> mpi_ok B \<Longrightarrow> mpi_ok X'"
    using y by (auto simp: d split: if_splits)
qed

subsection \<open>Subtraction\<close>

lemma sub_borrow_val:
  "unat c \<le> val ds \<Longrightarrow> \<exists>ds'. sub_borrow c ds = Some ds' \<and> length ds' = length ds \<and> val ds' + unat c = val ds"
proof (induction ds arbitrary: c)
  case (Cons d ds)
  show ?case
  proof (cases "c = 0")
    case False
    have s: "unat (d - c) + unat c = unat d + 2 ^ biL * unat (c_bool (d < c))"
      by (rule limb_sub)
    have "unat (c_bool (d < c)) \<le> val ds"
      using Cons.prems by (cases "val ds") (auto simp: word_less_nat_alt)
    from Cons.IH [OF this] obtain ds' where ds': "sub_borrow (c_bool (d < c)) ds = Some ds'"
      "length ds' = length ds" "val ds' + unat (c_bool (d < c)) = val ds"
      by blast
    have "val ((d - c) # ds') + unat c
        = unat d + 2 ^ biL * (val ds' + unat (c_bool (d < c)))"
      using s by simp
    then show ?thesis
      using False ds' by (auto simp: Let_def)
  qed simp
qed (simp add: unat_eq_0)

lemma sub_limbs_val:
  "n \<le> length ss \<Longrightarrow> n \<le> length ds \<Longrightarrow> val (take n ss) + unat c \<le> val ds \<Longrightarrow>
     \<exists>ds'. sub_limbs n c ss ds = Some ds' \<and> length ds' = length ds
       \<and> val ds' + val (take n ss) + unat c = val ds"
proof (induction n arbitrary: c ss ds)
  case 0
  then show ?case
    using sub_borrow_val [of c ds] by auto
next
  case (Suc n)
  from Suc.prems obtain s ss' where ss: "ss = s # ss'" "n \<le> length ss'"
    by (cases ss) auto
  from Suc.prems obtain d ds' where ds: "ds = d # ds'" "n \<le> length ds'"
    by (cases ds) auto
  define d1 where "d1 = d - c"
  define c2 where "c2 = c_bool (d1 < s) + c_bool (d < c)"
  have s1: "unat d1 + unat c = unat d + 2 ^ biL * unat (c_bool (d < c))"
    unfolding d1_def by (rule limb_sub)
  have s2: "unat (d1 - s) + unat s = unat d1 + 2 ^ biL * unat (c_bool (d1 < s))"
    by (rule limb_sub)
  have c2: "unat c2 = unat (c_bool (d1 < s)) + unat (c_bool (d < c))"
    unfolding c2_def by (rule unat_c_bool_add)
  have e: "unat (d1 - s) + unat s + unat c = unat d + 2 ^ biL * unat c2"
    using s1 s2 unfolding c2 distrib_left by linarith
  have "val (take n ss') + unat c2 \<le> val ds'"
    using Suc.prems(3) e unat_limb_less [of "d1 - s"] by (simp add: ss ds)
  from Suc.IH [OF ss(2) ds(2) this] obtain r where r: "sub_limbs n c2 ss' ds' = Some r"
    "length r = length ds'" "val r + val (take n ss') + unat c2 = val ds'"
    by blast
  have "val ((d1 - s) # r) + val (take (Suc n) ss) + unat c = unat d + 2 ^ biL * (val r + val (take n ss') + unat c2)"
    using e by (simp add: ss)
  then show ?case
    using r by (auto simp: ss ds Let_def d1_def [symmetric] c2_def [symmetric])
qed

lemma mpi_sub_hlp_val:
  "n \<le> length s \<Longrightarrow> n \<le> length d \<Longrightarrow> val (take n s) \<le> val d \<Longrightarrow>
     \<exists>d'. mpi_sub_hlp n s d = Some d' \<and> length d' = length d \<and> val d' = val d - val (take n s)"
  using sub_limbs_val [of n s d 0] by (force simp: mpi_sub_hlp_def)

lemma scan_used_le_of_val:
  assumes "val p < 2 ^ (biL * k)"
  shows "scan_used p (length p) \<le> k"
proof (rule ccontr)
  assume "\<not> scan_used p (length p) \<le> k"
  then have "(2 :: nat) ^ (biL * k) \<le> 2 ^ (biL * (scan_used p (length p) - 1))" "0 < scan_used p (length p)"
    by (auto intro!: power_increasing)
  then show False
    using val_scan_used_ge [of p] assms by linarith
qed

text \<open>
  The outcome of \<open>mbedtls_mpi_sub_abs\<close>: with \<open>|A| < |B|\<close> an error, otherwise the
  difference or a failed allocation; the borrow never leaves the array.
\<close>

lemma mpi_sub_abs_cases:
  assumes "a = val (mpi_p (if XA then X else A))" "b = val (mpi_p (if XB then X else B))"
  shows "if a < b then mbedtls_mpi_sub_abs al XA XB X A B = Inl MPI_NEGATIVE_VALUE
     else (case mbedtls_mpi_sub_abs al XA XB X A B of
             Inl e \<Rightarrow> e = MPI_ALLOC_FAILED
           | Inr X' \<Rightarrow> val (mpi_p X') = a - b \<and> mpi_s X' = 1
               \<and> (mpi_ok X \<longrightarrow> mpi_ok A \<longrightarrow> mpi_ok X'))"
proof (cases "a < b")
  case True
  then show ?thesis
    using assms by (simp add: mbedtls_mpi_sub_abs_def mpi_cmp_abs_val)
next
  case False
  let ?A = "if XA then X else A" and ?B = "if XB then X else B"
  let ?c1 = "if XB then mbedtls_mpi_copy al False mbedtls_mpi_init ?B else Inr ?B"
  let ?c2 = "if \<not> XA then mbedtls_mpi_copy al False X ?A else Inr X"
  have copy_err: "mbedtls_mpi_copy al False U V = Inl e \<Longrightarrow> e = MPI_ALLOC_FAILED" for U V e
    by (auto simp: mbedtls_mpi_copy_def Let_def chk_eq_Inl mpi_grow_error split: if_splits)
  have def': "mbedtls_mpi_sub_abs al XA XB X A B = chk ?c1 (\<lambda>B. chk ?c2 (\<lambda>X.
      chk (in_bounds (mpi_sub_hlp (scan_used (mpi_p B) (mpi_n B)) (mpi_p B) (mpi_p X))) (\<lambda>p.
                Inr (X\<lparr>mpi_s := 1, mpi_p := p\<rparr>))))"
    using False assms by (simp add: mbedtls_mpi_sub_abs_def mpi_cmp_abs_val Let_def)
  show ?thesis
  proof (cases ?c1)
    case (Inl e)
    then show ?thesis
      using False copy_err [of mbedtls_mpi_init ?B e] by (auto simp: def' split: if_splits)
  next
    case c1: (Inr B1)
    show ?thesis
    proof (cases ?c2)
      case (Inl e)
      then show ?thesis
        using False c1 copy_err [of X ?A e] unfolding def' by (auto split: if_splits)
    next
      case c2: (Inr X1)
      have v: "val (mpi_p B1) = b" "val (mpi_p X1) = a" "mpi_ok X \<longrightarrow> mpi_ok A \<longrightarrow> mpi_ok X1"
        using c1 c2 mpi_copyD [of al mbedtls_mpi_init ?B B1] mpi_copyD [of al X ?A X1] assms
        by (auto split: if_splits)
      let ?n = "scan_used (mpi_p B1) (mpi_n B1)"
      have "val (mpi_p B1) < 2 ^ (biL * mpi_n X1)"
        using val_less [of "mpi_p X1"] v False by linarith
      then have n: "?n \<le> mpi_n X1"
        by (rule scan_used_le_of_val)
      have "\<exists>d'. mpi_sub_hlp ?n (mpi_p B1) (mpi_p X1) = Some d' \<and> length d' = mpi_n X1
          \<and> val d' = val (mpi_p X1) - val (take ?n (mpi_p B1))"
        by (rule mpi_sub_hlp_val) (use n scan_used_le v False in \<open>auto simp: val_take_used\<close>)
      then show ?thesis
        using c1 c2 v False unfolding def' by (auto simp: val_take_used mpi_ok_def)
    qed
  qed
qed

lemma mpi_sub_absD:
  assumes "mbedtls_mpi_sub_abs al XA XB X A B = Inr X'"
  shows "val (mpi_p (if XB then X else B)) \<le> val (mpi_p (if XA then X else A))"
    "val (mpi_p X') = val (mpi_p (if XA then X else A)) - val (mpi_p (if XB then X else B))"
    "mpi_s X' = 1" "mpi_ok X \<Longrightarrow> mpi_ok A \<Longrightarrow> mpi_ok X'"
  using mpi_sub_abs_cases [OF refl refl, of XA X A XB B al] assms by (auto split: if_splits)

lemma mpi_copy_error: "mbedtls_mpi_copy al e X Y = Inl r \<Longrightarrow> r = MPI_ALLOC_FAILED"
  by (auto simp: mbedtls_mpi_copy_def Let_def chk_eq_Inl mpi_grow_error split: if_splits)

lemma add_carry_error: "add_carry al c i X = Inl r \<Longrightarrow> r = MPI_ALLOC_FAILED"
proof (induction al c i X rule: add_carry.induct)
  case (1 al c i X)
  then show ?case
    by (subst (asm) (2) add_carry.simps)
      (auto simp: chk_eq_Inl Let_def mpi_grow_error split: if_splits)
qed

lemma mpi_add_abs_error: "mbedtls_mpi_add_abs al XA XB X A B = Inl r \<Longrightarrow> r = MPI_ALLOC_FAILED"
  by (auto simp: mbedtls_mpi_add_abs_def Let_def chk_eq_Inl mpi_grow_error mpi_copy_error add_carry_error
      case_prod_beta split: if_splits)

subsection \<open>Signed addition and subtraction\<close>

lemma mpi_signs: "mpi_ok X \<Longrightarrow> mpi_s X = 1 \<or> mpi_s X = - 1"
  by (simp add: mpi_ok_def)

text \<open>
  Both operations choose among the unsigned ones by the signs; \<open>t\<close> is the sign
  that \<open>B\<close> enters with, its own for the sum and the opposite for the difference.
\<close>

lemma signed_resultD:
  assumes r: "(if s * t < 0 then
           (if mbedtls_mpi_cmp_abs (if XA then X else A) (if XB then X else B) \<ge> 0 then
              chk (mbedtls_mpi_sub_abs al XA XB X A B) (\<lambda>X. Inr (X\<lparr>mpi_s := s\<rparr>))
            else
              chk (mbedtls_mpi_sub_abs al XB XA X B A) (\<lambda>X. Inr (X\<lparr>mpi_s := - s\<rparr>)))
         else chk (mbedtls_mpi_add_abs al XA XB X A B) (\<lambda>X. Inr (X\<lparr>mpi_s := s\<rparr>))) = Inr X'"
    and ok: "mpi_ok X" "mpi_ok A" "mpi_ok B" and st: "s = 1 \<or> s = - 1" "t = 1 \<or> t = - 1"
  shows "mpi_ok X' \<and> mpi_val X' = s * int (val (mpi_p (if XA then X else A)))
           + t * int (val (mpi_p (if XB then X else B)))"
proof -
  let ?a = "val (mpi_p (if XA then X else A))" and ?b = "val (mpi_p (if XB then X else B))"
  consider (ge) Y where "s * t < 0" "mbedtls_mpi_sub_abs al XA XB X A B = Inr Y" "X' = Y\<lparr>mpi_s := s\<rparr>"
    | (lt) Y where "s * t < 0" "mbedtls_mpi_sub_abs al XB XA X B A = Inr Y" "X' = Y\<lparr>mpi_s := - s\<rparr>"
    | (add) Y where "\<not> s * t < 0" "mbedtls_mpi_add_abs al XA XB X A B = Inr Y" "X' = Y\<lparr>mpi_s := s\<rparr>"
    using r by (auto simp: chk_eq_Inr split: if_splits)
  then show ?thesis
  proof cases
    case ge
    note d = mpi_sub_absD [OF ge(2)]
    have "mpi_ok X'" "int (val (mpi_p X')) = int ?a - int ?b"
      using d(1,2,4) ok st by (auto simp: ge(3) of_nat_diff intro: mpi_ok_set_s)
    then show ?thesis
      using st ge(1) by (auto simp: mpi_val_def ge(3))
  next
    case lt
    note d = mpi_sub_absD [OF lt(2)]
    have "mpi_ok X'" "int (val (mpi_p X')) = int ?b - int ?a"
      using d(1,2,4) ok st by (auto simp: lt(3) of_nat_diff intro: mpi_ok_set_s)
    then show ?thesis
      using st lt(1) by (auto simp: mpi_val_def lt(3))
  next
    case add
    note d = mpi_add_absD [OF add(2)]
    have "mpi_ok X'" "int (val (mpi_p X')) = int ?a + int ?b"
      using d(1,3) ok st by (auto simp: add(3) intro: mpi_ok_set_s)
    then show ?thesis
      using st add(1) by (auto simp: mpi_val_def add(3))
  qed
qed

lemma mpi_add_mpiD:
  assumes "mbedtls_mpi_add_mpi al XA XB X A B = Inr X'" "mpi_ok X" "mpi_ok A" "mpi_ok B"
  shows "mpi_val X' = mpi_val (if XA then X else A) + mpi_val (if XB then X else B)" "mpi_ok X'"
  using signed_resultD [of "mpi_s (if XA then X else A)" "mpi_s (if XB then X else B)"] assms
  unfolding mbedtls_mpi_add_mpi_def Let_def mpi_val_def by (auto simp: mpi_signs)

lemma mpi_sub_mpiD:
  assumes "mbedtls_mpi_sub_mpi al XA XB X A B = Inr X'" "mpi_ok X" "mpi_ok A" "mpi_ok B"
  shows "mpi_val X' = mpi_val (if XA then X else A) - mpi_val (if XB then X else B)" "mpi_ok X'"
proof -
  let ?A = "if XA then X else A" and ?B = "if XB then X else B"
  have "0 < mpi_s ?A * mpi_s ?B \<longleftrightarrow> mpi_s ?A * - mpi_s ?B < 0"
    by simp
  note r = signed_resultD [OF assms(1) [unfolded mbedtls_mpi_sub_mpi_def Let_def this] assms(2-4)]
  have "mpi_ok X' \<and> mpi_val X' = mpi_s ?A * int (val (mpi_p ?A)) + - mpi_s ?B * int (val (mpi_p ?B))"
    by (rule r) (use mpi_signs assms(2-4) in force)+
  then show "mpi_val X' = mpi_val ?A - mpi_val ?B" "mpi_ok X'"
    by (simp_all add: mpi_val_def)
qed

text \<open>The only error of the signed operations is a failed allocation.\<close>

lemma mpi_signed_error:
  "mbedtls_mpi_add_mpi al XA XB X A B = Inl r \<Longrightarrow> r = MPI_ALLOC_FAILED"
  "mbedtls_mpi_sub_mpi al XA XB X A B = Inl r \<Longrightarrow> r = MPI_ALLOC_FAILED"
  using mpi_sub_abs_cases [OF refl refl, of XA X A XB B al] mpi_sub_abs_cases [OF refl refl, of XB X B XA A al]
  by (auto simp: mbedtls_mpi_add_mpi_def mbedtls_mpi_sub_mpi_def Let_def chk_eq_Inl mpi_cmp_abs_val
      mpi_add_abs_error sgn_if split: if_splits)

subsection \<open>Multiplication\<close>

lemma MULADDC_CORE_val:
  assumes "MULADDC_CORE s b c d = (r, c')"
  shows "unat r + 2 ^ biL * unat c' = unat s * unat b + unat c + unat d"
proof -
  define w where "w = (ucast s :: 128 word) * ucast b"
  define r0 r1 where "r0 = (ucast w :: limb)" "r1 = (ucast (drop_bit biL w) :: limb)"
  define k1 k2 where "k1 = c_bool (r0 + c < c)" "k2 = c_bool (r0 + c + d < d)"
  have b1: "unat s \<le> 2 ^ biL - 1" "unat b \<le> 2 ^ biL - 1"
    using unat_limb_less [of s] unat_limb_less [of b] by simp_all
  then have m: "unat s * unat b \<le> (2 ^ biL - 1) * (2 ^ biL - 1)"
    by (rule mult_le_mono)
  have w: "unat w = unat s * unat b"
  proof -
    have "unat (ucast s :: 128 word) = unat s" "unat (ucast b :: 128 word) = unat b"
      using unat_limb_less [of s] unat_limb_less [of b] by (simp_all add: unsigned_ucast_eq take_bit_nat_eq_self)
    moreover have "unat s * unat b < 2 ^ 128"
      using m by simp
    ultimately show ?thesis
      by (simp add: w_def unat_word_ariths)
  qed
  have r01: "unat r0 = unat w mod 2 ^ biL" "unat r1 = unat w div 2 ^ biL"
  proof -
    show "unat r0 = unat w mod 2 ^ biL"
      by (simp add: r0_r1_def unsigned_ucast_eq take_bit_eq_mod)
    have "unat (drop_bit biL w) = unat w div 2 ^ biL"
      unfolding unsigned_drop_bit_eq using unsigned_less [of w, where 'a = nat]
      by (simp add: drop_bit_eq_div take_bit_nat_eq_self)
    moreover have "unat w div 2 ^ biL < 2 ^ biL"
      using w m by (intro less_mult_imp_div_less) simp
    ultimately show "unat r1 = unat w div 2 ^ biL"
      by (simp add: r0_r1_def unsigned_ucast_eq take_bit_nat_eq_self)
  qed
  have e1: "unat (r0 + c) + 2 ^ biL * unat k1 = unat r0 + unat c"
    unfolding k1_k2_def by (rule limb_add)
  have e2: "unat (r0 + c + d) + 2 ^ biL * unat k2 = unat (r0 + c) + unat d"
    unfolding k1_k2_def by (rule limb_add)
  have tot: "unat (r0 + c + d) + 2 ^ biL * (unat r1 + unat k1 + unat k2) = unat s * unat b + unat c + unat d"
  proof -
    have "2 ^ biL * unat r1 + unat r0 = unat s * unat b"
      unfolding r01 w by simp
    then show ?thesis
      using e1 e2 unfolding distrib_left by linarith
  qed
  have "unat r1 + unat k1 + unat k2 < 2 ^ biL"
  proof (rule ccontr)
    assume "\<not> ?thesis"
    then have "2 ^ biL * 2 ^ biL \<le> 2 ^ biL * (unat r1 + unat k1 + unat k2)"
      by (intro mult_le_mono2) simp
    then show False
      using tot m unat_limb_less [of c] unat_limb_less [of d] by simp
  qed
  then have "unat (r1 + k1 + k2) = unat r1 + unat k1 + unat k2"
    by (simp add: unat_word_ariths)
  moreover have "r = r0 + c + d" "c' = r1 + k1 + k2"
    using assms by (auto simp: MULADDC_CORE_def Let_def r0_r1_def k1_k2_def w_def)
  ultimately show ?thesis
    using tot by simp
qed

lemma muladdc_val:
  "k \<le> length s \<Longrightarrow> k \<le> length d \<Longrightarrow> muladdc k b s d c = (out, s', d', c') \<Longrightarrow>
     length out = k \<and> s' = drop k s \<and> d' = drop k d
     \<and> val out + 2 ^ (biL * k) * unat c' = val (take k d) + val (take k s) * unat b + unat c"
proof (induction k arbitrary: s d c out s' d' c')
  case (Suc k)
  from Suc.prems obtain x xs where s: "s = x # xs" "k \<le> length xs"
    by (cases s) auto
  from Suc.prems obtain y ys where d: "d = y # ys" "k \<le> length ys"
    by (cases d) auto
  obtain r c1 where core: "MULADDC_CORE x b c y = (r, c1)"
    by force
  obtain o1 where o1: "muladdc k b xs ys c1 = (o1, s', d', c')" "out = r # o1"
    using Suc.prems(3) core by (auto simp: s d Let_def split: prod.splits)
  have ih: "length o1 = k \<and> s' = drop k xs \<and> d' = drop k ys
     \<and> val o1 + 2 ^ (biL * k) * unat c' = val (take k ys) + val (take k xs) * unat b + unat c1"
    by (rule Suc.IH [OF s(2) d(2) o1(1)])
  have "val out + 2 ^ (biL * Suc k) * unat c' = unat r + 2 ^ biL * (val o1 + 2 ^ (biL * k) * unat c')"
    by (simp add: o1 algebra_simps power_add)
  also have "\<dots> = unat r + 2 ^ biL * unat c1 + 2 ^ biL * (val (take k ys) + val (take k xs) * unat b)"
    using ih by (simp add: algebra_simps)
  also have "\<dots> = unat x * unat b + unat c + unat y + 2 ^ biL * (val (take k ys) + val (take k xs) * unat b)"
    using MULADDC_CORE_val [OF core] by simp
  finally show ?case
    using ih by (simp add: s d o1 algebra_simps)
qed simp

text \<open>The unrolled loops do \<open>i\<close> steps of the macro.\<close>

lemma muladdc_add:
  "k \<le> length s \<Longrightarrow> k \<le> length d \<Longrightarrow> muladdc (k + m) b s d c =
     (let (o1, s1, d1, c1) = muladdc k b s d c; (o2, s2, d2, c2) = muladdc m b s1 d1 c1
      in (o1 @ o2, s2, d2, c2))"
proof (induction k arbitrary: s d c)
  case (Suc k)
  from Suc.prems obtain x xs where s: "s = x # xs" "k \<le> length xs"
    by (cases s) auto
  from Suc.prems obtain y ys where d: "d = y # ys" "k \<le> length ys"
    by (cases d) auto
  show ?case
    using Suc.IH [OF s(2) d(2)] by (simp add: s d Let_def split: prod.splits)
qed (simp split: prod.splits)

lemma mul_unrolled_eq:
  "i \<le> length s \<Longrightarrow> i \<le> length d \<Longrightarrow>
     mul_unrolled i b s d c = (let (o1, s1, d1, c1) = muladdc i b s d c in (o1, d1, c1))"
proof (induction i b s d c rule: mul_unrolled.induct)
  case (1 i b s d c)
  show ?case
  proof (cases "i = 0")
    case False
    define k where "k = (if i \<ge> 16 then 16 else if i \<ge> 8 then 8 else (1 :: nat))"
    have k: "k \<le> i"
      using False by (simp add: k_def)
    obtain o1 s1 d1 c1 where m: "muladdc k b s d c = (o1, s1, d1, c1)"
      by (metis prod_cases4)
    have kl: "k \<le> length s" "k \<le> length d"
      using k "1.prems" by simp_all
    have sd: "s1 = drop k s" "d1 = drop k d"
      using muladdc_val [OF kl m] by simp_all
    have "mul_unrolled i b s d c = (let (o', d', c') = mul_unrolled (i - k) b s1 d1 c1 in (o1 @ o', d', c'))"
      using False m by (subst mul_unrolled.simps) (simp add: k_def [symmetric] Let_def)
    also have "mul_unrolled (i - k) b s1 d1 c1 = (let (o2, s2, d2, c2) = muladdc (i - k) b s1 d1 c1 in (o2, d2, c2))"
      using "1.IH" [OF False k_def m [symmetric] refl refl refl] "1.prems" k by (simp add: sd)
    finally show ?thesis
      using muladdc_add [OF kl, of "i - k" b c] k m by (simp add: Let_def split: prod.splits)
  next
    case True
    then show ?thesis
      by (subst mul_unrolled.simps) simp
  qed
qed

lemma mul_carry_val:
  "d \<noteq> [] \<Longrightarrow> val d + unat c < 2 ^ (biL * length d) \<Longrightarrow>
     \<exists>d'. mul_carry c d = Some d' \<and> length d' = length d \<and> val d' = val d + unat c"
proof (induction d arbitrary: c)
  case (Cons y d)
  let ?c = "c_bool (y + c < c)"
  have s: "unat (y + c) + 2 ^ biL * unat ?c = unat y + unat c"
    by (rule limb_add)
  show ?case
  proof (cases "y + c < c")
    case True
    have "2 ^ biL * (val d + unat ?c) < 2 ^ biL * 2 ^ (biL * length d)"
      using Cons.prems(2) s by (simp add: power_add algebra_simps)
    then have lt: "val d + unat ?c < 2 ^ (biL * length d)"
      by (rule mult_less_cancel1 [THEN iffD1, THEN conjunct2])
    moreover from this have "d \<noteq> []"
      using True by auto
    ultimately obtain d' where d': "mul_carry ?c d = Some d'" "length d' = length d" "val d' = val d + unat ?c"
      using Cons.IH by blast
    have "val ((y + c) # d') = val (y # d) + unat c"
      using s d'(3) by simp
    then show ?thesis
      using True d' by (simp add: Let_def)
  next
    case False
    then show ?thesis
      using s by (simp add: Let_def)
  qed
qed simp

lemma mpi_mul_hlp_val:
  assumes "i \<le> length s" "i < length d" "val d + val (take i s) * unat b < 2 ^ (biL * length d)"
  shows "\<exists>d'. mpi_mul_hlp i s d b = Some d' \<and> length d' = length d \<and> val d' = val d + val (take i s) * unat b"
proof -
  obtain out s' d' c where m: "muladdc i b s d 0 = (out, s', d', c)"
    by (metis prod_cases4)
  have v: "length out = i" "d' = drop i d"
      "val out + 2 ^ (biL * i) * unat c = val (take i d) + val (take i s) * unat b"
    using muladdc_val [OF _ _ m] assms(1,2) by simp_all
  have td: "val d = val (take i d) + 2 ^ (biL * i) * val d'"
    using val_take_drop [of i d] assms(2) v(2) by simp
  have eq: "val out + 2 ^ (biL * i) * (val d' + unat c) = val d + val (take i s) * unat b"
    using v(3) td by (simp add: distrib_left)
  have "2 ^ (biL * i) * (val d' + unat c) < 2 ^ (biL * i) * 2 ^ (biL * length d')"
  proof -
    have "2 ^ (biL * i) * (val d' + unat c) \<le> val d + val (take i s) * unat b"
      using eq by linarith
    also note assms(3)
    also have "(2 :: nat) ^ (biL * length d) = 2 ^ (biL * i) * 2 ^ (biL * length d')"
      using assms(2) v(2) by (simp flip: power_add distrib_left)
    finally show ?thesis .
  qed
  then have "val d' + unat c < 2 ^ (biL * length d')"
    by simp
  moreover have "d' \<noteq> []"
    using v(2) assms(2) by simp
  ultimately obtain e where e: "mul_carry c d' = Some e" "length e = length d'" "val e = val d' + unat c"
    using mul_carry_val by blast
  have "mpi_mul_hlp i s d b = Some (out @ e)"
    using mul_unrolled_eq [of i s d b 0] assms(1,2) m e(1) by (simp add: mpi_mul_hlp_def)
  moreover have "val (out @ e) = val d + val (take i s) * unat b"
    using eq v(1) e(3) by (simp add: val_append)
  ultimately show ?thesis
    using v e(2) assms(2) by simp
qed

lemma mul_rows_val:
  assumes "i \<le> length a" "j \<le> length b" "i + J \<le> length x" "j \<le> J"
    "val x = 2 ^ (biL * j) * (val (take i a) * h)" "h < 2 ^ (biL * (J - j))"
  shows "\<exists>x'. mul_rows j i a b x = Some x' \<and> length x' = length x
     \<and> val x' = val (take i a) * (val (take j b) + 2 ^ (biL * j) * h)"
  using assms
proof (induction j arbitrary: x h)
  case (Suc j)
  let ?A = "val (take i a)"
  define h' where "h' = unat (b ! j) + 2 ^ biL * h"
  have j: "j < length b" "j < length x"
    using Suc.prems by simp_all
  have J: "J - j = Suc (J - Suc j)"
    using Suc.prems(4) by simp
  have "h' < 2 ^ biL * (h + 1)"
    using unat_limb_less [of "b ! j"] by (simp add: h'_def)
  also have "\<dots> \<le> 2 ^ biL * 2 ^ (biL * (J - Suc j))"
    using Suc.prems(6) by (intro mult_le_mono2) simp
  also have "\<dots> = 2 ^ (biL * (J - j))"
    unfolding J by (simp add: power_add)
  finally have h': "h' < 2 ^ (biL * (J - j))" .
  have vx: "val x = 2 ^ (biL * j) * (2 ^ biL * (?A * h))"
    using Suc.prems(5) by (simp add: power_add mult.assoc mult.left_commute)
  then have t0: "val (take j x) = 0"
    using j(2) by (simp add: val_take)
  have vd: "val (drop j x) = 2 ^ biL * (?A * h)"
    using vx j(2) by (simp add: val_drop)
  have sum: "val (drop j x) + ?A * unat (b ! j) = ?A * h'"
    by (simp add: vd h'_def algebra_simps)
  have "?A * h' < 2 ^ (biL * i) * 2 ^ (biL * (J - j))"
    using val_take_less [of i a] h' by (intro mult_strict_mono) simp_all
  also have "\<dots> \<le> 2 ^ (biL * length (drop j x))"
    using Suc.prems(3,4) by (simp flip: power_add distrib_left)
  finally have "val (drop j x) + ?A * unat (b ! j) < 2 ^ (biL * length (drop j x))"
    unfolding sum .
  moreover have "i < length (drop j x)"
    using Suc.prems(3,4) by simp
  ultimately obtain d where d: "mpi_mul_hlp i a (drop j x) (b ! j) = Some d" "length d = length (drop j x)"
      "val d = ?A * h'"
    using mpi_mul_hlp_val [OF Suc.prems(1)] sum by metis
  let ?x = "take j x @ d"
  have vx': "val ?x = 2 ^ (biL * j) * (?A * h')"
    using t0 d(3) j(2) by (simp add: val_append)
  have "\<exists>x'. mul_rows j i a b ?x = Some x' \<and> length x' = length ?x
      \<and> val x' = ?A * (val (take j b) + 2 ^ (biL * j) * h')"
    by (rule Suc.IH) (use Suc.prems d j vx' h' in auto)
  moreover have "val (take j b) + 2 ^ (biL * j) * h' = val (take (Suc j) b) + 2 ^ (biL * Suc j) * h"
    using j(1) by (simp add: val_take_Suc h'_def algebra_simps power_add)
  ultimately show ?case
    using d j by auto
qed simp

lemma mpi_lset_error: "mbedtls_mpi_lset al X z = Inl r \<Longrightarrow> r = MPI_ALLOC_FAILED"
  by (auto simp: mbedtls_mpi_lset_def Let_def chk_eq_Inl mpi_grow_error)

lemma mul_bodyD:
  fixes A B X :: mpi
  defines "i \<equiv> scan_used (mpi_p A) (mpi_n A)" and "j \<equiv> scan_used (mpi_p B) (mpi_n B)"
  assumes "mpi_ok X"
  shows "case chk (mbedtls_mpi_grow al X (i + j)) (\<lambda>X.
          chk (mbedtls_mpi_lset al X 0) (\<lambda>X.
          chk (in_bounds (mul_rows j i (mpi_p A) (mpi_p B) (mpi_p X))) (\<lambda>p.
            Inr (X\<lparr>mpi_p := p, mpi_s := mpi_s A * mpi_s B\<rparr>)))) of
      Inl e \<Rightarrow> e = MPI_ALLOC_FAILED
    | Inr X' \<Rightarrow> val (mpi_p X') = val (mpi_p A) * val (mpi_p B) \<and> mpi_s X' = mpi_s A * mpi_s B
        \<and> mpi_n X' \<le> MBEDTLS_MPI_MAX_LIMBS"
proof (cases "mbedtls_mpi_grow al X (i + j)")
  case (Inr Y)
  note g = mpi_growD [OF Inr]
  show ?thesis
  proof (cases "mbedtls_mpi_lset al Y 0")
    case l: (Inr Z)
    have z: "length (mpi_p Z) = max 1 (mpi_n Y)" "val (mpi_p Z) = 0" "mpi_n Z \<le> MBEDTLS_MPI_MAX_LIMBS"
      using mpi_lsetD(2) [OF l] mpi_lset_val(2) [OF l g(7) [OF assms(3)]]
      by (auto simp: sint_abs_def mpi_ok_def)
    have "\<exists>x'. mul_rows j i (mpi_p A) (mpi_p B) (mpi_p Z) = Some x' \<and> length x' = length (mpi_p Z)
        \<and> val x' = val (take i (mpi_p A)) * (val (take j (mpi_p B)) + 2 ^ (biL * j) * 0)"
      by (rule mul_rows_val [where J = j]) (use g(3) z in \<open>auto simp: i_def j_def scan_used_le\<close>)
    then show ?thesis
      using Inr l z by (auto simp: i_def j_def val_take_used)
  qed (use Inr in \<open>simp add: mpi_lset_error\<close>)
qed (simp add: mpi_grow_error)

lemma mpi_mul_mpi_cases:
  assumes ok: "mpi_ok X" "mpi_ok A" "mpi_ok B"
  shows "case mbedtls_mpi_mul_mpi al XA XB X A B of
     Inl e \<Rightarrow> e = MPI_ALLOC_FAILED
   | Inr X' \<Rightarrow> mpi_val X' = mpi_val (if XA then X else A) * mpi_val (if XB then X else B) \<and> mpi_ok X'"
proof -
  let ?c = "\<lambda>XA A. if XA then mbedtls_mpi_copy al False mbedtls_mpi_init X else Inr A"
  have c: "mpi_val A1 = mpi_val (if XA then X else A) \<and> mpi_ok A1" if "?c XA A = Inr A1" "mpi_ok A" for XA A A1
    using that mpi_copyD(2,4) [of al mbedtls_mpi_init X A1] ok(1) by (auto split: if_splits)
  show ?thesis
  proof (cases "?c XA A")
    case A1: (Inr A1)
    show ?thesis
    proof (cases "?c XB B")
      case B1: (Inr B1)
      show ?thesis
        using mul_bodyD [OF ok(1), where al = al and A = A1 and B = B1] A1 B1 c [OF A1 ok(2)] c [OF B1 ok(3)] mpi_signs [of A1] mpi_signs [of B1]
        by (auto simp: mbedtls_mpi_mul_mpi_def Let_def mpi_val_def mpi_ok_def algebra_simps split: sum.splits)
    qed (use A1 in \<open>auto simp: mbedtls_mpi_mul_mpi_def mpi_copy_error split: if_splits\<close>)
  qed (auto simp: mbedtls_mpi_mul_mpi_def mpi_copy_error split: if_splits)
qed

lemma mpi_mul_mpiD:
  assumes "mbedtls_mpi_mul_mpi al XA XB X A B = Inr X'" "mpi_ok X" "mpi_ok A" "mpi_ok B"
  shows "mpi_val X' = mpi_val (if XA then X else A) * mpi_val (if XB then X else B)" "mpi_ok X'"
  using mpi_mul_mpi_cases [OF assms(2-4), where al = al and XA = XA and XB = XB] assms(1) by simp_all

lemma mpi_of_limb_ok:
  "mpi_ok \<lparr>mpi_s = 1, mpi_p = [b]\<rparr>" "mpi_val \<lparr>mpi_s = 1, mpi_p = [b]\<rparr> = int (unat b)"
  by (simp_all add: mpi_ok_def mpi_val_def MBEDTLS_MPI_MAX_LIMBS_def)

lemma mpi_mul_intD:
  assumes "mbedtls_mpi_mul_int al XA X A b = Inr X'" "mpi_ok X" "mpi_ok A"
  shows "mpi_val X' = mpi_val (if XA then X else A) * int (unat b)" "mpi_ok X'"
  using mpi_mul_mpiD [of al XA False X A "\<lparr>mpi_s = 1, mpi_p = [b]\<rparr>" X'] assms
  by (simp_all add: mbedtls_mpi_mul_int_def mpi_of_limb_ok del: of_nat_unat)

lemma mpi_add_intD:
  assumes "mbedtls_mpi_add_int al XA X A b = Inr X'" "mpi_ok X" "mpi_ok A"
  shows "mpi_val X' = mpi_val (if XA then X else A) + sint b" "mpi_ok X'"
  using mpi_add_mpiD [of al XA False X A "\<lparr>mpi_s = sint_sgn b, mpi_p = [sint_abs b]\<rparr>" X'] assms
  by (simp_all add: mbedtls_mpi_add_int_def mpi_of_sint_ok)

lemma mpi_sub_intD:
  assumes "mbedtls_mpi_sub_int al XA X A b = Inr X'" "mpi_ok X" "mpi_ok A"
  shows "mpi_val X' = mpi_val (if XA then X else A) - sint b" "mpi_ok X'"
  using mpi_sub_mpiD [of al XA False X A "\<lparr>mpi_s = sint_sgn b, mpi_p = [sint_abs b]\<rparr>" X'] assms
  by (simp_all add: mbedtls_mpi_sub_int_def mpi_of_sint_ok)

subsection \<open>With memory and room, the operations return\<close>

lemma mpi_copy_returns:
  assumes "\<forall>k. al k" "mpi_n Y \<le> MBEDTLS_MPI_MAX_LIMBS"
  shows "\<exists>X'. mbedtls_mpi_copy al e X Y = Inr X'"
proof (cases "mpi_p Y = []")
  case False
  then have "scan_top (mpi_p Y) (mpi_n Y - 1) + 1 \<le> MBEDTLS_MPI_MAX_LIMBS"
    using scan_top_len(2) [of "mpi_p Y"] assms(2) by linarith
  then show ?thesis
    using assms(1) by (auto simp: mbedtls_mpi_copy_def Let_def mbedtls_mpi_grow_def)
qed (simp add: mbedtls_mpi_copy_def)

lemma add_carry_returns:
  "\<forall>k. al k \<Longrightarrow> i \<le> mpi_n X \<Longrightarrow> mpi_n X < MBEDTLS_MPI_MAX_LIMBS \<Longrightarrow> \<exists>X'. add_carry al c i X = Inr X'"
proof (induction al c i X rule: add_carry.induct)
  case (1 al c i X)
  show ?case
  proof (cases "c = 0")
    case True
    then show ?thesis
      by (subst add_carry.simps) simp
  next
    case c: False
    obtain Z where Z: "(if i \<ge> mpi_n X then mbedtls_mpi_grow al X (i + 1) else Inr X) = Inr Z"
    proof (cases "i \<ge> mpi_n X")
      case True
      then have "\<exists>Z. mbedtls_mpi_grow al X (i + 1) = Inr Z"
        using "1.prems" by (subst mpi_grow_Inr_iff) simp
      then show ?thesis
        using True that by force
    qed (use that in simp)
    let ?v = "mpi_p Z ! i + c"
    let ?Y = "Z\<lparr>mpi_p := (mpi_p Z)[i := ?v]\<rparr>"
    have "\<exists>X'. add_carry al (c_bool (?v < c)) (i + 1) ?Y = Inr X'"
    proof (cases "i \<ge> mpi_n X")
      case True
      then have "mpi_p Z ! i = 0"
        using mpi_growD(2) [of al X "i + 1" Z] Z by (simp add: nth_append)
      then show ?thesis
        by (subst add_carry.simps) simp
    next
      case False
      then show ?thesis
        using "1.prems" Z by (intro "1.IH" [OF c Z refl]) auto
    qed
    then show ?thesis
      using c Z by (subst add_carry.simps) (simp add: Let_def)
  qed
qed

lemma mpi_add_abs_returns:
  assumes al: "\<forall>k. al k" and n: "mpi_n X < MBEDTLS_MPI_MAX_LIMBS" "mpi_n A < MBEDTLS_MPI_MAX_LIMBS"
    "mpi_n B < MBEDTLS_MPI_MAX_LIMBS"
  shows "\<exists>X'. mbedtls_mpi_add_abs al XA XB X A B = Inr X'"
proof -
  define XA' A' XB' B' where "XA' = (XB \<or> XA)" "A' = (if XB then X else A)"
     "XB' = (if XB then XA else False)" "B' = (if XB then A else B)"
  note d = XA'_A'_XB'_B'_def
  have e: "(if XB then (True, X, XA, A) else (XA, A, XB, B)) = (XA', A', XB', B')"
    by (simp add: d)
  have A': "mpi_n A' < MBEDTLS_MPI_MAX_LIMBS"
    using n by (simp add: d)
  have "\<exists>Y. (if \<not> XA' then mbedtls_mpi_copy al False X A' else Inr X) = Inr Y"
    using mpi_copy_returns [OF al, of A'] A' by auto
  then obtain Y where Y: "(if \<not> XA' then mbedtls_mpi_copy al False X A' else Inr X) = Inr Y" ..
  have yn: "mpi_n Y < MBEDTLS_MPI_MAX_LIMBS"
  proof (cases XA')
    case False
    then show ?thesis
      using Y mpi_copyD(5) [of al X A' Y] scan_used_le [of "mpi_p A'" "mpi_n A'"] A' n(1)
      by (auto simp: MBEDTLS_MPI_MAX_LIMBS_def split: if_splits)
  qed (use Y n in auto)
  define b where "b = mpi_p (if XB' then Y\<lparr>mpi_s := 1\<rparr> else B')"
  define j where "j = scan_used b (length b)"
  have bl: "length b < MBEDTLS_MPI_MAX_LIMBS"
    using yn n by (simp add: b_def d)
  have j: "j \<le> length b"
    unfolding j_def by (rule scan_used_le)
  obtain Z where Z: "mbedtls_mpi_grow al (Y\<lparr>mpi_s := 1\<rparr>) j = Inr Z"
    using al j bl mpi_grow_Inr_iff [of al "Y\<lparr>mpi_s := 1\<rparr>" j] by auto
  have zn: "j \<le> mpi_n Z" "mpi_n Z < MBEDTLS_MPI_MAX_LIMBS"
    using mpi_growD(3) [OF Z] yn j bl by auto
  obtain p c where pc: "add_limbs j 0 (mpi_p Z) (mpi_p (if XB' then Z else B')) = (p, c)"
    by force
  have "length p = mpi_n Z"
    using add_limbs_val [OF zn(1) _ pc] zn(1) j by (auto simp: b_def split: if_splits)
  then obtain X' where "add_carry al c j (Z\<lparr>mpi_p := p\<rparr>) = Inr X'"
    using add_carry_returns [OF al, of j "Z\<lparr>mpi_p := p\<rparr>" c] zn by auto
  then show ?thesis
    using Y Z pc unfolding mbedtls_mpi_add_abs_def e
    by (auto simp: Let_def b_def j_def split: if_splits)
qed

lemma mpi_sub_abs_returns:
  assumes al: "\<forall>k. al k" and n: "mpi_n X \<le> MBEDTLS_MPI_MAX_LIMBS" "mpi_n A \<le> MBEDTLS_MPI_MAX_LIMBS"
    and ge: "val (mpi_p (if XB then X else B)) \<le> val (mpi_p (if XA then X else A))"
  shows "\<exists>X'. mbedtls_mpi_sub_abs al XA XB X A B = Inr X'"
proof -
  let ?A = "if XA then X else A" and ?B = "if XB then X else B"
  have "\<exists>B1. (if XB then mbedtls_mpi_copy al False mbedtls_mpi_init ?B else Inr ?B) = Inr B1"
    using mpi_copy_returns [OF al, of ?B] n(1) by auto
  then obtain B1 where B1: "(if XB then mbedtls_mpi_copy al False mbedtls_mpi_init ?B else Inr ?B) = Inr B1" ..
  have "\<exists>X1. (if \<not> XA then mbedtls_mpi_copy al False X ?A else Inr X) = Inr X1"
    using mpi_copy_returns [OF al, of ?A] n(2) by auto
  then obtain X1 where X1: "(if \<not> XA then mbedtls_mpi_copy al False X ?A else Inr X) = Inr X1" ..
  have eq: "mbedtls_mpi_sub_abs al XA XB X A B =
      chk (in_bounds (mpi_sub_hlp (scan_used (mpi_p B1) (mpi_n B1)) (mpi_p B1) (mpi_p X1))) (\<lambda>p.
                Inr (X1\<lparr>mpi_s := 1, mpi_p := p\<rparr>))"
    using ge B1 X1 by (simp add: mbedtls_mpi_sub_abs_def mpi_cmp_abs_val Let_def)
  show ?thesis
  proof (cases "mpi_sub_hlp (scan_used (mpi_p B1) (mpi_n B1)) (mpi_p B1) (mpi_p X1)")
    case None
    then show ?thesis
      using mpi_sub_abs_cases [OF refl refl, of XA X A XB B al] ge
      by (simp add: eq OUT_OF_BOUNDS_def MPI_ALLOC_FAILED_def)
  qed (simp add: eq)
qed

lemma mpi_add_sub_returns:
  assumes "\<forall>k. al k" "mpi_n X < MBEDTLS_MPI_MAX_LIMBS" "mpi_n A < MBEDTLS_MPI_MAX_LIMBS"
    "mpi_n B < MBEDTLS_MPI_MAX_LIMBS"
  shows "\<exists>X'. mbedtls_mpi_add_mpi al XA XB X A B = Inr X'"
    and "\<exists>X'. mbedtls_mpi_sub_mpi al XA XB X A B = Inr X'"
  using mpi_add_abs_returns [OF assms, of XA XB]
    mpi_sub_abs_returns [OF assms(1), of X A XB B XA] mpi_sub_abs_returns [OF assms(1), of X B XA A XB] assms(2-4)
  by (auto simp: mbedtls_mpi_add_mpi_def mbedtls_mpi_sub_mpi_def Let_def mpi_cmp_abs_val sgn_if less_imp_le
      split: if_splits)

lemma mpi_mul_returns:
  assumes al: "\<forall>k. al k" and ok: "mpi_ok X" "mpi_ok A" "mpi_ok B"
    and n: "mpi_n (if XA then X else A) + mpi_n (if XB then X else B) \<le> MBEDTLS_MPI_MAX_LIMBS"
  shows "\<exists>X'. mbedtls_mpi_mul_mpi al XA XB X A B = Inr X'"
proof -
  let ?c = "\<lambda>XA A. if XA then mbedtls_mpi_copy al False mbedtls_mpi_init X else Inr A"
  have c: "\<exists>A1. ?c XA A = Inr A1 \<and> scan_used (mpi_p A1) (mpi_n A1) \<le> mpi_n (if XA then X else A)" for XA A
  proof (cases XA)
    case True
    then obtain A1 where A1: "mbedtls_mpi_copy al False mbedtls_mpi_init X = Inr A1"
      using mpi_copy_returns [OF al] ok(1) by (metis mpi_ok_def)
    have "scan_used (mpi_p A1) (mpi_n A1) \<le> mpi_n X"
      by (rule scan_used_le_of_val) (use mpi_copyD(1) [OF A1] val_less [of "mpi_p X"] in simp)
    then show ?thesis
      using True A1 by simp
  qed (simp add: scan_used_le)
  obtain A1 B1 where A1: "?c XA A = Inr A1" and B1: "?c XB B = Inr B1"
    and le: "scan_used (mpi_p A1) (mpi_n A1) + scan_used (mpi_p B1) (mpi_n B1) \<le> MBEDTLS_MPI_MAX_LIMBS"
    using c [of XA A] c [of XB B] n by force
  define i j where "i = scan_used (mpi_p A1) (mpi_n A1)" "j = scan_used (mpi_p B1) (mpi_n B1)"
  obtain Y where Y: "mbedtls_mpi_grow al X (i + j) = Inr Y"
    using al le mpi_grow_Inr_iff [of al X "i + j"] by (auto simp: i_j_def)
  obtain Z where Z: "mbedtls_mpi_lset al Y 0 = Inr Z"
    using al mpi_grow_Inr_iff [of al Y 1]
    by (auto simp: mbedtls_mpi_lset_def MBEDTLS_MPI_MAX_LIMBS_def)
  have eq: "mbedtls_mpi_mul_mpi al XA XB X A B =
      chk (in_bounds (mul_rows j i (mpi_p A1) (mpi_p B1) (mpi_p Z))) (\<lambda>p.
        Inr (Z\<lparr>mpi_p := p, mpi_s := mpi_s A1 * mpi_s B1\<rparr>))"
    using A1 B1 Y Z by (simp add: mbedtls_mpi_mul_mpi_def Let_def i_j_def)
  show ?thesis
  proof (cases "mul_rows j i (mpi_p A1) (mpi_p B1) (mpi_p Z)")
    case None
    then show ?thesis
      using mpi_mul_mpi_cases [OF ok, where al = al and XA = XA and XB = XB]
      by (simp add: eq OUT_OF_BOUNDS_def MPI_ALLOC_FAILED_def)
  qed (simp add: eq)
qed

subsection \<open>Properties\<close>

text \<open>
  Property C2. Signed addition and subtraction of big integers are exact for
  operands of any length, also when the destination is one of the operands
  or both (\<open>XA\<close>: \<open>X == A\<close>, \<open>XB\<close>: \<open>X == B\<close>): a call either reports a failed
  allocation or leaves a well-formed object whose value is the sum or the
  difference. No access leaves an array, and the call returns when memory is
  available and the operands stay below the limb limit.
\<close>

theorem mpi_add_sub_correct:
  assumes "mpi_ok X" "mpi_ok A" "mpi_ok B"
  shows "(case mbedtls_mpi_add_mpi al XA XB X A B of
            Inl e \<Rightarrow> e = MPI_ALLOC_FAILED
          | Inr Y \<Rightarrow> mpi_ok Y \<and> mpi_val Y = mpi_val (if XA then X else A) + mpi_val (if XB then X else B))
    \<and> (case mbedtls_mpi_sub_mpi al XA XB X A B of
            Inl e \<Rightarrow> e = MPI_ALLOC_FAILED
          | Inr Y \<Rightarrow> mpi_ok Y \<and> mpi_val Y = mpi_val (if XA then X else A) - mpi_val (if XB then X else B))
    \<and> ((\<forall>k. al k) \<and> mpi_n X < MBEDTLS_MPI_MAX_LIMBS \<and> mpi_n A < MBEDTLS_MPI_MAX_LIMBS
        \<and> mpi_n B < MBEDTLS_MPI_MAX_LIMBS \<longrightarrow>
        (\<exists>Y. mbedtls_mpi_add_mpi al XA XB X A B = Inr Y) \<and> (\<exists>Y. mbedtls_mpi_sub_mpi al XA XB X A B = Inr Y))"
proof (intro conjI impI, goal_cases)
  case 1
  then show ?case
    using mpi_add_mpiD [OF _ assms, of al XA XB] mpi_signed_error(1) [of al XA XB X A B] by (auto split: sum.split)
next
  case 2
  then show ?case
    using mpi_sub_mpiD [OF _ assms, of al XA XB] mpi_signed_error(2) [of al XA XB X A B] by (auto split: sum.split)
qed (use mpi_add_sub_returns in blast)+

text \<open>Applied to \<open>X := X - B\<close> in place, with a borrow across two limbs: \<open>2^128 - 1\<close>.\<close>

theorem mpi_add_sub_correct_witness:
  "(\<exists>Y. mbedtls_mpi_sub_mpi (\<lambda>k. True) True False \<lparr>mpi_s = 1, mpi_p = [0, 0, 1]\<rparr> mbedtls_mpi_init
          \<lparr>mpi_s = 1, mpi_p = [1]\<rparr> = Inr Y \<and> mpi_val Y = 2 ^ 128 - 1)"
proof -
  have ok: "mpi_ok \<lparr>mpi_s = 1, mpi_p = [0, 0, 1]\<rparr>" "mpi_ok \<lparr>mpi_s = 1, mpi_p = [1]\<rparr>"
    by (simp_all add: mpi_ok_def MBEDTLS_MPI_MAX_LIMBS_def)
  note t = mpi_add_sub_correct [OF ok(1) mpi_init_ok(1) ok(2), where al = "\<lambda>k. True" and XA = True and XB = False]
  then obtain Y where Y: "mbedtls_mpi_sub_mpi (\<lambda>k. True) True False \<lparr>mpi_s = 1, mpi_p = [0, 0, 1]\<rparr> mbedtls_mpi_init
          \<lparr>mpi_s = 1, mpi_p = [1]\<rparr> = Inr Y"
    by (auto simp: MBEDTLS_MPI_MAX_LIMBS_def)
  then show ?thesis
    using t by (simp add: mpi_val_def)
qed

text \<open>
  Unsigned subtraction \<open>X = |A| - |B|\<close> answers with
  \<open>MBEDTLS_ERR_MPI_NEGATIVE_VALUE\<close> exactly when \<open>|A| < |B|\<close>; otherwise it fails
  only for lack of memory, and never borrows past the end of \<open>X\<close>.
\<close>

theorem mpi_sub_abs_correct:
  assumes "mpi_ok X" "mpi_ok A" "mpi_ok B"
  shows "case mbedtls_mpi_sub_abs al XA XB X A B of
      Inl e \<Rightarrow> (if \<bar>mpi_val (if XA then X else A)\<bar> < \<bar>mpi_val (if XB then X else B)\<bar>
                then e = MPI_NEGATIVE_VALUE else e = MPI_ALLOC_FAILED)
    | Inr Y \<Rightarrow> mpi_ok Y \<and> mpi_val Y = \<bar>mpi_val (if XA then X else A)\<bar> - \<bar>mpi_val (if XB then X else B)\<bar>"
proof -
  have abs: "\<bar>mpi_val U\<bar> = int (val (mpi_p U))" if "mpi_ok U" for U
    using that by (auto simp: mpi_val_def mpi_ok_def abs_mult)
  let ?A = "if XA then X else A" and ?B = "if XB then X else B"
  have "\<bar>mpi_val ?A\<bar> = int (val (mpi_p ?A))" "\<bar>mpi_val ?B\<bar> = int (val (mpi_p ?B))"
    by (rule abs, use assms in simp)+
  then show ?thesis
    using mpi_sub_abs_cases [OF refl refl, of XA X A XB B al] assms
    by (auto simp: mpi_val_def split: sum.splits if_splits)
qed

theorem mpi_sub_abs_correct_witness:
  "case mbedtls_mpi_sub_abs (\<lambda>k. True) False False mbedtls_mpi_init \<lparr>mpi_s = 1, mpi_p = [1]\<rparr>
      \<lparr>mpi_s = - 1, mpi_p = [2]\<rparr> of Inl e \<Rightarrow> e = MPI_NEGATIVE_VALUE | Inr Y \<Rightarrow> mpi_val Y = - 1"
proof -
  have ok: "mpi_ok \<lparr>mpi_s = 1, mpi_p = [1]\<rparr>" "mpi_ok \<lparr>mpi_s = - 1, mpi_p = [2]\<rparr>"
    by (simp_all add: mpi_ok_def MBEDTLS_MPI_MAX_LIMBS_def)
  show ?thesis
    using mpi_sub_abs_correct [OF mpi_init_ok(1) ok, where al = "\<lambda>k. True" and XA = False and XB = False]
    by (auto simp: mpi_val_def split: sum.splits)
qed

text \<open>
  Property C3. Baseline multiplication, with its unrolled inner loop and its
  carry chain, is exact for operands of any length and any aliasing of the
  destination: it reports a failed allocation or leaves the product; it never
  writes past the \<open>i + j\<close> limbs it asked for, and returns when they are available.
\<close>

theorem mpi_mul_correct:
  assumes "mpi_ok X" "mpi_ok A" "mpi_ok B"
  shows "(case mbedtls_mpi_mul_mpi al XA XB X A B of
            Inl e \<Rightarrow> e = MPI_ALLOC_FAILED
          | Inr Y \<Rightarrow> mpi_ok Y \<and> mpi_val Y = mpi_val (if XA then X else A) * mpi_val (if XB then X else B))
    \<and> ((\<forall>k. al k) \<and> mpi_n (if XA then X else A) + mpi_n (if XB then X else B) \<le> MBEDTLS_MPI_MAX_LIMBS
        \<longrightarrow> (\<exists>Y. mbedtls_mpi_mul_mpi al XA XB X A B = Inr Y))"
  using mpi_mul_mpi_cases [OF assms, where al = al and XA = XA and XB = XB] mpi_mul_returns [OF _ assms]
  by (auto split: sum.splits)

theorem mpi_mul_correct_witness:
  "\<exists>Y. mbedtls_mpi_mul_mpi (\<lambda>k. True) True True \<lparr>mpi_s = - 1, mpi_p = [0, 3]\<rparr> mbedtls_mpi_init mbedtls_mpi_init
     = Inr Y \<and> mpi_val Y = 9 * 2 ^ 128"
proof -
  have ok: "mpi_ok \<lparr>mpi_s = - 1, mpi_p = [0, 3]\<rparr>"
    by (simp add: mpi_ok_def MBEDTLS_MPI_MAX_LIMBS_def)
  note t = mpi_mul_correct [OF ok mpi_init_ok(1) mpi_init_ok(1), where al = "\<lambda>k. True" and XA = True and XB = True]
  then obtain Y where "mbedtls_mpi_mul_mpi (\<lambda>k. True) True True \<lparr>mpi_s = - 1, mpi_p = [0, 3]\<rparr> mbedtls_mpi_init mbedtls_mpi_init
     = Inr Y"
    by (auto simp: MBEDTLS_MPI_MAX_LIMBS_def)
  then show ?thesis
    using t by (simp add: mpi_val_def)
qed

text \<open>
  A difference of equal negative numbers is a zero with the sign
  -1, and the constant-time comparison then answers that this zero is less
  than zero, where \<open>mbedtls_mpi_cmp_mpi\<close> finds them equal.
\<close>

theorem mpi_lt_mpi_ct_negative_zero:
  "mbedtls_mpi_sub_mpi (\<lambda>k. True) False False mbedtls_mpi_init \<lparr>mpi_s = - 1, mpi_p = [5]\<rparr>
      \<lparr>mpi_s = - 1, mpi_p = [5]\<rparr> = Inr \<lparr>mpi_s = - 1, mpi_p = [0]\<rparr>
   \<and> mbedtls_mpi_lt_mpi_ct \<lparr>mpi_s = - 1, mpi_p = [0]\<rparr> \<lparr>mpi_s = 1, mpi_p = [0]\<rparr> = Inr 1
   \<and> mbedtls_mpi_cmp_mpi \<lparr>mpi_s = - 1, mpi_p = [0]\<rparr> \<lparr>mpi_s = 1, mpi_p = [0]\<rparr> = 0"
  by code_simp

end
