(* ===== verification/Bignum_Binary.thy ===== *)
theory Bignum_Binary
  imports Bignum_Arith
begin

text \<open>
  Binary import and export of \<open>bignum.c\<close>: the byte order of the limbs in
  memory, \<open>mbedtls_mpi_read_binary\<close>, \<open>mbedtls_mpi_write_binary\<close> and
  \<open>mbedtls_mpi_fill_random\<close>, against the big-endian value of a byte string.
\<close>

subsection \<open>Byte order of the limbs\<close>

text \<open>
  The bytes of an array of limbs in memory (\<open>(unsigned char*) X->p\<close>), on a
  little-endian host, and the array read back from its bytes.
\<close>

definition limb_of_bytes :: "byte list \<Rightarrow> limb" where
  "limb_of_bytes b = foldr (\<lambda>x acc. ucast x OR push_bit 8 acc) b 0"

definition limbs_bytes :: "limb list \<Rightarrow> byte list" where
  "limbs_bytes p = concat (map le64 p)"

fun bytes_limbs :: "nat \<Rightarrow> byte list \<Rightarrow> limb list" where
  "bytes_limbs 0 b = []"
| "bytes_limbs (Suc n) b = limb_of_bytes (take 8 b) # bytes_limbs n (drop 8 b)"

definition mpi_uint_bigendian_to_host_c :: "limb \<Rightarrow> limb" where
  "mpi_uint_bigendian_to_host_c x = foldl (\<lambda>tmp b. push_bit 8 tmp OR ucast b) 0 (le64 x)"

text \<open>On a little-endian host the builtin byte swap does what the C fallback does.\<close>

definition mpi_uint_bigendian_to_host :: "limb \<Rightarrow> limb" where
  "mpi_uint_bigendian_to_host x = mpi_uint_bigendian_to_host_c x"

function bigendian_loop :: "nat \<Rightarrow> nat \<Rightarrow> limb list \<Rightarrow> limb list" where
  "bigendian_loop l r p =
     (if l \<le> r then
        let tmp = mpi_uint_bigendian_to_host (p ! l);
            p = p[l := mpi_uint_bigendian_to_host (p ! r)];
            p = p[r := tmp]
        in bigendian_loop (l + 1) (r - 1) p
      else p)"
  by pat_completeness auto
termination by (relation "measure (\<lambda>(l, r, p). Suc r - l)") auto

declare bigendian_loop.simps [simp del]

definition mpi_bigendian_to_host :: "limb list \<Rightarrow> nat \<Rightarrow> limb list" where
  "mpi_bigendian_to_host p limbs = (if limbs = 0 then p else bigendian_loop 0 (limbs - 1) p)"

subsection \<open>Binary import and export\<close>

text \<open>The common start of \<open>read_binary\<close> and \<open>fill_random\<close>: exactly \<open>limbs\<close> limbs (at least one), all 0.\<close>

definition mpi_resize_clear :: "(nat \<Rightarrow> bool) \<Rightarrow> mpi \<Rightarrow> nat \<Rightarrow> mpi res" where
  "mpi_resize_clear al X limbs =
     chk (if mpi_n X \<noteq> limbs then
            (let X = mbedtls_mpi_free X; X = mbedtls_mpi_init
             in mbedtls_mpi_grow al X limbs)
          else Inr X) (\<lambda>X.
     mbedtls_mpi_lset al X 0)"

definition mpi_overlay :: "mpi \<Rightarrow> nat \<Rightarrow> byte list \<Rightarrow> mpi" where
  "mpi_overlay X overhead buf =
     X\<lparr>mpi_p := bytes_limbs (mpi_n X) (memcpy (limbs_bytes (mpi_p X)) overhead buf)\<rparr>"

definition mbedtls_mpi_read_binary :: "(nat \<Rightarrow> bool) \<Rightarrow> mpi \<Rightarrow> byte list \<Rightarrow> mpi res" where
  "mbedtls_mpi_read_binary al X buf =
     (let buflen = length buf;
          limbs = CHARS_TO_LIMBS buflen;
          overhead = limbs * ciL - buflen
      in chk (mpi_resize_clear al X limbs) (\<lambda>X.
           let X = mpi_overlay X overhead buf
           in Inr (X\<lparr>mpi_p := mpi_bigendian_to_host (mpi_p X) limbs\<rparr>)))"

definition GET_BYTE :: "mpi \<Rightarrow> nat \<Rightarrow> byte" where
  "GET_BYTE X i = ucast (drop_bit ((i mod ciL) * 8) (mpi_p X ! (i div ciL)) AND 0xff)"

definition mbedtls_mpi_write_binary :: "mpi \<Rightarrow> byte list \<Rightarrow> byte list res" where
  "mbedtls_mpi_write_binary X buf =
     (let buflen = length buf;
          stored_bytes = mpi_n X * ciL;
          copy = (\<lambda>buf p bytes_to_copy.
            fold (\<lambda>i b. b[p + (bytes_to_copy - i - 1) := GET_BYTE X i]) [0..<bytes_to_copy] buf)
      in if stored_bytes < buflen then
           Inr (copy (memset buf 0 0 (buflen - stored_bytes)) (buflen - stored_bytes) stored_bytes)
         else if list_ex (\<lambda>i. GET_BYTE X i \<noteq> 0) [buflen..<stored_bytes] then
           Inl MPI_BUFFER_TOO_SMALL
         else Inr (copy buf 0 buflen))"

text \<open>
  The random source \<open>f_rng\<close> with its state \<open>r\<close>: a return code, the bytes left in
  the buffer (given the old ones) and the new state. The code is dropped by
  \<open>mbedtls_mpi_fill_random\<close>.
\<close>

type_synonym 'r rng = "'r \<Rightarrow> byte list \<Rightarrow> int \<times> byte list \<times> 'r"

definition mbedtls_mpi_fill_random ::
    "(nat \<Rightarrow> bool) \<Rightarrow> mpi \<Rightarrow> nat \<Rightarrow> 'r rng \<Rightarrow> 'r \<Rightarrow> (mpi \<times> 'r) res" where
  "mbedtls_mpi_fill_random al X siz f_rng p_rng =
     (let limbs = CHARS_TO_LIMBS siz;
          overhead = limbs * ciL - siz
      in chk (mpi_resize_clear al X limbs) (\<lambda>X.
           let old = take siz (drop overhead (limbs_bytes (mpi_p X)));
               (rc, bytes, p_rng) = f_rng p_rng old;
               X = mpi_overlay X overhead bytes
           in Inr (X\<lparr>mpi_p := mpi_bigendian_to_host (mpi_p X) limbs\<rparr>, p_rng)))"

subsection \<open>Big-endian values\<close>

definition be_val :: "byte list \<Rightarrow> nat" where
  "be_val bs = foldl (\<lambda>a b. 256 * a + unat b) 0 bs"

lemma be_val_Nil [simp]: "be_val [] = 0"
  by (simp add: be_val_def)

lemma be_val_snoc [simp]: "be_val (bs @ [b]) = 256 * be_val bs + unat b"
  by (simp add: be_val_def)

lemma be_val_append: "be_val (xs @ ys) = 256 ^ length ys * be_val xs + be_val ys"
  by (induction ys rule: rev_induct) (simp_all add: be_val_def algebra_simps)

lemma be_val_less: "be_val bs < 256 ^ length bs"
proof (induction bs rule: rev_induct)
  case (snoc b bs)
  have "unat b < 256"
    using unsigned_less [of b, where 'a = nat] by simp
  then show ?case
    using snoc by simp
qed simp

lemma be_val_replicate_0 [simp]: "be_val (replicate n 0) = 0"
  by (induction n) (simp_all add: replicate_append_same [symmetric] be_val_def)

text \<open>The digits of a value in base 256, most significant first.\<close>

lemma be_val_digits:
  "length bs = n \<Longrightarrow> (\<And>k. k < n \<Longrightarrow> unat (bs ! k) = v div 256 ^ (n - 1 - k) mod 256) \<Longrightarrow>
     be_val bs = v mod 256 ^ n"
proof (induction n arbitrary: bs v)
  case (Suc n)
  from Suc.prems(1) obtain cs c where bs: "bs = cs @ [c]" "length cs = n"
    by (cases bs rule: rev_cases) auto
  have c: "unat c = v mod 256"
    using Suc.prems(2) [of n] by (simp add: bs nth_append)
  have "be_val cs = (v div 256) mod 256 ^ n"
  proof (rule Suc.IH [OF bs(2)])
    fix k assume k: "k < n"
    then have "Suc n - 1 - k = Suc (n - 1 - k)"
      by simp
    then show "unat (cs ! k) = v div 256 div 256 ^ (n - 1 - k) mod 256"
      using Suc.prems(2) [of k] k by (simp add: bs nth_append div_mult2_eq)
  qed
  then show ?case
    by (simp add: bs c mod_mult2_eq)
qed simp

lemma be_val_inj: "length xs = length ys \<Longrightarrow> be_val xs = be_val ys \<Longrightarrow> xs = ys"
proof (induction xs arbitrary: ys rule: rev_induct)
  case (snoc x xs)
  then obtain ys' y where ys: "ys = ys' @ [y]" "length xs = length ys'"
    by (cases ys rule: rev_cases) auto
  have "unat x < 256" "unat y < 256"
    using unsigned_less [of x, where 'a = nat] unsigned_less [of y, where 'a = nat] by simp_all
  moreover have "256 * be_val xs + unat x = 256 * be_val ys' + unat y"
    using snoc.prems(2) by (simp add: ys)
  ultimately have lt: "unat x < 256" "unat y < 256"
      and eq: "256 * be_val xs + unat x = 256 * be_val ys' + unat y" .
  have "be_val xs = be_val ys'"
    using lt eq by linarith
  moreover from this have "unat x = unat y"
    using eq by linarith
  ultimately have "be_val xs = be_val ys'" "unat x = unat y" .
  then show ?case
    using snoc.IH [OF ys(2)] by (simp add: ys(1) word_unat_eq_iff)
qed simp

lemma length_le64 [simp]: "length (le64 w) = 8"
  by (simp add: le64_def)

lemma byte_bit_ge: "8 \<le> k \<Longrightarrow> bit (x :: byte) k = False"
  using bit_imp_le_length [of x k] by auto

lemma le64_limb_of_bytes: "length b = 8 \<Longrightarrow> le64 (limb_of_bytes b) = b"
  by (auto simp: list8_conv limb_of_bytes_def le64_def be64_def byte_bit_ge bit_simps intro!: bit_word_eqI)

lemma foldl_be_val:
  "length bs \<le> 8 \<Longrightarrow> unat (foldl (\<lambda>tmp b. push_bit 8 tmp OR ucast b) (0 :: limb) bs) = be_val bs"
proof (induction bs rule: rev_induct)
  case (snoc b bs)
  let ?t = "foldl (\<lambda>tmp b. push_bit 8 tmp OR ucast b) (0 :: limb) bs"
  have t: "unat ?t = be_val bs"
    using snoc by simp
  have "be_val bs < 256 ^ length bs"
    by (rule be_val_less)
  also have "\<dots> \<le> 256 ^ 7"
    using snoc.prems by (intro power_increasing) simp_all
  finally have lt: "be_val bs < 2 ^ 56"
    by simp
  have b: "unat (ucast b :: limb) = unat b" "unat b < 2 ^ 8"
    using unsigned_less [of b, where 'a = nat] by (simp_all add: unsigned_ucast_eq take_bit_nat_eq_self)
  have "unat (push_bit 8 ?t OR ucast b) = unat (push_bit 8 ?t) + unat (ucast b :: limb)"
    by (rule or_disjoint_limb [of _ 8]) (use b in \<open>auto simp: bit_simps\<close>)
  also have "unat (push_bit 8 ?t) = 256 * be_val bs"
    using lt by (simp add: unat_push_bit_limb t)
  finally show ?case
    using b by simp
qed simp

lemma bswap_val: "length b = 8 \<Longrightarrow> unat (mpi_uint_bigendian_to_host (limb_of_bytes b)) = be_val b"
  by (simp add: mpi_uint_bigendian_to_host_def mpi_uint_bigendian_to_host_c_def le64_limb_of_bytes foldl_be_val)

lemma bigendian_loop_nth:
  "r < length p \<Longrightarrow> length (bigendian_loop l r p) = length p \<and>
     (\<forall>k < length p. bigendian_loop l r p ! k
        = (if l \<le> k \<and> k \<le> r then mpi_uint_bigendian_to_host (p ! (l + r - k)) else p ! k))"
proof (induction l r p rule: bigendian_loop.induct)
  case (1 l r p)
  let ?q = "p[l := mpi_uint_bigendian_to_host (p ! r), r := mpi_uint_bigendian_to_host (p ! l)]"
  show ?case
  proof (cases "l \<le> r")
    case True
    have ih: "length (bigendian_loop (l + 1) (r - 1) ?q) = length p \<and>
       (\<forall>k < length p. bigendian_loop (l + 1) (r - 1) ?q ! k
        = (if l + 1 \<le> k \<and> k \<le> r - 1 then mpi_uint_bigendian_to_host (?q ! (l + 1 + (r - 1) - k)) else ?q ! k))"
      using 1 True by (simp add: Let_def)
    have "bigendian_loop l r p = bigendian_loop (l + 1) (r - 1) ?q"
      using True by (subst bigendian_loop.simps) (simp add: Let_def)
    then show ?thesis
      using ih 1(2) True by (auto simp: nth_list_update)
  next
    case False
    then show ?thesis
      by (subst (1 2) bigendian_loop.simps) auto
  qed
qed

lemma mpi_bigendian_to_host_eq:
  "mpi_bigendian_to_host p (length p) = rev (map mpi_uint_bigendian_to_host p)"
proof (cases "p = []")
  case False
  then have "length p - 1 < length p"
    by simp
  from bigendian_loop_nth [OF this, of 0] False show ?thesis
    by (intro nth_equalityI) (auto simp: mpi_bigendian_to_host_def rev_nth)
qed (simp add: mpi_bigendian_to_host_def)

lemma length_bytes_limbs [simp]: "length (bytes_limbs n b) = n"
  by (induction n b rule: bytes_limbs.induct) simp_all

lemma val_bytes_limbs:
  "length b = 8 * n \<Longrightarrow> val (rev (map mpi_uint_bigendian_to_host (bytes_limbs n b))) = be_val b"
proof (induction n arbitrary: b)
  case (Suc n)
  have len: "length (take 8 b) = 8" "length (drop 8 b) = 8 * n"
    using Suc.prems by simp_all
  have p: "(256 :: nat) ^ (8 * n) = 2 ^ (biL * n)"
    by (simp add: power_mult)
  have "be_val b = 256 ^ (8 * n) * be_val (take 8 b) + be_val (drop 8 b)"
    using be_val_append [of "take 8 b" "drop 8 b"] len(2) by simp
  then show ?case
    using Suc.IH [OF len(2)] bswap_val [OF len(1)] by (simp add: val_append p)
qed simp

lemma limbs_bytes_zero: "limbs_bytes (replicate n 0) = replicate (8 * n) 0"
proof (induction n)
  case (Suc n)
  have "le64 0 = replicate 8 0"
    by (simp add: le64_def be64_def numeral_eq_Suc)
  then show ?case
    using Suc by (simp add: limbs_bytes_def replicate_add)
qed (simp add: limbs_bytes_def)

lemma mpi_resize_clearD:
  assumes "mpi_resize_clear al X limbs = Inr Y" "mpi_ok X"
  shows "mpi_s Y = 1" "mpi_p Y = replicate (max 1 limbs) 0" "mpi_ok Y"
proof -
  obtain Z where Z: "(if mpi_n X \<noteq> limbs then mbedtls_mpi_grow al mbedtls_mpi_init limbs else Inr X) = Inr Z"
    and Y: "mbedtls_mpi_lset al Z 0 = Inr Y"
    using assms(1) by (auto simp: mpi_resize_clear_def chk_eq_Inr split: if_splits)
  have n: "mpi_n Z = limbs" and ok: "mpi_ok Z"
    using Z mpi_growD(3,7) [of al mbedtls_mpi_init limbs Z] assms(2) by (auto split: if_splits)
  show "mpi_s Y = 1" "mpi_ok Y"
    using mpi_lsetD(1) [OF Y] mpi_lset_val(2) [OF Y ok] by (simp_all add: sint_sgn_def)
  show "mpi_p Y = replicate (max 1 limbs) 0"
    using mpi_lsetD(2) [OF Y] n by (cases limbs) (simp_all add: sint_abs_def)
qed

lemma mpi_resize_clear_error: "mpi_resize_clear al X limbs = Inl e \<Longrightarrow> e = MPI_ALLOC_FAILED"
  by (auto simp: mpi_resize_clear_def chk_eq_Inl mpi_grow_error mpi_lset_error split: if_splits)

lemma mpi_resize_clear_returns:
  assumes "\<forall>k. al k" "limbs \<le> MBEDTLS_MPI_MAX_LIMBS"
  shows "\<exists>Y. mpi_resize_clear al X limbs = Inr Y"
  using assms by (auto simp: mpi_resize_clear_def mbedtls_mpi_grow_def mbedtls_mpi_lset_def Let_def
      MBEDTLS_MPI_MAX_LIMBS_def)

lemma CHARS_TO_LIMBS_bounds: "k \<le> CHARS_TO_LIMBS k * 8" "CHARS_TO_LIMBS k = 0 \<longleftrightarrow> k = 0"
  by (simp_all add: CHARS_TO_LIMBS_def) presburger+

text \<open>Bytes laid over a cleared object and turned to the host's byte order.\<close>

lemma mpi_overlay_val:
  assumes "mpi_p Y = replicate (max 1 (CHARS_TO_LIMBS (length buf))) 0"
  defines "limbs \<equiv> CHARS_TO_LIMBS (length buf)"
  shows "val (mpi_bigendian_to_host (mpi_p (mpi_overlay Y (limbs * 8 - length buf) buf)) limbs) = be_val buf"
    and "length (mpi_bigendian_to_host (mpi_p (mpi_overlay Y (limbs * 8 - length buf) buf)) limbs) = max 1 limbs"
    and "mpi_s (mpi_overlay Y k buf) = mpi_s Y"
proof -
  let ?q = "mpi_p (mpi_overlay Y (limbs * 8 - length buf) buf)"
  have "val (mpi_bigendian_to_host ?q limbs) = be_val buf
      \<and> length (mpi_bigendian_to_host ?q limbs) = max 1 limbs"
  proof (cases "limbs = 0")
    case True
    then have "buf = []"
      by (simp add: limbs_def CHARS_TO_LIMBS_bounds(2))
    moreover have "bytes_limbs 1 (limbs_bytes [0]) = [0]"
      by code_simp
    ultimately show ?thesis
      using assms(1) True
      by (simp add: mpi_overlay_def mpi_bigendian_to_host_def limbs_def del: bytes_limbs.simps)
  next
    case False
    then have m: "max 1 limbs = limbs"
      by simp
    have le: "length buf \<le> limbs * 8"
      unfolding limbs_def by (rule CHARS_TO_LIMBS_bounds(1))
    then have "memcpy (limbs_bytes (mpi_p Y)) (limbs * 8 - length buf) buf
        = replicate (limbs * 8 - length buf) 0 @ buf"
      using assms(1) m by (simp add: limbs_def [symmetric] limbs_bytes_zero memcpy_def mult.commute)
    then have q: "?q = bytes_limbs limbs (replicate (limbs * 8 - length buf) 0 @ buf)"
      using assms(1) m by (simp add: mpi_overlay_def limbs_def [symmetric])
    have "mpi_bigendian_to_host ?q limbs = rev (map mpi_uint_bigendian_to_host ?q)"
      using mpi_bigendian_to_host_eq [of ?q] by (simp add: q)
    moreover have "val (rev (map mpi_uint_bigendian_to_host ?q)) = be_val buf"
      using val_bytes_limbs [of "replicate (limbs * 8 - length buf) 0 @ buf" limbs] le
      by (simp add: q be_val_append)
    ultimately show ?thesis
      using m by (simp add: q)
  qed
  then show "val (mpi_bigendian_to_host ?q limbs) = be_val buf"
    and "length (mpi_bigendian_to_host ?q limbs) = max 1 limbs"
    by auto
qed (simp add: mpi_overlay_def)

lemma mpi_read_binaryD:
  assumes "mbedtls_mpi_read_binary al X buf = Inr Y" "mpi_ok X"
  shows "mpi_val Y = int (be_val buf)" "mpi_ok Y" "mpi_s Y = 1" "mpi_n Y = max 1 (CHARS_TO_LIMBS (length buf))"
proof -
  let ?limbs = "CHARS_TO_LIMBS (length buf)"
  obtain Z where Z: "mpi_resize_clear al X ?limbs = Inr Z"
    and Y: "Y = (let W = mpi_overlay Z (?limbs * 8 - length buf) buf
        in W\<lparr>mpi_p := mpi_bigendian_to_host (mpi_p W) ?limbs\<rparr>)"
    using assms(1) by (auto simp: mbedtls_mpi_read_binary_def Let_def chk_eq_Inr)
  note z = mpi_resize_clearD [OF Z assms(2)]
  note o = mpi_overlay_val [OF z(2)]
  show "mpi_s Y = 1" "mpi_n Y = max 1 ?limbs" "mpi_val Y = int (be_val buf)"
    using z o by (simp_all add: Y Let_def mpi_val_def)
  then show "mpi_ok Y"
    using z by (simp add: mpi_ok_def)
qed

lemma ucast_and_ff: "(ucast ((x :: limb) AND 0xff) :: byte) = ucast x"
proof (rule bit_word_eqI)
  fix n
  have "(0xff :: limb) = mask 8"
    by (simp add: mask_eq_exp_minus_1)
  then have "bit (x AND 0xff) n \<longleftrightarrow> bit x n \<and> bit (mask 8 :: limb) n"
    by (simp only: bit_and_iff)
  then show "bit (ucast (x AND 0xff) :: byte) n = bit (ucast x :: byte) n"
    by (auto simp: bit_unsigned_iff bit_mask_iff)
qed

lemma GET_BYTE_val:
  assumes "i < mpi_n X * 8"
  shows "unat (GET_BYTE X i) = val (mpi_p X) div 256 ^ i mod 256"
proof -
  have d: "i div 8 < mpi_n X"
    using assms by (simp add: less_mult_imp_div_less)
  let ?x = "mpi_p X ! (i div 8)"
  have "unat (GET_BYTE X i) = unat ?x div 2 ^ (8 * (i mod 8)) mod 256"
  proof -
    have "GET_BYTE X i = ucast (drop_bit (8 * (i mod 8)) ?x)"
      by (simp add: GET_BYTE_def ucast_and_ff mult.commute)
    then show ?thesis
      by (simp add: unsigned_ucast_eq unat_drop_bit_limb take_bit_eq_mod)
  qed
  also have "\<dots> = val (mpi_p X) div 2 ^ (biL * (i div 8)) mod 2 ^ biL div 2 ^ (8 * (i mod 8)) mod 256"
    by (subst val_nth [OF d]) simp
  also have "\<dots> = val (mpi_p X) div 2 ^ (biL * (i div 8)) div 2 ^ (8 * (i mod 8)) mod 256"
  proof -
    have m: "8 * (i mod 8) + 8 \<le> biL"
      using mod_less_divisor [of 8 i] by linarith
    have "(w mod 2 ^ biL) div 2 ^ k mod 256 = w div 2 ^ k mod 256" if "k + 8 \<le> biL" for w k :: nat
    proof -
      have "take_bit 8 (drop_bit k (take_bit biL w)) = take_bit 8 (drop_bit k w)"
        using that by (auto intro!: bit_eqI simp: bit_simps)
      then show ?thesis
        by (simp add: take_bit_eq_mod drop_bit_eq_div)
    qed
    from this [OF m] show ?thesis .
  qed
  also have "\<dots> = val (mpi_p X) div 256 ^ i mod 256"
  proof -
    have "biL * (i div 8) + 8 * (i mod 8) = 8 * i"
      using mult_div_mod_eq [of 8 i] by linarith
    then have "2 ^ (biL * (i div 8)) * 2 ^ (8 * (i mod 8)) = (256 :: nat) ^ i"
      by (simp flip: power_add) (simp add: power_mult)
    then show ?thesis
      by (simp flip: div_mult2_eq)
  qed
  finally show ?thesis .
qed

lemma copy_bytes_eq:
  assumes "p + n \<le> length buf"
  shows "fold (\<lambda>i b. b[p + (n - i - 1) := f i]) [0..<n] buf
    = take p buf @ rev (map f [0..<n]) @ drop (p + n) buf"
proof -
  have "length (fold (\<lambda>i b. b[p + (n - i - 1) := f i]) [0..<m] buf) = length buf
     \<and> (\<forall>k < length buf. fold (\<lambda>i b. b[p + (n - i - 1) := f i]) [0..<m] buf ! k
        = (if p + (n - m) \<le> k \<and> k < p + n then f (p + n - 1 - k) else buf ! k))" if "m \<le> n" for m
    using that
  proof (induction m)
    case (Suc m)
    then show ?case
      using assms by (auto simp: nth_list_update)
  qed auto
  from this [OF order_refl] show ?thesis
    using assms by (intro nth_equalityI) (auto simp: nth_append rev_nth add.commute)
qed

lemma mpi_write_binary_cases:
  "if val (mpi_p X) < 256 ^ length buf
   then \<exists>out. mbedtls_mpi_write_binary X buf = Inr out \<and> length out = length buf \<and> be_val out = val (mpi_p X)
   else mbedtls_mpi_write_binary X buf = Inl MPI_BUFFER_TOO_SMALL"
proof -
  let ?v = "val (mpi_p X)" and ?st = "mpi_n X * 8"
  have vless: "?v < 256 ^ ?st"
    using val_less [of "mpi_p X"] by (simp add: power_mult mult.commute [of _ 8])
  have digits: "be_val (rev (map (GET_BYTE X) [0..<n])) = ?v mod 256 ^ n" if "n \<le> ?st" for n
    by (rule be_val_digits) (use that in \<open>auto simp: rev_nth GET_BYTE_val\<close>)
  show ?thesis
  proof (cases "?st < length buf")
    case True
    define out where "out = replicate (length buf - ?st) 0 @ rev (map (GET_BYTE X) [0..<?st])"
    have eq: "mbedtls_mpi_write_binary X buf = Inr out"
      using True copy_bytes_eq [of "length buf - ?st" ?st "memset buf 0 0 (length buf - ?st)" "GET_BYTE X"]
      by (simp add: mbedtls_mpi_write_binary_def Let_def length_memset out_def)
        (simp add: memset_def memcpy_def)
    have "be_val out = ?v"
      using digits [of ?st] vless by (simp add: out_def be_val_append)
    moreover have "?v < 256 ^ length buf"
    proof -
      have "(256 :: nat) ^ ?st \<le> 256 ^ length buf"
        using True by (intro power_increasing) simp_all
      with vless show ?thesis
        by linarith
    qed
    ultimately show ?thesis
      using eq True by (simp add: out_def)
  next
    case False
    have zero: "list_ex (\<lambda>i. GET_BYTE X i \<noteq> 0) [length buf..<?st] \<longleftrightarrow> \<not> ?v < 256 ^ length buf"
    proof
      assume "list_ex (\<lambda>i. GET_BYTE X i \<noteq> 0) [length buf..<?st]"
      then obtain i where i: "length buf \<le> i" "i < ?st" "GET_BYTE X i \<noteq> 0"
        by (auto simp: list_ex_iff)
      then have "?v div 256 ^ i \<noteq> 0"
        using GET_BYTE_val [OF i(2)] by (metis mod_0 unsigned_0 word_unat_eq_iff)
      then have "256 ^ i \<le> ?v"
        by (simp add: div_eq_0_iff not_less)
      moreover have "(256 :: nat) ^ length buf \<le> 256 ^ i"
        using i(1) by (intro power_increasing) simp_all
      ultimately show "\<not> ?v < 256 ^ length buf"
        by linarith
    next
      assume ge: "\<not> ?v < 256 ^ length buf"
      show "list_ex (\<lambda>i. GET_BYTE X i \<noteq> 0) [length buf..<?st]"
      proof (rule ccontr)
        assume n: "\<not> ?thesis"
        have "?v mod 256 ^ (length buf + k) = ?v mod 256 ^ length buf" if "length buf + k \<le> ?st" for k
          using that
        proof (induction k)
          case (Suc k)
          have "GET_BYTE X (length buf + k) = 0"
            using n Suc.prems by (auto simp: list_ex_iff)
          then have "?v div 256 ^ (length buf + k) mod 256 = 0"
            using GET_BYTE_val [of "length buf + k" X] Suc.prems by simp
          moreover have "?v mod 256 ^ Suc (length buf + k)
              = 256 ^ (length buf + k) * (?v div 256 ^ (length buf + k) mod 256) + ?v mod 256 ^ (length buf + k)"
            by (subst power_Suc2) (rule mod_mult2_eq)
          ultimately show ?case
            using Suc by simp
        qed simp
        from this [of "?st - length buf"] have "?v mod 256 ^ ?st = ?v mod 256 ^ length buf"
          using False by simp
        then have "?v = ?v mod 256 ^ length buf"
          using vless by simp
        then show False
          using ge by (metis mod_less_divisor zero_less_numeral zero_less_power)
      qed
    qed
    show ?thesis
    proof (cases "?v < 256 ^ length buf")
      case True
      then show ?thesis
        using False zero copy_bytes_eq [of 0 "length buf" buf "GET_BYTE X"] digits [of "length buf"]
        by (simp add: mbedtls_mpi_write_binary_def Let_def)
    next
      case ge: False
      then show ?thesis
        using False zero by (simp add: mbedtls_mpi_write_binary_def Let_def)
    qed
  qed
qed

lemma mpi_read_binary_error: "mbedtls_mpi_read_binary al X buf = Inl e \<Longrightarrow> e = MPI_ALLOC_FAILED"
  by (auto simp: mbedtls_mpi_read_binary_def Let_def chk_eq_Inl mpi_resize_clear_error)

lemma mpi_read_binary_returns:
  assumes "\<forall>k. al k" "length buf \<le> 8 * MBEDTLS_MPI_MAX_LIMBS"
  shows "\<exists>Y. mbedtls_mpi_read_binary al X buf = Inr Y"
proof -
  have "CHARS_TO_LIMBS (length buf) \<le> MBEDTLS_MPI_MAX_LIMBS"
    using assms(2) unfolding CHARS_TO_LIMBS_def by (simp add: MBEDTLS_MPI_MAX_LIMBS_def) presburger
  then show ?thesis
    using mpi_resize_clear_returns [OF assms(1), of "CHARS_TO_LIMBS (length buf)" X]
    by (auto simp: mbedtls_mpi_read_binary_def Let_def)
qed

subsection \<open>Properties\<close>

text \<open>
  \<open>mbedtls_mpi_read_binary\<close> imports the big-endian value of the
  buffer, exactly, for every length: the result is non-negative, well formed
  and has the minimal number of limbs that holds the buffer. It fails only on
  allocation, and returns when memory is available and the buffer fits the
  limb limit.
\<close>

theorem mpi_read_binary_correct:
  assumes "mpi_ok X"
  shows "(case mbedtls_mpi_read_binary al X buf of
            Inl e \<Rightarrow> e = MPI_ALLOC_FAILED
          | Inr Y \<Rightarrow> mpi_ok Y \<and> mpi_val Y = int (be_val buf) \<and> mpi_n Y = max 1 (CHARS_TO_LIMBS (length buf)))
    \<and> ((\<forall>k. al k) \<and> length buf \<le> 8 * MBEDTLS_MPI_MAX_LIMBS \<longrightarrow>
        (\<exists>Y. mbedtls_mpi_read_binary al X buf = Inr Y))"
  using mpi_read_binary_error [of al X buf] mpi_read_binaryD [OF _ assms, of al buf] mpi_read_binary_returns
  by (auto split: sum.split)

theorem mpi_read_binary_correct_witness:
  "mpi_ok \<lparr>mpi_s = - 1, mpi_p = [7, 7, 7]\<rparr>
   \<and> (\<exists>Y. mbedtls_mpi_read_binary (\<lambda>k. True) \<lparr>mpi_s = - 1, mpi_p = [7, 7, 7]\<rparr> [1, 0, 0, 0, 0, 0, 0, 0, 2] = Inr Y
        \<and> mpi_val Y = 2 ^ 64 + 2)"
proof -
  let ?X = "\<lparr>mpi_s = - 1, mpi_p = [7, 7, 7]\<rparr>" and ?b = "[1, 0, 0, 0, 0, 0, 0, 0, 2] :: byte list"
  have ok: "mpi_ok ?X"
    by (simp add: mpi_ok_def MBEDTLS_MPI_MAX_LIMBS_def)
  note t = mpi_read_binary_correct [OF ok, where al = "\<lambda>k. True" and buf = ?b]
  then obtain Y where Y: "mbedtls_mpi_read_binary (\<lambda>k. True) ?X ?b = Inr Y"
    by (auto simp: MBEDTLS_MPI_MAX_LIMBS_def)
  have "be_val ?b = 2 ^ 64 + 2"
    by (simp add: be_val_def)
  then show ?thesis
    using t Y ok by simp
qed

text \<open>
  \<open>mbedtls_mpi_write_binary\<close> fills the buffer with the big-endian
  magnitude, padded with zeros on the left, exactly when the magnitude fits,
  and answers \<open>MBEDTLS_ERR_MPI_BUFFER_TOO_SMALL\<close> otherwise, for every number of
  limbs and every buffer length.
\<close>

theorem mpi_write_binary_correct:
  "if val (mpi_p X) < 256 ^ length buf
   then \<exists>out. mbedtls_mpi_write_binary X buf = Inr out \<and> length out = length buf \<and> be_val out = val (mpi_p X)
   else mbedtls_mpi_write_binary X buf = Inl MPI_BUFFER_TOO_SMALL"
  by (rule mpi_write_binary_cases)

text \<open>
  Property C33. Binary export and import are inverse: what \<open>write_binary\<close> put in
  a buffer reads back as the magnitude, and a buffer that was imported is
  exported again, byte for byte, into a buffer of the same length.
\<close>

theorem mpi_binary_roundtrip:
  assumes "mpi_ok X" "mpi_ok T"
  shows "(mbedtls_mpi_write_binary X buf = Inr out \<and> mbedtls_mpi_read_binary al T out = Inr Y
           \<longrightarrow> mpi_val Y = \<bar>mpi_val X\<bar>)
    \<and> (mbedtls_mpi_read_binary al T bs = Inr Z \<and> length buf = length bs
           \<longrightarrow> mbedtls_mpi_write_binary Z buf = Inr bs)"
proof (intro conjI impI; elim conjE)
  assume w: "mbedtls_mpi_write_binary X buf = Inr out" and r: "mbedtls_mpi_read_binary al T out = Inr Y"
  have "\<bar>mpi_val X\<bar> = int (val (mpi_p X))"
    using assms(1) by (auto simp: mpi_val_def mpi_ok_def abs_mult)
  moreover have "be_val out = val (mpi_p X)"
    using mpi_write_binary_cases [of X buf] w by (auto split: if_splits)
  ultimately show "mpi_val Y = \<bar>mpi_val X\<bar>"
    using mpi_read_binaryD(1) [OF r assms(2)] by simp
next
  assume r: "mbedtls_mpi_read_binary al T bs = Inr Z" and len: "length buf = length bs"
  have v: "val (mpi_p Z) = be_val bs"
    using mpi_read_binaryD(1,3) [OF r assms(2)] by (simp add: mpi_val_def)
  then obtain out where "mbedtls_mpi_write_binary Z buf = Inr out" "length out = length bs" "be_val out = be_val bs"
    using mpi_write_binary_cases [of Z buf] be_val_less [of bs] len by auto
  then show "mbedtls_mpi_write_binary Z buf = Inr bs"
    using be_val_inj by blast
qed

theorem mpi_binary_roundtrip_witness:
  "\<exists>Z. mbedtls_mpi_read_binary (\<lambda>k. True) mbedtls_mpi_init [0, 171, 205] = Inr Z
     \<and> mbedtls_mpi_write_binary Z [9, 9, 9] = Inr [0, 171, 205]"
proof -
  obtain Z where "mbedtls_mpi_read_binary (\<lambda>k. True) mbedtls_mpi_init [0, 171, 205] = Inr Z"
    using mpi_read_binary_returns [of "\<lambda>k. True" "[0, 171, 205]"] by (auto simp: MBEDTLS_MPI_MAX_LIMBS_def)
  then show ?thesis
    using mpi_binary_roundtrip [OF mpi_init_ok(1) mpi_init_ok(1), where al = "\<lambda>k. True" and Z = Z
        and bs = "[0, 171, 205]" and buf = "[9, 9, 9]"] by simp
qed

text \<open>
  \<open>mbedtls_mpi_fill_random\<close> builds the number from the bytes the
  generator left, and does not look at the generator's return code: with a
  generator that fails and writes nothing it still returns 0, with the
  number 0.
\<close>

theorem mpi_fill_random_ignores_code:
  assumes "mpi_ok X" "mbedtls_mpi_fill_random al X n (\<lambda>r old. (code, old, r)) r = Inr (Y, r')"
  shows "mpi_ok Y \<and> mpi_val Y = 0 \<and> r' = r"
proof -
  let ?limbs = "CHARS_TO_LIMBS n"
  obtain Z where Z: "mpi_resize_clear al X ?limbs = Inr Z"
    and Y: "Y = (let W = mpi_overlay Z (?limbs * 8 - n) (take n (drop (?limbs * 8 - n) (limbs_bytes (mpi_p Z))))
        in W\<lparr>mpi_p := mpi_bigendian_to_host (mpi_p W) ?limbs\<rparr>)" and r: "r' = r"
    using assms(2) by (auto simp: mbedtls_mpi_fill_random_def Let_def chk_eq_Inr)
  note z = mpi_resize_clearD [OF Z assms(1)]
  have bytes: "take n (drop (?limbs * 8 - n) (limbs_bytes (mpi_p Z))) = replicate n 0"
    using CHARS_TO_LIMBS_bounds(1) [of n] by (simp add: z(2) limbs_bytes_zero)
  have len: "length (replicate n (0 :: byte)) = n"
    by simp
  note ov = mpi_overlay_val [of Z "replicate n 0", unfolded len, OF z(2)]
  show ?thesis
    using ov z r unfolding Y bytes by (simp add: Let_def mpi_val_def mpi_ok_def)
qed

theorem mpi_fill_random_ignores_code_witness:
  "\<exists>Y. mbedtls_mpi_fill_random (\<lambda>k. True) mbedtls_mpi_init 20 (\<lambda>r old. (- 1, old, r)) () = Inr (Y, ())
     \<and> mpi_val Y = 0"
proof -
  have "\<exists>Z. mpi_resize_clear (\<lambda>k. True) mbedtls_mpi_init (CHARS_TO_LIMBS 20) = Inr Z"
    by (rule mpi_resize_clear_returns) (simp_all add: CHARS_TO_LIMBS_def MBEDTLS_MPI_MAX_LIMBS_def)
  then obtain Y where Y: "mbedtls_mpi_fill_random (\<lambda>k. True) mbedtls_mpi_init 20 (\<lambda>r old. (- 1, old, r)) () = Inr (Y, ())"
    by (auto simp: mbedtls_mpi_fill_random_def Let_def)
  then show ?thesis
    using mpi_fill_random_ignores_code [OF mpi_init_ok(1) Y] by blast
qed

end
