(* ===== verification/Bignum_Mod.thy ===== *)
theory Bignum_Mod
  imports Bignum_Arith
begin

text \<open>
  Modular arithmetic of \<open>bignum.c\<close>: the remainder by a machine integer,
  Montgomery multiplication and its constant, and the binary greatest common
  divisor.
\<close>

subsection \<open>Remainder by a machine integer\<close>

text \<open>The two steps of the loop of \<open>mbedtls_mpi_mod_int\<close>, each with half a limb.\<close>

definition mod_int_half :: "limb \<Rightarrow> limb \<Rightarrow> limb \<Rightarrow> limb" where
  "mod_int_half b y x =
     (let y = push_bit biH y OR drop_bit biH x;
          z = y div b
      in y - z * b)"

fun mod_int_loop :: "limb list \<Rightarrow> nat \<Rightarrow> limb \<Rightarrow> limb \<Rightarrow> limb" where
  "mod_int_loop p 0 b y = y"
| "mod_int_loop p (Suc i) b y =
     (let x = p ! i;
          y = mod_int_half b y x;
          x = push_bit biH x;
          y = mod_int_half b y x
      in mod_int_loop p i b y)"

text \<open>With \<open>b == 2\<close> the code reads \<open>A->p[0]\<close> whatever the number of limbs is.\<close>

definition mbedtls_mpi_mod_int :: "mpi \<Rightarrow> 64 word \<Rightarrow> limb res" where
  "mbedtls_mpi_mod_int A b =
     (if sint b = 0 then Inl MPI_DIVISION_BY_ZERO
      else if sint b < 0 then Inl MPI_NEGATIVE_VALUE
      else if b = 1 then Inr 0
      else if b = 2 then (if mpi_n A = 0 then Inl OUT_OF_BOUNDS else Inr (mpi_p A ! 0 AND 1))
      else
        let y = mod_int_loop (mpi_p A) (mpi_n A) b 0;
            y = (if mpi_s A < 0 \<and> y \<noteq> 0 then b - y else y)
        in Inr y)"

subsection \<open>Montgomery arithmetic\<close>

text \<open>\<open>for( i = biL; i >= 8; i /= 2 ) x *= ( 2 - ( m0 * x ) );\<close>\<close>

function montg_loop :: "nat \<Rightarrow> limb \<Rightarrow> limb \<Rightarrow> limb" where
  "montg_loop i m0 x = (if i \<ge> 8 then montg_loop (i div 2) m0 (x * (2 - m0 * x)) else x)"
  by pat_completeness auto
termination by (relation "measure (\<lambda>(i, m0, x). i)") auto

declare montg_loop.simps [simp del]

definition mpi_montg_init :: "mpi \<Rightarrow> limb" where
  "mpi_montg_init N =
     (let m0 = mpi_p N ! 0;
          x = m0;
          x = x + push_bit 1 ((m0 + 2) AND 4);
          x = montg_loop biL m0 x
      in NOT x + 1)"

text \<open>The main loop of \<open>mpi_montmul\<close>; \<open>d\<close> is \<open>T->p + i\<close>.\<close>

function montmul_loop :: "nat \<Rightarrow> nat \<Rightarrow> nat \<Rightarrow> limb list \<Rightarrow> limb list \<Rightarrow> limb list \<Rightarrow> limb \<Rightarrow> limb list \<Rightarrow> limb list option" where
  "montmul_loop i n m a b N mm t =
     (if i < n then
        let u0 = a ! i;
            u1 = (t ! i + u0 * b ! 0) * mm
        in case mpi_mul_hlp m b (drop i t) u0 of
             None \<Rightarrow> None
           | Some d \<Rightarrow>
             (case mpi_mul_hlp n N d u1 of
                None \<Rightarrow> None
              | Some d \<Rightarrow>
                let t = take i t @ d;
                    t = t[i := u0];
                    t = t[i + 1 + (n + 1) := 0]
                in montmul_loop (i + 1) n m a b N mm t)
      else Some t)"
  by pat_completeness auto
termination by (relation "measure (\<lambda>(i, n, _). n - i)") auto

declare montmul_loop.simps [simp del]

text \<open>\<open>AB\<close>: the pointers \<open>A\<close> and \<open>B\<close> are equal. The result is the pair of the new \<open>A\<close> and \<open>T\<close>.\<close>

definition mpi_montmul :: "bool \<Rightarrow> mpi \<Rightarrow> mpi \<Rightarrow> mpi \<Rightarrow> limb \<Rightarrow> mpi \<Rightarrow> (mpi \<times> mpi) res" where
  "mpi_montmul AB A B N mm T =
     (let B = (if AB then A else B); n = mpi_n N; m = (if mpi_n B < n then mpi_n B else n)
      in if mpi_n T < mpi_n N + 1 \<or> mpi_p T = [] then Inl MPI_BAD_INPUT_DATA
         else
           let t = memset (mpi_p T) 0 0 (mpi_n T)
           in chk (in_bounds (montmul_loop 0 n m (mpi_p A) (mpi_p B) (mpi_p N) mm t)) (\<lambda>t.
              let A = A\<lparr>mpi_p := memcpy (mpi_p A) 0 (take (n + 1) (drop n t))\<rparr>
              in if mbedtls_mpi_cmp_abs A N \<ge> 0 then
                   chk (in_bounds (mpi_sub_hlp n (mpi_p N) (mpi_p A))) (\<lambda>p.
                     Inr (A\<lparr>mpi_p := p\<rparr>, T\<lparr>mpi_p := t\<rparr>))
                 else
                   chk (in_bounds (mpi_sub_hlp n (mpi_p A) t)) (\<lambda>p.
                     Inr (A, T\<lparr>mpi_p := p\<rparr>))))"

definition mpi_montred :: "mpi \<Rightarrow> mpi \<Rightarrow> limb \<Rightarrow> mpi \<Rightarrow> (mpi \<times> mpi) res" where
  "mpi_montred A N mm T = mpi_montmul False A \<lparr>mpi_s = 1, mpi_p = [1]\<rparr> N mm T"

subsection \<open>Greatest common divisor\<close>

lemma mpi_cmp_int_nonzero:
  "mbedtls_mpi_cmp_int X 0 \<noteq> 0 \<Longrightarrow> val (mpi_p X) \<noteq> 0"
  using scan_used_0_iff [of "mpi_p X"]
  by (auto simp: mbedtls_mpi_cmp_int_def mbedtls_mpi_cmp_mpi_def sint_abs_def Let_def)

function gcd_loop :: "(nat \<Rightarrow> bool) \<Rightarrow> mpi \<Rightarrow> mpi \<Rightarrow> (mpi \<times> mpi) res" where
  "gcd_loop al TA TB =
     (if mbedtls_mpi_cmp_int TA 0 \<noteq> 0 then
        chk (mbedtls_mpi_shift_r al TA (mbedtls_mpi_lsb TA)) (\<lambda>TA.
        chk (mbedtls_mpi_shift_r al TB (mbedtls_mpi_lsb TB)) (\<lambda>TB.
          if mbedtls_mpi_cmp_mpi TA TB \<ge> 0 then
            chk (mbedtls_mpi_sub_abs al True False TA TA TB) (\<lambda>TA.
            chk (mbedtls_mpi_shift_r al TA 1) (\<lambda>TA.
              gcd_loop al TA TB))
          else
            chk (mbedtls_mpi_sub_abs al True False TB TB TA) (\<lambda>TB.
            chk (mbedtls_mpi_shift_r al TB 1) (\<lambda>TB.
              gcd_loop al TA TB))))
      else Inr (TA, TB))"
  by pat_completeness auto
termination
proof (relation "measure (\<lambda>(al, TA, TB). val (mpi_p TA) + val (mpi_p TB))", goal_cases)
  case (2 al TA TB TA1 TB1 TA2 TA3)
  note nz = mpi_cmp_int_nonzero [OF 2(1)]
  have "0 < val (mpi_p TA1)" "val (mpi_p TA1) \<le> val (mpi_p TA)" "val (mpi_p TB1) \<le> val (mpi_p TB)"
    using mpi_shift_rD(1) [OF 2(2)] mpi_shift_rD(1) [OF 2(3)] mpi_lsb_spec(2) [OF nz] by (auto intro: odd_pos)
  moreover have "val (mpi_p TA3) \<le> val (mpi_p TA1) div 2"
    using mpi_shift_rD(1) [OF 2(6)] mpi_sub_absD(2) [OF 2(5)] by (simp add: div_le_mono)
  ultimately show ?case
    by simp
next
  case (3 al TA TB TA1 TB1 TB2 TB3)
  note nz = mpi_cmp_int_nonzero [OF 3(1)]
  have "0 < val (mpi_p TA1)" "val (mpi_p TA1) \<le> val (mpi_p TA)" "val (mpi_p TB1) \<le> val (mpi_p TB)"
    using mpi_shift_rD(1) [OF 3(2)] mpi_shift_rD(1) [OF 3(3)] mpi_lsb_spec(2) [OF nz] by (auto intro: odd_pos)
  moreover have "val (mpi_p TA1) \<le> val (mpi_p TB1)" "val (mpi_p TB3) \<le> val (mpi_p TB1) div 2"
    using mpi_shift_rD(1) [OF 3(6)] mpi_sub_absD(1,2) [OF 3(5)] by (simp_all add: div_le_mono)
  ultimately show ?case
    by simp
qed simp

declare gcd_loop.simps [simp del]

definition mbedtls_mpi_gcd :: "(nat \<Rightarrow> bool) \<Rightarrow> mpi \<Rightarrow> mpi \<Rightarrow> mpi \<Rightarrow> mpi res" where
  "mbedtls_mpi_gcd al G A B =
     chk (mbedtls_mpi_copy al False mbedtls_mpi_init A) (\<lambda>TA.
     chk (mbedtls_mpi_copy al False mbedtls_mpi_init B) (\<lambda>TB.
       let lz = mbedtls_mpi_lsb TA; lzt = mbedtls_mpi_lsb TB;
           lz = (if lzt < lz then lzt else lz)
       in chk (mbedtls_mpi_shift_r al TA lz) (\<lambda>TA.
          chk (mbedtls_mpi_shift_r al TB lz) (\<lambda>TB.
          chk (gcd_loop al (TA\<lparr>mpi_s := 1\<rparr>) (TB\<lparr>mpi_s := 1\<rparr>)) (\<lambda>(TA, TB).
          chk (mbedtls_mpi_shift_l al TB lz) (\<lambda>TB.
            mbedtls_mpi_copy al False G TB))))))"

subsection \<open>Remainder by a machine integer\<close>

lemma mod_mult_add: "(a mod b * c + d) mod b = (a * c + d) mod (b :: nat)"
  by (metis mod_add_left_eq mod_mult_left_eq)

lemma mod_int_half_val:
  assumes "unat y < unat b" "unat b \<le> 2 ^ biH"
  shows "unat (mod_int_half b y x) = (unat y * 2 ^ biH + unat x div 2 ^ biH) mod unat b"
proof -
  have "unat (drop_bit biH x) < 2 ^ biH"
    using unat_limb_less [of x] by (simp add: unat_drop_bit_limb less_mult_imp_div_less)
  then have "unat (push_bit biH y OR drop_bit biH x) = unat (push_bit biH y) + unat (drop_bit biH x)"
    by (intro or_disjoint_limb [of _ biH]) (auto simp: bit_simps)
  also have "\<dots> = unat y * 2 ^ biH + unat x div 2 ^ biH"
    using assms by (simp add: unat_push_bit_limb unat_drop_bit_limb)
  finally show ?thesis
    by (simp add: mod_int_half_def Let_def minus_div_mult_eq_mod unat_mod_distrib)
qed

lemma mod_int_loop_val:
  "i \<le> length p \<Longrightarrow> unat b \<le> 2 ^ biH \<Longrightarrow> unat y < unat b \<Longrightarrow>
     unat (mod_int_loop p i b y) = (unat y * 2 ^ (biL * i) + val (take i p)) mod unat b"
proof (induction i arbitrary: y)
  case (Suc i)
  let ?b = "unat b" and ?x = "p ! i"
  define y1 where "y1 = mod_int_half b y ?x"
  define y2 where "y2 = mod_int_half b y1 (push_bit biH ?x)"
  have y1: "unat y1 = (unat y * 2 ^ biH + unat ?x div 2 ^ biH) mod ?b"
    unfolding y1_def by (rule mod_int_half_val) (use Suc.prems in auto)
  have y1b: "unat y1 < ?b"
    using Suc.prems(3) by (simp add: y1)
  have low: "unat (push_bit biH ?x) div 2 ^ biH = unat ?x mod 2 ^ biH"
    using div_mult_mod_eq [of "unat ?x"] unat_limb_less [of ?x]
    by (simp add: unat_push_bit_limb mod_mult2_eq [of _ "2 ^ 32" "2 ^ 32", simplified] flip: mult_mod_right)
  have y2: "unat y2 = (unat y1 * 2 ^ biH + unat ?x mod 2 ^ biH) mod ?b"
    unfolding y2_def low [symmetric] by (rule mod_int_half_val) (use Suc.prems y1b in auto)
  have y2x: "unat y2 = (unat y * 2 ^ biL + unat ?x) mod ?b"
  proof -
    have "unat y2 = ((unat y * 2 ^ biH + unat ?x div 2 ^ biH) * 2 ^ biH + unat ?x mod 2 ^ biH) mod ?b"
      unfolding y2 y1 by (rule mod_mult_add)
    also have "(unat y * 2 ^ biH + unat ?x div 2 ^ biH) * 2 ^ biH + unat ?x mod 2 ^ biH = unat y * 2 ^ biL + unat ?x"
      by (simp add: distrib_right)
    finally show ?thesis .
  qed
  have "unat y2 < ?b"
    using Suc.prems(3) by (simp add: y2x)
  then have "unat (mod_int_loop p i b y2) = (unat y2 * 2 ^ (biL * i) + val (take i p)) mod ?b"
    using Suc by simp
  also have "\<dots> = ((unat y * 2 ^ biL + unat ?x) * 2 ^ (biL * i) + val (take i p)) mod ?b"
    unfolding y2x by (rule mod_mult_add)
  also have "(unat y * 2 ^ biL + unat ?x) * 2 ^ (biL * i) + val (take i p)
      = unat y * 2 ^ (biL * Suc i) + val (take (Suc i) p)"
    using Suc.prems(1) by (simp add: val_take_Suc algebra_simps power_add)
  finally show ?case
    by (simp add: Let_def y1_def [symmetric] y2_def [symmetric])
qed simp

subsection \<open>Montgomery initialisation\<close>

lemma newton_step:
  fixes m x t :: limb
  assumes "m * x = 1 + 2 ^ k * t"
  shows "m * (x * (2 - m * x)) = 1 + 2 ^ (2 * k) * (- (t * t))"
proof -
  have "m * (x * (2 - m * x)) = (m * x) * (2 - m * x)"
    by (simp add: mult.assoc)
  also have "\<dots> = 1 + 2 ^ (2 * k) * (- (t * t))"
  proof -
    have "(2 :: limb) ^ (2 * k) = 2 ^ k * 2 ^ k"
      by (simp add: mult_2 power_add)
    then show ?thesis
      unfolding assms by (simp add: algebra_simps)
  qed
  finally show ?thesis .
qed

lemma and_4_bit: "(w :: limb) AND 4 = (if bit w 2 then 4 else 0)"
proof -
  have "bit (2 ^ 2 :: limb) n \<longleftrightarrow> n = 2" for n
    by (subst bit_exp_iff) auto
  then have "bit (w AND 2 ^ 2) n \<longleftrightarrow> bit (if bit w 2 then 2 ^ 2 else 0 :: limb) n" for n
    by (auto simp: bit_and_iff)
  then have "w AND 2 ^ 2 = (if bit w 2 then 2 ^ 2 else 0)"
    by (intro bit_word_eqI) blast
  then show ?thesis
    by simp
qed

lemma montg_start:
  assumes "odd (unat m)"
  shows "\<exists>t. m * (m + push_bit 1 ((m + 2) AND 4)) = 1 + 2 ^ 4 * (t :: limb)"
proof -
  define q r where "q = unat m div 8" "r = unat m mod 8"
  have um: "unat m = 8 * q + r"
    by (simp add: q_r_def)
  then have m: "m = 8 * of_nat q + of_nat r"
    by (metis of_nat_add of_nat_mult of_nat_numeral of_nat_unat ucast_id)
  have bit: "bit (m + 2) 2 \<longleftrightarrow> odd ((r + 2) div 4)"
  proof -
    have e: "m + 2 = of_nat (8 * q + (r + 2))"
      by (simp add: m)
    have "bit (of_nat k :: limb) 2 \<longleftrightarrow> bit k 2" for k
      using bit_unsigned_iff [of "of_nat k :: limb" 2, where 'a = nat]
      by (simp add: unsigned_of_nat bit_take_bit_iff)
    then have "bit (m + 2) 2 \<longleftrightarrow> bit (8 * q + (r + 2)) 2"
      unfolding e .
    also have "\<dots> \<longleftrightarrow> odd ((8 * q + (r + 2)) div 4)"
      by (simp add: bit_iff_odd)
    also have "(8 * q + (r + 2)) div 4 = 2 * q + (r + 2) div 4"
      using div_mult_self2 [of 4 "r + 2" "2 * q"] by simp
    finally show ?thesis
      by simp
  qed
  have a: "push_bit 1 ((m + 2) AND 4) = (if odd ((r + 2) div 4) then 8 else 0 :: limb)"
    unfolding and_4_bit bit by simp
  have "odd r"
    using assms um by simp
  moreover have "r < 8"
    by (simp add: q_r_def)
  then have "r = 0 \<or> r = 1 \<or> r = 2 \<or> r = 3 \<or> r = 4 \<or> r = 5 \<or> r = 6 \<or> r = 7"
    by linarith
  ultimately consider "r = 1" | "r = 3" | "r = 5" | "r = 7"
    by auto
  then show ?thesis
  proof cases
    case 1
    then show ?thesis
      unfolding a by (intro exI [of _ "4 * of_nat q * of_nat q + of_nat q"]) (simp add: m algebra_simps)
  next
    case 2
    then show ?thesis
      unfolding a by (intro exI [of _ "4 * of_nat q * of_nat q + 7 * of_nat q + 2"]) (simp add: m algebra_simps)
  next
    case 3
    then show ?thesis
      unfolding a by (intro exI [of _ "4 * of_nat q * of_nat q + 9 * of_nat q + 4"]) (simp add: m algebra_simps)
  next
    case 4
    then show ?thesis
      unfolding a by (intro exI [of _ "4 * of_nat q * of_nat q + 7 * of_nat q + 3"]) (simp add: m algebra_simps)
  qed
qed

lemma montg_loop_64:
  "montg_loop 64 m x = (let f = (\<lambda>x. x * (2 - m * x)) in f (f (f (f x))))"
  by (simp add: montg_loop.simps Let_def)

lemma mpi_montg_init_inverse:
  assumes "odd (unat (mpi_p N ! 0))"
  shows "mpi_p N ! 0 * mpi_montg_init N = - 1"
proof -
  let ?m = "mpi_p N ! 0"
  let ?f = "\<lambda>x. x * (2 - ?m * x)"
  obtain t where t: "?m * (?m + push_bit 1 ((?m + 2) AND 4)) = 1 + 2 ^ 4 * t"
    using montg_start [OF assms] by blast
  define x where "x = ?f (?f (?f (?f (?m + push_bit 1 ((?m + 2) AND 4)))))"
  obtain u where "?m * x = 1 + 2 ^ (2 * (2 * (2 * (2 * 4)))) * u"
    unfolding x_def using newton_step [OF newton_step [OF newton_step [OF newton_step [OF t]]]] by blast
  moreover have "(2 :: limb) ^ (2 * (2 * (2 * (2 * 4)))) = 0"
    by simp
  ultimately have "?m * x = 1"
    by (simp only: mult_zero_left add_0_right)
  moreover have "mpi_montg_init N = - x"
    unfolding mpi_montg_init_def Let_def montg_loop_64 x_def by (simp add: minus_eq_not_plus_1)
  ultimately show ?thesis
    by simp
qed

subsection \<open>Montgomery multiplication\<close>

lemma of_nat_val: "xs \<noteq> [] \<Longrightarrow> (of_nat (val xs) :: limb) = xs ! 0"
proof -
  assume "xs \<noteq> []"
  then obtain x ys where xs: "xs = x # ys"
    by (cases xs) auto
  have "(2 :: limb) ^ biL = 0"
    by simp
  then have "(of_nat (2 ^ biL * val ys) :: limb) = 0"
    by (simp only: of_nat_mult of_nat_power of_nat_numeral mult_zero_left)
  then show "(of_nat (val xs) :: limb) = xs ! 0"
    unfolding xs by (simp only: val.simps of_nat_add of_nat_unat ucast_id add_0_right nth_Cons_0)
qed

text \<open>
  One pass of the loop: \<open>d\<close> is the part of \<open>T\<close> from index \<open>i\<close> on. The sum
  \<open>d + u0 * B + u1 * N\<close> is a multiple of \<open>2^64\<close>; its quotient stays below \<open>B + N\<close>.
\<close>

lemma montmul_pass:
  fixes b N d :: "limb list" and u0 mm :: limb
  defines "n \<equiv> length N" and "m \<equiv> min (length b) (length N)"
  assumes N: "N \<noteq> []" "N ! 0 * mm = - 1" and b: "b \<noteq> []" and d: "n + 2 < length d"
    and D: "val d < val (take m b) + val N"
  defines "u1 \<equiv> (d ! 0 + u0 * b ! 0) * mm"
  shows "\<exists>d1 d2. mpi_mul_hlp m b d u0 = Some d1 \<and> mpi_mul_hlp n N d1 u1 = Some d2 \<and> length d2 = length d
     \<and> val d + val (take m b) * unat u0 + val N * unat u1 = 2 ^ biL * val (drop 1 d2)
     \<and> val (drop 1 d2) < val (take m b) + val N
     \<and> (drop 1 d2)[n + 1 := 0] = drop 1 d2"
proof -
  let ?B = "val (take m b)" and ?N = "val N"
  have m: "m \<le> length b" "m \<le> n" "0 < m"
    using N b by (auto simp: m_def n_def min_def)
  have Bs: "?B < 2 ^ (biL * n)" "?N < 2 ^ (biL * n)"
  proof -
    have "?B < 2 ^ (biL * m)"
      by (rule val_take_less)
    also have "\<dots> \<le> 2 ^ (biL * n)"
      using m by (intro power_increasing) simp_all
    finally show "?B < 2 ^ (biL * n)" .
    show "?N < 2 ^ (biL * n)"
      unfolding n_def by (rule val_less)
  qed
  have u: "unat u0 \<le> 2 ^ biL - 1" "unat u1 \<le> 2 ^ biL - 1"
    using unat_limb_less [of u0] unat_limb_less [of u1] by simp_all
  have tot: "val d + ?B * unat u0 + ?N * unat u1 < 2 ^ biL * (?B + ?N)"
  proof -
    have "?B * unat u0 \<le> ?B * (2 ^ biL - 1)" "?N * unat u1 \<le> ?N * (2 ^ biL - 1)"
      using u by (intro mult_le_mono2; simp)+
    then have "val d + ?B * unat u0 + ?N * unat u1 < (?B + ?N) + (?B + ?N) * (2 ^ biL - 1)"
      using D unfolding distrib_right by linarith
    then show ?thesis
      by simp
  qed
  have cap: "2 ^ biL * (?B + ?N) \<le> 2 ^ (biL * length d)"
  proof -
    have "?B + ?N \<le> 2 * 2 ^ (biL * n)"
      using Bs by linarith
    also have "\<dots> \<le> 2 ^ biL * 2 ^ (biL * n)"
      by (intro mult_le_mono1) simp
    also have "\<dots> = 2 ^ (biL * (n + 1))"
      by (simp add: power_add)
    finally have "2 ^ biL * (?B + ?N) \<le> 2 ^ biL * 2 ^ (biL * (n + 1))"
      by (rule mult_le_mono2)
    also have "\<dots> = 2 ^ (biL * (n + 2))"
      by (simp add: power_add)
    also have "\<dots> \<le> 2 ^ (biL * length d)"
      using d by (intro power_increasing) simp_all
    finally show ?thesis .
  qed
  obtain d1 where d1: "mpi_mul_hlp m b d u0 = Some d1" "length d1 = length d" "val d1 = val d + ?B * unat u0"
    using mpi_mul_hlp_val [of m b d u0] m d tot cap by force
  obtain d2 where d2: "mpi_mul_hlp n N d1 u1 = Some d2" "length d2 = length d1" "val d2 = val d1 + ?N * unat u1"
    using mpi_mul_hlp_val [of n N d1 u1] d d1 tot cap by (force simp: n_def)
  have ne: "d \<noteq> []" "d2 \<noteq> []" "take m b \<noteq> []"
    using d d1 d2 m b by auto
  have "d2 ! 0 = of_nat (val d + ?B * unat u0 + ?N * unat u1)"
    using of_nat_val [OF ne(2)] d1 d2 by simp
  also have "\<dots> = d ! 0 + b ! 0 * u0 + N ! 0 * u1"
    using of_nat_val [OF ne(1)] of_nat_val [OF ne(3)] of_nat_val [OF N(1)] m
    by (simp only: of_nat_add of_nat_mult of_nat_unat ucast_id nth_take)
  also have "\<dots> = (d ! 0 + u0 * b ! 0) * (1 + N ! 0 * mm)"
    by (simp add: u1_def algebra_simps)
  also have "\<dots> = 0"
    using N(2) by simp
  finally have low: "d2 ! 0 = 0" .
  then have v2: "val d2 = 2 ^ biL * val (drop 1 d2)"
    using ne(2) by (cases d2) simp_all
  then have eq: "val d + ?B * unat u0 + ?N * unat u1 = 2 ^ biL * val (drop 1 d2)"
    using d1 d2 by simp
  have lt: "val (drop 1 d2) < ?B + ?N"
    using tot unfolding eq by simp
  have "val (drop 1 d2) < 2 ^ (biL * (n + 1))"
  proof -
    have "?B + ?N \<le> 2 ^ biL * 2 ^ (biL * n)"
      using Bs by simp
    then show ?thesis
      using lt by (simp add: power_add)
  qed
  moreover have "n + 1 < length (drop 1 d2)"
    using d d1 d2 by simp
  ultimately have "unat (drop 1 d2 ! (n + 1)) = 0"
    by (simp only: val_nth div_less) simp
  then have "(drop 1 d2)[n + 1 := 0] = drop 1 d2"
    by (metis list_update_id unat_eq_0)
  then show ?thesis
    using d1 d2 eq lt by auto
qed

lemma montmul_loop_val:
  fixes b N a :: "limb list"
  defines "n \<equiv> length N" and "m \<equiv> min (length b) (length N)"
  assumes N: "N \<noteq> []" "N ! 0 * mm = - 1" and b: "b \<noteq> []" and a: "n \<le> length a"
  shows "i \<le> n \<Longrightarrow> 2 * n + 2 \<le> length t \<Longrightarrow> val (drop i t) < val (take m b) + val N \<Longrightarrow>
     \<exists>t' k. montmul_loop i n m a b N mm t = Some t' \<and> length t' = length t
       \<and> val (drop n t') < val (take m b) + val N
       \<and> val (drop n t') * 2 ^ (biL * (n - i)) = val (drop i t) + val (drop i (take n a)) * val (take m b) + k * val N"
proof (induction "n - i" arbitrary: i t)
  case 0
  then have "montmul_loop i n m a b N mm t = Some t"
    by (subst montmul_loop.simps) simp
  moreover have "drop i (take n a) = []" "n - i = 0" "n = i"
    using 0 by auto
  ultimately show ?case
    using 0 by (intro exI [of _ t] exI [of _ 0]) auto
next
  case (Suc l)
  let ?B = "val (take m b)" and ?u0 = "a ! i"
  let ?u1 = "(t ! i + ?u0 * b ! 0) * mm"
  have i: "i < n" "i < length t"
    using Suc.hyps(2) Suc.prems by simp_all
  have nth: "drop i t ! 0 = t ! i"
    using i by simp
  have mn: "min (length b) n = m"
    by (simp add: m_def n_def)
  have "n + 2 < length (drop i t)"
    using Suc.prems i by simp
  then obtain d1 d2 where d: "mpi_mul_hlp m b (drop i t) ?u0 = Some d1" "mpi_mul_hlp n N d1 ?u1 = Some d2"
      "length d2 = length (drop i t)"
      "val (drop i t) + ?B * unat ?u0 + val N * unat ?u1 = 2 ^ biL * val (drop 1 d2)"
      "val (drop 1 d2) < ?B + val N" "(drop 1 d2)[n + 1 := 0] = drop 1 d2"
    using montmul_pass [OF N b, of "drop i t" ?u0] Suc.prems(3)
    unfolding nth n_def [symmetric] mn by blast
  define t3 where "t3 = (take i t @ d2)[i := ?u0, i + 1 + (n + 1) := 0]"
  have loop: "montmul_loop i n m a b N mm t = montmul_loop (i + 1) n m a b N mm t3"
    using i d(1,2) by (subst montmul_loop.simps) (simp add: Let_def t3_def)
  have t3: "drop (i + 1) t3 = drop 1 d2" "length t3 = length t"
  proof -
    have "drop (i + 1) t3 = (drop 1 d2)[n + 1 := 0]"
      using i d(3) Suc.prems(2) by (cases d2) (auto simp: t3_def drop_update_swap list_update_append nth_append)
    then show "drop (i + 1) t3 = drop 1 d2"
      using d(6) by simp
    show "length t3 = length t"
      using i d(3) by (simp add: t3_def)
  qed
  have "\<exists>t' k. montmul_loop (i + 1) n m a b N mm t3 = Some t' \<and> length t' = length t3
       \<and> val (drop n t') < ?B + val N
       \<and> val (drop n t') * 2 ^ (biL * (n - (i + 1)))
          = val (drop (i + 1) t3) + val (drop (i + 1) (take n a)) * ?B + k * val N"
    by (rule Suc.hyps(1)) (use Suc i t3 d in auto)
  then obtain t' k where t': "montmul_loop (i + 1) n m a b N mm t3 = Some t'" "length t' = length t3"
      "val (drop n t') < ?B + val N"
      "val (drop n t') * 2 ^ (biL * (n - (i + 1)))
          = val (drop 1 d2) + val (drop (i + 1) (take n a)) * ?B + k * val N"
    unfolding t3(1) by blast
  have da: "val (drop i (take n a)) = unat ?u0 + 2 ^ biL * val (drop (i + 1) (take n a))"
  proof -
    have "drop i (take n a) = ?u0 # drop (i + 1) (take n a)"
      using i a Cons_nth_drop_Suc [of i "take n a"] by simp
    then show ?thesis
      by simp
  qed
  have "n - i = Suc (n - (i + 1))"
    using i by simp
  then have "val (drop n t') * 2 ^ (biL * (n - i)) = 2 ^ biL * (val (drop n t') * 2 ^ (biL * (n - (i + 1))))"
    by (simp add: power_add)
  also have "\<dots> = 2 ^ biL * val (drop 1 d2) + 2 ^ biL * val (drop (i + 1) (take n a)) * ?B + 2 ^ biL * k * val N"
    unfolding t'(4) by (simp add: algebra_simps)
  also have "\<dots> = val (drop i t) + val (drop i (take n a)) * ?B + (unat ?u1 + 2 ^ biL * k) * val N"
    unfolding d(4) [symmetric] da by (simp add: algebra_simps)
  finally show ?case
    using t'(1-3) t3(2) unfolding loop by auto
qed

text \<open>What the callers of \<open>mpi_montmul\<close> provide.\<close>

definition montmul_pre :: "mpi \<Rightarrow> mpi \<Rightarrow> mpi \<Rightarrow> limb \<Rightarrow> mpi \<Rightarrow> bool" where
  "montmul_pre A B N mm T \<longleftrightarrow>
     mpi_n N \<noteq> 0 \<and> mpi_p N ! 0 * mm = - 1 \<and> val (mpi_p B) < val (mpi_p N) \<and> mpi_n B \<noteq> 0
     \<and> mpi_n N + 1 \<le> mpi_n A \<and> val (drop (mpi_n N + 1) (mpi_p A)) = 0 \<and> 2 * mpi_n N + 2 \<le> mpi_n T"

lemma mpi_montmul_val:
  assumes "montmul_pre A (if AB then A else B) N mm T"
  shows "\<exists>A' T'. mpi_montmul AB A B N mm T = Inr (A', T') \<and> mpi_n A' = mpi_n A \<and> mpi_s A' = mpi_s A
     \<and> mpi_n T' = mpi_n T \<and> val (mpi_p A') < val (mpi_p N)
     \<and> (\<exists>j k. val (mpi_p A') * 2 ^ (biL * mpi_n N) + j * val (mpi_p N)
          = val (take (mpi_n N) (mpi_p A)) * val (mpi_p (if AB then A else B)) + k * val (mpi_p N))"
proof -
  define B' n m where "B' = (if AB then A else B)" "n = mpi_n N" "m = min (mpi_n B') (mpi_n N)"
  note dfs = B'_n_m_def
  let ?N = "val (mpi_p N)"
  have p: "mpi_p N \<noteq> []" "mpi_p N ! 0 * mm = - 1" "val (mpi_p B') < ?N" "mpi_p B' \<noteq> []" "n + 1 \<le> mpi_n A"
      "val (drop (n + 1) (mpi_p A)) = 0" "2 * n + 2 \<le> mpi_n T"
    using assms by (simp_all add: montmul_pre_def dfs)
  have mB: "val (take m (mpi_p B')) = val (mpi_p B')"
  proof (cases "mpi_n B' \<le> n")
    case False
    have "scan_used (mpi_p B') (mpi_n B') \<le> n"
      by (rule scan_used_le_of_val) (use p(3) val_less [of "mpi_p N"] in \<open>simp add: dfs\<close>)
    then show ?thesis
      using False by (simp add: dfs val_take_used)
  qed (simp add: dfs)
  define t where "t = memset (mpi_p T) 0 0 (mpi_n T)"
  have t: "t = replicate (mpi_n T) 0"
    by (simp add: t_def memset_def memcpy_def)
  have "\<exists>t' k. montmul_loop 0 n m (mpi_p A) (mpi_p B') (mpi_p N) mm t = Some t' \<and> length t' = length t
       \<and> val (drop n t') < val (take m (mpi_p B')) + ?N
       \<and> val (drop n t') * 2 ^ (biL * (n - 0))
         = val (drop 0 t) + val (drop 0 (take n (mpi_p A))) * val (take m (mpi_p B')) + k * ?N"
    unfolding dfs(2,3)
    by (rule montmul_loop_val) (use p t in \<open>auto simp: dfs\<close>)
  then obtain t' k where t': "montmul_loop 0 n m (mpi_p A) (mpi_p B') (mpi_p N) mm t = Some t'" "length t' = mpi_n T"
      "val (drop n t') < val (mpi_p B') + ?N"
      "val (drop n t') * 2 ^ (biL * n) = val (take n (mpi_p A)) * val (mpi_p B') + k * ?N"
    using t mB by auto
  define r where "r = val (drop n t')"
  have rsmall: "r < 2 ^ (biL * (n + 1))"
  proof -
    have "?N < 2 ^ (biL * n)"
      unfolding dfs by (rule val_less)
    then have "r < 2 * 2 ^ (biL * n)"
      using t'(3) p(3) by (simp add: r_def)
    then show ?thesis
      by (simp add: power_add)
  qed
  define A1 where "A1 = A\<lparr>mpi_p := memcpy (mpi_p A) 0 (take (n + 1) (drop n t'))\<rparr>"
  have A1: "mpi_n A1 = mpi_n A" "mpi_s A1 = mpi_s A" "val (mpi_p A1) = r"
    using p(5,6,7) t'(2) rsmall val_take [of "n + 1" "drop n t'"]
    by (simp_all add: A1_def memcpy_def val_append r_def)
  have eq: "mpi_montmul AB A B N mm T =
      (if mbedtls_mpi_cmp_abs A1 N \<ge> 0 then
         chk (in_bounds (mpi_sub_hlp n (mpi_p N) (mpi_p A1))) (\<lambda>p. Inr (A1\<lparr>mpi_p := p\<rparr>, T\<lparr>mpi_p := t'\<rparr>))
       else chk (in_bounds (mpi_sub_hlp n (mpi_p A1) t')) (\<lambda>p. Inr (A1, T\<lparr>mpi_p := p\<rparr>)))"
  proof -
    have mif: "(if mpi_n B' < n then mpi_n B' else n) = m"
      by (simp add: dfs(2,3))
    show ?thesis
      using p(7) t'(1)
      unfolding mpi_montmul_def Let_def dfs(1) [symmetric] dfs(2) [symmetric] mif t_def [symmetric]
      by (auto simp: A1_def)
  qed
  show ?thesis
  proof (cases "?N \<le> r")
    case True
    have "\<exists>d'. mpi_sub_hlp n (mpi_p N) (mpi_p A1) = Some d' \<and> length d' = mpi_n A1
        \<and> val d' = val (mpi_p A1) - val (take n (mpi_p N))"
      by (rule mpi_sub_hlp_val) (use p(5) A1 True in \<open>auto simp: dfs(2)\<close>)
    then obtain q where q: "mpi_sub_hlp n (mpi_p N) (mpi_p A1) = Some q" "length q = mpi_n A" "val q = r - ?N"
      using A1 by (auto simp: dfs(2))
    have "(r - ?N) * 2 ^ (biL * n) + 2 ^ (biL * n) * ?N = val (take n (mpi_p A)) * val (mpi_p B') + k * ?N"
    proof -
      have "(r - ?N) * 2 ^ (biL * n) + 2 ^ (biL * n) * ?N = (r - ?N + ?N) * 2 ^ (biL * n)"
        by (simp only: distrib_right mult.commute [of "2 ^ (biL * n)"])
      then show ?thesis
        using t'(4) True by (simp add: r_def)
    qed
    moreover have "0 \<le> mbedtls_mpi_cmp_abs A1 N"
      using A1(3) True by (simp add: mpi_cmp_abs_val sgn_if)
    then have "mpi_montmul AB A B N mm T = Inr (A1\<lparr>mpi_p := q\<rparr>, T\<lparr>mpi_p := t'\<rparr>)"
      using eq q(1) by simp
    moreover have "r - ?N < ?N"
      using t'(3) p(3) True by (simp add: r_def)
    ultimately show ?thesis
      unfolding dfs(1) [symmetric] dfs(2) [symmetric]
      by (intro exI [of _ "A1\<lparr>mpi_p := q\<rparr>"] exI [of _ "T\<lparr>mpi_p := t'\<rparr>"] conjI
          exI [of _ "2 ^ (biL * n)"] exI [of _ k]) (use q A1 t'(2) in simp_all)
  next
    case False
    have v: "val (take n (mpi_p A1)) \<le> val t'"
    proof -
      have "val (take n (mpi_p A1)) \<le> r"
        using A1(1,3) p(5) by (simp add: val_take)
      also have "\<dots> \<le> 2 ^ (biL * n) * r"
        by simp
      also have "\<dots> \<le> val t'"
        using val_take_drop [of n t'] p(7) t'(2) by (simp add: r_def)
      finally show ?thesis .
    qed
    then obtain q where q: "mpi_sub_hlp n (mpi_p A1) t' = Some q" "length q = length t'"
      using mpi_sub_hlp_val [of n "mpi_p A1" t'] p(5,7) A1(1) t'(2) by auto
    have "r * 2 ^ (biL * n) + 0 * ?N = val (take n (mpi_p A)) * val (mpi_p B') + k * ?N"
      using t'(4) by (simp add: r_def)
    moreover have "\<not> 0 \<le> mbedtls_mpi_cmp_abs A1 N"
      using A1(3) False by (simp add: mpi_cmp_abs_val)
    then have "mpi_montmul AB A B N mm T = Inr (A1, T\<lparr>mpi_p := q\<rparr>)"
      using eq q(1) by simp
    ultimately show ?thesis
      unfolding dfs(1) [symmetric] dfs(2) [symmetric]
      by (intro exI [of _ A1] exI [of _ "T\<lparr>mpi_p := q\<rparr>"] conjI exI [of _ 0] exI [of _ k])
        (use q A1 t'(2) False in simp_all)
  qed
qed

subsection \<open>Greatest common divisor\<close>

lemma gcd_halve_left:
  fixes a b :: nat
  assumes "odd b" "2 ^ k dvd a"
  shows "gcd (a div 2 ^ k) b = gcd a b"
proof -
  have "coprime (2 ^ k) b"
    using assms(1) by (simp add: coprime_power_left_iff coprime_left_2_iff_odd)
  then have "gcd (2 ^ k * (a div 2 ^ k)) b = gcd (a div 2 ^ k) b"
    by (intro gcd_mult_left_left_cancel) (simp add: coprime_commute)
  then show ?thesis
    using assms(2) by simp
qed

lemma gcd_odd_step:
  fixes a b :: nat
  assumes "odd a" "odd b" "b \<le> a"
  shows "gcd ((a - b) div 2) b = gcd a b"
proof -
  have "even (a - b)"
    using assms by simp
  then have "gcd ((a - b) div 2 ^ 1) b = gcd (a - b) b"
    by (intro gcd_halve_left assms(2)) simp
  also have "\<dots> = gcd a b"
    using gcd_diff1_nat [OF assms(3)] by simp
  finally show ?thesis
    by simp
qed

text \<open>
  The loop keeps the greatest common divisor of the magnitudes, as long as one
  of them is odd, and ends with 0 and that divisor.
\<close>

lemma odd_part:
  assumes "mbedtls_mpi_shift_r al X (mbedtls_mpi_lsb X) = Inr Y" "val (mpi_p X) \<noteq> 0"
  shows "odd (val (mpi_p Y))" "\<And>b. odd (val (mpi_p X)) \<or> odd b \<Longrightarrow> gcd (val (mpi_p Y)) b = gcd (val (mpi_p X)) b"
proof -
  note v = mpi_shift_rD(1) [OF assms(1)] and l = mpi_lsb_spec [OF assms(2)]
  show "odd (val (mpi_p Y))"
    using v l(2) by simp
  fix b :: nat assume "odd (val (mpi_p X)) \<or> odd b"
  then show "gcd (val (mpi_p Y)) b = gcd (val (mpi_p X)) b"
  proof
    assume "odd (val (mpi_p X))"
    then have "mbedtls_mpi_lsb X = 0"
      using l(1) by (cases "mbedtls_mpi_lsb X") auto
    then show ?thesis
      using v by simp
  next
    assume "odd b"
    then show ?thesis
      unfolding v using gcd_halve_left [OF _ l(1)] by blast
  qed
qed

lemma mpi_shift_r_s:
  assumes "mbedtls_mpi_shift_r al X k = Inr Y" "mpi_ok X" "mpi_s X = 1"
  shows "mpi_ok Y \<and> mpi_s Y = 1"
proof -
  have "mpi_s Y = 1"
    using assms(1,3) mpi_lsetD(1) [of al X 0 Y]
    by (auto simp: mbedtls_mpi_shift_r_def Let_def sint_sgn_def split: if_splits)
  then show ?thesis
    using mpi_shift_rD(2) [OF assms(1)] assms(2) by simp
qed

lemma gcd_loopD:
  "gcd_loop al TA TB = Inr (A, B) \<Longrightarrow> mpi_ok TA \<Longrightarrow> mpi_ok TB \<Longrightarrow> mpi_s TA = 1 \<Longrightarrow> mpi_s TB = 1 \<Longrightarrow>
     val (mpi_p TB) \<noteq> 0 \<Longrightarrow> (val (mpi_p TA) = 0 \<or> odd (val (mpi_p TA)) \<or> odd (val (mpi_p TB))) \<Longrightarrow>
     mpi_ok B \<and> mpi_s B = 1 \<and> val (mpi_p B) = gcd (val (mpi_p TA)) (val (mpi_p TB))"
proof (induction al TA TB rule: gcd_loop.induct)
  case (1 al TA TB)
  show ?case
  proof (cases "mbedtls_mpi_cmp_int TA 0 \<noteq> 0")
    case False
    then have "val (mpi_p TA) = 0"
      using mpi_cmp_int_val [OF "1.prems"(2), of 0] mpi_val_0_iff [OF "1.prems"(2)] by (simp add: sgn_if split: if_splits)
    then show ?thesis
      using False "1.prems" by (subst (asm) gcd_loop.simps) simp
  next
    case True
    note nz = mpi_cmp_int_nonzero [OF True]
    obtain A1 B1 where A1: "mbedtls_mpi_shift_r al TA (mbedtls_mpi_lsb TA) = Inr A1"
      and B1: "mbedtls_mpi_shift_r al TB (mbedtls_mpi_lsb TB) = Inr B1"
      and rest: "(if mbedtls_mpi_cmp_mpi A1 B1 \<ge> 0 then
            chk (mbedtls_mpi_sub_abs al True False A1 A1 B1) (\<lambda>TA.
            chk (mbedtls_mpi_shift_r al TA 1) (\<lambda>TA. gcd_loop al TA B1))
          else
            chk (mbedtls_mpi_sub_abs al True False B1 B1 A1) (\<lambda>TB.
            chk (mbedtls_mpi_shift_r al TB 1) (\<lambda>TB. gcd_loop al A1 TB))) = Inr (A, B)"
      using "1.prems"(1) True by (subst (asm) gcd_loop.simps) (auto simp: chk_eq_Inr)
    have odd: "odd (val (mpi_p A1))" "odd (val (mpi_p B1))"
      using odd_part(1) [OF A1 nz] odd_part(1) [OF B1 "1.prems"(6)] .
    have g: "gcd (val (mpi_p A1)) (val (mpi_p B1)) = gcd (val (mpi_p TA)) (val (mpi_p TB))"
    proof -
      have "odd (val (mpi_p TA)) \<or> odd (val (mpi_p TB))"
        using "1.prems"(7) nz by blast
      then have "gcd (val (mpi_p A1)) (val (mpi_p TB)) = gcd (val (mpi_p TA)) (val (mpi_p TB))"
        by (rule odd_part(2) [OF A1 nz])
      moreover have "gcd (val (mpi_p B1)) (val (mpi_p A1)) = gcd (val (mpi_p TB)) (val (mpi_p A1))"
        by (rule odd_part(2) [OF B1 "1.prems"(6)]) (use odd in simp)
      ultimately show ?thesis
        by (simp add: gcd.commute)
    qed
    have ok: "mpi_ok A1 \<and> mpi_s A1 = 1" "mpi_ok B1 \<and> mpi_s B1 = 1"
      using mpi_shift_r_s [OF A1] mpi_shift_r_s [OF B1] "1.prems" by auto
    have cmp: "mbedtls_mpi_cmp_mpi A1 B1 \<ge> 0 \<longleftrightarrow> val (mpi_p B1) \<le> val (mpi_p A1)"
      using ok by (simp add: mpi_cmp_mpi_val mpi_val_def sgn_if)
    show ?thesis
    proof (cases "mbedtls_mpi_cmp_mpi A1 B1 \<ge> 0")
      case True': True
      obtain A2 A3 where A2: "mbedtls_mpi_sub_abs al True False A1 A1 B1 = Inr A2"
        and A3: "mbedtls_mpi_shift_r al A2 1 = Inr A3" and rec: "gcd_loop al A3 B1 = Inr (A, B)"
        using rest True' by (auto simp: chk_eq_Inr)
      note s = mpi_sub_absD [OF A2]
      have ok3: "mpi_ok A3 \<and> mpi_s A3 = 1"
        by (rule mpi_shift_r_s [OF A3]) (use s ok in auto)
      have v3: "val (mpi_p A3) = (val (mpi_p A1) - val (mpi_p B1)) div 2"
        using mpi_shift_rD(1) [OF A3] s(2) by simp
      have "mpi_ok B \<and> mpi_s B = 1 \<and> val (mpi_p B) = gcd (val (mpi_p A3)) (val (mpi_p B1))"
        by (rule "1.IH"(1) [OF True A1 B1 True' A2 A3 rec]) (use ok3 ok odd odd_pos in auto)
      then show ?thesis
        using v3 g gcd_odd_step [OF odd] cmp True' by simp
    next
      case False
      obtain B2 B3 where B2: "mbedtls_mpi_sub_abs al True False B1 B1 A1 = Inr B2"
        and B3: "mbedtls_mpi_shift_r al B2 1 = Inr B3" and rec: "gcd_loop al A1 B3 = Inr (A, B)"
        using rest False by (auto simp: chk_eq_Inr)
      note s = mpi_sub_absD [OF B2]
      have ok3: "mpi_ok B3 \<and> mpi_s B3 = 1"
        by (rule mpi_shift_r_s [OF B3]) (use s ok in auto)
      have v3: "val (mpi_p B3) = (val (mpi_p B1) - val (mpi_p A1)) div 2"
        using mpi_shift_rD(1) [OF B3] s(2) by simp
      have lt: "val (mpi_p A1) < val (mpi_p B1)"
        using cmp False by simp
      have "even (val (mpi_p B1) - val (mpi_p A1))"
        using odd by simp
      then have "2 \<le> val (mpi_p B1) - val (mpi_p A1)"
        using lt by (cases "val (mpi_p B1) - val (mpi_p A1) = 1") auto
      then have nz3: "val (mpi_p B3) \<noteq> 0"
        using v3 by simp
      have "mpi_ok B \<and> mpi_s B = 1 \<and> val (mpi_p B) = gcd (val (mpi_p A1)) (val (mpi_p B3))"
        by (rule "1.IH"(2) [OF True A1 B1 False B2 B3 rec]) (use ok3 ok odd nz3 in auto)
      then show ?thesis
        using v3 g gcd_odd_step [OF odd(2,1)] lt by (simp add: gcd.commute)
    qed
  qed
qed

text \<open>The steps of \<open>mbedtls_mpi_gcd\<close> up to the loop, and what the loop then leaves.\<close>

lemma gcd_core:
  assumes TA: "mbedtls_mpi_copy al False mbedtls_mpi_init A = Inr TA"
    and TB: "mbedtls_mpi_copy al False mbedtls_mpi_init B = Inr TB"
    and TA1: "mbedtls_mpi_shift_r al TA
      (if mbedtls_mpi_lsb TB < mbedtls_mpi_lsb TA then mbedtls_mpi_lsb TB else mbedtls_mpi_lsb TA) = Inr TA1"
    and TB1: "mbedtls_mpi_shift_r al TB
      (if mbedtls_mpi_lsb TB < mbedtls_mpi_lsb TA then mbedtls_mpi_lsb TB else mbedtls_mpi_lsb TA) = Inr TB1"
    and ok: "mpi_ok A" "mpi_ok B" "mpi_val B \<noteq> 0"
  shows "mpi_ok (TA1\<lparr>mpi_s := 1\<rparr>)" "mpi_ok (TB1\<lparr>mpi_s := 1\<rparr>)"
    "gcd_loop al (TA1\<lparr>mpi_s := 1\<rparr>) (TB1\<lparr>mpi_s := 1\<rparr>) = Inr (LA, LB) \<Longrightarrow>
       mpi_ok LB \<and> mpi_s LB = 1 \<and> val (mpi_p LB)
         * 2 ^ (if mbedtls_mpi_lsb TB < mbedtls_mpi_lsb TA then mbedtls_mpi_lsb TB else mbedtls_mpi_lsb TA)
         = gcd (val (mpi_p A)) (val (mpi_p B))"
proof -
  define lz where "lz = (if mbedtls_mpi_lsb TB < mbedtls_mpi_lsb TA then mbedtls_mpi_lsb TB else mbedtls_mpi_lsb TA)"
  note TA1 = TA1 [folded lz_def] and TB1 = TB1 [folded lz_def]
  let ?a = "val (mpi_p A)" and ?b = "val (mpi_p B)"
  have c: "val (mpi_p TA) = ?a" "val (mpi_p TB) = ?b" "mpi_ok TA" "mpi_ok TB"
    using mpi_copyD(1,4) [OF TA] mpi_copyD(1,4) [OF TB] ok by auto
  have nzb: "?b \<noteq> 0"
    using ok(3) by (auto simp: mpi_val_def)
  have sh: "val (mpi_p TA1) = ?a div 2 ^ lz" "val (mpi_p TB1) = ?b div 2 ^ lz"
    using mpi_shift_rD(1) [OF TA1] mpi_shift_rD(1) [OF TB1] c by simp_all
  show ok1: "mpi_ok (TA1\<lparr>mpi_s := 1\<rparr>)" "mpi_ok (TB1\<lparr>mpi_s := 1\<rparr>)"
    using mpi_shift_rD(2) [OF TA1] mpi_shift_rD(2) [OF TB1] c by (simp_all add: mpi_ok_set_s)
  have lb: "2 ^ mbedtls_mpi_lsb TB dvd ?b" "odd (?b div 2 ^ mbedtls_mpi_lsb TB)"
    using mpi_lsb_spec [of TB] c nzb by simp_all
  have db: "2 ^ lz dvd ?b"
    using lb(1) by (rule dvd_trans [rotated]) (simp add: lz_def le_imp_power_dvd)
  have da: "2 ^ lz dvd ?a"
  proof (cases "?a = 0")
    case False
    then have "2 ^ mbedtls_mpi_lsb TA dvd ?a"
      using mpi_lsb_spec(1) [of TA] c by simp
    then show ?thesis
      by (rule dvd_trans [rotated]) (simp add: lz_def le_imp_power_dvd)
  qed simp
  have od: "?a = 0 \<or> odd (?a div 2 ^ lz) \<or> odd (?b div 2 ^ lz)"
    using lb(2) mpi_lsb_spec(2) [of TA] c by (auto simp: lz_def)
  have b1: "?b div 2 ^ lz \<noteq> 0"
    using db nzb by auto
  assume loop: "gcd_loop al (TA1\<lparr>mpi_s := 1\<rparr>) (TB1\<lparr>mpi_s := 1\<rparr>) = Inr (LA, LB)"
  have L: "mpi_ok LB \<and> mpi_s LB = 1 \<and> val (mpi_p LB) = gcd (?a div 2 ^ lz) (?b div 2 ^ lz)"
    using gcd_loopD [OF loop ok1] sh b1 od by auto
  have "gcd (?a div 2 ^ lz) (?b div 2 ^ lz) * 2 ^ lz = gcd ?a ?b"
    using da db gcd_mult_distrib_nat [of "2 ^ lz" "?a div 2 ^ lz" "?b div 2 ^ lz"] by (simp add: mult.commute)
  then show "mpi_ok LB \<and> mpi_s LB = 1 \<and> val (mpi_p LB)
       * 2 ^ (if mbedtls_mpi_lsb TB < mbedtls_mpi_lsb TA then mbedtls_mpi_lsb TB else mbedtls_mpi_lsb TA) = gcd ?a ?b"
    using L unfolding lz_def [symmetric] by simp
qed

lemma mpi_gcdD:
  assumes "mbedtls_mpi_gcd al G A B = Inr G'" "mpi_ok G" "mpi_ok A" "mpi_ok B" "mpi_val B \<noteq> 0"
  shows "mpi_ok G'" "mpi_val G' = gcd (mpi_val A) (mpi_val B)"
proof -
  obtain TA TB where TA: "mbedtls_mpi_copy al False mbedtls_mpi_init A = Inr TA"
    and TB: "mbedtls_mpi_copy al False mbedtls_mpi_init B = Inr TB"
    using assms(1) by (auto simp: mbedtls_mpi_gcd_def chk_eq_Inr)
  define lz where "lz = (if mbedtls_mpi_lsb TB < mbedtls_mpi_lsb TA then mbedtls_mpi_lsb TB else mbedtls_mpi_lsb TA)"
  obtain TA1 TB1 LA LB TB2 where TA1: "mbedtls_mpi_shift_r al TA lz = Inr TA1"
    and TB1: "mbedtls_mpi_shift_r al TB lz = Inr TB1"
    and loop: "gcd_loop al (TA1\<lparr>mpi_s := 1\<rparr>) (TB1\<lparr>mpi_s := 1\<rparr>) = Inr (LA, LB)"
    and TB2: "mbedtls_mpi_shift_l al LB lz = Inr TB2" and G': "mbedtls_mpi_copy al False G TB2 = Inr G'"
    using assms(1) TA TB unfolding mbedtls_mpi_gcd_def Let_def
    by (auto simp: chk_eq_Inr lz_def [symmetric])
  note L = gcd_core(3) [OF TA TB TA1 [unfolded lz_def] TB1 [unfolded lz_def] assms(3-5) loop, folded lz_def]
  have "val (mpi_p TB2) = gcd (val (mpi_p A)) (val (mpi_p B))" "mpi_s TB2 = 1" "mpi_ok TB2"
    using mpi_shift_lD(1,2,4) [OF TB2] L by simp_all
  then show "mpi_ok G'" "mpi_val G' = gcd (mpi_val A) (mpi_val B)"
    using mpi_copyD(2,4) [OF G'] assms(2-4) mpi_signs [OF assms(3)] mpi_signs [OF assms(4)]
    by (auto simp: mpi_val_def)
qed

lemma mpi_shift_r_returns: "\<forall>k. al k \<Longrightarrow> \<exists>Y. mbedtls_mpi_shift_r al X n = Inr Y"
  by (auto simp: mbedtls_mpi_shift_r_def mbedtls_mpi_lset_def mbedtls_mpi_grow_def Let_def MBEDTLS_MPI_MAX_LIMBS_def)

lemma BITS_TO_LIMBS_le:
  assumes "c \<le> biL * M"
  shows "BITS_TO_LIMBS c \<le> M"
proof -
  have "q + (if r \<noteq> 0 then 1 else 0) \<le> M" if "biL * q + r = c" for q r :: nat
    using that assms by (cases "r = 0") simp_all
  from this [OF mult_div_mod_eq] show ?thesis
    by (simp add: BITS_TO_LIMBS_def)
qed

lemma odd_limb0: "odd (val p) \<Longrightarrow> odd (unat (p ! 0))"
  by (cases p) simp_all

lemma mpi_shift_l_returns:
  assumes "\<forall>k. al k" "val (mpi_p X) \<noteq> 0" "val (mpi_p X) * 2 ^ n < 2 ^ (biL * M)" "M \<le> MBEDTLS_MPI_MAX_LIMBS"
  shows "\<exists>Y. mbedtls_mpi_shift_l al X n = Inr Y"
proof -
  let ?l = "mbedtls_mpi_bitlen X"
  have l: "0 < ?l" "2 ^ (?l - 1) \<le> val (mpi_p X)"
    using mpi_bitlen_bounds(2) [OF assms(2)] by auto
  have "(2 :: nat) ^ (?l - 1 + n) = 2 ^ (?l - 1) * 2 ^ n"
    by (simp add: power_add)
  also have "\<dots> \<le> val (mpi_p X) * 2 ^ n"
    using l(2) by (rule mult_le_mono1)
  also note assms(3)
  finally have "?l - 1 + n < biL * M"
    by simp
  then have "?l + n \<le> biL * M"
    using l(1) by linarith
  then have "BITS_TO_LIMBS (?l + n) \<le> M"
    by (rule BITS_TO_LIMBS_le)
  then show ?thesis
    using assms(1,4) by (auto simp: mbedtls_mpi_shift_l_def mbedtls_mpi_grow_def Let_def)
qed

lemma gcd_loop_returns:
  "\<forall>k. al k \<Longrightarrow> mpi_ok TA \<Longrightarrow> mpi_ok TB \<Longrightarrow> mpi_s TA = 1 \<Longrightarrow> mpi_s TB = 1 \<Longrightarrow>
     \<exists>A B. gcd_loop al TA TB = Inr (A, B)"
proof (induction al TA TB rule: gcd_loop.induct)
  case (1 al TA TB)
  show ?case
  proof (cases "mbedtls_mpi_cmp_int TA 0 \<noteq> 0")
    case True
    obtain A1 B1 where A1: "mbedtls_mpi_shift_r al TA (mbedtls_mpi_lsb TA) = Inr A1"
      and B1: "mbedtls_mpi_shift_r al TB (mbedtls_mpi_lsb TB) = Inr B1"
      using mpi_shift_r_returns [OF "1.prems"(1)] by metis
    have ok: "mpi_ok A1 \<and> mpi_s A1 = 1" "mpi_ok B1 \<and> mpi_s B1 = 1"
      using mpi_shift_r_s [OF A1] mpi_shift_r_s [OF B1] "1.prems" by auto
    have n: "mpi_n A1 \<le> MBEDTLS_MPI_MAX_LIMBS" "mpi_n B1 \<le> MBEDTLS_MPI_MAX_LIMBS"
      using ok by (auto simp: mpi_ok_def)
    have cmp: "mbedtls_mpi_cmp_mpi A1 B1 \<ge> 0 \<longleftrightarrow> val (mpi_p B1) \<le> val (mpi_p A1)"
      using ok by (simp add: mpi_cmp_mpi_val mpi_val_def sgn_if)
    show ?thesis
    proof (cases "mbedtls_mpi_cmp_mpi A1 B1 \<ge> 0")
      case T2: True
      obtain A2 where A2: "mbedtls_mpi_sub_abs al True False A1 A1 B1 = Inr A2"
        using mpi_sub_abs_returns [OF "1.prems"(1) n(1,1), of False B1 True] cmp T2 by auto
      obtain A3 where A3: "mbedtls_mpi_shift_r al A2 1 = Inr A3"
        using mpi_shift_r_returns [OF "1.prems"(1)] by metis
      have "mpi_ok A3 \<and> mpi_s A3 = 1"
        by (rule mpi_shift_r_s [OF A3]) (use mpi_sub_absD [OF A2] ok in auto)
      then have "\<exists>A B. gcd_loop al A3 B1 = Inr (A, B)"
        using "1.IH"(1) [OF True A1 B1 T2 A2 A3] "1.prems"(1) ok by blast
      then show ?thesis
        using True A1 B1 T2 A2 A3 by (subst gcd_loop.simps) simp
    next
      case F2: False
      obtain B2 where B2: "mbedtls_mpi_sub_abs al True False B1 B1 A1 = Inr B2"
        using mpi_sub_abs_returns [OF "1.prems"(1) n(2,2), of False A1 True] cmp F2 by auto
      obtain B3 where B3: "mbedtls_mpi_shift_r al B2 1 = Inr B3"
        using mpi_shift_r_returns [OF "1.prems"(1)] by metis
      have "mpi_ok B3 \<and> mpi_s B3 = 1"
        by (rule mpi_shift_r_s [OF B3]) (use mpi_sub_absD [OF B2] ok in auto)
      then have "\<exists>A B. gcd_loop al A1 B3 = Inr (A, B)"
        using "1.IH"(2) [OF True A1 B1 F2 B2 B3] "1.prems"(1) ok by blast
      then show ?thesis
        using True A1 B1 F2 B2 B3 by (subst gcd_loop.simps) simp
    qed
  next
    case False
    then show ?thesis
      by (subst gcd_loop.simps) simp
  qed
qed

lemma mpi_gcd_returns:
  assumes al: "\<forall>k. al k" and ok: "mpi_ok G" "mpi_ok A" "mpi_ok B" "mpi_val B \<noteq> 0"
  shows "\<exists>G'. mbedtls_mpi_gcd al G A B = Inr G'"
proof -
  obtain TA TB where TA: "mbedtls_mpi_copy al False mbedtls_mpi_init A = Inr TA"
    and TB: "mbedtls_mpi_copy al False mbedtls_mpi_init B = Inr TB"
    using mpi_copy_returns [OF al, of A] mpi_copy_returns [OF al, of B] ok by (metis mpi_ok_def)
  define lz where "lz = (if mbedtls_mpi_lsb TB < mbedtls_mpi_lsb TA then mbedtls_mpi_lsb TB else mbedtls_mpi_lsb TA)"
  obtain TA1 TB1 where TA1: "mbedtls_mpi_shift_r al TA lz = Inr TA1" and TB1: "mbedtls_mpi_shift_r al TB lz = Inr TB1"
    using mpi_shift_r_returns [OF al] by metis
  note core = gcd_core [OF TA TB TA1 [unfolded lz_def] TB1 [unfolded lz_def] ok(2-4), folded lz_def]
  note ok1 = core(1,2)
  obtain LA LB where loop: "gcd_loop al (TA1\<lparr>mpi_s := 1\<rparr>) (TB1\<lparr>mpi_s := 1\<rparr>) = Inr (LA, LB)"
    using gcd_loop_returns [OF al ok1] by auto
  have LB: "mpi_ok LB" "val (mpi_p LB) * 2 ^ lz = gcd (val (mpi_p A)) (val (mpi_p B))"
    using core(3) [OF loop] by simp_all
  have nz: "val (mpi_p B) \<noteq> 0"
    using ok(4) by (auto simp: mpi_val_def)
  then have "gcd (val (mpi_p A)) (val (mpi_p B)) \<le> val (mpi_p B)"
    by (intro gcd_le2_nat)
  then have "val (mpi_p LB) * 2 ^ lz < 2 ^ (biL * mpi_n B)"
    unfolding LB(2) using val_less [of "mpi_p B"] by linarith
  moreover have "val (mpi_p LB) \<noteq> 0"
    using LB(2) nz by (metis gcd_eq_0_iff mult_is_0)
  ultimately obtain TB2 where TB2: "mbedtls_mpi_shift_l al LB lz = Inr TB2"
    using mpi_shift_l_returns [OF al] ok(3) by (metis mpi_ok_def)
  have TB2n: "mpi_n TB2 \<le> MBEDTLS_MPI_MAX_LIMBS"
    using mpi_shift_lD(4) [OF TB2 LB(1)] by (simp add: mpi_ok_def)
  obtain G' where "mbedtls_mpi_copy al False G TB2 = Inr G'"
    using mpi_copy_returns [OF al TB2n] by blast
  then show ?thesis
    using TA TB TA1 TB1 loop TB2 by (auto simp: mbedtls_mpi_gcd_def Let_def lz_def)
qed

subsection \<open>Properties\<close>

text \<open>
  \<open>mbedtls_mpi_mod_int\<close> returns the least non-negative residue of a
  signed big integer for a positive divisor of at most 32 bits, and refuses
  zero and negative divisors.
\<close>

theorem mpi_mod_int_correct:
  assumes "mpi_ok A" "mpi_n A \<noteq> 0" "sint b \<le> 2 ^ 32"
  shows "if sint b = 0 then mbedtls_mpi_mod_int A b = Inl MPI_DIVISION_BY_ZERO
     else if sint b < 0 then mbedtls_mpi_mod_int A b = Inl MPI_NEGATIVE_VALUE
     else \<exists>r. mbedtls_mpi_mod_int A b = Inr r \<and> int (unat r) = mpi_val A mod sint b"
proof (cases "sint b \<le> 0")
  case False
  then have sb: "sint b = int (unat b)"
    using sint_abs_val [of b] by (simp add: sint_abs_def)
  then have b: "0 < unat b" "unat b \<le> 2 ^ biH"
    using False assms(3) of_nat_le_iff [of "unat b" "2 ^ 32", where 'a = int] by (simp_all del: of_nat_unat)
  define v where "v = val (mpi_p A)"
  have sv: "mpi_val A = (if mpi_s A < 0 then - int v else int v)"
    using assms(1) by (auto simp: mpi_val_def mpi_ok_def v_def)
  have "\<exists>r. mbedtls_mpi_mod_int A b = Inr r \<and> int (unat r) = mpi_val A mod int (unat b)"
  proof (cases "b = 1 \<or> b = 2")
    case True
    have "bit (mpi_p A ! 0) 0 \<longleftrightarrow> odd v"
      using val_bit [of "mpi_p A" 0] assms(2) by (simp add: v_def bit_0)
    moreover have "mpi_p A ! 0 AND 1 = (if bit (mpi_p A ! 0) 0 then 1 else 0)"
      using and_one_bit [of 0 "mpi_p A ! 0"] by simp
    ultimately have "int (unat (mpi_p A ! 0 AND 1)) = mpi_val A mod 2"
      by (simp add: sv mod2_eq_if)
    then show ?thesis
      using True assms(2) False by (auto simp: mbedtls_mpi_mod_int_def)
  next
    case b12: False
    define y where "y = mod_int_loop (mpi_p A) (mpi_n A) b 0"
    have y: "unat y = v mod unat b"
      using mod_int_loop_val [of "mpi_n A" "mpi_p A" b 0] b by (simp add: y_def v_def)
    have yb: "unat y < unat b"
      using b(1) by (simp add: y)
    have "int (unat (if mpi_s A < 0 \<and> y \<noteq> 0 then b - y else y)) = mpi_val A mod int (unat b)"
    proof (cases "mpi_s A < 0 \<and> y \<noteq> 0")
      case True
      then have nz: "v mod unat b \<noteq> 0"
        using y by (metis unat_eq_0)
      have "int (unat (b - y)) = int (unat b) - int (unat y)"
        using yb by (simp add: unat_sub_limb word_le_nat_alt of_nat_diff)
      also have "\<dots> = (- int v) mod int (unat b)"
        unfolding zmod_zminus1_eq_if zmod_int [symmetric] y using nz
        by (simp only: of_nat_eq_0_iff if_False)
      finally show ?thesis
        using True by (simp add: sv)
    next
      case F: False
      have "int (unat y) = mpi_val A mod int (unat b)"
      proof (cases "mpi_s A < 0")
        case True
        then have "v mod unat b = 0"
          using F y by auto
        moreover from this have "(- int v) mod int (unat b) = 0"
          unfolding zmod_zminus1_eq_if zmod_int [symmetric] by simp
        ultimately show ?thesis
          using True y by (simp add: sv del: of_nat_unat)
      qed (simp add: sv y zmod_int)
      then show ?thesis
        using F by auto
    qed
    moreover have "\<not> sint b = 0" "\<not> sint b < 0"
      using False by simp_all
    then have "mbedtls_mpi_mod_int A b = Inr (if mpi_s A < 0 \<and> y \<noteq> 0 then b - y else y)"
      using b12 by (simp add: mbedtls_mpi_mod_int_def Let_def y_def)
    ultimately show ?thesis
      by blast
  qed
  then show ?thesis
    using False sb by simp
qed (simp add: mbedtls_mpi_mod_int_def)

theorem mpi_mod_int_correct_witness:
  "\<exists>r. mbedtls_mpi_mod_int \<lparr>mpi_s = - 1, mpi_p = [5, 1]\<rparr> 10 = Inr r \<and> int (unat r) = (- (2 ^ 64) - 5) mod 10"
proof -
  have "mpi_ok \<lparr>mpi_s = - 1, mpi_p = [5, 1]\<rparr>"
    by (simp add: mpi_ok_def MBEDTLS_MPI_MAX_LIMBS_def)
  then show ?thesis
    using mpi_mod_int_correct [of "\<lparr>mpi_s = - 1, mpi_p = [5, 1]\<rparr>" 10] by (simp add: mpi_val_def)
qed

text \<open>
  Outside that range \<open>mbedtls_mpi_mod_int\<close> misbehaves: for the
  33-bit divisor \<open>2^33 + 1\<close> it returns 0 for \<open>2^64\<close>, which is not a multiple of
  it, since \<open>y << biH\<close> drops the high half of the partial remainder; and for
  the divisor 2 an object without limbs is read through its null pointer.
\<close>

theorem mpi_mod_int_wide_divisor:
  "mbedtls_mpi_mod_int \<lparr>mpi_s = 1, mpi_p = [0, 1]\<rparr> 0x200000001 = Inr 0
   \<and> mpi_val \<lparr>mpi_s = 1, mpi_p = [0, 1]\<rparr> mod 0x200000001 = 0x180000001
   \<and> mbedtls_mpi_mod_int mbedtls_mpi_init 2 = Inl OUT_OF_BOUNDS"
  by (simp add: mbedtls_mpi_mod_int_def mod_int_half_def Let_def mpi_val_def)

text \<open>
  \<open>mpi_montg_init\<close> computes \<open>- N^(-1) mod 2^64\<close> for every odd \<open>N\<close>.
\<close>

theorem mpi_montg_init_correct:
  assumes "odd (val (mpi_p N))"
  shows "mpi_p N ! 0 * mpi_montg_init N = - 1"
  by (rule mpi_montg_init_inverse) (rule odd_limb0 [OF assms])

theorem mpi_montg_init_correct_witness:
  "0xC0FFEE01 * mpi_montg_init \<lparr>mpi_s = 1, mpi_p = [0xC0FFEE01, 7]\<rparr> = - 1"
  using mpi_montg_init_correct [of "\<lparr>mpi_s = 1, mpi_p = [0xC0FFEE01, 7]\<rparr>"] by simp

text \<open>
  Property C35. \<open>mpi_montmul\<close> computes the Montgomery product: with an odd
  modulus of \<open>n\<close> limbs, the constant of \<open>mpi_montg_init\<close>, \<open>B < N\<close>, room for
  \<open>n + 1\<close> limbs in \<open>A\<close> and \<open>2 n + 2\<close> in \<open>T\<close>, it returns 0, stays inside the
  arrays (the subtraction on \<open>T\<close> done against timing attacks included) and
  leaves \<open>A' < N\<close> with \<open>A' * 2^(64 n) = A * B (mod N)\<close>, also for \<open>A == B\<close>.
\<close>

theorem mpi_montmul_correct:
  assumes "odd (val (mpi_p N))" "val (mpi_p (if AB then A else B)) < val (mpi_p N)" "mpi_n (if AB then A else B) \<noteq> 0"
    "mpi_n N + 1 \<le> mpi_n A" "val (mpi_p A) < 2 ^ (64 * mpi_n N)" "2 * mpi_n N + 2 \<le> mpi_n T"
  shows "\<exists>A' T'. mpi_montmul AB A B N (mpi_montg_init N) T = Inr (A', T') \<and> mpi_n A' = mpi_n A
     \<and> val (mpi_p A') < val (mpi_p N)
     \<and> (val (mpi_p A') * 2 ^ (64 * mpi_n N)) mod val (mpi_p N)
        = (val (mpi_p A) * val (mpi_p (if AB then A else B))) mod val (mpi_p N)"
proof -
  have n: "mpi_n N \<noteq> 0"
    using assms(1) by auto
  note mm = mpi_montg_init_inverse [OF odd_limb0 [OF assms(1)]]
  have used: "scan_used (mpi_p A) (mpi_n A) \<le> mpi_n N"
    by (rule scan_used_le_of_val) (use assms(5) in simp)
  have "montmul_pre A (if AB then A else B) N (mpi_montg_init N) T"
    using assms n mm used by (auto simp: montmul_pre_def drop_scan_used)
  from mpi_montmul_val [OF this] obtain A' T' j k where r: "mpi_montmul AB A B N (mpi_montg_init N) T = Inr (A', T')"
      "mpi_n A' = mpi_n A" "val (mpi_p A') < val (mpi_p N)"
      "val (mpi_p A') * 2 ^ (biL * mpi_n N) + j * val (mpi_p N)
        = val (take (mpi_n N) (mpi_p A)) * val (mpi_p (if AB then A else B)) + k * val (mpi_p N)"
    by blast
  have "(val (mpi_p A') * 2 ^ (biL * mpi_n N)) mod val (mpi_p N)
      = (val (mpi_p A') * 2 ^ (biL * mpi_n N) + j * val (mpi_p N)) mod val (mpi_p N)"
    by simp
  also have "\<dots> = (val (mpi_p A) * val (mpi_p (if AB then A else B))) mod val (mpi_p N)"
    unfolding r(4) using used by (simp add: val_take_used)
  finally show ?thesis
    using r(1-3) by blast
qed

theorem mpi_montmul_correct_witness:
  "\<exists>A' T'. mpi_montmul False \<lparr>mpi_s = 1, mpi_p = [40, 0]\<rparr> \<lparr>mpi_s = 1, mpi_p = [90]\<rparr> \<lparr>mpi_s = 1, mpi_p = [101]\<rparr>
       (mpi_montg_init \<lparr>mpi_s = 1, mpi_p = [101]\<rparr>) \<lparr>mpi_s = 1, mpi_p = [9, 9, 9, 9]\<rparr> = Inr (A', T')
     \<and> (val (mpi_p A') * 2 ^ 64) mod 101 = 65"
  using mpi_montmul_correct [of "\<lparr>mpi_s = 1, mpi_p = [101]\<rparr>" False "\<lparr>mpi_s = 1, mpi_p = [40, 0]\<rparr>"
      "\<lparr>mpi_s = 1, mpi_p = [90]\<rparr>" "\<lparr>mpi_s = 1, mpi_p = [9, 9, 9, 9]\<rparr>"] by auto

text \<open>
  Property C34. The binary greatest common divisor: for \<open>B\<close> not zero, a call
  that returns 0 leaves \<open>gcd(A, B)\<close>, and when memory is available the loop
  ends and the call returns 0.
\<close>

theorem mpi_gcd_correct:
  assumes "mpi_ok G" "mpi_ok A" "mpi_ok B" "mpi_val B \<noteq> 0"
  shows "(mbedtls_mpi_gcd al G A B = Inr G' \<longrightarrow> mpi_ok G' \<and> mpi_val G' = gcd (mpi_val A) (mpi_val B))
    \<and> ((\<forall>k. al k) \<longrightarrow> (\<exists>G'. mbedtls_mpi_gcd al G A B = Inr G'))"
proof (intro conjI impI)
  assume al: "\<forall>k. al k"
  show "\<exists>G'. mbedtls_mpi_gcd al G A B = Inr G'"
    by (rule mpi_gcd_returns [OF al assms])
qed (use mpi_gcdD [OF _ assms] in blast)+

theorem mpi_gcd_correct_witness:
  "\<exists>G'. mbedtls_mpi_gcd (\<lambda>k. True) mbedtls_mpi_init \<lparr>mpi_s = 1, mpi_p = [0, 12]\<rparr> \<lparr>mpi_s = - 1, mpi_p = [18]\<rparr> = Inr G'
     \<and> mpi_val G' = gcd (12 * 2 ^ 64) 18"
proof -
  have ok: "mpi_ok \<lparr>mpi_s = 1, mpi_p = [0, 12]\<rparr>" "mpi_ok \<lparr>mpi_s = - 1, mpi_p = [18]\<rparr>"
      "mpi_val \<lparr>mpi_s = - 1, mpi_p = [18]\<rparr> \<noteq> 0"
    by (simp_all add: mpi_ok_def MBEDTLS_MPI_MAX_LIMBS_def mpi_val_def)
  obtain G' where G': "mbedtls_mpi_gcd (\<lambda>k. True) mbedtls_mpi_init \<lparr>mpi_s = 1, mpi_p = [0, 12]\<rparr> \<lparr>mpi_s = - 1, mpi_p = [18]\<rparr>
      = Inr G'"
    using mpi_gcd_correct [OF mpi_init_ok(1) ok, where al = "\<lambda>k. True"] by blast
  then have "mpi_val G' = gcd (mpi_val \<lparr>mpi_s = 1, mpi_p = [0, 12]\<rparr>) (mpi_val \<lparr>mpi_s = - 1, mpi_p = [18]\<rparr>)"
    using mpi_gcd_correct [OF mpi_init_ok(1) ok, where al = "\<lambda>k. True" and G' = G'] by blast
  then show ?thesis
    using G' by (simp add: mpi_val_def)
qed

text \<open>
  With a second argument of zero the greatest common divisor comes
  out as 0 instead of \<open>|A|\<close>.
\<close>

theorem mpi_gcd_second_zero:
  "mbedtls_mpi_gcd (\<lambda>k. True) mbedtls_mpi_init \<lparr>mpi_s = 1, mpi_p = [12]\<rparr> \<lparr>mpi_s = 1, mpi_p = [0]\<rparr>
     = Inr \<lparr>mpi_s = 1, mpi_p = [0]\<rparr>"
  by code_simp

end
