(* ===== verification/Byte_Array.thy ===== *)
theory Byte_Array
  imports Prelude
begin


text \<open>
  The byte buffers of \<open>io/\<close>: the class \<open>ByteArray\<close> over a \<open>std::vector\<close> of
  bytes, and the typed streams \<open>ByteStreamWriter\<close> and \<open>ByteStreamReader\<close> on top
  of it.

  Indices are \<open>uint32_t\<close>, so sums of an index and a length wrap; a vector or
  iterator access outside the vector is the value \<open>None\<close>. The locals the
  readers leave uninitialised (\<open>std::uint8_t byte;\<close>) are the argument \<open>junk\<close>.
  Two locales state what the two sides of a stream promise; a client that
  writes a sequence of typed values and reads it back is verified from them.
\<close>

subsection \<open>The buffer\<close>

record byte_array =
  mData :: "byte list"

definition ByteArray :: byte_array where
  "ByteArray = \<lparr>mData = []\<rparr>"

definition PushBack :: "byte_array \<Rightarrow> byte \<Rightarrow> byte_array" where
  "PushBack a b = a\<lparr>mData := mData a @ [b]\<rparr>"

definition ByteArray_of_string :: "byte list \<Rightarrow> byte_array" where
  "ByteArray_of_string data = foldl PushBack ByteArray data"

text \<open>\<open>ByteArray(const char *data, std::uint32_t size)\<close> reads \<open>size\<close> bytes from \<open>data\<close>.\<close>

definition ByteArray_of_buffer :: "byte list \<Rightarrow> u32 \<Rightarrow> byte_array option" where
  "ByteArray_of_buffer data sz =
     (if unat sz \<le> length data then Some (foldl PushBack ByteArray (take (unat sz) data)) else None)"

definition Size :: "byte_array \<Rightarrow> u32" where
  "Size a = of_nat (length (mData a))"

definition Clear :: "byte_array \<Rightarrow> byte_array" where
  "Clear a = a\<lparr>mData := []\<rparr>"

text \<open>The range of iterators \<open>[begin + index, begin + index + len)\<close> of a vector.\<close>

definition vec_range :: "byte list \<Rightarrow> nat \<Rightarrow> nat \<Rightarrow> byte list option" where
  "vec_range v i n = (if i + n \<le> length v then Some (take n (drop i v)) else None)"

definition SubArray :: "byte_array \<Rightarrow> u32 \<Rightarrow> u32 \<Rightarrow> byte_array option" where
  "SubArray a index len =
     (if unat (index + len) \<le> length (mData a)
      then map_option (\<lambda>v. ByteArray\<lparr>mData := v\<rparr>) (vec_range (mData a) (unat index) (unat len))
      else Some ByteArray)"

definition Erase :: "byte_array \<Rightarrow> u32 \<Rightarrow> u32 \<Rightarrow> byte_array option" where
  "Erase a index len =
     (if unat (index + len) \<le> length (mData a)
      then map_option (\<lambda>_. a\<lparr>mData := take (unat index) (mData a) @ drop (unat index + unat len) (mData a)\<rparr>)
             (vec_range (mData a) (unat index) (unat len))
      else Some a)"

definition Alloc :: "byte_array \<Rightarrow> u32 \<Rightarrow> byte_array" where
  "Alloc a sz = a\<lparr>mData := take (unat sz) (mData a) @ replicate (unat sz - length (mData a)) 0\<rparr>"

text \<open>\<open>FindFirstOf\<close> narrows the iterator difference to \<open>int32_t\<close>.\<close>

fun find_pos :: "byte list \<Rightarrow> byte \<Rightarrow> nat" where
  "find_pos [] x = 0"
| "find_pos (y # ys) x = (if y = x then 0 else Suc (find_pos ys x))"

definition FindFirstOf :: "byte_array \<Rightarrow> byte \<Rightarrow> int" where
  "FindFirstOf a item =
     (let pos = find_pos (mData a) item
      in if pos \<noteq> length (mData a) then sint (of_nat pos :: u32) else - 1)"

definition Put :: "byte_array \<Rightarrow> u32 \<Rightarrow> byte \<Rightarrow> byte_array" where
  "Put a index value =
     (if unat index < length (mData a) then a\<lparr>mData := (mData a)[unat index := value]\<rparr> else a)"

definition Get :: "byte_array \<Rightarrow> u32 \<Rightarrow> byte" where
  "Get a index = (if unat index < length (mData a) then mData a ! unat index else 0)"

text \<open>\<open>operator ==\<close> compares \<open>rhs[i] != mData[i]\<close>: a \<open>char\<close> (signed) against a
  \<open>uint8_t\<close>, both promoted to \<open>int\<close>.\<close>

definition equals_string :: "byte_array \<Rightarrow> byte list \<Rightarrow> bool" where
  "equals_string a rhs =
     (if length rhs \<le> length (mData a)
      then foldl (\<lambda>ret i. if sint (rhs ! i) \<noteq> uint (mData a ! i) then False else ret) True [0 ..< length rhs]
      else False)"

definition Append :: "byte_array \<Rightarrow> byte list \<Rightarrow> byte_array" where
  "Append a data = a\<lparr>mData := mData a @ data\<rparr>"

definition plus_array :: "byte_array \<Rightarrow> byte_array \<Rightarrow> byte_array" where
  "plus_array a b = Append (Append ByteArray (mData a)) (mData b)"

definition assign :: "byte_array \<Rightarrow> byte_array \<Rightarrow> byte_array" where
  "assign a rhs = (Clear a)\<lparr>mData := mData rhs\<rparr>"

definition plus_assign :: "byte_array \<Rightarrow> byte_array \<Rightarrow> byte_array" where
  "plus_assign a rhs = assign a (plus_array a rhs)"

definition get_le :: "byte list \<Rightarrow> nat \<Rightarrow> nat \<Rightarrow> 'a :: len word" where
  "get_le v index n = foldl (\<lambda>data i. data + push_bit (i * 8) (ucast (v ! (index + i)))) 0 [0 ..< n]"

definition GetUint16 :: "byte_array \<Rightarrow> u32 \<Rightarrow> u16" where
  "GetUint16 a index =
     (if length (mData a) \<ge> 2
      then if unat index \<le> length (mData a) - 2 then get_le (mData a) (unat index) 2 else 0
      else 0)"

definition GetUint32 :: "byte_array \<Rightarrow> u32 \<Rightarrow> u32" where
  "GetUint32 a index =
     (if length (mData a) \<ge> 4
      then if unat index \<le> length (mData a) - 4 then get_le (mData a) (unat index) 4 else 0
      else 0)"

definition ToSring :: "byte_array \<Rightarrow> byte list" where
  "ToSring a = foldl (\<lambda>buf i. buf @ [mData a ! i]) [] [0 ..< length (mData a)]"

subsection \<open>The writer\<close>

record stream_writer =
  wArray :: byte_array
  wIndex :: u32

definition ByteStreamWriter :: "byte_array \<Rightarrow> stream_writer" where
  "ByteStreamWriter a = \<lparr>wArray = a, wIndex = Size a\<rparr>"

definition write_Seek :: "stream_writer \<Rightarrow> u32 \<Rightarrow> stream_writer" where
  "write_Seek w pos = (if pos < Size (wArray w) then w\<lparr>wIndex := pos\<rparr> else w\<lparr>wIndex := Size (wArray w)\<rparr>)"

definition write_u8 :: "stream_writer \<Rightarrow> byte \<Rightarrow> stream_writer" where
  "write_u8 w d =
     (let w = (if wIndex w \<ge> Size (wArray w)
               then w\<lparr>wArray := PushBack (wArray w) d\<rparr>
               else w\<lparr>wArray := Put (wArray w) (wIndex w) d\<rparr>)
      in w\<lparr>wIndex := wIndex w + 1\<rparr>)"

primrec write_le :: "nat \<Rightarrow> 'a :: len word \<Rightarrow> stream_writer \<Rightarrow> stream_writer" where
  "write_le 0 data w = w"
| "write_le (Suc n) data w = write_le n (drop_bit 8 data) (write_u8 w (ucast (data AND 0xFF)))"

definition write_u16 :: "stream_writer \<Rightarrow> u16 \<Rightarrow> stream_writer" where
  "write_u16 w d = write_le 2 d w"

definition write_u32 :: "stream_writer \<Rightarrow> u32 \<Rightarrow> stream_writer" where
  "write_u32 w d = write_le 4 d w"

definition write_i32 :: "stream_writer \<Rightarrow> int \<Rightarrow> stream_writer" where
  "write_i32 w d = write_u32 w (of_int d)"

definition write_bool :: "stream_writer \<Rightarrow> bool \<Rightarrow> stream_writer" where
  "write_bool w d = write_u8 w (if d then 1 else 0)"

text \<open>The loop of the string overload runs to the truncated \<open>size\<close>; \<open>s.at(i)\<close> is in range.\<close>

definition write_string :: "stream_writer \<Rightarrow> byte list \<Rightarrow> stream_writer" where
  "write_string w s =
     (let sz = of_nat (length s) :: u32
      in foldl write_u8 (write_u32 w sz) (take (unat sz) s))"

subsection \<open>The reader\<close>

record stream_reader =
  rArray :: byte_array
  rIndex :: u32

definition ByteStreamReader :: "byte_array \<Rightarrow> stream_reader" where
  "ByteStreamReader a = \<lparr>rArray = a, rIndex = 0\<rparr>"

definition read_Seek :: "stream_reader \<Rightarrow> u32 \<Rightarrow> stream_reader" where
  "read_Seek r pos = (if pos < Size (rArray r) then r\<lparr>rIndex := pos\<rparr> else r\<lparr>rIndex := Size (rArray r)\<rparr>)"

text \<open>The overloads of \<open>operator >>\<close> take the old contents of their target.\<close>

definition read_u8 :: "stream_reader \<Rightarrow> byte \<Rightarrow> stream_reader \<times> byte" where
  "read_u8 r d =
     (if rIndex r < Size (rArray r) then (r\<lparr>rIndex := rIndex r + 1\<rparr>, Get (rArray r) (rIndex r)) else (r, d))"

primrec read_le :: "nat \<Rightarrow> nat \<Rightarrow> byte \<Rightarrow> 'a :: len word \<Rightarrow> stream_reader \<Rightarrow> stream_reader \<times> 'a word" where
  "read_le 0 i byte d r = (r, d)"
| "read_le (Suc n) i byte d r =
     (let (r, byte) = read_u8 r byte
      in read_le n (Suc i) byte (d + push_bit (i * 8) (ucast byte)) r)"

definition read_u16 :: "byte \<Rightarrow> stream_reader \<Rightarrow> stream_reader \<times> u16" where
  "read_u16 junk r = (if Size (rArray r) \<ge> 2 then read_le 2 0 junk 0 r else (r, 0))"

definition read_u32 :: "byte \<Rightarrow> stream_reader \<Rightarrow> stream_reader \<times> u32" where
  "read_u32 junk r = (if Size (rArray r) \<ge> 4 then read_le 4 0 junk 0 r else (r, 0))"

definition read_i32 :: "byte \<Rightarrow> stream_reader \<Rightarrow> stream_reader \<times> int" where
  "read_i32 junk r = (let (r, value) = read_u32 junk r in (r, sint value))"

definition read_bool :: "byte \<Rightarrow> stream_reader \<Rightarrow> stream_reader \<times> bool" where
  "read_bool junk r = (let (r, byte) = read_u8 r junk in (r, byte \<noteq> 0))"

primrec read_bytes :: "nat \<Rightarrow> byte \<Rightarrow> stream_reader \<Rightarrow> byte list \<Rightarrow> stream_reader \<times> byte list" where
  "read_bytes 0 byte r s = (r, s)"
| "read_bytes (Suc n) byte r s = (let (r, byte) = read_u8 r byte in read_bytes n byte r (s @ [byte]))"

definition read_string :: "byte \<Rightarrow> stream_reader \<Rightarrow> byte list \<Rightarrow> stream_reader \<times> byte list" where
  "read_string junk r s =
     (let (r, sz) = read_u32 junk r;
          remainingBytes = Size (rArray r) - rIndex r
      in if sz \<le> remainingBytes then read_bytes (unat sz) junk r s else (r, s))"

subsection \<open>A value of one of the streamed types\<close>

text \<open>The overloads of \<open>operator <<\<close> and \<open>operator >>\<close>, one constructor per type.\<close>

datatype stream_type = T_u8 | T_u16 | T_u32 | T_i32 | T_bool | T_string

datatype stream_value = V_u8 byte | V_u16 u16 | V_u32 u32 | V_i32 int | V_bool bool | V_string "byte list"

fun type_of :: "stream_value \<Rightarrow> stream_type" where
  "type_of (V_u8 _) = T_u8"
| "type_of (V_u16 _) = T_u16"
| "type_of (V_u32 _) = T_u32"
| "type_of (V_i32 _) = T_i32"
| "type_of (V_bool _) = T_bool"
| "type_of (V_string _) = T_string"

fun write_value :: "stream_writer \<Rightarrow> stream_value \<Rightarrow> stream_writer" where
  "write_value w (V_u8 d) = write_u8 w d"
| "write_value w (V_u16 d) = write_u16 w d"
| "write_value w (V_u32 d) = write_u32 w d"
| "write_value w (V_i32 d) = write_i32 w d"
| "write_value w (V_bool d) = write_bool w d"
| "write_value w (V_string s) = write_string w s"

fun read_value :: "byte \<Rightarrow> stream_reader \<Rightarrow> stream_type \<Rightarrow> stream_reader \<times> stream_value" where
  "read_value junk r T_u8 = map_prod id V_u8 (read_u8 r junk)"
| "read_value junk r T_u16 = map_prod id V_u16 (read_u16 junk r)"
| "read_value junk r T_u32 = map_prod id V_u32 (read_u32 junk r)"
| "read_value junk r T_i32 = map_prod id V_i32 (read_i32 junk r)"
| "read_value junk r T_bool = map_prod id V_bool (read_bool junk r)"
| "read_value junk r T_string = map_prod id V_string (read_string junk r [])"


subsection \<open>Writers as overlays\<close>

definition le_bytes :: "nat \<Rightarrow> 'a :: len word \<Rightarrow> byte list" where
  "le_bytes n x = map (\<lambda>i. ucast (drop_bit (8 * i) x)) [0 ..< n]"

fun enc_value :: "stream_value \<Rightarrow> byte list" where
  "enc_value (V_u8 d) = [d]"
| "enc_value (V_u16 d) = le_bytes 2 d"
| "enc_value (V_u32 d) = le_bytes 4 d"
| "enc_value (V_i32 d) = le_bytes 4 (of_int d :: u32)"
| "enc_value (V_bool d) = [if d then 1 else 0]"
| "enc_value (V_string s) = le_bytes 4 (of_nat (length s) :: u32) @ take (unat (of_nat (length s) :: u32)) s"

definition valid_value :: "stream_value \<Rightarrow> bool" where
  "valid_value v = (case v of V_i32 d \<Rightarrow> - (2 ^ 31) \<le> d \<and> d < 2 ^ 31 | V_string s \<Rightarrow> length s < 2 ^ 32 | _ \<Rightarrow> True)"

lemma length_le_bytes [simp]: "length (le_bytes n x) = n"
  by (simp add: le_bytes_def)

lemma le_bytes_Suc: "le_bytes (Suc n) x = ucast x # le_bytes n (drop_bit 8 x)"
proof -
  have "[0 ..< Suc n] = 0 # map Suc [0 ..< n]"
    using map_Suc_upt [of 0 n] upt_rec [of 0 "Suc n"] by simp
  then show ?thesis
    by (simp add: le_bytes_def comp_def drop_bit_drop_bit add.commute)
qed

lemma write_le_bytes: "write_le n x w = foldl write_u8 w (le_bytes n x)"
proof (induction n arbitrary: x w)
  case (Suc n)
  then show ?case
    by (simp add: le_bytes_Suc)
qed (simp add: le_bytes_def)

lemma write_value_bytes: "write_value w v = foldl write_u8 w (enc_value v)"
  by (cases v) (simp_all add: write_u16_def write_u32_def write_i32_def write_bool_def write_string_def write_le_bytes Let_def)

definition room :: "stream_writer \<Rightarrow> nat \<Rightarrow> bool" where
  "room w k \<longleftrightarrow> unat (wIndex w) \<le> length (mData (wArray w)) \<and> length (mData (wArray w)) < 2 ^ 32 \<and>
     unat (wIndex w) + k < 2 ^ 32"

lemma unat_Size: "length (mData a) < 2 ^ 32 \<Longrightarrow> unat (Size a) = length (mData a)"
  by (simp add: Size_def unat_of_nat)

lemma unat_plus1_u32: "unat (i :: u32) + 1 < 2 ^ 32 \<Longrightarrow> unat (i + 1) = unat i + 1"
  using unat_add_lem [of i 1] by simp

lemma write_u8_overlay:
  assumes "room w (Suc k)"
  shows "mData (wArray (write_u8 w d)) = memcpy (mData (wArray w)) (unat (wIndex w)) [d]"
    and "unat (wIndex (write_u8 w d)) = unat (wIndex w) + 1"
    and "room (write_u8 w d) k"
proof -
  let ?v = "mData (wArray w)" and ?i = "unat (wIndex w)"
  have i: "?i \<le> length ?v" "length ?v < 2 ^ 32" "?i + Suc k < 2 ^ 32"
    using assms by (simp_all add: room_def)
  show d: "mData (wArray (write_u8 w d)) = memcpy ?v ?i [d]"
  proof (cases "?i < length ?v")
    case True
    then have "\<not> Size (wArray w) \<le> wIndex w"
      using i by (simp add: word_le_nat_alt unat_Size)
    with True show ?thesis
      by (simp add: write_u8_def Put_def memcpy_def upd_conv_take_nth_drop)
  next
    case False
    then have "Size (wArray w) \<le> wIndex w"
      using i by (simp add: word_le_nat_alt unat_Size)
    with False i show ?thesis
      by (simp add: write_u8_def PushBack_def memcpy_def)
  qed
  show u: "unat (wIndex (write_u8 w d)) = ?i + 1"
    using i unat_plus1_u32 [of "wIndex w"] by (simp add: write_u8_def Let_def)
  show "room (write_u8 w d) k"
    using i by (simp add: room_def d u memcpy_def)
qed

lemma write_bytes_overlay:
  assumes "room w (length bs + k)"
  shows "mData (wArray (foldl write_u8 w bs)) = memcpy (mData (wArray w)) (unat (wIndex w)) bs \<and>
    unat (wIndex (foldl write_u8 w bs)) = unat (wIndex w) + length bs \<and> room (foldl write_u8 w bs) k"
  using assms
proof (induction bs arbitrary: w)
  case (Cons b bs)
  have r: "room w (Suc (length bs + k))"
    using Cons.prems by simp
  have "unat (wIndex w) \<le> length (mData (wArray w))"
    using r by (simp add: room_def)
  then have "memcpy (memcpy (mData (wArray w)) (unat (wIndex w)) [b]) (unat (wIndex w) + 1) bs
      = memcpy (mData (wArray w)) (unat (wIndex w)) (b # bs)"
    by (simp add: memcpy_def add.commute)
  then show ?case
    using Cons.IH [OF write_u8_overlay(3) [OF r]] write_u8_overlay(1,2) [OF r] by simp
qed simp

subsection \<open>Readers\<close>

definition reader_ok :: "stream_reader \<Rightarrow> bool" where
  "reader_ok r \<longleftrightarrow> unat (rIndex r) \<le> length (mData (rArray r)) \<and> length (mData (rArray r)) < 2 ^ 32"

definition unread :: "stream_reader \<Rightarrow> byte list" where
  "unread r = drop (unat (rIndex r)) (mData (rArray r))"

lemma read_u8_Cons:
  assumes "reader_ok r" and "unread r = b # bs"
  obtains r' where "\<And>d. read_u8 r d = (r', b)" "reader_ok r'" "unread r' = bs" "rArray r' = rArray r"
proof -
  let ?i = "unat (rIndex r)" and ?v = "mData (rArray r)"
  have lt: "?i < length ?v"
    using assms(2) by (metis drop_all list.distinct(1) not_le_imp_less unread_def)
  have len: "length ?v < 2 ^ 32"
    using assms(1) by (simp add: reader_ok_def)
  have vi: "?v ! ?i = b" "drop (Suc ?i) ?v = bs"
    using assms(2) Cons_nth_drop_Suc [OF lt] by (simp_all add: unread_def)
  let ?r = "r\<lparr>rIndex := rIndex r + 1\<rparr>"
  have u: "unat (rIndex r + 1) = Suc ?i"
    using unat_plus1_u32 [of "rIndex r"] lt len by simp
  have "read_u8 r d = (?r, b)" for d
    using lt len vi(1) by (simp add: read_u8_def Get_def word_less_nat_alt unat_Size)
  moreover have "reader_ok ?r" "unread ?r = bs"
    using lt len vi(2) by (simp_all add: reader_ok_def unread_def u)
  ultimately show thesis
    using that [of ?r] by simp
qed

lemma read_le_append:
  assumes "reader_ok r" and "unread r = xs @ bs"
  shows "\<exists>r'. read_le (length xs) i byte d r =
      (r', foldl (\<lambda>d (i, b). d + push_bit (i * 8) (ucast b)) d (enumerate i xs)) \<and>
    reader_ok r' \<and> unread r' = bs \<and> rArray r' = rArray r"
  using assms
proof (induction xs arbitrary: r i byte d)
  case (Cons x xs)
  obtain r1 where r1: "\<And>d. read_u8 r d = (r1, x)" "reader_ok r1" "unread r1 = xs @ bs" "rArray r1 = rArray r"
    using read_u8_Cons [of r x "xs @ bs"] Cons.prems by auto
  show ?case
    using Cons.IH [OF r1(2,3), of "Suc i" x "d + push_bit (i * 8) (ucast x)"] r1(1,4) by simp
qed simp

lemma read_bytes_append:
  assumes "reader_ok r" and "unread r = xs @ bs"
  shows "\<exists>r'. read_bytes (length xs) byte r s = (r', s @ xs) \<and> reader_ok r' \<and> unread r' = bs"
  using assms
proof (induction xs arbitrary: r byte s)
  case (Cons x xs)
  obtain r1 where r1: "\<And>d. read_u8 r d = (r1, x)" "reader_ok r1" "unread r1 = xs @ bs"
    using read_u8_Cons [of r x "xs @ bs"] Cons.prems by auto
  show ?case
    using Cons.IH [OF r1(2,3), of x "s @ [x]"] r1(1) by simp
qed simp

lemma le_value_u16: "foldl (\<lambda>d (i, b). d + push_bit (i * 8) (ucast b)) 0 (enumerate 0 (le_bytes 2 x)) = (x :: u16)"
proof -
  have "ucast (ucast x :: byte) + push_bit 8 (ucast (ucast (drop_bit 8 x) :: byte)) = x"
    by (subst disjunctive_add) (auto intro!: bit_word_eqI simp: bit_simps dest: bit_imp_le_length)
  then show ?thesis
    by (simp add: le_bytes_Suc numeral_2_eq_2 le_bytes_def)
qed

lemma le_value_u32: "foldl (\<lambda>d (i, b). d + push_bit (i * 8) (ucast b)) 0 (enumerate 0 (le_bytes 4 x)) = (x :: u32)"
proof -
  let ?b = "\<lambda>i. push_bit (8 * i) (ucast (ucast (drop_bit (8 * i) x) :: byte)) :: u32"
  have 1: "?b 0 + ?b 1 = ?b 0 OR ?b 1"
    by (rule disjunctive_add) (auto simp: bit_simps dest: bit_imp_le_length)
  have 2: "(?b 0 OR ?b 1) + ?b 2 = ?b 0 OR ?b 1 OR ?b 2"
    by (subst disjunctive_add) (auto simp: bit_simps or.assoc dest: bit_imp_le_length)
  have 3: "(?b 0 OR ?b 1 OR ?b 2) + ?b 3 = ?b 0 OR ?b 1 OR ?b 2 OR ?b 3"
    by (subst disjunctive_add) (auto simp: bit_simps or.assoc dest: bit_imp_le_length)
  have 4: "?b 0 OR ?b 1 OR ?b 2 OR ?b 3 = x"
  proof (rule bit_word_eqI)
    fix k assume "k < LENGTH(32)"
    then consider "k < 8" | "8 \<le> k" "k < 16" | "16 \<le> k" "k < 24" | "24 \<le> k" "k < 32"
      by fastforce
    then show "bit (?b 0 OR ?b 1 OR ?b 2 OR ?b 3) k = bit x k"
      by cases (auto simp: bit_simps)
  qed
  have "?b 0 + ?b 1 + ?b 2 + ?b 3 = x"
    unfolding 1 2 3 4 ..
  then show ?thesis
    by (simp add: le_bytes_def upt_rec)
qed

lemma Size_ge: "reader_ok r \<Longrightarrow> unread r = xs @ bs \<Longrightarrow> length xs \<le> unat (Size (rArray r))"
proof -
  assume ok: "reader_ok r" and eq: "unread r = xs @ bs"
  have "length xs + length bs = length (mData (rArray r)) - unat (rIndex r)"
    using arg_cong [OF eq, of length] by (simp add: unread_def)
  then show ?thesis
    using ok by (simp add: reader_ok_def unat_Size)
qed

lemma read_u16_le_bytes:
  assumes "reader_ok r" and "unread r = le_bytes 2 x @ bs"
  shows "\<exists>r'. read_u16 junk r = (r', x) \<and> reader_ok r' \<and> unread r' = bs"
  using read_le_append [OF assms, of 0 junk "0 :: u16"] Size_ge [OF assms]
  by (auto simp: read_u16_def le_value_u16 word_le_nat_alt)

lemma read_u32_le_bytes:
  assumes "reader_ok r" and "unread r = le_bytes 4 x @ bs"
  shows "\<exists>r'. read_u32 junk r = (r', x) \<and> reader_ok r' \<and> unread r' = bs"
  using read_le_append [OF assms, of 0 junk "0 :: u32"] Size_ge [OF assms]
  by (auto simp: read_u32_def le_value_u32 word_le_nat_alt)

lemma read_value_enc:
  assumes "reader_ok r" and "valid_value v" and "unread r = enc_value v @ bs"
  shows "\<exists>r'. read_value junk r (type_of v) = (r', v) \<and> reader_ok r' \<and> unread r' = bs"
proof (cases v)
  case (V_u8 d)
  then obtain r' where "\<And>x. read_u8 r x = (r', d)" "reader_ok r'" "unread r' = bs"
    using read_u8_Cons [of r d bs] assms by auto
  then show ?thesis
    by (simp add: V_u8)
next
  case (V_u16 d)
  then show ?thesis
    using assms read_u16_le_bytes [of r d bs junk] by auto
next
  case (V_u32 d)
  then show ?thesis
    using assms read_u32_le_bytes [of r d bs junk] by auto
next
  case (V_i32 d)
  then have "sint (of_int d :: u32) = d"
    using assms(2) by (simp add: valid_value_def signed_of_int signed_take_bit_int_eq_self)
  then show ?thesis
    using V_i32 assms read_u32_le_bytes [of r "of_int d" bs junk] by (auto simp: read_i32_def)
next
  case (V_bool d)
  then obtain r' where "\<And>x. read_u8 r x = (r', if d then 1 else 0)" "reader_ok r'" "unread r' = bs"
    using read_u8_Cons [of r "if d then 1 else 0" bs] assms by auto
  then show ?thesis
    by (simp add: V_bool read_bool_def)
next
  case (V_string s)
  then have len: "unat (of_nat (length s) :: u32) = length s"
    using assms(2) by (simp add: valid_value_def unat_of_nat)
  have r: "unread r = le_bytes 4 (of_nat (length s) :: u32) @ s @ bs"
    using assms(3) V_string by (simp add: len)
  obtain r1 where r1: "read_u32 junk r = (r1, of_nat (length s))" "reader_ok r1" "unread r1 = s @ bs"
    using read_u32_le_bytes [OF assms(1) r] by blast
  have "length s \<le> length (mData (rArray r1)) - unat (rIndex r1)"
    using arg_cong [OF r1(3), of length] by (simp add: unread_def)
  then have "(of_nat (length s) :: u32) \<le> Size (rArray r1) - rIndex r1"
    using r1(2) unfolding word_le_nat_alt len reader_ok_def
    by (subst unat_sub) (simp_all add: word_le_nat_alt unat_Size)
  then show ?thesis
    using V_string r1(1) read_bytes_append [OF r1(2,3), of junk "[]"] by (auto simp: read_string_def len)
qed

subsection \<open>The contract of a stream\<close>

text \<open>
  A sink overlays the encoding of a value on its contents at its position; a
  source gives back a value when its remaining bytes start with the value's
  encoding. \<open>room w k\<close> says that \<open>k\<close> further bytes can be written.
\<close>

primrec get_all :: "('r \<Rightarrow> 't \<Rightarrow> 'r \<times> 'v) \<Rightarrow> 'r \<Rightarrow> 't list \<Rightarrow> 'r \<times> 'v list" where
  "get_all get r [] = (r, [])"
| "get_all get r (t # ts) = (let (r, v) = get r t; (r, vs) = get_all get r ts in (r, v # vs))"

locale byte_sink =
  fixes content :: "'w \<Rightarrow> byte list"
    and pos :: "'w \<Rightarrow> nat"
    and space :: "'w \<Rightarrow> nat \<Rightarrow> bool"
    and put :: "'w \<Rightarrow> 'v \<Rightarrow> 'w"
    and enc :: "'v \<Rightarrow> byte list"
  assumes put_content: "space w (length (enc v) + k) \<Longrightarrow> content (put w v) = memcpy (content w) (pos w) (enc v)"
    and put_pos: "space w (length (enc v) + k) \<Longrightarrow> pos (put w v) = pos w + length (enc v)"
    and put_space: "space w (length (enc v) + k) \<Longrightarrow> space (put w v) k"
    and space_pos: "space w k \<Longrightarrow> pos w \<le> length (content w)"
begin

lemma put_all:
  assumes "space w (length (concat (map enc vs)) + k)"
  shows "content (foldl put w vs) = memcpy (content w) (pos w) (concat (map enc vs)) \<and>
    pos (foldl put w vs) = pos w + length (concat (map enc vs)) \<and> space (foldl put w vs) k"
  using assms
proof (induction vs arbitrary: w)
  case (Cons v vs)
  have sp: "space w (length (enc v) + (length (concat (map enc vs)) + k))"
    using Cons.prems by (simp add: add.assoc)
  have "memcpy (memcpy (content w) (pos w) (enc v)) (pos w + length (enc v)) (concat (map enc vs))
      = memcpy (content w) (pos w) (enc v @ concat (map enc vs))"
    using space_pos [OF sp] by (simp add: memcpy_def ac_simps)
  then show ?case
    using Cons.IH [OF put_space [OF sp]] by (simp add: put_content [OF sp] put_pos [OF sp])
qed simp

end

locale byte_source =
  fixes remaining :: "'r \<Rightarrow> byte list"
    and valid_source :: "'r \<Rightarrow> bool"
    and valid :: "'v \<Rightarrow> bool"
    and get :: "'r \<Rightarrow> 't \<Rightarrow> 'r \<times> 'v"
    and ty :: "'v \<Rightarrow> 't"
    and enc :: "'v \<Rightarrow> byte list"
  assumes get_enc: "valid_source r \<Longrightarrow> valid v \<Longrightarrow> remaining r = enc v @ bs \<Longrightarrow>
    \<exists>r'. get r (ty v) = (r', v) \<and> valid_source r' \<and> remaining r' = bs"
begin

lemma get_all_enc:
  "valid_source r \<Longrightarrow> list_all valid vs \<Longrightarrow> remaining r = concat (map enc vs) @ bs \<Longrightarrow>
   \<exists>r'. get_all get r (map ty vs) = (r', vs) \<and> valid_source r' \<and> remaining r' = bs"
proof (induction vs arbitrary: r)
  case (Cons v vs)
  obtain r1 where r1: "get r (ty v) = (r1, v)" "valid_source r1" "remaining r1 = concat (map enc vs) @ bs"
    using get_enc [of r v "concat (map enc vs) @ bs"] Cons.prems by auto
  obtain r2 where "get_all get r1 (map ty vs) = (r2, vs)" "valid_source r2" "remaining r2 = bs"
    using Cons.IH [OF r1(2) _ r1(3)] Cons.prems by auto
  with r1(1) show ?case
    by simp
qed simp

end

text \<open>The two ends over one buffer: what was written from a position on is read back there.\<close>

locale byte_stream = byte_sink content pos space put enc + byte_source remaining valid_source valid get ty enc
  for content :: "'w \<Rightarrow> byte list" and pos and space and put :: "'w \<Rightarrow> 'v \<Rightarrow> 'w" and enc
    and remaining :: "'r \<Rightarrow> byte list" and valid_source and valid and get :: "'r \<Rightarrow> 't \<Rightarrow> 'r \<times> 'v" and ty +
  fixes reader_at :: "'w \<Rightarrow> nat \<Rightarrow> 'r"
  assumes reader_at: "space w k \<Longrightarrow> p \<le> length (content w) \<Longrightarrow>
    valid_source (reader_at w p) \<and> remaining (reader_at w p) = drop p (content w)"
begin

lemma written_is_read:
  assumes sp: "space w (length (concat (map enc vs)) + k)" and v: "list_all valid vs"
  shows "\<exists>r'. get_all get (reader_at (foldl put w vs) (pos w)) (map ty vs) = (r', vs)"
proof -
  have w: "content (foldl put w vs) = memcpy (content w) (pos w) (concat (map enc vs))"
      "space (foldl put w vs) k"
    using put_all [OF sp] by auto
  have le: "pos w \<le> length (content w)"
    by (rule space_pos [OF sp])
  have "drop (pos w) (memcpy (content w) (pos w) (concat (map enc vs)))
      = concat (map enc vs) @ drop (pos w + length (concat (map enc vs))) (content w)"
    using le by (simp add: memcpy_def)
  moreover have "pos w \<le> length (content (foldl put w vs))"
    using le by (simp add: w memcpy_def)
  ultimately show ?thesis
    using get_all_enc [OF _ v] reader_at [OF w(2)] w(1) by metis
qed

end

definition reader_of :: "stream_writer \<Rightarrow> nat \<Rightarrow> stream_reader" where
  "reader_of w p = read_Seek (ByteStreamReader (wArray w)) (of_nat p)"

interpretation io: byte_stream "\<lambda>w. mData (wArray w)" "\<lambda>w. unat (wIndex w)" room write_value enc_value
    unread reader_ok valid_value "read_value junk" type_of reader_of for junk
proof unfold_locales
  show "mData (wArray (write_value w v)) = memcpy (mData (wArray w)) (unat (wIndex w)) (enc_value v)"
    if "room w (length (enc_value v) + k)" for w v k
    using write_bytes_overlay [OF that] by (simp add: write_value_bytes)
  show "unat (wIndex (write_value w v)) = unat (wIndex w) + length (enc_value v)"
    if "room w (length (enc_value v) + k)" for w v k
    using write_bytes_overlay [OF that] by (simp add: write_value_bytes)
  show "room (write_value w v) k" if "room w (length (enc_value v) + k)" for w v k
    using write_bytes_overlay [OF that] by (simp add: write_value_bytes)
  show "unat (wIndex w) \<le> length (mData (wArray w))" if "room w k" for w k
    using that by (simp add: room_def)
  show "\<exists>r'. read_value junk r (type_of v) = (r', v) \<and> reader_ok r' \<and> unread r' = bs"
    if "reader_ok r" "valid_value v" "unread r = enc_value v @ bs" for r v bs
    using read_value_enc [OF that] .
  show "reader_ok (reader_of w p) \<and> unread (reader_of w p) = drop p (mData (wArray w))"
    if "room w k" "p \<le> length (mData (wArray w))" for w k p
  proof -
    have len: "length (mData (wArray w)) < 2 ^ 32" and p: "unat (of_nat p :: u32) = p"
      using that by (simp_all add: room_def unat_of_nat)
    show ?thesis
      using that(2) len
      by (auto simp: reader_of_def read_Seek_def ByteStreamReader_def reader_ok_def unread_def
          word_less_nat_alt unat_Size p)
  qed
qed


subsection \<open>Sub-arrays\<close>

lemma foldl_PushBack: "mData (foldl PushBack a bs) = mData a @ bs"
  by (induction bs arbitrary: a) (simp_all add: PushBack_def)

lemma mData_ByteArray_of_string [simp]: "mData (ByteArray_of_string s) = s"
  by (simp add: ByteArray_of_string_def foldl_PushBack ByteArray_def)

lemma ToSring_of_string: "ToSring (ByteArray_of_string s) = s"
proof -
  have "foldl (\<lambda>buf i. buf @ [s ! i]) [] [0 ..< n] = take n s" if "n \<le> length s" for n
    using that by (induction n) (simp_all add: take_Suc_conv_app_nth)
  then show ?thesis
    by (simp add: ToSring_def)
qed

lemma unat_index_sum: "unat (i :: u32) + unat n < 2 ^ 32 \<Longrightarrow> unat (i + n) = unat i + unat n"
  using unat_add_lem [of i n] by simp

text \<open>
  When the sum of index and length does not wrap, \<open>SubArray\<close> gives
  the bytes of the range (nothing when the range does not fit), and \<open>Erase\<close>
  removes exactly them, or nothing; no access leaves the vector.
\<close>

theorem subarray_erase_correct:
  assumes "unat i + unat n < 2 ^ 32"
  shows "\<exists>s e. SubArray a i n = Some s \<and> Erase a i n = Some e \<and>
    (if unat i + unat n \<le> length (mData a)
     then mData a = take (unat i) (mData e) @ mData s @ drop (unat i) (mData e) \<and>
          length (mData s) = unat n
     else mData s = [] \<and> e = a)"
proof -
  have [simp]: "unat (i + n) = unat i + unat n"
    by (rule unat_index_sum [OF assms])
  show ?thesis
  proof (cases "unat i + unat n \<le> length (mData a)")
    case True
    let ?s = "take (unat n) (drop (unat i) (mData a))"
    have "take (unat i) (mData a) @ ?s @ drop (unat i + unat n) (mData a) = mData a"
      by (metis append.assoc append_take_drop_id take_add)
    then show ?thesis
      using True by (simp add: SubArray_def Erase_def vec_range_def)
  next
    case False
    then show ?thesis
      by (simp add: SubArray_def Erase_def ByteArray_def)
  qed
qed

theorem subarray_erase_correct_witness:
  "\<exists>s e. SubArray (ByteArray_of_string [1, 2, 3, 4]) 1 2 = Some s \<and>
     Erase (ByteArray_of_string [1, 2, 3, 4]) 1 2 = Some e \<and> mData s @ mData e = [2, 3, 1, 4]"
  using subarray_erase_correct [of 1 2 "ByteArray_of_string [1, 2, 3, 4]"]
  by (simp add: SubArray_def Erase_def vec_range_def ByteArray_def)

text \<open>
  The sum is computed in 32 bits, so a large index passes the check and the
  iterators leave the vector.
\<close>

theorem subarray_index_wraps:
  "SubArray (ByteArray_of_string [1, 2, 3, 4]) 0xFFFFFFFF 2 = None"
  "Erase (ByteArray_of_string [1, 2, 3, 4]) 0xFFFFFFFF 2 = None"
  by (simp_all add: SubArray_def Erase_def vec_range_def)

lemma foldl_all_false:
  "foldl (\<lambda>ret i. if P i then False else ret) ok [0 ..< n] \<longleftrightarrow> ok \<and> (\<forall>i < n. \<not> P i)"
  by (induction n) (auto simp: less_Suc_eq)

lemma uint_128: "uint (128 :: byte) = 128"
  by simp

lemma sint_eq_uint_byte: "sint (x :: byte) = uint y \<longleftrightarrow> x = y \<and> x < 128"
proof -
  have "sint x = (if uint x < 128 then uint x else uint x - 256)"
  proof -
    have "uint x < 256"
      using unsigned_less [of x, where 'a = int] by simp
    then have "uint x div 128 = (if uint x < 128 then 0 else 1)"
      by (simp add: div_pos_pos_trivial div_pos_geq)
    then show ?thesis
      using \<open>uint x < 256\<close>
      by (simp add: sint_uint signed_take_bit_eq_take_bit_minus take_bit_int_eq_self bit_iff_odd)
  qed
  note sx = this
  have x: "x = y \<longleftrightarrow> uint x = uint y" "x < 128 \<longleftrightarrow> uint x < 128"
    by (simp_all add: word_uint_eq_iff word_less_def)
  have "0 \<le> uint x" "uint x < 256" "0 \<le> uint y" "uint y < 256"
    using unsigned_less [of x, where 'a = int] unsigned_less [of y, where 'a = int] by simp_all
  then show ?thesis
    unfolding x sx by presburger
qed

text \<open>
  \<open>operator ==\<close> of a buffer and a string holds exactly when the
  string is a prefix of the buffer and has no byte above 127: it neither
  compares the lengths nor, with a signed \<open>char\<close>, accepts a byte above 127.
\<close>

theorem equals_string_is_ascii_prefix:
  "equals_string a s \<longleftrightarrow> take (length s) (mData a) = s \<and> list_all (\<lambda>b. b < 128) s"
proof (cases "length s \<le> length (mData a)")
  case True
  then have "equals_string a s \<longleftrightarrow> (\<forall>i < length s. s ! i = mData a ! i \<and> s ! i < 128)"
    by (auto simp: equals_string_def foldl_all_false sint_eq_uint_byte)
  also have "\<dots> \<longleftrightarrow> take (length s) (mData a) = s \<and> list_all (\<lambda>b. b < 128) s"
    using True by (auto simp: list_eq_iff_nth_eq list_all_length)
  finally show ?thesis .
next
  case False
  then show ?thesis
    by (auto simp: equals_string_def dest: arg_cong [of _ _ length])
qed

subsection \<open>Streams\<close>

text \<open>
  Property C20. What a sequence of \<open>operator <<\<close> calls wrote is what the calls of
  \<open>operator >>\<close> with the same types read back, for every mixture of the streamed
  types, from any position of the writer (appending or overwriting), as long as
  positions stay below \<open>2^32\<close>.
\<close>

theorem stream_roundtrip:
  assumes "list_all valid_value vs" and "room w (length (concat (map enc_value vs)))"
  shows "\<exists>r. get_all (read_value junk)
      (read_Seek (ByteStreamReader (wArray (foldl write_value w vs))) (wIndex w)) (map type_of vs) = (r, vs)"
  using io.written_is_read [of w vs 0 junk] assms by (simp add: reader_of_def)

theorem stream_roundtrip_witness:
  "\<exists>r. get_all (read_value 0) (read_Seek (ByteStreamReader (wArray (foldl write_value
       (ByteStreamWriter (ByteArray_of_string [9])) [V_i32 (- 5), V_string [7, 8], V_u16 513]))) 1)
     [T_i32, T_string, T_u16] = (r, [V_i32 (- 5), V_string [7, 8], V_u16 513])"
proof -
  let ?vs = "[V_i32 (- 5), V_string [7, 8], V_u16 513]"
  have "list_all valid_value ?vs"
    by (simp add: valid_value_def)
  moreover have "room (ByteStreamWriter (ByteArray_of_string [9])) (length (concat (map enc_value ?vs)))"
    by (simp add: room_def ByteStreamWriter_def Size_def)
  ultimately show ?thesis
    using stream_roundtrip [of ?vs "ByteStreamWriter (ByteArray_of_string [9])" 0]
    by (simp add: ByteStreamWriter_def Size_def)
qed

text \<open>
  Property C21. A writer refines an overlay of byte strings: the values written
  replace the bytes from the position on, extend the buffer where they pass its
  end, leave every other byte alone, and advance the position by their length,
  which stays inside the buffer.
\<close>

theorem writer_refines_overlay:
  assumes "room w (length (concat (map enc_value vs)) + k)"
  shows "mData (wArray (foldl write_value w vs)) =
      take (unat (wIndex w)) (mData (wArray w)) @ concat (map enc_value vs) @
      drop (unat (wIndex w) + length (concat (map enc_value vs))) (mData (wArray w)) \<and>
    unat (wIndex (foldl write_value w vs)) = unat (wIndex w) + length (concat (map enc_value vs)) \<and>
    room (foldl write_value w vs) k"
  using io.put_all [OF assms] by (simp_all add: memcpy_def)

theorem writer_refines_overlay_witness:
  "mData (wArray (foldl write_value (write_Seek (ByteStreamWriter (ByteArray_of_string [1, 2, 3])) 2)
     [V_bool True, V_u16 513])) = [1, 2, 1, 1, 2]"
  using writer_refines_overlay
    [of "write_Seek (ByteStreamWriter (ByteArray_of_string [1, 2, 3])) 2" "[V_bool True, V_u16 513]" 0]
  by (simp add: room_def write_Seek_def ByteStreamWriter_def Size_def le_bytes_def upt_rec drop_bit_eq_div)

text \<open>
  A read past the end is not reported: with one byte left a 16-bit read
  delivers that byte twice, and with none left the uninitialised local.
\<close>

theorem read_u16_past_end:
  assumes "reader_ok r" and "unread r = []" and "2 \<le> length (mData (rArray r))"
  shows "read_u16 junk r = (r, ucast junk + push_bit 8 (ucast junk))"
proof -
  have "\<not> rIndex r < Size (rArray r)" "2 \<le> Size (rArray r)"
    using assms by (simp_all add: reader_ok_def unread_def word_less_nat_alt word_le_nat_alt unat_Size)
  then show ?thesis
    by (simp add: read_u16_def numeral_2_eq_2 read_u8_def)
qed

end
