(* ===== verification/Base64.thy ===== *)
theory Base64
  imports Prelude
begin


text \<open>
  Base64, twice: the class \<open>Base64\<close> of \<open>security/Base64Util.cpp\<close>, which the
  WebSocket handshake uses, and \<open>mbedtls_base64_encode\<close> and
  \<open>mbedtls_base64_decode\<close> of \<open>mbedtls/library/base64.c\<close>. Both encoders are
  related to one specification that reads three bytes as a 24-bit number and
  prints its base-64 digits, and both decoders to the inverse of it; a locale
  carries what follows for any such pair.

  Characters are bytes. The buffers of mbedtls are lists with their length; the
  bytes stored through \<open>*p++\<close> are collected and then laid over the buffer, and
  a store past its end is \<open>OUT_OF_BOUNDS\<close>.
\<close>

subsection \<open>\<open>security/Base64Util.cpp\<close>\<close>

definition base64_chars :: "byte list" where
  "base64_chars = map of_char
     (''ABCDEFGHIJKLMNOPQRSTUVWXYZ'' @ ''abcdefghijklmnopqrstuvwxyz'' @ ''0123456789+/'')"

definition isalnum_byte :: "byte \<Rightarrow> bool" where
  "isalnum_byte c \<longleftrightarrow> 48 \<le> c \<and> c \<le> 57 \<or> 65 \<le> c \<and> c \<le> 90 \<or> 97 \<le> c \<and> c \<le> 122"

definition is_base64 :: "byte \<Rightarrow> bool" where
  "is_base64 c \<longleftrightarrow> isalnum_byte c \<or> c = 43 \<or> c = 47"

definition char_array_4_of :: "byte list \<Rightarrow> byte list" where
  "char_array_4_of a =
     [drop_bit 2 (a ! 0 AND 0xfc),
      push_bit 4 (a ! 0 AND 0x03) + drop_bit 4 (a ! 1 AND 0xf0),
      push_bit 2 (a ! 1 AND 0x0f) + drop_bit 6 (a ! 2 AND 0xc0),
      a ! 2 AND 0x3f]"

text \<open>\<open>char_array_3[0..i)\<close> is the second argument of the loop.\<close>

fun Encode_loop :: "byte list \<Rightarrow> byte list \<Rightarrow> byte list \<Rightarrow> byte list \<times> byte list" where
  "Encode_loop [] a3 ret = (a3, ret)"
| "Encode_loop (c # cs) a3 ret =
     (let a3 = a3 @ [c]
      in if length a3 = 3
         then Encode_loop cs [] (ret @ map (\<lambda>k. base64_chars ! unat k) (char_array_4_of a3))
         else Encode_loop cs a3 ret)"

definition Encode :: "byte list \<Rightarrow> byte list" where
  "Encode bytes_to_encode =
     (let (a3, ret) = Encode_loop bytes_to_encode [] [];
          i = length a3
      in if i \<noteq> 0
         then let a4 = char_array_4_of (a3 @ replicate (3 - i) 0);
                  ret = ret @ map (\<lambda>k. base64_chars ! unat k) (take (i + 1) a4)
              in ret @ replicate (3 - i) 61
         else ret)"

text \<open>\<open>static_cast<unsigned char>(base64_chars.find(c))\<close>; \<open>npos\<close> becomes 255.\<close>

definition base64_find :: "byte \<Rightarrow> byte" where
  "base64_find c =
     (let k = length (takeWhile (\<lambda>x. x \<noteq> c) base64_chars)
      in if k < length base64_chars then of_nat k else 255)"

definition char_array_3_of :: "byte list \<Rightarrow> byte list" where
  "char_array_3_of a =
     [push_bit 2 (a ! 0) + drop_bit 4 (a ! 1 AND 0x30),
      push_bit 4 (a ! 1 AND 0xf) + drop_bit 2 (a ! 2 AND 0x3c),
      push_bit 6 (a ! 2 AND 0x3) + a ! 3]"

fun Decode_loop :: "byte list \<Rightarrow> byte list \<Rightarrow> byte list \<Rightarrow> byte list \<times> byte list" where
  "Decode_loop [] a4 ret = (a4, ret)"
| "Decode_loop (c # cs) a4 ret =
     (if c \<noteq> 61 \<and> is_base64 c
      then let a4 = a4 @ [c]
           in if length a4 = 4
              then Decode_loop cs [] (ret @ char_array_3_of (map base64_find a4))
              else Decode_loop cs a4 ret
      else (a4, ret))"

definition Decode :: "byte list \<Rightarrow> byte list" where
  "Decode encoded_string =
     (let (a4, ret) = Decode_loop encoded_string [] [];
          i = length a4
      in if i \<noteq> 0
         then ret @ take (i - 1) (char_array_3_of (map base64_find (a4 @ replicate (4 - i) 0)))
         else ret)"

subsection \<open>\<open>mbedtls/library/base64.c\<close>\<close>

definition BASE64_BUFFER_TOO_SMALL :: int where "BASE64_BUFFER_TOO_SMALL = - 0x002A"
definition BASE64_INVALID_CHARACTER :: int where "BASE64_INVALID_CHARACTER = - 0x002C"

definition base64_enc_map :: "byte list" where
  "base64_enc_map =
     [65, 66, 67, 68, 69, 70, 71, 72, 73, 74,
      75, 76, 77, 78, 79, 80, 81, 82, 83, 84,
      85, 86, 87, 88, 89, 90, 97, 98, 99, 100,
      101, 102, 103, 104, 105, 106, 107, 108, 109, 110,
      111, 112, 113, 114, 115, 116, 117, 118, 119, 120,
      121, 122, 48, 49, 50, 51, 52, 53, 54, 55,
      56, 57, 43, 47]"

definition base64_dec_map :: "byte list" where
  "base64_dec_map =
     [127, 127, 127, 127, 127, 127, 127, 127, 127, 127,
      127, 127, 127, 127, 127, 127, 127, 127, 127, 127,
      127, 127, 127, 127, 127, 127, 127, 127, 127, 127,
      127, 127, 127, 127, 127, 127, 127, 127, 127, 127,
      127, 127, 127,  62, 127, 127, 127,  63,  52,  53,
       54,  55,  56,  57,  58,  59,  60,  61, 127, 127,
      127,  64, 127, 127, 127,   0,   1,   2,   3,   4,
        5,   6,   7,   8,   9,  10,  11,  12,  13,  14,
       15,  16,  17,  18,  19,  20,  21,  22,  23,  24,
       25, 127, 127, 127, 127, 127, 127,  26,  27,  28,
       29,  30,  31,  32,  33,  34,  35,  36,  37,  38,
       39,  40,  41,  42,  43,  44,  45,  46,  47,  48,
       49,  50,  51, 127, 127, 127, 127, 127]"

definition BASE64_SIZE_T_MAX :: nat where "BASE64_SIZE_T_MAX = 2 ^ 64 - 1"

text \<open>\<open>C1\<close>, \<open>C2\<close>, \<open>C3\<close> are \<open>int\<close>s that hold bytes.\<close>

abbreviation enc_char :: "u32 \<Rightarrow> byte" where
  "enc_char x \<equiv> base64_enc_map ! unat (x AND 0x3F)"

fun base64_encode_loop :: "byte list \<Rightarrow> byte list" where
  "base64_encode_loop (s1 # s2 # s3 # src) =
     (let C1 = ucast s1; C2 = ucast s2; C3 = ucast s3
      in [enc_char (drop_bit 2 C1), enc_char (push_bit 4 (C1 AND 3) + drop_bit 4 C2),
          enc_char (push_bit 2 (C2 AND 15) + drop_bit 6 C3), enc_char C3] @ base64_encode_loop src)"
| "base64_encode_loop (s1 # src) =
     (let C1 = ucast s1; C2 = (if src \<noteq> [] then ucast (hd src) else 0)
      in [enc_char (drop_bit 2 C1), enc_char (push_bit 4 (C1 AND 3) + drop_bit 4 C2),
          (if src \<noteq> [] then enc_char (push_bit 2 (C2 AND 15)) else 61), 61])"
| "base64_encode_loop [] = []"

text \<open>The stores through \<open>p\<close> from \<open>dst\<close> on.\<close>

definition store :: "byte list \<Rightarrow> byte list \<Rightarrow> byte list res" where
  "store dst out = (if length out \<le> length dst then Inr (memcpy dst 0 out) else Inl OUT_OF_BOUNDS)"

text \<open>
  The result is the return code, \<open>*olen\<close> and the destination; \<open>dst = None\<close> is
  the null pointer.
\<close>

definition mbedtls_base64_encode ::
    "byte list option \<Rightarrow> nat \<Rightarrow> byte list \<Rightarrow> int \<times> nat \<times> byte list option" where
  "mbedtls_base64_encode dst dlen src =
     (let slen = length src in
      if slen = 0 then (0, 0, dst)
      else
        let n = slen div 3 + (if slen mod 3 \<noteq> 0 then 1 else 0) in
        if n > (BASE64_SIZE_T_MAX - 1) div 4 then (BASE64_BUFFER_TOO_SMALL, BASE64_SIZE_T_MAX, dst)
        else
          let n = n * 4 in
          (case dst of
             None \<Rightarrow> (BASE64_BUFFER_TOO_SMALL, n + 1, dst)
           | Some d \<Rightarrow>
               if dlen < n + 1 then (BASE64_BUFFER_TOO_SMALL, n + 1, dst)
               else
                 let out = base64_encode_loop src in
                 case store d (out @ [0]) of
                   Inl e \<Rightarrow> (e, length out, dst)
                 | Inr d \<Rightarrow> (0, length out, Some d)))"

lemma dropWhile_Cons_length: "dropWhile P xs = c # cs \<Longrightarrow> length cs < length xs"
  using length_dropWhile_le [of P xs] by simp

text \<open>The first pass counts the characters \<open>n\<close> and the padding \<open>j\<close>; \<open>x\<close> counts spaces.\<close>

function base64_scan :: "byte list \<Rightarrow> nat \<Rightarrow> nat \<Rightarrow> (nat \<times> nat) res" where
  "base64_scan src n j =
     (let s = dropWhile (\<lambda>c. c = 32) src;
          x = of_nat (length src - length s) :: u32
      in case s of
           [] \<Rightarrow> Inr (n, j)
         | c # cs \<Rightarrow>
             if length s \<ge> 2 \<and> c = 13 \<and> cs ! 0 = 10 then base64_scan cs n j
             else if c = 10 then base64_scan cs n j
             else if x \<noteq> 0 then Inl BASE64_INVALID_CHARACTER
             else
               let j = (if c = 61 then j + 1 else j) in
               if c = 61 \<and> j > 2 then Inl BASE64_INVALID_CHARACTER
               else if c > 127 \<or> base64_dec_map ! unat c = 127 then Inl BASE64_INVALID_CHARACTER
               else if base64_dec_map ! unat c < 64 \<and> j \<noteq> 0 then Inl BASE64_INVALID_CHARACTER
               else base64_scan cs (n + 1) j)"
  by pat_completeness auto
termination
  by (relation "measure (\<lambda>(src, n, j). length src)") (auto dest: dropWhile_Cons_length [OF sym])

declare base64_scan.simps [simp del]

fun base64_decode_loop :: "byte list \<Rightarrow> u32 \<Rightarrow> nat \<Rightarrow> u32 \<Rightarrow> byte list" where
  "base64_decode_loop [] j n x = []"
| "base64_decode_loop (c # src) j n x =
     (if c = 13 \<or> c = 10 \<or> c = 32 then base64_decode_loop src j n x
      else
        let j = (if base64_dec_map ! unat c = 64 then j - 1 else j);
            x = push_bit 6 x OR ucast (base64_dec_map ! unat c AND 0x3F);
            n = n + 1
        in if n = 4
           then (if j > 0 then [ucast (drop_bit 16 x)] else []) @
                (if j > 1 then [ucast (drop_bit 8 x)] else []) @
                (if j > 2 then [ucast x] else []) @ base64_decode_loop src j 0 x
           else base64_decode_loop src j n x)"

definition mbedtls_base64_decode ::
    "byte list option \<Rightarrow> nat \<Rightarrow> byte list \<Rightarrow> int \<times> nat option \<times> byte list option" where
  "mbedtls_base64_decode dst dlen src =
     (case base64_scan src 0 0 of
        Inl e \<Rightarrow> (e, None, dst)
      | Inr (n, j) \<Rightarrow>
          if n = 0 then (0, Some 0, dst)
          else
            let n = 6 * (n div 8) + (6 * (n mod 8) + 7) div 8;
                n = n - j in
            (case dst of
               None \<Rightarrow> (BASE64_BUFFER_TOO_SMALL, Some n, dst)
             | Some d \<Rightarrow>
                 if dlen < n then (BASE64_BUFFER_TOO_SMALL, Some n, dst)
                 else
                   let out = base64_decode_loop src 3 0 0 in
                   case store d out of
                     Inl e \<Rightarrow> (e, Some (length out), dst)
                   | Inr d \<Rightarrow> (0, Some (length out), Some d)))"


subsection \<open>Specification\<close>

text \<open>Three bytes are a number of 24 bits, printed with four digits in base 64.\<close>

fun base64_spec :: "byte list \<Rightarrow> byte list" where
  "base64_spec (a # b # c # r) =
     (let n = unat a * 65536 + unat b * 256 + unat c
      in [base64_chars ! (n div 262144), base64_chars ! (n div 4096 mod 64),
          base64_chars ! (n div 64 mod 64), base64_chars ! (n mod 64)] @ base64_spec r)"
| "base64_spec [a, b] =
     (let n = unat a * 65536 + unat b * 256
      in [base64_chars ! (n div 262144), base64_chars ! (n div 4096 mod 64),
          base64_chars ! (n div 64 mod 64), 61])"
| "base64_spec [a] =
     (let n = unat a * 65536
      in [base64_chars ! (n div 262144), base64_chars ! (n div 4096 mod 64), 61, 61])"
| "base64_spec [] = []"

lemma sextets:
  fixes A B C :: nat
  assumes "B < 256" "C < 256"
  defines "n \<equiv> A * 65536 + B * 256 + C"
  shows "n div 262144 = A div 4"
    "n div 4096 mod 64 = A mod 4 * 16 + B div 16"
    "n div 64 mod 64 = B mod 16 * 4 + C div 64"
    "n mod 64 = C mod 64"
proof -
  have 1: "n div 64 = A * 1024 + B * 4 + C div 64" "n mod 64 = C mod 64"
  proof -
    have n: "n = C + 64 * (A * 1024 + B * 4)"
      by (simp add: n_def)
    show "n div 64 = A * 1024 + B * 4 + C div 64"
      unfolding n by (subst div_mult_self2) simp_all
    show "n mod 64 = C mod 64"
      unfolding n by (rule mod_mult_self2)
  qed
  have C: "C div 64 < 4"
    using assms(2) by (simp add: div_less_iff_less_mult)
  have 2: "n div 4096 = A * 16 + B div 16"
  proof -
    have "n div 4096 = n div 64 div 64"
      by (simp add: div_mult2_eq [symmetric])
    also have "\<dots> = (B * 4 + C div 64 + 64 * (A * 16)) div 64"
      by (simp add: 1 algebra_simps)
    also have "\<dots> = A * 16 + (B * 4 + C div 64) div 64"
      by simp
    also have "(B * 4 + C div 64) div 64 = (B * 4 + C div 64) div 4 div 16"
      by (simp add: div_mult2_eq [symmetric])
    also have "(B * 4 + C div 64) div 4 = B"
      using C by simp
    finally show ?thesis .
  qed
  have B: "B div 16 < 16"
    using assms(1) by (simp add: div_less_iff_less_mult)
  show "n div 262144 = A div 4"
  proof -
    have "n div 262144 = n div 4096 div 64"
      by (simp add: div_mult2_eq [symmetric])
    also have "\<dots> = (A * 16 + B div 16) div 16 div 4"
      by (simp add: 2 div_mult2_eq [symmetric])
    also have "(A * 16 + B div 16) div 16 = A"
      using B by simp
    finally show ?thesis .
  qed
  show "n mod 64 = C mod 64"
    by (rule 1)
  have "(A * 16 + B div 16) mod 64 = A mod 4 * 16 + B div 16"
    using mod_mult2_eq [of "A * 16 + B div 16" 16 4] B by simp
  then show "n div 4096 mod 64 = A mod 4 * 16 + B div 16"
    by (simp add: 2)
  have "(B * 4 + C div 64 + 64 * (A * 16)) mod 64 = (B * 4 + C div 64) mod (4 * 16)"
    by (simp only: mod_mult_self2) simp
  also have "\<dots> = B mod 16 * 4 + C div 64"
    using mod_mult2_eq [of "B * 4 + C div 64" 4 16] C by simp
  finally show "n div 64 mod 64 = B mod 16 * 4 + C div 64"
    by (simp add: 1 algebra_simps)
qed

lemma byte_masks:
  fixes a :: byte
  shows "a AND 0xfc = push_bit 2 (drop_bit 2 a)" "a AND 3 = take_bit 2 a" "a AND 0xf0 = push_bit 4 (drop_bit 4 a)"
    "a AND 0xf = take_bit 4 a" "a AND 0xc0 = push_bit 6 (drop_bit 6 a)" "a AND 0x3f = take_bit 6 a"
    "a AND 0x30 = push_bit 4 (take_bit 2 (drop_bit 4 a))" "a AND 0x3c = push_bit 2 (take_bit 4 (drop_bit 2 a))"
  by (rule byte_bits_eqI; simp add: bit_simps)+

lemma unat_sextets:
  fixes a b c :: byte
  shows "unat (drop_bit 2 (a AND 0xfc)) = unat a div 4"
    "unat (push_bit 4 (a AND 3) + drop_bit 4 (b AND 0xf0)) = unat a mod 4 * 16 + unat b div 16"
    "unat (push_bit 2 (b AND 0xf) + drop_bit 6 (c AND 0xc0)) = unat b mod 16 * 4 + unat c div 64"
    "unat (c AND 0x3f) = unat c mod 64"
proof -
  have dd: "drop_bit n (push_bit n (drop_bit n x)) = drop_bit n x" for n and x :: byte
    using bit_imp_le_length [of x] by (auto intro!: bit_word_eqI simp: bit_simps)
  have d: "unat (drop_bit n x) = unat x div 2 ^ n" for n and x :: byte
    by (simp add: unat_div drop_bit_eq_div [symmetric] unat_drop_bit_eq)
  have t: "unat (take_bit n x) = unat x mod 2 ^ n" for n and x :: byte
    unfolding unsigned_take_bit_eq by (rule take_bit_eq_mod)
  have p: "unat (push_bit n x) = unat x * 2 ^ n" if "unat x * 2 ^ n < 256" for n and x :: byte
    using that unfolding unsigned_push_bit_eq by (simp add: push_bit_eq_mult take_bit_nat_eq_self)
  have s: "unat (x + y) = unat x + unat y" if "unat x + unat y < 256" for x y :: byte
    using that unat_add_lem [of x y] by simp
  have q: "unat (push_bit 4 (take_bit 2 a)) = unat a mod 4 * 16" "unat (push_bit 2 (take_bit 4 b)) = unat b mod 16 * 4"
    using p [of "take_bit 2 a" 4] p [of "take_bit 4 b" 2] by (simp_all add: t)
  have bd: "unat b div 16 < 16" "unat c div 64 < 4" "unat a mod 4 < 4" "unat b mod 16 < 16"
    using unat_byte_less [of b] unat_byte_less [of c] by (simp_all add: div_less_iff_less_mult)
  show "unat (drop_bit 2 (a AND 0xfc)) = unat a div 4" "unat (c AND 0x3f) = unat c mod 64"
    by (simp_all add: byte_masks dd d t)
  show "unat (push_bit 4 (a AND 3) + drop_bit 4 (b AND 0xf0)) = unat a mod 4 * 16 + unat b div 16"
    unfolding byte_masks dd using bd by (subst s) (simp_all add: q d)
  show "unat (push_bit 2 (b AND 0xf) + drop_bit 6 (c AND 0xc0)) = unat b mod 16 * 4 + unat c div 64"
    unfolding byte_masks dd using bd by (subst s) (simp_all add: q d)
qed


lemma base64_chars_eq: "base64_chars = base64_enc_map"
  by (simp add: base64_chars_def base64_enc_map_def of_char_def)

lemma length_base64_chars [simp]: "length base64_chars = 64"
  by (simp add: base64_chars_def)

lemma base64_chars_in: "list_all (\<lambda>c. is_base64 c \<and> c \<noteq> 61 \<and> c \<le> 127 \<and> c \<noteq> 13 \<and> c \<noteq> 10 \<and> c \<noteq> 32) base64_chars"
  by (simp add: base64_chars_eq base64_enc_map_def is_base64_def isalnum_byte_def)

lemma base64_dec_enc: "map (\<lambda>c. base64_dec_map ! unat c) base64_chars = map of_nat [0 ..< 64]"
  by (simp add: base64_chars_eq base64_enc_map_def base64_dec_map_def upt_rec)

lemma distinct_base64_chars: "distinct base64_chars"
  by (simp add: base64_chars_eq base64_enc_map_def)

lemma takeWhile_nth_distinct: "distinct xs \<Longrightarrow> k < length xs \<Longrightarrow> length (takeWhile (\<lambda>x. x \<noteq> xs ! k) xs) = k"
proof (induction xs arbitrary: k)
  case (Cons x xs)
  then show ?case
    by (cases k) auto
qed simp

lemma base64_digit:
  assumes "k < 64"
  shows "base64_find (base64_chars ! k) = of_nat k" "is_base64 (base64_chars ! k)" "base64_chars ! k \<noteq> 61"
    "\<not> 127 < base64_chars ! k" "base64_dec_map ! unat (base64_chars ! k) = of_nat k"
    "base64_chars ! k \<noteq> 13" "base64_chars ! k \<noteq> 10" "base64_chars ! k \<noteq> 32"
proof -
  show "base64_find (base64_chars ! k) = of_nat k"
    using assms takeWhile_nth_distinct [OF distinct_base64_chars, of k] by (simp add: base64_find_def)
  show "is_base64 (base64_chars ! k)" "base64_chars ! k \<noteq> 61" "\<not> 127 < base64_chars ! k"
    "base64_chars ! k \<noteq> 13" "base64_chars ! k \<noteq> 10" "base64_chars ! k \<noteq> 32"
    using assms base64_chars_in by (auto simp: list_all_length not_less)
  show "base64_dec_map ! unat (base64_chars ! k) = of_nat k"
    using assms arg_cong [OF base64_dec_enc, of "\<lambda>l. l ! k"] by simp
qed


subsection \<open>Both encoders meet the specification\<close>

abbreviation quad :: "byte list \<Rightarrow> byte list" where
  "quad a3 \<equiv> map (\<lambda>k. base64_chars ! unat k) (char_array_4_of a3)"

lemma length_char_array_4_of [simp]: "length (char_array_4_of a) = 4"
  by (simp add: char_array_4_of_def)

lemma Encode_loop_acc:
  "fst (Encode_loop cs a3 (r1 @ r2)) = fst (Encode_loop cs a3 r2)"
  "snd (Encode_loop cs a3 (r1 @ r2)) = r1 @ snd (Encode_loop cs a3 r2)"
  by (induction cs arbitrary: a3 r2) (simp_all add: Let_def)

lemma Encode_triple: "Encode (a # b # c # r) = quad [a, b, c] @ Encode r"
  using Encode_loop_acc [of r "[]" "quad [a, b, c]" "[]"]
  by (cases "Encode_loop r [] []"; cases "Encode_loop r [] (quad [a, b, c])")
    (simp add: Encode_def Let_def)

lemma Encode_rest:
  "Encode [a, b] = take 3 (quad [a, b, 0]) @ [61]"
  "Encode [a] = take 2 (quad [a, 0, 0]) @ [61, 61]"
  "Encode [] = []"
  by (simp_all add: Encode_def Let_def numeral_eq_Suc take_map)

lemma char_array_4_of_list:
  "char_array_4_of [a, b, c] =
     [drop_bit 2 (a AND 0xfc), push_bit 4 (a AND 0x03) + drop_bit 4 (b AND 0xf0),
      push_bit 2 (b AND 0x0f) + drop_bit 6 (c AND 0xc0), c AND 0x3f]"
  by (simp add: char_array_4_of_def)

lemma quad_spec:
  fixes a b c :: byte
  defines "n \<equiv> unat a * 65536 + unat b * 256 + unat c"
  shows "quad [a, b, c] = [base64_chars ! (n div 262144), base64_chars ! (n div 4096 mod 64),
    base64_chars ! (n div 64 mod 64), base64_chars ! (n mod 64)]"
  unfolding n_def sextets [OF unat_byte_less unat_byte_less] char_array_4_of_list
  by (simp only: list.map unat_sextets)

lemma Encode_spec: "Encode s = base64_spec s"
proof (induction s rule: base64_spec.induct)
  case (1 a b c r)
  then show ?case
    by (simp add: Encode_triple quad_spec Let_def)
next
  case (2 a b)
  show ?case
    using quad_spec [of a b 0] by (simp add: Encode_rest Let_def)
next
  case (3 a)
  show ?case
    using quad_spec [of a 0 0] by (simp add: Encode_rest Let_def)
next
  case 4
  show ?case
    by (simp add: Encode_rest)
qed

lemma unat_ucast_byte: "unat (ucast (a :: byte) :: u32) = unat a"
  by (simp add: unsigned_ucast_eq take_bit_nat_eq_self less_trans [OF unat_byte_less])

lemma enc_sextets:
  fixes a b c :: byte
  shows "unat (drop_bit 2 (ucast a :: u32) AND 0x3F) = unat a div 4"
    "unat (push_bit 4 (ucast a AND 3) + drop_bit 4 (ucast b) AND 0x3F :: u32) = unat a mod 4 * 16 + unat b div 16"
    "unat (push_bit 2 (ucast b AND 15) + drop_bit 6 (ucast c) AND 0x3F :: u32) = unat b mod 16 * 4 + unat c div 64"
    "unat (ucast c AND 0x3F :: u32) = unat c mod 64"
proof -
  have m: "x AND 0x3F = take_bit 6 x" "x AND 3 = take_bit 2 x" "x AND 15 = take_bit 4 x" for x :: u32
    using take_bit_eq_mask [of 6 x] take_bit_eq_mask [of 2 x] take_bit_eq_mask [of 4 x]
    by (simp_all add: mask_eq_exp_minus_1)
  have d: "unat (drop_bit n x) = unat x div 2 ^ n" for n and x :: u32
    unfolding unat_drop_bit_eq by (rule drop_bit_eq_div)
  have t: "unat (take_bit n x) = unat x mod 2 ^ n" for n and x :: u32
    unfolding unsigned_take_bit_eq by (rule take_bit_eq_mod)
  have p: "unat (push_bit n x) = unat x * 2 ^ n" if "unat x * 2 ^ n < 2 ^ 32" for n and x :: u32
    using that unfolding unsigned_push_bit_eq by (simp add: push_bit_eq_mult take_bit_nat_eq_self)
  have s: "unat (x + y) = unat x + unat y" if "unat x + unat y < 2 ^ 32" for x y :: u32
    using that unat_add_lem [of x y] by simp
  have q: "unat (push_bit 4 (take_bit 2 (ucast a :: u32))) = unat a mod 4 * 16"
      "unat (push_bit 2 (take_bit 4 (ucast b :: u32))) = unat b mod 16 * 4"
    using p [of "take_bit 2 (ucast a)" 4] p [of "take_bit 4 (ucast b)" 2] by (simp_all add: t unat_ucast_byte)
  have bd: "unat a div 4 < 64" "unat b div 16 < 16" "unat c div 64 < 4" "unat a mod 4 < 4" "unat b mod 16 < 16"
    using unat_byte_less [of a] unat_byte_less [of b] unat_byte_less [of c] by (simp_all add: div_less_iff_less_mult)
  show "unat (drop_bit 2 (ucast a :: u32) AND 0x3F) = unat a div 4" "unat (ucast c AND 0x3F :: u32) = unat c mod 64"
    using bd unfolding m t d unat_ucast_byte by simp_all
  show "unat (push_bit 4 (ucast a AND 3) + drop_bit 4 (ucast b) AND 0x3F :: u32) = unat a mod 4 * 16 + unat b div 16"
    unfolding m t using bd by (subst s) (simp_all add: q d unat_ucast_byte)
  show "unat (push_bit 2 (ucast b AND 15) + drop_bit 6 (ucast c) AND 0x3F :: u32) = unat b mod 16 * 4 + unat c div 64"
    unfolding m t using bd by (subst s) (simp_all add: q d unat_ucast_byte)
qed

lemma base64_encode_loop_spec: "base64_encode_loop s = base64_spec s"
proof (induction s rule: base64_spec.induct)
  case (1 a b c r)
  then show ?case
    by (simp add: Let_def enc_sextets sextets [OF unat_byte_less unat_byte_less] base64_chars_eq del: push_bit_and)
next
  case (2 a b)
  show ?case
    using enc_sextets(1) [of a] enc_sextets(2) [of a b] enc_sextets(3) [of b 0]
      sextets [OF unat_byte_less [of b], of 0 "unat a"]
    by (simp add: Let_def base64_chars_eq del: push_bit_and)
next
  case (3 a)
  show ?case
    using enc_sextets(1) [of a] enc_sextets(2) [of a 0] sextets [of 0 0 "unat a"]
    by (simp add: Let_def base64_chars_eq del: push_bit_and)
next
  case 4
  show ?case
    by simp
qed


subsection \<open>Both decoders invert the specification\<close>

lemma char_array_3_of_4:
  "char_array_3_of [drop_bit 2 (a AND 0xfc), push_bit 4 (a AND 0x03) + drop_bit 4 (b AND 0xf0),
      push_bit 2 (b AND 0x0f) + drop_bit 6 (c AND 0xc0), c AND 0x3f] = [a, b, c]"
  "take 2 (char_array_3_of [drop_bit 2 (a AND 0xfc), push_bit 4 (a AND 0x03) + drop_bit 4 (b AND 0xf0),
      push_bit 2 (b AND 0x0f) + drop_bit 6 (c AND 0xc0), z]) = [a, b]"
  "take 1 (char_array_3_of [drop_bit 2 (a AND 0xfc), push_bit 4 (a AND 0x03) + drop_bit 4 (b AND 0xf0), y, z]) = [a]"
proof -
  have 2: "push_bit 4 (a AND 0x03) + drop_bit 4 (b AND 0xf0) = push_bit 4 (a AND 0x03) OR drop_bit 4 (b AND 0xf0)"
    by (rule disjoint_bytes, rule byte_bits_eqI) (simp_all add: bit_simps)
  have 3: "push_bit 2 (b AND 0x0f) + drop_bit 6 (c AND 0xc0) = push_bit 2 (b AND 0x0f) OR drop_bit 6 (c AND 0xc0)"
    by (rule disjoint_bytes, rule byte_bits_eqI) (simp_all add: bit_simps)
  let ?x = "drop_bit 2 (a AND 0xfc)"
  let ?y = "push_bit 4 (a AND 0x03) OR drop_bit 4 (b AND 0xf0)"
  let ?z = "push_bit 2 (b AND 0x0f) OR drop_bit 6 (c AND 0xc0)"
  have a: "push_bit 2 ?x + drop_bit 4 (?y AND 0x30) = a"
    by (subst disjoint_bytes, rule byte_bits_eqI) (auto simp: bit_simps intro!: byte_bits_eqI)
  have b: "push_bit 4 (?y AND 0xf) + drop_bit 2 (?z AND 0x3c) = b"
    by (subst disjoint_bytes, rule byte_bits_eqI) (auto simp: bit_simps intro!: byte_bits_eqI)
  have c: "push_bit 6 (?z AND 0x3) + (c AND 0x3f) = c"
    by (subst disjoint_bytes, rule byte_bits_eqI) (auto simp: bit_simps intro!: byte_bits_eqI)
  show "char_array_3_of [?x, push_bit 4 (a AND 0x03) + drop_bit 4 (b AND 0xf0),
      push_bit 2 (b AND 0x0f) + drop_bit 6 (c AND 0xc0), c AND 0x3f] = [a, b, c]"
    unfolding 2 3 using a b c by (simp add: char_array_3_of_def del: push_bit_and push_bit_or)
  show "take 2 (char_array_3_of [?x, push_bit 4 (a AND 0x03) + drop_bit 4 (b AND 0xf0),
      push_bit 2 (b AND 0x0f) + drop_bit 6 (c AND 0xc0), z]) = [a, b]"
    unfolding 2 3 using a b by (simp add: char_array_3_of_def del: push_bit_and push_bit_or)
  show "take 1 (char_array_3_of [?x, push_bit 4 (a AND 0x03) + drop_bit 4 (b AND 0xf0), y, z]) = [a]"
    unfolding 2 using a by (simp add: char_array_3_of_def del: push_bit_and push_bit_or)
qed


lemma char_array_4_less: "k \<in> set (char_array_4_of [a, b, c]) \<Longrightarrow> unat k < 64"
proof -
  have lt: "unat a div 4 < 64" "unat b div 16 < 16" "unat c div 64 < 4" "unat a mod 4 < 4" "unat b mod 16 < 16"
    "unat c mod 64 < 64"
    using unat_byte_less [of a] unat_byte_less [of b] unat_byte_less [of c] by (simp_all add: div_less_iff_less_mult)
  have "unat a mod 4 * 16 + unat b div 16 < 64" "unat b mod 16 * 4 + unat c div 64 < 64"
    using lt by linarith+
  with lt(1,6) show "k \<in> set (char_array_4_of [a, b, c]) \<Longrightarrow> unat k < 64"
    unfolding char_array_4_of_list using unat_sextets by (auto simp del: push_bit_and)
qed

lemma base64_find_char: "unat k < 64 \<Longrightarrow> base64_find (base64_chars ! unat k) = k"
  by (simp add: base64_digit)

lemma Decode_loop_acc:
  "fst (Decode_loop cs a4 (r1 @ r2)) = fst (Decode_loop cs a4 r2)"
  "snd (Decode_loop cs a4 (r1 @ r2)) = r1 @ snd (Decode_loop cs a4 r2)"
  by (induction cs arbitrary: a4 r2) (simp_all add: Let_def)

lemma Decode_quad: "Decode (quad [a, b, c] @ r) = [a, b, c] @ Decode r"
proof -
  obtain w x y z where ks: "char_array_4_of [a, b, c] = [w, x, y, z]"
    by (simp add: char_array_4_of_list)
  have k: "unat w < 64" "unat x < 64" "unat y < 64" "unat z < 64"
    using char_array_4_less [of _ a b c] by (simp_all add: ks)
  have "Decode_loop (quad [a, b, c] @ r) [] [] = Decode_loop r [] ([a, b, c] @ [])"
    using k char_array_3_of_4(1) [of a b c, folded char_array_4_of_list]
    by (simp add: ks base64_digit base64_find_char Let_def)
  then show ?thesis
    using Decode_loop_acc [of r "[]" "[a, b, c]" "[]"]
    by (cases "Decode_loop r [] []"; cases "Decode_loop r [] [a, b, c]") (simp add: Decode_def Let_def)
qed

lemma Decode_stop: "Decode_loop (61 # r) a4 ret = (a4, ret)"
  by simp

lemma Decode_rest:
  "Decode (take 3 (quad [a, b, 0]) @ [61]) = [a, b]"
  "Decode (take 2 (quad [a, 0, 0]) @ [61, 61]) = [a]"
proof -
  obtain w x y z where ks: "char_array_4_of [a, b, 0] = [w, x, y, z]"
    by (simp add: char_array_4_of_list)
  have k: "unat w < 64" "unat x < 64" "unat y < 64"
    using char_array_4_less [of _ a b 0] by (simp_all add: ks)
  have e: "take 2 (char_array_3_of [w, x, y, base64_find 0]) = [a, b]"
    using char_array_3_of_4(2) [of a b 0 "base64_find 0"] ks unfolding char_array_4_of_list by simp
  show "Decode (take 3 (quad [a, b, 0]) @ [61]) = [a, b]"
    using k e by (simp add: ks Decode_def base64_digit base64_find_char Let_def numeral_2_eq_2)
next
  obtain w x y z where ks: "char_array_4_of [a, 0, 0] = [w, x, y, z]"
    by (simp add: char_array_4_of_list)
  have k: "unat w < 64" "unat x < 64"
    using char_array_4_less [of _ a 0 0] by (simp_all add: ks)
  have e: "take 1 (char_array_3_of [w, x, base64_find 0, base64_find 0]) = [a]"
    using char_array_3_of_4(3) [of a 0 "base64_find 0" "base64_find 0"] ks unfolding char_array_4_of_list by simp
  show "Decode (take 2 (quad [a, 0, 0]) @ [61, 61]) = [a]"
    using k e by (simp add: ks Decode_def base64_digit base64_find_char Let_def numeral_2_eq_2)
qed

lemma Decode_Encode: "Decode (Encode s) = s"
proof (induction s rule: base64_spec.induct)
  case (1 a b c r)
  then show ?case
    by (simp only: Encode_triple Decode_quad) simp
next
  case (2 a b)
  show ?case
    by (simp only: Encode_rest Decode_rest)
next
  case (3 a)
  show ?case
    by (simp only: Encode_rest Decode_rest)
next
  case 4
  show ?case
    by (simp add: Encode_rest Decode_def)
qed


lemma base64_scan_Nil [simp]: "base64_scan [] n j = Inr (n, j)"
  by (simp add: base64_scan.simps [of "[]"])

lemma base64_scan_char:
  "k < 64 \<Longrightarrow> base64_scan (base64_chars ! k # cs) n 0 = base64_scan cs (Suc n) 0"
  using base64_digit [of k] by (subst base64_scan.simps) (simp add: Let_def word_less_nat_alt word_unat_eq_iff unat_of_nat)

lemma base64_scan_pad: "j < 2 \<Longrightarrow> base64_scan (61 # cs) n j = base64_scan cs (Suc n) (Suc j)"
  by (subst base64_scan.simps) (simp add: Let_def base64_dec_map_def)

lemma base64_scan_quad: "base64_scan (quad [a, b, c] @ r) n 0 = base64_scan r (n + 4) 0"
proof -
  obtain w x y z where ks: "char_array_4_of [a, b, c] = [w, x, y, z]"
    by (simp add: char_array_4_of_list)
  have k: "unat w < 64" "unat x < 64" "unat y < 64" "unat z < 64"
    using char_array_4_less [of _ a b c] by (simp_all add: ks)
  then show ?thesis
    by (simp add: ks base64_scan_char numeral_eq_Suc)
qed

lemma base64_scan_rest:
  "base64_scan (take 3 (quad [a, b, 0]) @ [61]) n 0 = Inr (n + 4, 1)"
  "base64_scan (take 2 (quad [a, 0, 0]) @ [61, 61]) n 0 = Inr (n + 4, 2)"
proof -
  obtain w x y z where ks: "char_array_4_of [a, b, 0] = [w, x, y, z]"
    by (simp add: char_array_4_of_list)
  have k: "unat w < 64" "unat x < 64" "unat y < 64"
    using char_array_4_less [of _ a b 0] by (simp_all add: ks)
  then show "base64_scan (take 3 (quad [a, b, 0]) @ [61]) n 0 = Inr (n + 4, 1)"
    by (simp add: ks base64_scan_char base64_scan_pad)
next
  obtain w x y z where ks: "char_array_4_of [a, 0, 0] = [w, x, y, z]"
    by (simp add: char_array_4_of_list)
  have k: "unat w < 64" "unat x < 64"
    using char_array_4_less [of _ a 0 0] by (simp_all add: ks)
  then show "base64_scan (take 2 (quad [a, 0, 0]) @ [61, 61]) n 0 = Inr (n + 4, 2)"
    by (simp add: ks base64_scan_char base64_scan_pad)
qed

lemma Suc3: "Suc (Suc (Suc n)) = n + 3"
  by simp

lemma base64_scan_spec:
  "base64_scan (Encode s) n 0 = Inr (n + length (Encode s), (3 - length s mod 3) mod 3)"
proof (induction s arbitrary: n rule: base64_spec.induct)
  case (1 a b c r)
  have "Suc (Suc (Suc (length r))) mod 3 = length r mod 3"
    using mod_add_self2 [of "length r" 3] unfolding Suc3 .
  then show ?case
    using "1.IH" [OF refl, of "n + 4"] by (simp add: Encode_triple base64_scan_quad)
next
  case (2 a b)
  show ?case
    by (simp only: Encode_rest base64_scan_rest) simp
next
  case (3 a)
  show ?case
    by (simp only: Encode_rest base64_scan_rest) simp
next
  case 4
  show ?case
    by (simp add: Encode_rest)
qed

lemma length_Encode: "length (Encode s) = 4 * ((length s + 2) div 3)"
proof (induction s rule: base64_spec.induct)
  case (1 a b c r)
  have "(Suc (Suc (Suc (length r))) + 2) div 3 = Suc ((length r + 2) div 3)"
    using div_add_self2 [of 3 "length r + 2"] unfolding Suc3 by (simp add: ac_simps)
  then show ?case
    using 1 by (simp add: Encode_triple)
qed (simp_all add: Encode_rest)

definition bits24 :: "byte \<Rightarrow> byte \<Rightarrow> byte \<Rightarrow> byte \<Rightarrow> u32 \<Rightarrow> u32" where
  "bits24 k0 k1 k2 k3 x = push_bit 6 (push_bit 6 (push_bit 6 (push_bit 6 x OR ucast (k0 AND 0x3F)) OR ucast (k1 AND 0x3F))
     OR ucast (k2 AND 0x3F)) OR ucast (k3 AND 0x3F)"

lemma bits24_bytes:
  fixes a b c :: byte
  defines "k1 \<equiv> push_bit 4 (a AND 0x03) + drop_bit 4 (b AND 0xf0)"
    and "k2 \<equiv> push_bit 2 (b AND 0x0f) + drop_bit 6 (c AND 0xc0)"
  shows "ucast (drop_bit 16 (bits24 (drop_bit 2 (a AND 0xfc)) k1 k2' k3' x)) = a"
    "ucast (drop_bit 8 (bits24 (drop_bit 2 (a AND 0xfc)) k1 k2 k3' x)) = b"
    "ucast (bits24 (drop_bit 2 (a AND 0xfc)) k1 k2 (c AND 0x3f) x) = c"
proof -
  have 2: "k1 = push_bit 4 (a AND 0x03) OR drop_bit 4 (b AND 0xf0)"
    unfolding k1_def by (rule disjoint_bytes, rule byte_bits_eqI) (simp_all add: bit_simps)
  have 3: "k2 = push_bit 2 (b AND 0x0f) OR drop_bit 6 (c AND 0xc0)"
    unfolding k2_def by (rule disjoint_bytes, rule byte_bits_eqI) (simp_all add: bit_simps)
  show "ucast (drop_bit 16 (bits24 (drop_bit 2 (a AND 0xfc)) k1 k2' k3' x)) = a"
    unfolding 2 3 by (rule byte_bits_eqI) (simp_all add: bits24_def bit_simps)
  show "ucast (drop_bit 8 (bits24 (drop_bit 2 (a AND 0xfc)) k1 k2 k3' x)) = b"
    unfolding 2 3 by (rule byte_bits_eqI) (simp_all add: bits24_def bit_simps)
  show "ucast (bits24 (drop_bit 2 (a AND 0xfc)) k1 k2 (c AND 0x3f) x) = c"
    unfolding 2 3 by (rule byte_bits_eqI) (simp_all add: bits24_def bit_simps)
qed


lemma base64_decode_char:
  assumes "k < 64"
  shows "base64_decode_loop (base64_chars ! k # cs) j n x =
    (let x = push_bit 6 x OR ucast (of_nat k AND 0x3F :: byte)
     in if Suc n = 4
        then (if j > 0 then [ucast (drop_bit 16 x)] else []) @
             (if j > 1 then [ucast (drop_bit 8 x)] else []) @
             (if j > 2 then [ucast x] else []) @ base64_decode_loop cs j 0 x
        else base64_decode_loop cs j (Suc n) x)"
proof -
  have "(of_nat k :: byte) \<noteq> 64"
    using assms by (simp add: word_unat_eq_iff unat_of_nat)
  then show ?thesis
    using base64_digit [OF assms] by (simp add: Let_def)
qed

lemma base64_decode_pad:
  "base64_decode_loop (61 # cs) j n x =
    (let j = j - 1; x = push_bit 6 x
     in if Suc n = 4
        then (if j > 0 then [ucast (drop_bit 16 x)] else []) @
             (if j > 1 then [ucast (drop_bit 8 x)] else []) @
             (if j > 2 then [ucast x] else []) @ base64_decode_loop cs j 0 x
        else base64_decode_loop cs j (Suc n) x)"
  by (simp add: base64_dec_map_def Let_def)

abbreviation base64_char :: "byte \<Rightarrow> byte" where
  "base64_char k \<equiv> base64_chars ! unat k"

lemma decode_four:
  fixes x :: u32
  assumes "unat k0 < 64" "unat k1 < 64" "unat k2 < 64" "unat k3 < 64"
  defines "X \<equiv> bits24 k0 k1 k2 k3 x"
  shows "base64_decode_loop (base64_char k0 # base64_char k1 # base64_char k2 # base64_char k3 # r) 3 0 x
    = [ucast (drop_bit 16 X), ucast (drop_bit 8 X), ucast X] @ base64_decode_loop r 3 0 X"
  unfolding base64_decode_char [OF assms(1)] base64_decode_char [OF assms(2)] base64_decode_char [OF assms(3)]
    base64_decode_char [OF assms(4)] of_nat_unat ucast_id X_def bits24_def Let_def
  by simp

lemma decode_three:
  fixes x :: u32
  assumes "unat k0 < 64" "unat k1 < 64" "unat k2 < 64"
  defines "X \<equiv> bits24 k0 k1 k2 0 x"
  shows "base64_decode_loop (base64_char k0 # base64_char k1 # base64_char k2 # [61]) 3 0 x
    = [ucast (drop_bit 16 X), ucast (drop_bit 8 X)]"
  unfolding base64_decode_char [OF assms(1)] base64_decode_char [OF assms(2)] base64_decode_char [OF assms(3)]
    base64_decode_pad of_nat_unat ucast_id X_def bits24_def Let_def
  by simp

lemma decode_two:
  fixes x :: u32
  assumes "unat k0 < 64" "unat k1 < 64"
  defines "X \<equiv> bits24 k0 k1 0 0 x"
  shows "base64_decode_loop (base64_char k0 # base64_char k1 # [61, 61]) 3 0 x = [ucast (drop_bit 16 X)]"
  unfolding base64_decode_char [OF assms(1)] base64_decode_char [OF assms(2)]
    base64_decode_pad of_nat_unat ucast_id X_def bits24_def Let_def
  by simp

lemma decode_quad:
  "\<exists>x'. base64_decode_loop (quad [a, b, c] @ r) 3 0 x = [a, b, c] @ base64_decode_loop r 3 0 x'"
proof -
  obtain w y z v where ks: "char_array_4_of [a, b, c] = [w, y, z, v]"
    by (simp add: char_array_4_of_list)
  have k: "unat w < 64" "unat y < 64" "unat z < 64" "unat v < 64"
    using char_array_4_less [of _ a b c] by (simp_all add: ks)
  have "[ucast (drop_bit 16 (bits24 w y z v x)), ucast (drop_bit 8 (bits24 w y z v x)), ucast (bits24 w y z v x)] = [a, b, c]"
    using bits24_bytes [of a b] ks unfolding char_array_4_of_list by auto
  then show ?thesis
    using decode_four [OF k, of r x] by (auto simp: ks)
qed

lemma decode_rest:
  "base64_decode_loop (take 3 (quad [a, b, 0]) @ [61]) 3 0 x = [a, b]"
  "base64_decode_loop (take 2 (quad [a, 0, 0]) @ [61, 61]) 3 0 x = [a]"
proof -
  obtain w y z v where ks: "char_array_4_of [a, b, 0] = [w, y, z, v]"
    by (simp add: char_array_4_of_list)
  have k: "unat w < 64" "unat y < 64" "unat z < 64"
    using char_array_4_less [of _ a b 0] by (simp_all add: ks)
  have "[ucast (drop_bit 16 (bits24 w y z 0 x)), ucast (drop_bit 8 (bits24 w y z 0 x))] = [a, b]"
    using bits24_bytes(1,2) [of a b] bits24_bytes(2) [of a b 0 0 x] ks unfolding char_array_4_of_list by auto
  then show "base64_decode_loop (take 3 (quad [a, b, 0]) @ [61]) 3 0 x = [a, b]"
    using decode_three [OF k, of x] by (simp add: ks)
next
  obtain w y z v where ks: "char_array_4_of [a, 0, 0] = [w, y, z, v]"
    by (simp add: char_array_4_of_list)
  have k: "unat w < 64" "unat y < 64"
    using char_array_4_less [of _ a 0 0] by (simp_all add: ks)
  have "[ucast (drop_bit 16 (bits24 w y 0 0 x))] = [a]"
    using bits24_bytes(1) [of a 0 0 0 x] ks unfolding char_array_4_of_list by auto
  then show "base64_decode_loop (take 2 (quad [a, 0, 0]) @ [61, 61]) 3 0 x = [a]"
    using decode_two [OF k, of x] by (simp add: ks)
qed

lemma base64_decode_loop_Encode: "base64_decode_loop (Encode s) 3 0 x = s"
proof (induction s arbitrary: x rule: base64_spec.induct)
  case (1 a b c r)
  obtain x' where "base64_decode_loop (quad [a, b, c] @ Encode r) 3 0 x = [a, b, c] @ base64_decode_loop (Encode r) 3 0 x'"
    using decode_quad [of a b c "Encode r" x] by blast
  then show ?case
    using "1.IH" [OF refl, of x'] by (simp only: Encode_triple) simp
next
  case (2 a b)
  show ?case
    by (simp only: Encode_rest decode_rest)
next
  case (3 a)
  show ?case
    by (simp only: Encode_rest decode_rest)
next
  case 4
  show ?case
    by (simp add: Encode_rest)
qed


subsection \<open>The decoder stays inside the buffer it checked\<close>

abbreviation not_blank :: "byte \<Rightarrow> bool" where
  "not_blank c \<equiv> \<not> (c = 13 \<or> c = 10 \<or> c = 32)"

lemma filter_dropWhile_blank: "filter not_blank (dropWhile (\<lambda>c. c = 32) src) = filter not_blank src"
  by (induction src) auto

lemma base64_decode_loop_filter: "base64_decode_loop src j n x = base64_decode_loop (filter not_blank src) j n x"
  by (induction src arbitrary: j n x) (auto simp: Let_def)

text \<open>What a successful first pass tells of the characters that are not blanks.\<close>

definition scanned :: "byte list \<Rightarrow> nat \<Rightarrow> nat \<Rightarrow> bool" where
  "scanned cs j j' \<longleftrightarrow> (\<exists>data. cs = data @ replicate (j' - j) 61 \<and> (j \<noteq> 0 \<longrightarrow> data = []) \<and>
     (\<forall>c \<in> set data. base64_dec_map ! unat c \<noteq> 64)) \<and> j \<le> j' \<and> (j \<le> 2 \<longrightarrow> j' \<le> 2)"

lemma scanned_Nil: "scanned [] j j"
  by (simp add: scanned_def)

lemma scanned_data:
  assumes "scanned cs 0 j'" and "base64_dec_map ! unat c \<noteq> 64"
  shows "scanned (c # cs) 0 j'"
proof -
  obtain data where "cs = data @ replicate (j' - 0) 61" "\<forall>c \<in> set data. base64_dec_map ! unat c \<noteq> 64" "j' \<le> 2"
    using assms(1) by (auto simp: scanned_def)
  then show ?thesis
    using assms(2) by (auto simp: scanned_def intro!: exI [of _ "c # data"])
qed

lemma scanned_pad: "scanned cs (Suc j) j' \<Longrightarrow> Suc j \<le> 2 \<Longrightarrow> scanned (61 # cs) j j'"
  unfolding scanned_def by (auto simp: Suc_diff_Suc replicate_Suc [symmetric] simp del: replicate_Suc intro!: exI [of _ "[]"])

lemma dec_map_values:
  fixes c :: byte
  assumes "\<not> 127 < c" and "c \<noteq> 61"
  shows "base64_dec_map ! unat c = 127 \<or> base64_dec_map ! unat c < 64"
proof -
  have "list_all (\<lambda>(i, v). i = 61 \<or> v = 127 \<or> v < 64) (enumerate 0 base64_dec_map)"
    by (simp add: base64_dec_map_def)
  moreover have "unat c < length base64_dec_map" "unat c \<noteq> 61"
    using assms by (simp_all add: base64_dec_map_def word_less_nat_alt word_unat_eq_iff)
  ultimately show ?thesis
    by (auto simp: list_all_length nth_enumerate_eq)
qed

lemma dec_map_CR: "base64_dec_map ! unat (c :: byte) \<noteq> 127 \<Longrightarrow> c \<noteq> 13"
  by (auto simp: base64_dec_map_def)

lemma base64_scan_scanned:
  "base64_scan src n j = Inr (n', j') \<Longrightarrow> j \<le> 2 \<Longrightarrow>
   scanned (filter not_blank src) j j' \<and> n' = n + length (filter not_blank src)"
proof (induction "length src" arbitrary: src n j rule: less_induct)
  case less
  let ?s = "dropWhile (\<lambda>c. c = 32) src"
  show ?case
  proof (cases ?s)
    case Nil
    then have "filter not_blank src = []"
      using filter_dropWhile_blank [of src] by simp
    then show ?thesis
      using less.prems Nil by (simp add: base64_scan.simps [of src] scanned_Nil)
  next
    case (Cons c cs)
    have f: "filter not_blank src = filter not_blank (c # cs)"
      using filter_dropWhile_blank [of src] by (simp add: Cons)
    have c32: "c \<noteq> 32"
      using hd_dropWhile [of "\<lambda>c. c = 32" src] by (simp add: Cons)
    note IH = less.hyps [OF dropWhile_Cons_length [OF Cons]]
    consider "c = 13 \<or> c = 10" "base64_scan cs n j = Inr (n', j')"
      | "c = 61" "Suc j \<le> 2" "base64_scan cs (Suc n) (Suc j) = Inr (n', j')"
      | "not_blank c" "j = 0" "base64_dec_map ! unat c < 64" "base64_scan cs (Suc n) 0 = Inr (n', j')"
      using less.prems c32 dec_map_values [of c] dec_map_CR [of c]
      by (auto simp: base64_scan.simps [of src] Cons Let_def split: if_splits)
    then show ?thesis
    proof cases
      case 1
      then show ?thesis
        unfolding f using IH [of n j] less.prems(2) by auto
    next
      case 2
      then show ?thesis
        unfolding f using IH [of "Suc n" "Suc j"] by (simp add: scanned_pad)
    next
      case 3
      then have "base64_dec_map ! unat c \<noteq> 64"
        by auto
      then show ?thesis
        unfolding f using 3 IH [of "Suc n" 0] by (simp add: scanned_data)
    qed
  qed
qed

lemma base64_scan_error: "base64_scan src n j = Inl e \<Longrightarrow> e = BASE64_INVALID_CHARACTER"
proof (induction "length src" arbitrary: src n j rule: less_induct)
  case less
  show ?case
  proof (cases "dropWhile (\<lambda>c. c = 32) src")
    case Nil
    then show ?thesis
      using less.prems unfolding base64_scan.simps [of src] Nil Let_def by simp
  next
    case (Cons c cs)
    note IH = less.hyps [OF dropWhile_Cons_length [OF Cons]]
    show ?thesis
      using less.prems IH by (auto simp: base64_scan.simps [of src] Cons Let_def split: if_splits)
  qed
qed

text \<open>The number of bytes the second pass stores.\<close>

lemma length_decode_data:
  assumes "\<forall>c \<in> set data. base64_dec_map ! unat c \<noteq> 64 \<and> not_blank c" and "n < 4"
  shows "\<exists>x'. length (base64_decode_loop (data @ r) 3 n x)
    = 3 * ((n + length data) div 4) + length (base64_decode_loop r 3 ((n + length data) mod 4) x')"
  using assms
proof (induction data arbitrary: n x)
  case (Cons c data)
  let ?x = "push_bit 6 x OR ucast (base64_dec_map ! unat c AND 0x3F)"
  have d: "\<forall>c \<in> set data. base64_dec_map ! unat c \<noteq> 64 \<and> not_blank c"
    using Cons.prems(1) by simp
  show ?case
  proof (cases "n = 3")
    case True
    obtain x' where "length (base64_decode_loop (data @ r) 3 0 ?x)
        = 3 * (length data div 4) + length (base64_decode_loop r 3 (length data mod 4) x')"
      using Cons.IH [OF d, of 0 ?x] by auto
    moreover have n: "n + length (c # data) = length data + 4"
      using True by simp
    have "(n + length (c # data)) div 4 = Suc (length data div 4)" "(n + length (c # data)) mod 4 = length data mod 4"
      unfolding n by simp_all
    ultimately show ?thesis
      using Cons.prems(1) True unfolding append_Cons by (auto simp: Let_def)
  next
    case False
    then have "Suc n < 4"
      using Cons.prems(2) by simp
    then obtain x' where "length (base64_decode_loop (data @ r) 3 (Suc n) ?x)
        = 3 * ((Suc n + length data) div 4) + length (base64_decode_loop r 3 ((Suc n + length data) mod 4) x')"
      using Cons.IH [OF d, of "Suc n" ?x] by auto
    then show ?thesis
      using Cons.prems(1) False by (auto simp: Let_def)
  qed
qed auto

lemma length_decode_pads:
  assumes "p \<le> 2" and "r < 4"
  shows "length (base64_decode_loop (replicate p 61) 3 r x) + p \<le> (6 * (r + p) + 7) div 8"
proof -
  have "p \<in> {0, 1, 2}" "r \<in> {0, 1, 2, 3}"
    using assms by auto
  then show ?thesis
    by (auto simp: base64_decode_pad numeral_2_eq_2 Let_def simp del: base64_decode_loop.simps(2))
qed


lemma six_eighths: "6 * (n div 8) + (6 * (n mod 8) + 7) div 8 = (6 * n + 7) div (8 :: nat)"
proof -
  have "6 * n + 7 = 6 * (n mod 8) + 7 + 8 * (6 * (n div 8))"
    using div_mult_mod_eq [of n 8] by linarith
  then show ?thesis
    by (metis add.commute div_mult_self2 zero_neq_numeral)
qed

lemma base64_decode_length:
  assumes "base64_scan src 0 0 = Inr (n, j)"
  shows "length (base64_decode_loop src 3 0 0) \<le> 6 * (n div 8) + (6 * (n mod 8) + 7) div 8 - j"
proof -
  let ?f = "filter not_blank src"
  have sc: "scanned ?f 0 j" and n: "n = length ?f"
    using base64_scan_scanned [OF assms] by auto
  obtain data where data: "?f = data @ replicate j 61" "\<forall>c \<in> set data. base64_dec_map ! unat c \<noteq> 64" and j: "j \<le> 2"
    using sc by (auto simp: scanned_def)
  have "set data \<subseteq> set ?f"
    unfolding data(1) by simp
  then have "\<forall>c \<in> set data. base64_dec_map ! unat c \<noteq> 64 \<and> not_blank c"
    using data(2) by auto
  from length_decode_data [OF this, of 0 "replicate j 61" 0]
  obtain x' where len: "length (base64_decode_loop ?f 3 0 0)
      = 3 * (length data div 4) + length (base64_decode_loop (replicate j 61) 3 (length data mod 4) x')"
    unfolding data(1) by auto
  have pads: "length (base64_decode_loop (replicate j 61) 3 (length data mod 4) x') + j
      \<le> (6 * (length data mod 4 + j) + 7) div 8"
    by (rule length_decode_pads [OF j]) simp
  have "n = 4 * (length data div 4) + (length data mod 4 + j)"
    using n unfolding data(1) by simp
  moreover have "n = 4 * q + r \<Longrightarrow> 6 * n + 7 = 6 * r + 7 + 8 * (3 * q)" for q r
    by simp
  ultimately have "6 * n + 7 = 6 * (length data mod 4 + j) + 7 + 8 * (3 * (length data div 4))"
    by blast
  then have "(6 * n + 7) div 8 = 3 * (length data div 4) + (6 * (length data mod 4 + j) + 7) div 8"
    by (metis div_mult_self2 zero_neq_numeral)
  then show ?thesis
    unfolding base64_decode_loop_filter [of src] len six_eighths using pads by linarith
qed

subsection \<open>The contract of a codec\<close>

text \<open>\<open>fits s\<close> says that the implementation can handle the length of \<open>s\<close>.\<close>

locale base64_codec =
  fixes encode :: "byte list \<Rightarrow> byte list"
    and decode :: "byte list \<Rightarrow> byte list option"
    and fits :: "byte list \<Rightarrow> bool"
  assumes encode_spec: "fits s \<Longrightarrow> encode s = base64_spec s"
    and decode_spec: "fits s \<Longrightarrow> decode (base64_spec s) = Some s"
begin

lemma decode_encode: "fits s \<Longrightarrow> decode (encode s) = Some s"
  by (simp add: encode_spec decode_spec)

lemma encode_inj: "fits s \<Longrightarrow> fits t \<Longrightarrow> encode s = encode t \<Longrightarrow> s = t"
  using decode_encode [of s] decode_encode [of t] by (metis option.inject)

end

locale base64_peers = base64_codec encode decode fits + peer: base64_codec encode' decode' fits'
  for encode decode fits encode' decode' fits'
begin

lemma interoperate:
  "fits s \<Longrightarrow> fits' s \<Longrightarrow> decode' (encode s) = Some s \<and> decode (encode' s) = Some s \<and> encode s = encode' s"
  by (simp add: encode_spec peer.encode_spec decode_spec peer.decode_spec)

end

text \<open>Calls of the mbedtls functions with a buffer of sufficient size.\<close>

definition mbedtls_encode :: "byte list \<Rightarrow> byte list" where
  "mbedtls_encode s =
     (let d = replicate (4 * ((length s + 2) div 3) + 1) 0 in
      case mbedtls_base64_encode (Some d) (length d) s of
        (_, olen, Some d') \<Rightarrow> take olen d'
      | _ \<Rightarrow> [])"

definition mbedtls_decode :: "byte list \<Rightarrow> byte list option" where
  "mbedtls_decode t =
     (case mbedtls_base64_decode (Some (replicate (length t) 0)) (length t) t of
        (ret, Some olen, Some d') \<Rightarrow> if ret = 0 then Some (take olen d') else None
      | _ \<Rightarrow> None)"


text \<open>The sizes each implementation can handle: \<open>int in_len\<close>, and the bound of \<open>base64.c\<close>.\<close>

definition icl_fits :: "byte list \<Rightarrow> bool" where
  "icl_fits s \<longleftrightarrow> length (base64_spec s) < 2 ^ 31"

definition mbedtls_fits :: "byte list \<Rightarrow> bool" where
  "mbedtls_fits s \<longleftrightarrow> (length s + 2) div 3 \<le> (BASE64_SIZE_T_MAX - 1) div 4"

lemma groups_eq: "n div 3 + (if n mod 3 \<noteq> 0 then 1 else 0) = (n + 2) div (3 :: nat)"
proof -
  have "n = 3 * (n div 3) + n mod 3" "n mod 3 \<in> {0, 1, 2}"
    by auto
  then have "(n + 2) div 3 = n div 3 + (n mod 3 + 2) div 3"
    by (metis (no_types, lifting) add.assoc div_mult_self4 zero_neq_numeral)
  then show ?thesis
    using \<open>n mod 3 \<in> {0, 1, 2}\<close> by auto
qed

lemma groups_bytes: "(6 * (4 * ((n + 2) div 3)) + 7) div 8 - (3 - n mod 3) mod 3 = (n :: nat)"
proof -
  have g: "(6 * (4 * g) + 7) div 8 = 3 * g" for g :: nat
    by simp
  have n: "3 * (n div 3) + n mod 3 = n"
    by simp
  have "n mod 3 \<in> {0, 1, 2}"
    by auto
  then show ?thesis
    unfolding g groups_eq [symmetric] using n by auto
qed

lemma length_base64_spec: "length (base64_spec s) = 4 * ((length s + 2) div 3)"
  using length_Encode [of s] by (simp add: Encode_spec)

lemma store_eq: "length out \<le> length d \<Longrightarrow> store d out = Inr (out @ drop (length out) d)"
  by (simp add: store_def memcpy_def)

lemma mbedtls_base64_encode_ok:
  assumes "s \<noteq> []" and "mbedtls_fits s" and "length (base64_spec s) + 1 \<le> dlen" and "dlen \<le> length d"
  shows "mbedtls_base64_encode (Some d) dlen s =
    (0, length (base64_spec s), Some (base64_spec s @ [0] @ drop (length (base64_spec s) + 1) d))"
proof -
  have st: "store d (base64_spec s @ [0]) = Inr (base64_spec s @ [0] @ drop (length (base64_spec s) + 1) d)"
    using assms(3,4) by (subst store_eq) simp_all
  have n: "(length s + 2) div 3 * 4 = length (base64_spec s)"
    by (simp add: length_base64_spec)
  show ?thesis
    using assms unfolding mbedtls_base64_encode_def Let_def base64_encode_loop_spec groups_eq n mbedtls_fits_def
    by (simp add: st)
qed

lemma mbedtls_encode_spec: "mbedtls_fits s \<Longrightarrow> mbedtls_encode s = base64_spec s"
proof (cases "s = []")
  case True
  then show ?thesis
    by (simp add: mbedtls_encode_def mbedtls_base64_encode_def)
next
  case False
  assume "mbedtls_fits s"
  then show ?thesis
    using mbedtls_base64_encode_ok [OF False, of "length (base64_spec s) + 1" "replicate (length (base64_spec s) + 1) 0"]
    unfolding mbedtls_encode_def Let_def length_base64_spec [symmetric] by simp
qed

lemma mbedtls_base64_decode_spec:
  assumes "length s \<le> dlen" and "dlen \<le> length d"
  shows "mbedtls_base64_decode (Some d) dlen (base64_spec s) = (0, Some (length s), Some (s @ drop (length s) d))"
proof (cases "s = []")
  case True
  then show ?thesis
    by (simp add: mbedtls_base64_decode_def)
next
  case False
  let ?j = "(3 - length s mod 3) mod 3"
  let ?g = "(length s + 2) div 3"
  have sc: "base64_scan (base64_spec s) 0 0 = Inr (4 * ?g, ?j)"
    using base64_scan_spec [of s 0] by (simp add: Encode_spec length_base64_spec)
  have dl: "base64_decode_loop (base64_spec s) 3 0 0 = s"
    using base64_decode_loop_Encode [of s 0] by (simp add: Encode_spec)
  have g: "0 < ?g"
    using False by (cases s) (simp_all add: div_greater_zero_iff)
  have n: "(6 * (4 * ?g) + 7) div 8 - ?j = length s"
    by (rule groups_bytes)
  have st: "store d s = Inr (s @ drop (length s) d)"
    using assms by (simp add: store_eq)
  show ?thesis
    using g assms(1) unfolding mbedtls_base64_decode_def sc dl sum.case prod.case Let_def six_eighths n
    by (simp add: st)
qed

lemma mbedtls_decode_spec: "mbedtls_decode (base64_spec s) = Some s"
proof -
  have "length s \<le> length (base64_spec s)"
    unfolding length_base64_spec by linarith
  then show ?thesis
    by (simp add: mbedtls_decode_def mbedtls_base64_decode_spec)
qed

interpretation icl: base64_codec Encode "\<lambda>t. Some (Decode t)" icl_fits
  by unfold_locales (simp_all add: Encode_spec flip: Encode_spec add: Decode_Encode)


interpretation mbedtls: base64_codec mbedtls_encode mbedtls_decode mbedtls_fits
  by unfold_locales (simp_all add: mbedtls_encode_spec mbedtls_decode_spec)

interpretation both: base64_peers Encode "\<lambda>t. Some (Decode t)" icl_fits mbedtls_encode mbedtls_decode mbedtls_fits
  by unfold_locales

lemma icl_fits_mbedtls: "icl_fits s \<Longrightarrow> mbedtls_fits s"
proof -
  assume "icl_fits s"
  then have "(length s + 2) div 3 < 2 ^ 31"
    unfolding icl_fits_def length_base64_spec by linarith
  then show ?thesis
    unfolding mbedtls_fits_def BASE64_SIZE_T_MAX_def by simp
qed

subsection \<open>Properties\<close>

text \<open>
  Property C27. The two Base64 implementations of the repository agree: for every
  string whose encoding is shorter than \<open>2^31\<close>, both encoders give the same
  text, the one the specification prints, and either decoder gives back the
  bytes from either encoder's text.
\<close>

theorem base64_interoperates:
  assumes "icl_fits s"
  shows "Encode s = base64_spec s \<and> mbedtls_encode s = Encode s \<and>
    Decode (Encode s) = s \<and> Decode (mbedtls_encode s) = s \<and>
    mbedtls_decode (Encode s) = Some s \<and> mbedtls_decode (mbedtls_encode s) = Some s"
  using both.interoperate [OF assms icl_fits_mbedtls [OF assms]] icl.decode_encode [OF assms]
    icl.encode_spec [OF assms] mbedtls.decode_encode [OF icl_fits_mbedtls [OF assms]] by simp_all

theorem base64_interoperates_witness:
  "mbedtls_decode (Encode [77, 97]) = Some [77, 97] \<and> Encode [77, 97] = [84, 87, 69, 61]"
proof -
  have f: "icl_fits [77, 97]"
    by (simp add: icl_fits_def Let_def)
  have "base64_spec [77, 97] = [84, 87, 69, 61]"
    by (simp add: base64_chars_eq base64_enc_map_def)
  then show ?thesis
    using base64_interoperates [OF f] by metis
qed

text \<open>
  The return code, the reported length and the buffer of
  \<open>mbedtls_base64_encode\<close>, for every destination: nothing is stored for an
  empty source or a buffer that is too small (the needed size is reported),
  and otherwise the text and a terminating zero are stored inside the buffer.
\<close>

theorem mbedtls_base64_encode_correct:
  assumes "mbedtls_fits s" and "\<forall>d. dst = Some d \<longrightarrow> dlen \<le> length d"
  shows "mbedtls_base64_encode dst dlen s =
    (let n = 4 * ((length s + 2) div 3) in
     if s = [] then (0, 0, dst)
     else case dst of
       None \<Rightarrow> (BASE64_BUFFER_TOO_SMALL, n + 1, None)
     | Some d \<Rightarrow> if dlen < n + 1 then (BASE64_BUFFER_TOO_SMALL, n + 1, dst)
                 else (0, n, Some (base64_spec s @ [0] @ drop (n + 1) d)))"
proof (cases dst)
  case None
  then show ?thesis
    using assms(1) unfolding mbedtls_base64_encode_def Let_def groups_eq mbedtls_fits_def
    by (simp add: mult.commute)
next
  case (Some d)
  show ?thesis
  proof (cases "s \<noteq> [] \<and> length (base64_spec s) + 1 \<le> dlen")
    case True
    then show ?thesis
      using mbedtls_base64_encode_ok [of s dlen d] assms Some unfolding length_base64_spec Let_def by simp
  next
    case False
    then show ?thesis
      using assms(1) Some unfolding mbedtls_base64_encode_def Let_def groups_eq mbedtls_fits_def length_base64_spec
      by (auto simp: mult.commute)
  qed
qed

theorem mbedtls_base64_encode_correct_witness:
  "mbedtls_base64_encode (Some (replicate 6 9)) 6 [77, 97] = (0, 4, Some [84, 87, 69, 61, 0, 9])"
proof -
  have f: "mbedtls_fits [77, 97]"
    by (simp add: mbedtls_fits_def BASE64_SIZE_T_MAX_def)
  show ?thesis
    using mbedtls_base64_encode_correct [OF f, of "Some (replicate 6 9)" 6]
    by (simp add: base64_chars_eq base64_enc_map_def)
qed

text \<open>
  Property C32. \<open>mbedtls_base64_decode\<close> never stores past the \<open>dlen\<close> bytes it was
  given, whatever the source is: the length it computes in its first pass
  bounds what the second pass stores. It returns 0 or one of its two error
  codes, and leaves the buffer alone when it reports an error.
\<close>

theorem mbedtls_base64_decode_safe:
  assumes "dlen \<le> length d"
  shows "\<exists>ret olen d'. mbedtls_base64_decode (Some d) dlen src = (ret, olen, Some d') \<and>
    ret \<in> {0, BASE64_INVALID_CHARACTER, BASE64_BUFFER_TOO_SMALL} \<and> length d' = length d \<and>
    (ret \<noteq> 0 \<longrightarrow> d' = d) \<and> (ret = 0 \<longrightarrow> (\<exists>n \<le> dlen. olen = Some n \<and> drop n d' = drop n d))"
proof (cases "base64_scan src 0 0")
  case (Inl e)
  moreover have "e = BASE64_INVALID_CHARACTER"
    using Inl by (rule base64_scan_error)
  ultimately show ?thesis
    by (simp add: mbedtls_base64_decode_def BASE64_INVALID_CHARACTER_def)
next
  case (Inr r)
  obtain n j where r: "r = (n, j)"
    by (cases r)
  define N where "N = 6 * (n div 8) + (6 * (n mod 8) + 7) div 8 - j"
  let ?out = "base64_decode_loop src 3 0 0"
  have len: "length ?out \<le> N"
    unfolding N_def using base64_decode_length Inr r by simp
  show ?thesis
  proof (cases "n = 0 \<or> dlen < N")
    case True
    then show ?thesis
      unfolding mbedtls_base64_decode_def Inr r sum.case prod.case Let_def N_def [symmetric]
      by (auto simp: BASE64_BUFFER_TOO_SMALL_def)
  next
    case False
    then have "store d ?out = Inr (?out @ drop (length ?out) d)" "length ?out \<le> dlen"
      using len assms by (auto intro!: store_eq)
    then show ?thesis
      unfolding mbedtls_base64_decode_def Inr r sum.case prod.case Let_def N_def [symmetric]
      using False assms by auto
  qed
qed

theorem mbedtls_base64_decode_safe_witness:
  "\<exists>ret olen d'. mbedtls_base64_decode (Some [0]) 1 [84, 81, 61, 61] = (ret, olen, Some d') \<and> length d' = 1"
  using mbedtls_base64_decode_safe [of 1 "[0]" "[84, 81, 61, 61]"] by auto

text \<open>
  A text whose length is no multiple of four is accepted by \<open>base64.c\<close>, and the
  characters of its last group are dropped; the class \<open>Base64\<close> delivers them.
\<close>

theorem base64_partial_group:
  "mbedtls_decode [84, 87, 70] = Some [] \<and> Decode [84, 87, 70] = [77, 97]"
  by code_simp

end
