(* ===== verification/Sha_One.thy ===== *)
theory Sha_One
  imports Sha1
begin


text \<open>
  \<open>security/ShaOne.cpp\<close>, the SHA-1 of ICL's own that the WebSocket handshake
  uses: the class \<open>Sha1\<close> with its unrolled \<open>Transform\<close>, the loop of \<open>Update\<close> on
  an input stream, and \<open>Final\<close> with the binary and the hexadecimal output. It is
  proved to compute what \<open>mbedtls/library/sha1.c\<close> computes.

  An input stream is its unread bytes and its fail state: \<open>read\<close> that finds
  fewer bytes than asked for delivers them and fails.
\<close>

record sha_one =
  so_digest :: "u32 list"
  so_buffer :: "byte list"
  so_transforms :: u64

abbreviation BLOCK_BYTES :: nat where "BLOCK_BYTES \<equiv> 64"

definition Sha1_Reset :: sha_one where
  "Sha1_Reset = \<lparr>so_digest = [0x67452301, 0xefcdab89, 0x98badcfe, 0x10325476, 0xc3d2e1f0],
     so_buffer = [], so_transforms = 0\<rparr>"

definition so_rol :: "u32 \<Rightarrow> nat \<Rightarrow> u32" where
  "so_rol value bits = push_bit bits value OR drop_bit (32 - bits) (value AND 0xffffffff)"

definition so_blk :: "u32 list \<Rightarrow> nat \<Rightarrow> u32 list" where
  "so_blk block i =
     block[i AND 15 := so_rol (block ! ((i + 13) AND 15) XOR block ! ((i + 8) AND 15) XOR
       block ! ((i + 2) AND 15) XOR block ! (i AND 15)) 1]"

text \<open>
  The macros \<open>R0\<close> to \<open>R4\<close>: the variables \<open>a..e\<close> are the places 0 to 4 of \<open>V\<close>,
  \<open>f\<close> is the Boolean function of \<open>w\<close>, \<open>x\<close>, \<open>y\<close> and \<open>k\<close> the constant.
\<close>

definition so_R :: "(u32 \<Rightarrow> u32 \<Rightarrow> u32 \<Rightarrow> u32) \<Rightarrow> u32 \<Rightarrow> u32 list
  \<Rightarrow> nat \<Rightarrow> nat \<Rightarrow> nat \<Rightarrow> nat \<Rightarrow> nat \<Rightarrow> u32 \<Rightarrow> u32 list" where
  "so_R f k V v w x y z b =
     (let V = V[z := V ! z + (f (V ! w) (V ! x) (V ! y) + b + k + so_rol (V ! v) 5)]
      in V[w := so_rol (V ! w) 30])"

definition so_R0 :: "u32 list \<times> u32 list \<Rightarrow> nat \<times> nat \<times> nat \<times> nat \<times> nat \<times> nat \<Rightarrow> u32 list \<times> u32 list" where
  "so_R0 = (\<lambda>(V, block) (v, w, x, y, z, i).
     (so_R (\<lambda>w x y. (w AND (x XOR y)) XOR y) 0x5a827999 V v w x y z (block ! i), block))"

definition so_R1 :: "u32 list \<times> u32 list \<Rightarrow> nat \<times> nat \<times> nat \<times> nat \<times> nat \<times> nat \<Rightarrow> u32 list \<times> u32 list" where
  "so_R1 = (\<lambda>(V, block) (v, w, x, y, z, i). let block = so_blk block i in
     (so_R (\<lambda>w x y. (w AND (x XOR y)) XOR y) 0x5a827999 V v w x y z (block ! (i AND 15)), block))"

definition so_R2 :: "u32 list \<times> u32 list \<Rightarrow> nat \<times> nat \<times> nat \<times> nat \<times> nat \<times> nat \<Rightarrow> u32 list \<times> u32 list" where
  "so_R2 = (\<lambda>(V, block) (v, w, x, y, z, i). let block = so_blk block i in
     (so_R (\<lambda>w x y. w XOR x XOR y) 0x6ed9eba1 V v w x y z (block ! (i AND 15)), block))"

definition so_R3 :: "u32 list \<times> u32 list \<Rightarrow> nat \<times> nat \<times> nat \<times> nat \<times> nat \<times> nat \<Rightarrow> u32 list \<times> u32 list" where
  "so_R3 = (\<lambda>(V, block) (v, w, x, y, z, i). let block = so_blk block i in
     (so_R (\<lambda>w x y. ((w OR x) AND y) OR (w AND x)) 0x8f1bbcdc V v w x y z (block ! (i AND 15)), block))"

definition so_R4 :: "u32 list \<times> u32 list \<Rightarrow> nat \<times> nat \<times> nat \<times> nat \<times> nat \<times> nat \<Rightarrow> u32 list \<times> u32 list" where
  "so_R4 = (\<lambda>(V, block) (v, w, x, y, z, i). let block = so_blk block i in
     (so_R (\<lambda>w x y. w XOR x XOR y) 0xca62c1d6 V v w x y z (block ! (i AND 15)), block))"

definition so_lines0 :: "(nat \<times> nat \<times> nat \<times> nat \<times> nat \<times> nat) list" where
  "so_lines0 =
     [(0, 1, 2, 3, 4, 0), (4, 0, 1, 2, 3, 1), (3, 4, 0, 1, 2, 2), (2, 3, 4, 0, 1, 3),
      (1, 2, 3, 4, 0, 4), (0, 1, 2, 3, 4, 5), (4, 0, 1, 2, 3, 6), (3, 4, 0, 1, 2, 7),
      (2, 3, 4, 0, 1, 8), (1, 2, 3, 4, 0, 9), (0, 1, 2, 3, 4, 10), (4, 0, 1, 2, 3, 11),
      (3, 4, 0, 1, 2, 12), (2, 3, 4, 0, 1, 13), (1, 2, 3, 4, 0, 14), (0, 1, 2, 3, 4, 15)]"

definition so_lines1 :: "(nat \<times> nat \<times> nat \<times> nat \<times> nat \<times> nat) list" where
  "so_lines1 =
     [(4, 0, 1, 2, 3, 16), (3, 4, 0, 1, 2, 17), (2, 3, 4, 0, 1, 18), (1, 2, 3, 4, 0, 19)]"

definition so_lines2 :: "(nat \<times> nat \<times> nat \<times> nat \<times> nat \<times> nat) list" where
  "so_lines2 =
     [(0, 1, 2, 3, 4, 20), (4, 0, 1, 2, 3, 21), (3, 4, 0, 1, 2, 22), (2, 3, 4, 0, 1, 23),
      (1, 2, 3, 4, 0, 24), (0, 1, 2, 3, 4, 25), (4, 0, 1, 2, 3, 26), (3, 4, 0, 1, 2, 27),
      (2, 3, 4, 0, 1, 28), (1, 2, 3, 4, 0, 29), (0, 1, 2, 3, 4, 30), (4, 0, 1, 2, 3, 31),
      (3, 4, 0, 1, 2, 32), (2, 3, 4, 0, 1, 33), (1, 2, 3, 4, 0, 34), (0, 1, 2, 3, 4, 35),
      (4, 0, 1, 2, 3, 36), (3, 4, 0, 1, 2, 37), (2, 3, 4, 0, 1, 38), (1, 2, 3, 4, 0, 39)]"

definition so_lines3 :: "(nat \<times> nat \<times> nat \<times> nat \<times> nat \<times> nat) list" where
  "so_lines3 =
     [(0, 1, 2, 3, 4, 40), (4, 0, 1, 2, 3, 41), (3, 4, 0, 1, 2, 42), (2, 3, 4, 0, 1, 43),
      (1, 2, 3, 4, 0, 44), (0, 1, 2, 3, 4, 45), (4, 0, 1, 2, 3, 46), (3, 4, 0, 1, 2, 47),
      (2, 3, 4, 0, 1, 48), (1, 2, 3, 4, 0, 49), (0, 1, 2, 3, 4, 50), (4, 0, 1, 2, 3, 51),
      (3, 4, 0, 1, 2, 52), (2, 3, 4, 0, 1, 53), (1, 2, 3, 4, 0, 54), (0, 1, 2, 3, 4, 55),
      (4, 0, 1, 2, 3, 56), (3, 4, 0, 1, 2, 57), (2, 3, 4, 0, 1, 58), (1, 2, 3, 4, 0, 59)]"

definition so_lines4 :: "(nat \<times> nat \<times> nat \<times> nat \<times> nat \<times> nat) list" where
  "so_lines4 =
     [(0, 1, 2, 3, 4, 60), (4, 0, 1, 2, 3, 61), (3, 4, 0, 1, 2, 62), (2, 3, 4, 0, 1, 63),
      (1, 2, 3, 4, 0, 64), (0, 1, 2, 3, 4, 65), (4, 0, 1, 2, 3, 66), (3, 4, 0, 1, 2, 67),
      (2, 3, 4, 0, 1, 68), (1, 2, 3, 4, 0, 69), (0, 1, 2, 3, 4, 70), (4, 0, 1, 2, 3, 71),
      (3, 4, 0, 1, 2, 72), (2, 3, 4, 0, 1, 73), (1, 2, 3, 4, 0, 74), (0, 1, 2, 3, 4, 75),
      (4, 0, 1, 2, 3, 76), (3, 4, 0, 1, 2, 77), (2, 3, 4, 0, 1, 78), (1, 2, 3, 4, 0, 79)]"

text \<open>The macros \<open>blk\<close> leave their schedule in the caller's \<open>block\<close>, the second component.\<close>

definition Sha1_Transform :: "sha_one \<Rightarrow> u32 list \<Rightarrow> sha_one \<times> u32 list" where
  "Sha1_Transform c block =
     (let d = so_digest c;
          V = [d ! 0, d ! 1, d ! 2, d ! 3, d ! 4];
          VB = foldl so_R0 (V, block) so_lines0;
          VB = foldl so_R1 VB so_lines1;
          VB = foldl so_R2 VB so_lines2;
          VB = foldl so_R3 VB so_lines3;
          (V, block) = foldl so_R4 VB so_lines4
      in (c\<lparr>so_digest := [d ! 0 + V ! 0, d ! 1 + V ! 1, d ! 2 + V ! 2, d ! 3 + V ! 3, d ! 4 + V ! 4],
            so_transforms := so_transforms c + 1\<rparr>, block))"

definition Sha1_BufferToBlock :: "byte list \<Rightarrow> u32 list" where
  "Sha1_BufferToBlock b =
     map (\<lambda>i. ucast (b ! (4 * i + 3)) OR push_bit 8 (ucast (b ! (4 * i + 2)))
            OR push_bit 16 (ucast (b ! (4 * i + 1))) OR push_bit 24 (ucast (b ! (4 * i + 0)))) [0 ..< 16]"

text \<open>\<open>Read( is, s, max )\<close>: the bytes put in \<open>s\<close> and the stream after the call.\<close>

type_synonym istream = "byte list \<times> bool"

definition Sha1_Read :: "istream \<Rightarrow> nat \<Rightarrow> byte list \<times> istream" where
  "Sha1_Read s n =
     (if snd s then ([], s) else (take n (fst s), drop n (fst s), length (fst s) < n))"

function Sha1_Update_loop :: "sha_one \<Rightarrow> istream \<Rightarrow> sha_one" where
  "Sha1_Update_loop c s =
     (if snd s then c
      else let (c, _) = Sha1_Transform c (Sha1_BufferToBlock (so_buffer c));
               (b, s') = Sha1_Read s BLOCK_BYTES
           in Sha1_Update_loop (c\<lparr>so_buffer := b\<rparr>) s')"
  by pat_completeness auto
termination
  by (relation "measure (\<lambda>(c, s). length (fst s) + (if snd s then 0 else 1))")
    (auto simp: Sha1_Read_def split: if_splits)

declare Sha1_Update_loop.simps [simp del]

definition Sha1_Update_stream :: "sha_one \<Rightarrow> istream \<Rightarrow> sha_one" where
  "Sha1_Update_stream c s =
     (let (rest_of_buffer, s) = Sha1_Read s (BLOCK_BYTES - length (so_buffer c))
      in Sha1_Update_loop (c\<lparr>so_buffer := so_buffer c @ rest_of_buffer\<rparr>) s)"

definition Sha1_Update :: "sha_one \<Rightarrow> byte list \<Rightarrow> sha_one" where
  "Sha1_Update c s = Sha1_Update_stream c (s, False)"

text \<open>\<open>std::hex << std::setfill('0') << std::setw(8)\<close> and the loop over the four bytes.\<close>

definition hex_digit :: "nat \<Rightarrow> byte" where
  "hex_digit d = (if d < 10 then of_nat (48 + d) else of_nat (87 + d))"

definition so_hex8 :: "u32 \<Rightarrow> byte list" where
  "so_hex8 x = map (\<lambda>i. hex_digit (unat x div 16 ^ (7 - i) mod 16)) [0 ..< 8]"

definition so_bytes :: "u32 \<Rightarrow> byte list" where
  "so_bytes x = map (\<lambda>j. ucast (drop_bit (24 - 8 * j) (x AND drop_bit (8 * j) 0xFF000000))) [0 ..< 4]"

definition Sha1_Final :: "sha_one \<Rightarrow> bool \<Rightarrow> sha_one \<times> byte list" where
  "Sha1_Final c ascii =
     (let total_bits = (so_transforms c * 64 + of_nat (length (so_buffer c))) * 8;
          b = so_buffer c @ [0x80];
          orig_size = length b;
          b = b @ replicate (BLOCK_BYTES - orig_size) 0;
          c = c\<lparr>so_buffer := b\<rparr>;
          block = Sha1_BufferToBlock b;
          (c, block) = (if orig_size > BLOCK_BYTES - 8
                        then let (c, block) = Sha1_Transform c block
                             in (c, replicate 14 0 @ drop 14 block)
                        else (c, block));
          block = block[15 := ucast total_bits];
          block = block[14 := ucast (drop_bit 32 total_bits)];
          (c, block) = Sha1_Transform c block;
          output = concat (map (if ascii then so_hex8 else so_bytes) (so_digest c))
      in (Sha1_Reset, output))"


subsection \<open>The block functions agree\<close>

lemma and_15_mod: "(i :: nat) AND 15 = i mod 16"
  using take_bit_eq_mask [of 4 i] by (simp add: mask_eq_exp_minus_1 take_bit_eq_mod)

lemma so_rol_eq: "so_rol = sha1_S"
  by (intro ext) (simp add: so_rol_def sha1_S_def)

lemma so_blk_eq: "16 \<le> t \<Longrightarrow> so_blk W t = sha1_R W t"
proof -
  assume "16 \<le> t"
  then obtain u where t: "t = u + 16"
    using le_Suc_ex by (metis add.commute)
  have "t + 13 = (t - 3) + 16" "t + 8 = (t - 8) + 16" "t + 2 = (t - 14) + 16"
    by (simp_all add: t)
  then have "(t + 13) mod 16 = (t - 3) mod 16" "(t + 8) mod 16 = (t - 8) mod 16" "(t + 2) mod 16 = (t - 14) mod 16"
    by (metis mod_add_self2)+
  then show ?thesis
    by (simp add: so_blk_def sha1_R_def so_rol_eq and_15_mod Let_def)
qed

lemma so_R_eq: "f = F \<Longrightarrow> so_R f k V v w x y z b = sha1_P F k V v w x y z b"
  by (simp add: so_R_def sha1_P_def so_rol_eq Let_def ac_simps)

lemma so_F_eq:
  "(\<lambda>w x y. (w AND (x XOR y)) XOR y) = sha1_F1" "(\<lambda>w x y. w XOR x XOR y) = sha1_F2"
  "(\<lambda>w x y. ((w OR x) AND y) OR (w AND x)) = sha1_F3"
  by (intro ext; simp add: sha1_F1_def sha1_F2_def sha1_F3_def ac_simps)+

text \<open>A macro of the one source and the line of the other have the same effect.\<close>

abbreviation round_of :: "nat \<times> nat \<times> nat \<times> nat \<times> nat \<times> nat \<Rightarrow> nat" where
  "round_of l \<equiv> snd (snd (snd (snd (snd l))))"

lemma so_line_eq:
  "round_of l < 16 \<Longrightarrow> so_R0 VB l = sha1_line sha1_F1 0x5A827999 VB l"
  "16 \<le> round_of l \<Longrightarrow> so_R1 VB l = sha1_line sha1_F1 0x5A827999 VB l"
  "16 \<le> round_of l \<Longrightarrow> so_R2 VB l = sha1_line sha1_F2 0x6ED9EBA1 VB l"
  "16 \<le> round_of l \<Longrightarrow> so_R3 VB l = sha1_line sha1_F3 0x8F1BBCDC VB l"
  "16 \<le> round_of l \<Longrightarrow> so_R4 VB l = sha1_line sha1_F2 0xCA62C1D6 VB l"
  unfolding so_R0_def so_R1_def so_R2_def so_R3_def so_R4_def so_F_eq sha1_line_def
  by (cases VB, cases l, simp add: Let_def so_blk_eq so_R_eq)+

lemma foldl_so_lines:
  "foldl so_R0 VB so_lines0 = foldl (sha1_line sha1_F1 0x5A827999) VB so_lines0"
  "foldl so_R1 VB so_lines1 = foldl (sha1_line sha1_F1 0x5A827999) VB so_lines1"
  "foldl so_R2 VB so_lines2 = foldl (sha1_line sha1_F2 0x6ED9EBA1) VB so_lines2"
  "foldl so_R3 VB so_lines3 = foldl (sha1_line sha1_F3 0x8F1BBCDC) VB so_lines3"
  "foldl so_R4 VB so_lines4 = foldl (sha1_line sha1_F2 0xCA62C1D6) VB so_lines4"
  by (intro foldl_cong refl so_line_eq; auto simp: so_lines0_def so_lines1_def so_lines2_def so_lines3_def so_lines4_def)+

lemma so_lines_eq: "so_lines0 @ so_lines1 = sha1_lines1" "so_lines2 = sha1_lines2" "so_lines3 = sha1_lines3"
  "so_lines4 = sha1_lines4"
  by (simp_all add: so_lines0_def so_lines1_def so_lines2_def so_lines3_def so_lines4_def
    sha1_lines1_def sha1_lines2_def sha1_lines3_def sha1_lines4_def)

lemma Transform_eq:
  assumes "block = map (\<lambda>i. GET_UINT32_BE data (4 * i)) [0 ..< 16]"
  shows "fst (Sha1_Transform c block) =
    c\<lparr>so_digest := sha1_compress (so_digest c) data, so_transforms := so_transforms c + 1\<rparr>"
  unfolding Sha1_Transform_def sha1_compress_def assms Let_def foldl_so_lines
  unfolding so_lines_eq(2-4) so_lines_eq(1) [symmetric] foldl_append
  by (simp split: prod.split)

lemma BufferToBlock_eq: "Sha1_BufferToBlock b = map (\<lambda>i. GET_UINT32_BE b (4 * i)) [0 ..< 16]"
  unfolding Sha1_BufferToBlock_def GET_UINT32_BE_def by (intro map_cong refl) (simp add: or.assoc or.left_commute or.commute)


lemma snd_Transform_length: "length (snd (Sha1_Transform c block)) = length block"
proof -
  have l: "length (snd (foldl g VB ls)) = length (snd VB)"
    if "\<And>VB l. length (snd (g VB l)) = length (snd VB)" for g :: "u32 list \<times> u32 list \<Rightarrow> _ \<Rightarrow> u32 list \<times> u32 list" and VB ls
    using that by (induction ls arbitrary: VB) simp_all
  have "length (snd (so_R0 VB l)) = length (snd VB)" "length (snd (so_R1 VB l)) = length (snd VB)"
    "length (snd (so_R2 VB l)) = length (snd VB)" "length (snd (so_R3 VB l)) = length (snd VB)"
    "length (snd (so_R4 VB l)) = length (snd VB)" for VB l
    by (simp_all add: so_R0_def so_R1_def so_R2_def so_R3_def so_R4_def so_blk_def Let_def split: prod.split)
  then show ?thesis
    by (simp add: Sha1_Transform_def Let_def l split: prod.split)
       (metis l snd_conv)
qed

subsection \<open>Absorbing and finishing\<close>

definition so_absorbed :: "sha_one \<Rightarrow> byte list \<Rightarrow> bool" where
  "so_absorbed c m \<longleftrightarrow> so_digest c = foldl sha1_compress sha1_iv (blocks 64 m) \<and>
     so_buffer c = rest 64 m \<and> so_transforms c = of_nat (length m div 64)"

lemma so_absorbed_Reset: "so_absorbed Sha1_Reset []"
  by (simp add: so_absorbed_def Sha1_Reset_def sha1_iv_def)

lemma length_append_div:
  "length xs mod n = 0 \<Longrightarrow> length ys < n \<Longrightarrow> length (xs @ ys) div n = length xs div n"
  using div_add1_eq [of "length xs" "length ys" n] by simp

text \<open>The loop of \<open>Update\<close>, entered with a full block when the stream has not failed.\<close>

lemma Update_loop_absorbs:
  assumes "length m mod 64 = 0" and "length b = 64" and "so_digest c = foldl sha1_compress sha1_iv (blocks 64 m)"
    and "so_transforms c = of_nat (length m div 64)" and "so_buffer c = b"
  shows "so_absorbed (Sha1_Update_loop c (p, False)) (m @ b @ p)"
  using assms
proof (induction "length p" arbitrary: p m b c rule: less_induct)
  case less
  let ?c = "fst (Sha1_Transform c (Sha1_BufferToBlock b))"
  have c: "?c = c\<lparr>so_digest := sha1_compress (so_digest c) b, so_transforms := so_transforms c + 1\<rparr>"
    by (rule Transform_eq) (rule BufferToBlock_eq)
  have blk: "blocks 64 (m @ b) = blocks 64 m @ [b]"
    using less.prems(1,2) by (simp add: blocks_append blocks_one)
  have len: "length (m @ b) mod 64 = 0" "length (m @ b) div 64 = Suc (length m div 64)"
    using less.prems(1,2) by simp_all
  have loop: "Sha1_Update_loop c (p, False)
      = Sha1_Update_loop (?c\<lparr>so_buffer := take 64 p\<rparr>) (drop 64 p, length p < 64)"
    using less.prems(5) by (subst Sha1_Update_loop.simps) (simp add: Sha1_Read_def split: prod.split)
  show ?case
  proof (cases "length p < 64")
    case True
    have "so_absorbed (?c\<lparr>so_buffer := take 64 p\<rparr>) ((m @ b) @ p)"
      using True less.prems(3-5) blk len(2) rest_append [OF len(1), of p] blocks_append [OF len(1), of p]
      by (simp only: so_absorbed_def c length_append_div [OF len(1) True])
        (simp add: add.commute)
    then show ?thesis
      using True unfolding loop by (subst Sha1_Update_loop.simps) simp
  next
    case False
    have "so_absorbed (Sha1_Update_loop (?c\<lparr>so_buffer := take 64 p\<rparr>) (drop 64 p, False)) ((m @ b) @ take 64 p @ drop 64 p)"
      by (rule less.hyps) (use False len blk less.prems in \<open>simp_all add: c\<close>)
    then show ?thesis
      using False unfolding loop by simp
  qed
qed

lemma Update_absorbs:
  assumes "so_absorbed c m"
  shows "so_absorbed (Sha1_Update c p) (m @ p)"
proof -
  let ?n = "64 - length (so_buffer c)"
  let ?b = "so_buffer c @ take ?n p"
  have b: "so_buffer c = rest 64 m" "length (so_buffer c) < 64"
    using assms by (simp_all add: so_absorbed_def length_rest)
  let ?m = "take (length m - length m mod 64) m"
  have m: "length ?m mod 64 = 0" "m = ?m @ so_buffer c"
    unfolding b(1) by (simp add: minus_mod_eq_mult_div, rule split_rest)
  have dg: "so_digest c = foldl sha1_compress sha1_iv (blocks 64 ?m)" "length ?m div 64 = length m div 64"
    using assms blocks_append [OF m(1), of "so_buffer c"] b(2) m(2)
    by (auto simp: so_absorbed_def minus_mod_eq_mult_div)
  show ?thesis
  proof (cases "length p < ?n")
    case True
    then have "Sha1_Update c p = c\<lparr>so_buffer := so_buffer c @ p\<rparr>"
      by (simp add: Sha1_Update_def Sha1_Update_stream_def Sha1_Read_def) (subst Sha1_Update_loop.simps, simp)
    moreover have "blocks 64 (?m @ so_buffer c @ p) = blocks 64 ?m" "rest 64 (?m @ so_buffer c @ p) = so_buffer c @ p"
      "length (?m @ so_buffer c @ p) div 64 = length m div 64"
      using True b(2) dg(2) length_append_div [OF m(1), of "so_buffer c @ p"]
      by (simp_all add: blocks_append [OF m(1)] rest_append [OF m(1)])
    moreover have "?m @ so_buffer c @ p = m @ p"
      using m(2) by (metis append.assoc)
    ultimately show ?thesis
      using assms dg(1) by (simp add: so_absorbed_def)
  next
    case False
    have "Sha1_Update c p = Sha1_Update_loop (c\<lparr>so_buffer := ?b\<rparr>) (drop ?n p, False)"
      using False by (simp add: Sha1_Update_def Sha1_Update_stream_def Sha1_Read_def)
    moreover have "so_absorbed (Sha1_Update_loop (c\<lparr>so_buffer := ?b\<rparr>) (drop ?n p, False)) (?m @ ?b @ drop ?n p)"
      by (rule Update_loop_absorbs) (use False b dg m(1) assms in \<open>simp_all add: so_absorbed_def\<close>)
    moreover have "?m @ ?b @ drop ?n p = m @ p"
      using m(2) by (metis append.assoc append_take_drop_id)
    ultimately show ?thesis
      by (simp only:)
  qed
qed


abbreviation words_of :: "byte list \<Rightarrow> u32 list" where
  "words_of b \<equiv> map (\<lambda>i. GET_UINT32_BE b (4 * i)) [0 ..< 16]"

lemma words_of_PUT:
  assumes "length b = 64" and "j < 16"
  shows "words_of (PUT_UINT32_BE n b (4 * j)) = (words_of b)[j := n]"
proof (rule nth_equalityI)
  fix i assume "i < length (words_of (PUT_UINT32_BE n b (4 * j)))"
  then have i: "i < 16"
    by simp
  have nth: "PUT_UINT32_BE n b (4 * j) ! k = b ! k" if "k < 64" "k < 4 * j \<or> 4 * j + 4 \<le> k" for k
    using that assms by (auto simp: PUT_UINT32_BE_def memcpy_def nth_append min_def)
  show "words_of (PUT_UINT32_BE n b (4 * j)) ! i = (words_of b)[j := n] ! i"
  proof (cases "i = j")
    case True
    then show ?thesis
      using assms i GET_PUT_UINT32_BE [of "4 * j" b n] by simp
  next
    case False
    have "PUT_UINT32_BE n b (4 * j) ! (4 * i + k) = b ! (4 * i + k)" if "k < 4" for k
      using that i False assms(2) by (intro nth) linarith+
    from this [of 0] this [of 1] this [of 2] this [of 3] show ?thesis
      using False i by (simp add: GET_UINT32_BE_def)
  qed
qed simp

lemma so_bytes_eq: "so_bytes x = be32 x"
proof -
  have "[0 ..< 4] = [0, 1, 2, 3 :: nat]"
    by (simp add: upt_rec)
  moreover have "ucast (drop_bit 24 (x AND 0xFF000000)) = (ucast (drop_bit 24 x) :: byte)"
    "ucast (drop_bit 16 (x AND 0x00FF0000)) = (ucast (drop_bit 16 x) :: byte)"
    "ucast (drop_bit 8 (x AND 0x0000FF00)) = (ucast (drop_bit 8 x) :: byte)"
    "ucast (x AND 0x000000FF) = (ucast x :: byte)"
    by (rule byte_bits_eqI; simp add: bit_simps)+
  ultimately show ?thesis
    by (simp add: so_bytes_def be32_def del: drop_bit_and)
qed

lemma so_bytes_fun: "so_bytes = be32"
  by (intro ext so_bytes_eq)

lemma total_bits_eq:
  assumes "so_absorbed c m"
  shows "(so_transforms c * 64 + of_nat (length (so_buffer c))) * 8 = (of_nat (8 * length m) :: u64)"
proof -
  have "of_nat (8 * length m) = (of_nat ((length m div 64 * 64 + length m mod 64) * 8) :: u64)"
    by simp
  also have "\<dots> = (of_nat (length m div 64) * 64 + of_nat (length m mod 64)) * 8"
    by (simp only: of_nat_mult of_nat_add of_nat_numeral)
  finally show ?thesis
    using assms by (simp add: so_absorbed_def length_rest)
qed

lemma Final_digest:
  assumes "so_absorbed c m"
  shows "Sha1_Final c ascii = (Sha1_Reset, concat (map (if ascii then so_hex8 else so_bytes)
    (foldl sha1_compress sha1_iv (blocks 64 (md_pad 64 (be64 (of_nat (8 * length m))) m)))))"
proof -
  let ?tb = "of_nat (8 * length m) :: u64"
  let ?hi = "ucast (drop_bit 32 ?tb) :: u32" and ?lo = "ucast ?tb :: u32"
  let ?r = "rest 64 m"
  define b where "b = ?r @ [0x80] @ replicate (63 - length ?r) 0"
  have r: "length ?r < 64" "so_buffer c = ?r" "length ?r = length m mod 64"
    using assms by (simp_all add: so_absorbed_def length_rest)
  have b: "length b = 64"
    using r(1) by (simp add: b_def)
  have be: "be64 ?tb = be32 ?hi @ be32 ?lo"
    by (rule be64_halves)
  have words: "words_of (memcpy d 56 (be32 ?hi @ be32 ?lo)) = (words_of d)[14 := ?hi, 15 := ?lo]" if "length d = 64" for d
    using words_of_PUT [of d 14 ?hi] words_of_PUT [of "PUT_UINT32_BE ?hi d 56" 15 ?lo] PUT_UINT32_BE_pair [of d ?lo ?hi] that
    by (simp add: PUT_UINT32_BE_def length_memcpy)
  let ?c0 = "c\<lparr>so_buffer := b\<rparr>"
  have T: "fst (Sha1_Transform c' (words_of d)) =
      c'\<lparr>so_digest := sha1_compress (so_digest c') d, so_transforms := so_transforms c' + 1\<rparr>" for c' d
    by (rule Transform_eq) simp
  have pad: "blocks 64 (m @ x) = blocks 64 m @ blocks 64 (?r @ x)" for x
    by (rule blocks_pending)
  have dg: "so_digest c = foldl sha1_compress sha1_iv (blocks 64 m)"
    using assms by (simp add: so_absorbed_def)
  let ?f = "if ascii then so_hex8 else so_bytes"
  have b': "so_buffer c @ [0x80] @ replicate (64 - length (so_buffer c @ [0x80])) 0 = b"
    by (simp add: b_def r(2))
  note tb = total_bits_eq [OF assms]
  show ?thesis
  proof (cases "length m mod 64 + 1 \<le> 56")
    case True
    define d where "d = memcpy b 56 (be32 ?hi @ be32 ?lo)"
    have "?r @ 0x80 # replicate (56 - (length m mod 64 + 1)) 0 @ be64 ?tb = d"
    proof -
      have "56 - length m mod 64 = Suc (55 - length m mod 64)"
        using True by simp
      then show ?thesis
        using True r(3) unfolding d_def b_def memcpy_def be by (simp add: length_rest)
    qed
    moreover have "md_pad 64 (be64 ?tb) m = m @ 0x80 # replicate (56 - (length m mod 64 + 1)) 0 @ be64 ?tb"
      using sha1.md_pad_one [of "be64 ?tb" m] True by simp
    moreover have "length d = 64"
      using b by (simp add: d_def length_memcpy)
    ultimately have "blocks 64 (md_pad 64 (be64 ?tb) m) = blocks 64 m @ [d]"
      by (simp add: pad blocks_one)
    moreover have "Sha1_Final c ascii = (Sha1_Reset, concat (map ?f (so_digest (fst (Sha1_Transform ?c0 (words_of d))))))"
      using True r words [OF b]
      unfolding Sha1_Final_def tb Let_def BufferToBlock_eq append.assoc b' d_def
      by (simp add: split_beta list_update_swap)
    ultimately show ?thesis
      by (simp add: T dg)
  next
    case False
    define d where "d = replicate 56 (0 :: byte) @ be64 ?tb"
    have d: "d = memcpy (replicate 64 0) 56 (be32 ?hi @ be32 ?lo)" "length d = 64"
      unfolding d_def be by (simp_all add: memcpy_def)
    have w0: "words_of (replicate 64 0) = replicate 16 0"
      by (intro nth_equalityI) (simp_all add: GET_UINT32_BE_def)
    let ?c1 = "Sha1_Transform ?c0 (words_of b)"
    have blk: "(replicate 14 0 @ drop 14 (snd ?c1))[15 := ?lo, 14 := ?hi] = words_of d"
    proof -
      have "length (drop 14 (snd ?c1)) = 2"
        by (simp add: snd_Transform_length)
      then obtain x y where xy: "drop 14 (snd ?c1) = [x, y]"
        using list2_conv [of "drop 14 (snd ?c1)"] by blast
      have "words_of d = (replicate 16 0)[14 := ?hi, 15 := ?lo]"
        unfolding d(1) using words [of "replicate 64 0"] by (simp only: w0 length_replicate)
      moreover have "(replicate 14 0 @ [x, y])[15 := l, 14 := h] = (replicate 16 0)[14 := h, 15 := l]" for l h :: u32
        by (simp add: list_update_append numeral_eq_Suc)
      ultimately show ?thesis
        unfolding xy by (simp only:)
    qed
    have "md_pad 64 (be64 ?tb) m = m @ (0x80 # replicate (64 - (length m mod 64 + 1)) 0) @ replicate 56 0 @ be64 ?tb"
      using sha1.md_pad_two [of "be64 ?tb" m] False by simp
    moreover have "?r @ (0x80 # replicate (64 - (length m mod 64 + 1)) 0) = b"
      using r(3) by (simp add: b_def)
    ultimately have "blocks 64 (md_pad 64 (be64 ?tb) m) = blocks 64 m @ [b, d]"
      using pad b d(2) blocks_two [of b 64 d] unfolding d_def by (metis append.assoc zero_less_numeral)
    moreover have "Sha1_Final c ascii = (Sha1_Reset, concat (map ?f (so_digest (fst (Sha1_Transform (fst ?c1) (words_of d))))))"
      using False r blk
      unfolding Sha1_Final_def tb Let_def BufferToBlock_eq append.assoc b'
      by (simp add: split_beta)
    ultimately show ?thesis
      by (simp add: T dg)
  qed
qed


lemma length_foldl_compress: "length iv = 5 \<Longrightarrow> length (foldl sha1_compress iv bs) = 5"
  by (induction bs arbitrary: iv) simp_all

lemma length_sha1_digest: "length (sha1_digest m) = 20"
proof -
  have "length (concat (map be32 h)) = 4 * length h" for h
    by (induction h) simp_all
  then show ?thesis
    unfolding sha1_digest_def by (simp add: length_foldl_compress sha1_iv_def)
qed

subsection \<open>Properties\<close>

lemma Updates_absorb: "so_absorbed c m \<Longrightarrow> so_absorbed (foldl Sha1_Update c ps) (m @ concat ps)"
proof (induction ps arbitrary: c m)
  case (Cons p ps)
  then show ?case
    using Cons.IH [OF Update_absorbs [OF Cons.prems, of p]] by simp
qed simp

text \<open>
  Property C26. ICL's own SHA-1 class and mbedtls agree: a fresh object, fed the
  pieces of a message, each of less than 4 GiB, by any sequence of \<open>Update\<close> calls, ends with the digest that
  \<open>mbedtls_sha1_starts_ret\<close>, \<open>mbedtls_sha1_update_ret\<close> on the same pieces and
  \<open>mbedtls_sha1_finish_ret\<close> write, and is reset for the next message.
\<close>

theorem sha_one_refines_mbedtls:
  assumes "\<forall>p \<in> set ps. length p < 2 ^ 32"
  shows "\<exists>out. Sha1_Final (foldl Sha1_Update Sha1_Reset ps) False = (Sha1_Reset, out) \<and>
    chk (mbedtls_sha1_starts_ret mbedtls_sha1_init)
      (\<lambda>ctx. chk (updates mbedtls_sha1_update_ret ctx ps)
        (\<lambda>ctx. chk (mbedtls_sha1_finish_ret ctx (replicate 20 0)) (\<lambda>(ctx, output). Inr output))) = Inr out"
proof -
  let ?m = "concat ps"
  have "so_absorbed (foldl Sha1_Update Sha1_Reset ps) ?m"
    using Updates_absorb [OF so_absorbed_Reset, of ps] by simp
  then have "Sha1_Final (foldl Sha1_Update Sha1_Reset ps) False = (Sha1_Reset, sha1_digest ?m)"
    unfolding sha1_digest_def using Final_digest [of _ ?m False] by (simp only: so_bytes_fun if_False)
  moreover have "absorbed 64 sha1_compress sha1_iv (mbedtls_sha1_init\<lparr>total0 := 0, total1 := 0, state := sha1_iv\<rparr>) []"
    using sha1.absorbed_start [of "mbedtls_sha1_init\<lparr>total0 := 0, total1 := 0, state := sha1_iv\<rparr>" sha1_iv]
    by (simp add: mbedtls_sha1_init_def)
  then have "chk (mbedtls_sha1_starts_ret mbedtls_sha1_init)
      (\<lambda>ctx. chk (updates mbedtls_sha1_update_ret ctx ps)
        (\<lambda>ctx. chk (mbedtls_sha1_finish_ret ctx (replicate 20 0)) (\<lambda>(ctx, output). Inr output)))
      = Inr (memcpy (replicate 20 0) 0 (sha1_digest ?m))"
    using sha1m.session [where out = "replicate 20 0" and ps = ps] assms
    by (simp add: mbedtls_sha1_starts_ret_def sha1_digest_def)
  moreover have "memcpy (replicate 20 0) 0 (sha1_digest ?m) = sha1_digest ?m"
    by (simp add: memcpy_def length_sha1_digest)
  ultimately show ?thesis
    by simp
qed

theorem sha_one_refines_mbedtls_witness:
  "\<exists>out. Sha1_Final (foldl Sha1_Update Sha1_Reset [[0x61], [0x62, 0x63]]) False = (Sha1_Reset, out) \<and>
    chk (mbedtls_sha1_starts_ret mbedtls_sha1_init)
      (\<lambda>ctx. chk (updates mbedtls_sha1_update_ret ctx [[0x61], [0x62, 0x63]])
        (\<lambda>ctx. chk (mbedtls_sha1_finish_ret ctx (replicate 20 0)) (\<lambda>(ctx, output). Inr output))) = Inr out"
  by (rule sha_one_refines_mbedtls) simp

end
