(* ===== verification/Util_String.thy ===== *)
theory Util_String
  imports Prelude "HOL-Library.Sublist"
begin


text \<open>
  The string routines of \<open>util/Util.cpp\<close> on lists of bytes, with the members of
  \<open>std::string\<close> they call: \<open>find\<close> (here \<open>find_str\<close>), \<open>find_last_of\<close>, \<open>substr\<close>, \<open>replace\<close> and \<open>erase\<close>.
  A result is a value, the exception \<open>std::out_of_range\<close>, or undefined behaviour; a
  loop that may run forever has the value \<open>None\<close> when it does.
\<close>

subsection \<open>Members of \<open>std::string\<close>\<close>

datatype cpp_fault = Out_of_range | Undefined

definition str :: "string \<Rightarrow> byte list" where
  "str s = map of_char s"

definition crlf :: "byte list" where "crlf = [13, 10]"

text \<open>\<open>std::string::npos\<close>, the largest \<open>size_t\<close>.\<close>

definition npos :: nat where "npos = 2 ^ 64 - 1"

definition substr :: "byte list \<Rightarrow> nat \<Rightarrow> nat \<Rightarrow> cpp_fault + byte list" where
  "substr s pos n = (if pos > length s then Inl Out_of_range else Inr (take n (drop pos s)))"

text \<open>The call with count \<open>npos\<close>, or with none.\<close>

definition substr_end :: "byte list \<Rightarrow> nat \<Rightarrow> cpp_fault + byte list" where
  "substr_end s pos = (if pos > length s then Inl Out_of_range else Inr (drop pos s))"

definition find_str :: "byte list \<Rightarrow> byte list \<Rightarrow> nat \<Rightarrow> nat option" where
  "find_str s p start = List.find (\<lambda>i. take (length p) (drop i s) = p) [start ..< Suc (length s)]"

definition find_last_of :: "byte list \<Rightarrow> byte list \<Rightarrow> nat" where
  "find_last_of s cs = (case List.find (\<lambda>i. s ! i \<in> set cs) (rev [0 ..< length s]) of None \<Rightarrow> npos | Some i \<Rightarrow> i)"

text \<open>\<open>isspace\<close> and \<open>tolower\<close> in the \<open>C\<close> locale.\<close>

definition isspace :: "byte \<Rightarrow> bool" where
  "isspace c \<longleftrightarrow> c = 32 \<or> 9 \<le> c \<and> c \<le> 13"

definition tolower :: "byte \<Rightarrow> byte" where
  "tolower c = (if 65 \<le> c \<and> c \<le> 90 then c + 32 else c)"

definition toupper :: "byte \<Rightarrow> byte" where
  "toupper c = (if 97 \<le> c \<and> c \<le> 122 then c - 32 else c)"

subsection \<open>Splitting and joining\<close>

text \<open>
  The loop of \<open>Split\<close>. A found delimiter ends inside the string, so the guard
  against the overflow of \<open>end + delimiter.size()\<close> leaves only the sum.
\<close>

partial_function (option) Split_loop ::
    "byte list \<Rightarrow> byte list \<Rightarrow> nat \<Rightarrow> byte list list \<Rightarrow> (cpp_fault + byte list list) option" where
  "Split_loop theString delimiter start theStringVector =
     (case find_str theString delimiter start of
        None \<Rightarrow> Some (map_sum id (\<lambda>t. theStringVector @ [t]) (substr_end theString start))
      | Some e \<Rightarrow>
          (case substr theString start (e - start) of
             Inl f \<Rightarrow> Some (Inl f)
           | Inr t \<Rightarrow> Split_loop theString delimiter (e + length delimiter) (theStringVector @ [t])))"

definition Split :: "byte list \<Rightarrow> byte list \<Rightarrow> (cpp_fault + byte list list) option" where
  "Split theString delimiter = Split_loop theString delimiter 0 []"

definition Join :: "byte list list \<Rightarrow> byte list \<Rightarrow> byte list" where
  "Join tokens delimiter =
     foldl (\<lambda>ss i. (if i \<noteq> 0 then ss @ delimiter else ss) @ tokens ! i) [] [0 ..< length tokens]"

subsection \<open>Trimming, case and paths\<close>

definition Ltrim :: "byte list \<Rightarrow> byte list" where
  "Ltrim s = dropWhile isspace s"

definition Rtrim :: "byte list \<Rightarrow> byte list" where
  "Rtrim s = rev (dropWhile isspace (rev s))"

definition Trim :: "byte list \<Rightarrow> byte list" where
  "Trim s = Rtrim (Ltrim s)"

definition ToUpper :: "byte list \<Rightarrow> byte list" where "ToUpper s = map toupper s"
definition ToLower :: "byte list \<Rightarrow> byte list" where "ToLower s = map tolower s"

definition Compare :: "byte list \<Rightarrow> byte list \<Rightarrow> bool" where
  "Compare a b = (if length a = length b then list_all2 (\<lambda>x y. tolower x = tolower y) b a else False)"

definition GetFileName :: "byte list \<Rightarrow> cpp_fault + byte list" where
  "GetFileName path =
     (let found = find_last_of path [47, 92] in substr_end path ((found + 1) mod 2 ^ 64))"

definition GetFileExtension :: "byte list \<Rightarrow> cpp_fault + byte list" where
  "GetFileExtension FileName =
     (if find_last_of FileName [46] \<noteq> npos
      then substr_end FileName ((find_last_of FileName [46] + 1) mod 2 ^ 64)
      else Inr [])"

definition GetDirectoryPath :: "byte list \<Rightarrow> cpp_fault + byte list" where
  "GetDirectoryPath path = (let found = find_last_of path [47, 92] in substr path 0 found)"

definition Contains :: "byte list \<Rightarrow> byte list \<Rightarrow> bool" where
  "Contains s lookfor \<longleftrightarrow> find_str s lookfor 0 \<noteq> None"

definition IsDigitOrAlpha :: "byte list \<Rightarrow> bool" where
  "IsDigitOrAlpha s = list_ex (\<lambda>c. 48 \<le> c \<and> c \<le> 57 \<or> 65 \<le> c \<and> c \<le> 90 \<or> 97 \<le> c \<and> c \<le> 122) s"

subsection \<open>Replacing\<close>

partial_function (option) ReplaceCharacter :: "byte list \<Rightarrow> byte list \<Rightarrow> byte list \<Rightarrow> byte list option" where
  "ReplaceCharacter theString toFind toReplace =
     (case find_str theString toFind 0 of
        None \<Rightarrow> Some theString
      | Some found \<Rightarrow>
          ReplaceCharacter (take found theString @ toReplace @ drop (found + 1) theString) toFind toReplace)"

definition EraseString :: "byte list \<Rightarrow> byte list \<Rightarrow> byte list" where
  "EraseString theString toErase =
     (case find_str theString toErase 0 of
        None \<Rightarrow> theString
      | Some found \<Rightarrow> take found theString @ drop (found + length toErase) theString)"

definition EscapeChar :: "byte list \<Rightarrow> byte list option" where
  "EscapeChar s =
     Option.bind (ReplaceCharacter s [92] [47]) (\<lambda>escaped.
     Option.bind (ReplaceCharacter escaped [13, 10] [92, 110]) (\<lambda>escaped.
     Option.bind (ReplaceCharacter escaped [10] [92, 110]) (\<lambda>escaped.
     ReplaceCharacter escaped [9] [92, 116])))"

subsection \<open>Hexadecimal\<close>

definition binHex :: "byte list" where
  "binHex = str ''0123456789ABCDEF''"

definition ByteToHex :: "byte \<Rightarrow> byte \<times> byte" where
  "ByteToHex b = (binHex ! unat (signed_drop_bit 4 b AND 0x0F), binHex ! unat (b AND 0x0F))"

definition ToHex :: "byte list \<Rightarrow> byte list" where
  "ToHex buf = foldl (\<lambda>hexstr b. let out = ByteToHex b in hexstr @ [fst out] @ [snd out]) [] buf"

definition hex_value :: "byte \<Rightarrow> nat option" where
  "hex_value c =
     (if 48 \<le> c \<and> c \<le> 57 then Some (unat c - 48)
      else if 65 \<le> c \<and> c \<le> 70 then Some (unat c - 55)
      else if 97 \<le> c \<and> c \<le> 102 then Some (unat c - 87)
      else None)"

text \<open>
  \<open>converter >> std::hex >> byte\<close> for at most two characters: blanks are skipped,
  a sign is read, then digits up to the first other character; without a digit the
  value is 0. Two characters hold no complete \<open>0x\<close> number.
\<close>

fun hex_number :: "nat \<Rightarrow> byte list \<Rightarrow> nat" where
  "hex_number n [] = n"
| "hex_number n (c # cs) = (case hex_value c of None \<Rightarrow> n | Some d \<Rightarrow> hex_number (16 * n + d) cs)"

definition read_hex :: "byte list \<Rightarrow> int" where
  "read_hex cs =
     (let cs = dropWhile isspace cs in
      case cs of
        [] \<Rightarrow> 0
      | c # cs' \<Rightarrow> if c = 45 then - int (hex_number 0 cs') else if c = 43 then int (hex_number 0 cs')
                   else int (hex_number 0 cs))"

fun HexStringToUint8 :: "byte list \<Rightarrow> byte list" where
  "HexStringToUint8 [] = []"
| "HexStringToUint8 [a] = [of_int (read_hex [a])]"
| "HexStringToUint8 (a # b # s) = of_int (read_hex [a, b]) # HexStringToUint8 s"


subsection \<open>Searching\<close>

definition occurs_at :: "byte list \<Rightarrow> nat \<Rightarrow> byte list \<Rightarrow> bool" where
  "occurs_at p i s \<longleftrightarrow> i \<le> length s \<and> take (length p) (drop i s) = p"

lemma occurs_at_iff: "occurs_at p i s \<longleftrightarrow> (\<exists>xs ys. s = xs @ p @ ys \<and> length xs = i)"
proof
  assume a: "occurs_at p i s"
  then have "s = take i s @ p @ drop (length p) (drop i s)"
    unfolding occurs_at_def by (metis append_take_drop_id)
  then show "\<exists>xs ys. s = xs @ p @ ys \<and> length xs = i"
    using a by (intro exI [of _ "take i s"] exI [of _ "drop (length p) (drop i s)"]) (simp add: occurs_at_def)
qed (auto simp: occurs_at_def)

lemma find_eq_Some:
  "find_str s p start = Some i \<longleftrightarrow> start \<le> i \<and> occurs_at p i s \<and> (\<forall>j. start \<le> j \<and> j < i \<longrightarrow> \<not> occurs_at p j s)"
proof -
  have "find_str s p start = Some i \<longleftrightarrow>
      (\<exists>k < Suc (length s) - start. take (length p) (drop (start + k) s) = p \<and> i = start + k \<and>
        (\<forall>j < k. take (length p) (drop (start + j) s) \<noteq> p))"
    unfolding find_str_def by (auto simp: find_Some_iff simp del: upt_Suc)
  also have "\<dots> \<longleftrightarrow> start \<le> i \<and> occurs_at p i s \<and> (\<forall>j. start \<le> j \<and> j < i \<longrightarrow> \<not> occurs_at p j s)"
    (is "?L \<longleftrightarrow> ?R")
  proof
    assume ?L
    then show ?R
      by (auto simp: occurs_at_def) (metis add_diff_cancel_left' add_diff_inverse_nat add_less_cancel_left not_less)
  next
    assume r: ?R
    then show ?L
      by (intro exI [of _ "i - start"]) (auto simp: occurs_at_def)
  qed
  finally show ?thesis .
qed

lemma find_eq_None: "find_str s p start = None \<longleftrightarrow> (\<forall>j \<ge> start. \<not> occurs_at p j s)"
  unfolding find_str_def by (auto simp: find_None_iff occurs_at_def simp del: upt_Suc)

lemma occurs_at_shift: "occurs_at p (length pre + i) (pre @ s) \<longleftrightarrow> occurs_at p i s"
  by (simp add: occurs_at_def)

lemma find_shift: "find_str (pre @ s) p (length pre) = map_option (\<lambda>i. length pre + i) (find_str s p 0)"
proof (cases "find_str s p 0")
  case None
  then have "find_str (pre @ s) p (length pre) = None"
    unfolding find_eq_None by (metis occurs_at_shift le_add_diff_inverse le0)
  with None show ?thesis by simp
next
  case (Some i)
  have "\<not> occurs_at p j (pre @ s)" if "length pre \<le> j" "j < length pre + i" for j
  proof -
    have "\<not> occurs_at p (j - length pre) s"
      using Some that unfolding find_eq_Some by auto
    then show ?thesis
      using occurs_at_shift [of p pre "j - length pre" s] that by simp
  qed
  then have "find_str (pre @ s) p (length pre) = Some (length pre + i)"
    using Some unfolding find_eq_Some by (auto simp: occurs_at_shift)
  with Some show ?thesis by simp
qed

lemma occurs_at_bound: "occurs_at p i s \<Longrightarrow> i + length p \<le> length s"
  unfolding occurs_at_iff by auto

lemma occurs_at_append: "occurs_at p i s \<Longrightarrow> occurs_at p i (s @ t)"
  unfolding occurs_at_iff by (metis append_assoc)

lemma occurs_at_prefix: "occurs_at p i (s @ t) \<Longrightarrow> i + length p \<le> length s \<Longrightarrow> occurs_at p i s"
  by (auto simp: occurs_at_def)

lemma occurs_sublist: "(\<exists>i. occurs_at p i s) \<longleftrightarrow> sublist p s"
  unfolding occurs_at_iff sublist_def by auto

lemma find_None_sublist: "find_str s p 0 = None \<longleftrightarrow> \<not> sublist p s"
  unfolding find_eq_None occurs_sublist [symmetric] by simp

subsection \<open>Splitting\<close>

text \<open>What \<open>Split\<close> computes for a delimiter that is not empty.\<close>

function split_spec :: "byte list \<Rightarrow> byte list \<Rightarrow> byte list list" where
  "split_spec d s =
     (case find_str s d 0 of
        None \<Rightarrow> [s]
      | Some e \<Rightarrow> if d = [] then [s] else take e s # split_spec d (drop (e + length d) s))"
  by pat_completeness auto
termination
  by (relation "measure (\<lambda>(d, s). length s)") (auto simp: find_eq_Some neq_Nil_conv dest!: occurs_at_bound)

declare split_spec.simps [simp del]

lemma split_spec_last: "\<not> sublist d s \<Longrightarrow> split_spec d s = [s]"
  using split_spec.simps [of d s] by (simp add: find_None_sublist [symmetric])

lemma split_spec_step:
  "d \<noteq> [] \<Longrightarrow> find_str s d 0 = Some e \<Longrightarrow> split_spec d s = take e s # split_spec d (drop (e + length d) s)"
  using split_spec.simps [of d s] by simp

lemma Split_loop_eq:
  "d \<noteq> [] \<Longrightarrow> Split_loop (pre @ s) d (length pre) acc = Some (Inr (acc @ split_spec d s))"
proof (induction d s arbitrary: pre acc rule: split_spec.induct)
  case (1 d s)
  show ?case
  proof (cases "find_str s d 0")
    case None
    then show ?thesis
      by (subst Split_loop.simps)
        (simp add: find_shift substr_end_def split_spec_last flip: find_None_sublist)
  next
    case (Some e)
    let ?d = "drop (e + length d) s" and ?p = "take (e + length d) s"
    have e: "e + length d \<le> length s"
      using Some by (auto simp: find_eq_Some dest: occurs_at_bound)
    have s: "pre @ s = (pre @ ?p) @ ?d" "length pre + e + length d = length (pre @ ?p)"
      using e by (simp_all add: min_def)
    have "Split_loop (pre @ s) d (length pre) acc = Split_loop ((pre @ ?p) @ ?d) d (length (pre @ ?p)) (acc @ [take e s])"
      using Some by (subst Split_loop.simps, subst s(1) [symmetric], subst s(2) [symmetric])
        (simp add: find_shift substr_def)
    also have "\<dots> = Some (Inr ((acc @ [take e s]) @ split_spec d ?d))"
      by (rule 1(1) [OF Some 1(2) 1(2)])
    also have "\<dots> = Some (Inr (acc @ split_spec d s))"
      using split_spec_step [OF 1(2) Some] by simp
    finally show ?thesis .
  qed
qed

lemma Split_eq: "d \<noteq> [] \<Longrightarrow> Split s d = Some (Inr (split_spec d s))"
  using Split_loop_eq [of d "[]" s "[]"] by (simp add: Split_def)

lemma Split_empty_delimiter: "Split s [] = None"
proof -
  have f: "find_str s [] 0 = Some 0" for s
    by (simp add: find_eq_Some occurs_at_def)
  have "\<not> (d = [] \<and> st = 0)" if "Split_loop s d st acc = Some r" for d st acc r
    by (rule Split_loop.raw_induct [where P = "\<lambda>s d st acc r. \<not> (d = [] \<and> st = 0)", OF _ that])
      (rule notI, fastforce simp: f substr_def split: option.splits sum.splits)
  then show ?thesis
    by (cases "Split s []") (auto simp: Split_def)
qed

lemma Join_Nil [simp]: "Join [] d = []"
  by (simp add: Join_def)

lemma foldl_append_start: "foldl (\<lambda>ss i. ss @ f i) acc xs = acc @ concat (map f xs)"
  by (induction xs arbitrary: acc) auto

lemma Join_Cons: "Join (t # ts) d = t @ concat (map (\<lambda>u. d @ u) ts)"
proof -
  have "Join (t # ts) d = foldl (\<lambda>ss i. ss @ (if i \<noteq> 0 then d else []) @ (t # ts) ! i) [] [0 ..< Suc (length ts)]"
    unfolding Join_def by (intro foldl_cong) auto
  also have "\<dots> = concat (map (\<lambda>i. (if i \<noteq> 0 then d else []) @ (t # ts) ! i) [0 ..< Suc (length ts)])"
    by (simp only: foldl_append_start append_Nil)
  also have "[0 ..< Suc (length ts)] = 0 # map Suc [0 ..< length ts]"
    by (simp add: upt_conv_Cons map_Suc_upt del: upt_Suc)
  also have "concat (map (\<lambda>i. (if i \<noteq> 0 then d else []) @ (t # ts) ! i) \<dots>) =
      t @ concat (map (\<lambda>u. d @ u) (map ((!) ts) [0 ..< length ts]))"
    by (simp add: comp_def)
  also have "map ((!) ts) [0 ..< length ts] = ts"
    by (rule map_nth)
  finally show ?thesis .
qed

lemma Join_Cons_Cons: "Join (t # u # ts) d = t @ d @ Join (u # ts) d"
  by (simp add: Join_Cons)

lemma split_spec_nonempty: "split_spec d s \<noteq> []"
  using split_spec.simps [of d s] by (simp split: option.split)

lemma Join_split_spec: "d \<noteq> [] \<Longrightarrow> Join (split_spec d s) d = s"
proof (induction d s rule: split_spec.induct)
  case (1 d s)
  show ?case
  proof (cases "find_str s d 0")
    case None
    then show ?thesis
      by (simp add: split_spec_last find_None_sublist Join_Cons)
  next
    case (Some e)
    obtain u us where u: "split_spec d (drop (e + length d) s) = u # us"
      using split_spec_nonempty by (cases "split_spec d (drop (e + length d) s)") auto
    have "Join (split_spec d s) d = take e s @ d @ drop (e + length d) s"
      using 1(1) [OF Some 1(2) 1(2)] split_spec_step [OF 1(2) Some] by (simp add: u Join_Cons_Cons)
    also have "d @ drop (e + length d) s = drop e s"
      using Some append_take_drop_id [of "length d" "drop e s"]
      by (simp add: find_eq_Some occurs_at_def add.commute)
    finally show ?thesis
      by simp
  qed
qed

lemma split_spec_free: "d \<noteq> [] \<Longrightarrow> t \<in> set (split_spec d s) \<Longrightarrow> \<not> sublist d t"
proof (induction d s arbitrary: t rule: split_spec.induct)
  case (1 d s)
  show ?case
  proof (cases "find_str s d 0")
    case None
    then show ?thesis
      using 1(3) by (simp add: split_spec_last find_None_sublist)
  next
    case (Some e)
    have "\<not> occurs_at d i (take e s)" for i
    proof
      assume a: "occurs_at d i (take e s)"
      then have "i < e" "occurs_at d i s"
        using occurs_at_bound [OF a] 1(2) occurs_at_append [OF a, of "drop e s"] by (cases d, auto)
      then show False
        using Some by (simp add: find_eq_Some)
    qed
    then have "\<not> sublist d (take e s)"
      by (simp add: occurs_sublist [symmetric])
    then show ?thesis
      using 1(1) [OF Some 1(2) 1(2)] 1(3) split_spec_step [OF 1(2) Some] by auto
  qed
qed

text \<open>A token is safe when the delimiter after it is the first one.\<close>

lemma split_spec_Join:
  assumes "d \<noteq> []" and "ts \<noteq> []" and "\<forall>t \<in> set ts. find_str (t @ d) d 0 = Some (length t)"
  shows "split_spec d (Join ts d) = ts"
  using assms(2,3)
proof (induction ts rule: induct_list012)
  case (2 t)
  have "\<not> sublist d t"
  proof
    assume "sublist d t"
    then obtain i where i: "occurs_at d i t"
      by (auto simp: occurs_sublist [symmetric])
    then have "i < length t"
      using occurs_at_bound [OF i] assms(1) by (cases d) auto
    then show False
      using 2 occurs_at_append [OF i, of d] by (simp add: find_eq_Some)
  qed
  then show ?case
    by (simp add: Join_Cons split_spec_last)
next
  case (3 t u ts)
  let ?s = "t @ d @ Join (u # ts) d"
  have "\<not> occurs_at d j ?s" if "j < length t" for j
    using 3(4) that occurs_at_prefix [of d j "t @ d" "Join (u # ts) d"] by (auto simp: find_eq_Some)
  then have "find_str ?s d 0 = Some (length t)"
    by (auto simp: find_eq_Some occurs_at_def)
  then show ?case
    using 3(2,3,4) split_spec_step [OF assms(1), of ?s] by (simp add: Join_Cons_Cons)
qed simp

lemma find_char: "c \<notin> set t \<Longrightarrow> find_str (t @ [c]) [c] 0 = Some (length t)"
proof -
  assume c: "c \<notin> set t"
  have "\<not> occurs_at [c] j (t @ [c])" if "j < length t" for j
  proof -
    have "take (length [c]) (drop j (t @ [c])) = [t ! j]"
      using that by (simp add: take_Suc hd_drop_conv_nth nth_append)
    then show ?thesis
      using c that by (auto simp: occurs_at_def)
  qed
  then show ?thesis
    by (auto simp: find_eq_Some occurs_at_def)
qed


subsection \<open>Replacing\<close>

lemma find_bound: "find_str s p 0 = Some i \<Longrightarrow> i + length p \<le> length s"
  by (auto simp: find_eq_Some dest: occurs_at_bound)

lemma find_nth: "find_str s (a # p) 0 = Some i \<Longrightarrow> i < length s \<and> s ! i = a"
  by (auto simp: find_eq_Some occurs_at_iff)

lemma replace_count:
  assumes "find_str s (a # p) 0 = Some i" and "a \<notin> set r"
  shows "count_list (take i s @ r @ drop (i + 1) s) a < count_list s a"
proof -
  have "s = take i s @ a # drop (i + 1) s"
    using find_nth [OF assms(1)] id_take_nth_drop [of i s] by simp
  from arg_cong [OF this, of "\<lambda>x. count_list x a"]
  have "count_list s a = count_list (take i s) a + Suc (count_list (drop (i + 1) s) a)"
    by simp
  moreover have "count_list r a = 0"
    using assms(2) by (simp add: count_list_0_iff)
  ultimately show ?thesis
    by simp
qed

lemma ReplaceCharacter_returns:
  assumes "a \<notin> set r"
  shows "\<exists>t. ReplaceCharacter s (a # p) r = Some t \<and> \<not> sublist (a # p) t"
proof (induction "count_list s a" arbitrary: s rule: less_induct)
  case less
  show ?case
  proof (cases "find_str s (a # p) 0")
    case None
    then show ?thesis
      by (subst ReplaceCharacter.simps) (simp add: find_None_sublist [symmetric])
  next
    case (Some i)
    show ?thesis
      using less [OF replace_count [OF Some assms]] Some by (subst ReplaceCharacter.simps) simp
  qed
qed

lemma ReplaceCharacter_diverges:
  assumes "sublist f r" and "sublist f s"
  shows "ReplaceCharacter s f r = None"
proof -
  have mid: "sublist f0 r0 \<Longrightarrow> sublist f0 (x @ r0 @ y)" for f0 r0 x y :: "byte list"
    by (simp add: sublist_append)
  have "\<not> (f = f0 \<and> r = r0 \<and> sublist f0 s)" if "sublist f0 r0" and "ReplaceCharacter s f r = Some t" for s f r t f0 r0
    by (rule ReplaceCharacter.raw_induct [where P = "\<lambda>s f r t. \<not> (f = f0 \<and> r = r0 \<and> sublist f0 s)", OF _ that(2)],
        rule notI)
      (use that(1) in \<open>fastforce simp: find_None_sublist mid split: option.splits\<close>)
  then show ?thesis
    using assms by (cases "ReplaceCharacter s f r") auto
qed

text \<open>A single character that the replacement does not contain is replaced everywhere.\<close>

definition subst_char :: "byte \<Rightarrow> byte list \<Rightarrow> byte list \<Rightarrow> byte list" where
  "subst_char a r s = concat (map (\<lambda>c. if c = a then r else [c]) s)"

lemma subst_char_simps [simp]:
  "subst_char a r [] = []"
  "subst_char a r (c # s) = (if c = a then r else [c]) @ subst_char a r s"
  "subst_char a r (s @ t) = subst_char a r s @ subst_char a r t"
  by (simp_all add: subst_char_def)

lemma subst_char_id: "a \<notin> set s \<Longrightarrow> subst_char a r s = s"
  by (induction s) auto

lemma find_singleton:
  "find_str s [a] 0 = None \<longleftrightarrow> a \<notin> set s"
  "find_str s [a] 0 = Some i \<Longrightarrow> a \<notin> set (take i s)"
proof -
  show "find_str s [a] 0 = None \<longleftrightarrow> a \<notin> set s"
    by (simp add: find_None_sublist sublist_def in_set_conv_decomp)
  show "a \<notin> set (take i s)" if "find_str s [a] 0 = Some i"
  proof
    assume "a \<in> set (take i s)"
    then obtain j where j: "j < i" "j < length s" "s ! j = a"
      by (auto simp: in_set_conv_nth)
    then have "occurs_at [a] j s"
      by (simp add: occurs_at_def take_Suc hd_drop_conv_nth)
    then show False
      using that j by (simp add: find_eq_Some)
  qed
qed

lemma ReplaceCharacter_char:
  assumes "a \<notin> set r"
  shows "ReplaceCharacter s [a] r = Some (subst_char a r s)"
proof (induction "count_list s a" arbitrary: s rule: less_induct)
  case less
  show ?case
  proof (cases "find_str s [a] 0")
    case None
    then have "a \<notin> set s"
      by (simp add: find_singleton(1))
    then show ?thesis
      by (subst ReplaceCharacter.simps) (simp add: None subst_char_id)
  next
    case (Some i)
    have s: "s = take i s @ a # drop (i + 1) s"
      using find_nth [OF Some] id_take_nth_drop [of i s] by simp
    have "subst_char a r s = subst_char a r (take i s @ a # drop (i + 1) s)"
      using s by simp
    also have "\<dots> = subst_char a r (take i s @ r @ drop (i + 1) s)"
      using assms by (simp add: subst_char_id)
    finally show ?thesis
      using less [OF replace_count [OF Some assms]] Some by (subst ReplaceCharacter.simps) simp
  qed
qed

text \<open>\<open>EscapeChar\<close> returns, and leaves no backslash of the input, line feed or tabulator.\<close>

lemma EscapeChar_returns:
  "\<exists>t. EscapeChar s = Some t \<and> 10 \<notin> set t \<and> 9 \<notin> set t"
proof -
  obtain t where t: "ReplaceCharacter (subst_char 92 [47] s) [13, 10] [92, 110] = Some t"
    using ReplaceCharacter_returns [of 13 "[92, 110]" "subst_char 92 [47] s" "[10]"] by auto
  have "10 \<notin> set (subst_char 10 [92, 110] t)" "9 \<notin> set (subst_char 9 [92, 116] u)"
    "10 \<notin> set u \<Longrightarrow> 10 \<notin> set (subst_char 9 [92, 116] u)" for u
    by (auto simp: subst_char_def split: if_splits)
  then show ?thesis
    unfolding EscapeChar_def by (simp add: ReplaceCharacter_char t)
qed

subsection \<open>Trimming, case and paths\<close>

lemma tolower_idem [simp]: "tolower (tolower c) = tolower c"
  by (simp add: tolower_def word_le_nat_alt unat_word_ariths) 

lemma ToLower_idem [simp]: "ToLower (ToLower s) = ToLower s"
  by (simp add: ToLower_def)

lemma Compare_ToLower: "Compare a b \<longleftrightarrow> ToLower a = ToLower b"
  by (auto simp: Compare_def ToLower_def list_eq_iff_nth_eq list_all2_conv_all_nth dest: map_eq_imp_length_eq)


lemma Rtrim_prefix: "\<exists>ys. s = Rtrim s @ ys \<and> list_all isspace ys"
proof (intro exI conjI)
  show "s = Rtrim s @ rev (takeWhile isspace (rev s))"
    unfolding Rtrim_def by (metis rev_append rev_rev_ident takeWhile_dropWhile_id)
  show "list_all isspace (rev (takeWhile isspace (rev s)))"
    by (auto simp: list_all_iff dest: set_takeWhileD)
qed

definition trimmed :: "byte list \<Rightarrow> bool" where
  "trimmed s \<longleftrightarrow> s = [] \<or> \<not> isspace (hd s) \<and> \<not> isspace (last s)"

lemma Trim_trimmed: "trimmed s \<Longrightarrow> Trim s = s"
  by (auto simp: trimmed_def Trim_def Ltrim_def Rtrim_def hd_rev dropWhile_eq_self_iff [THEN iffD2])

lemma dropWhile_hd: "dropWhile P s \<noteq> [] \<Longrightarrow> \<not> P (hd (dropWhile P s))"
  by (rule hd_dropWhile)

lemma trimmed_Trim: "trimmed (Trim s)"
proof -
  obtain ys where ys: "Ltrim s = Trim s @ ys" "list_all isspace ys"
    using Rtrim_prefix [of "Ltrim s"] by (auto simp: Trim_def)
  have "Trim s \<noteq> [] \<Longrightarrow> \<not> isspace (hd (Trim s))"
    using ys dropWhile_hd [of isspace s] unfolding Ltrim_def by (metis append_is_Nil_conv hd_append)
  moreover have "Trim s \<noteq> [] \<Longrightarrow> \<not> isspace (last (Trim s))"
    using dropWhile_hd [of isspace "rev (Ltrim s)"] unfolding Trim_def Rtrim_def by (simp add: last_rev)
  ultimately show ?thesis
    by (auto simp: trimmed_def)
qed

lemma find_last_of_cases:
  assumes "length s < 2 ^ 64"
  shows "(find_last_of s cs = npos \<and> set s \<inter> set cs = {}) \<or>
    (find_last_of s cs < length s \<and> s ! find_last_of s cs \<in> set cs \<and> set (drop (Suc (find_last_of s cs)) s) \<inter> set cs = {})"
proof (cases "List.find (\<lambda>i. s ! i \<in> set cs) (rev [0 ..< length s])")
  case None
  then have "find_last_of s cs = npos"
    by (simp add: find_last_of_def)
  moreover have "\<forall>i < length s. s ! i \<notin> set cs"
    using None by (simp add: find_None_iff)
  ultimately show ?thesis
    by (metis disjoint_iff in_set_conv_nth)
next
  case (Some i)
  then obtain k where k: "k < length s" "s ! i \<in> set cs" "i = length s - Suc k"
      and later: "\<And>j. j < k \<Longrightarrow> s ! (length s - Suc j) \<notin> set cs"
    by (auto simp: find_Some_iff rev_nth)
  have "set (drop (Suc i) s) \<inter> set cs = {}"
  proof (rule ccontr)
    assume "set (drop (Suc i) s) \<inter> set cs \<noteq> {}"
    then obtain c where "c \<in> set (drop (Suc i) s)" "c \<in> set cs"
      by auto
    then obtain m where m: "m < length s - Suc i" "s ! (Suc i + m) \<in> set cs"
      by (auto simp: in_set_conv_nth [of c "drop (Suc i) s"])
    have "s ! (length s - Suc (k - Suc m)) \<notin> set cs"
      using later [of "k - Suc m"] m k by simp
    moreover have "length s - Suc (k - Suc m) = Suc i + m"
      using m k by simp
    ultimately show False
      using m by simp
  qed
  then show ?thesis
    using k Some by (intro disjI2) (simp add: find_last_of_def)
qed

text \<open>A path is its directory, its separator and its file name; without a separator both are the path.\<close>

lemma path_parts:
  assumes "length path < 2 ^ 64"
  shows "\<exists>dir name. GetDirectoryPath path = Inr dir \<and> GetFileName path = Inr name \<and>
    set name \<inter> {47, 92} = {} \<and>
    (if set path \<inter> {47, 92} = {} then dir = path \<and> name = path
     else \<exists>sep \<in> {47, 92}. path = dir @ sep # name)"
proof (cases "set path \<inter> {47, 92} = {}")
  case True
  then have "find_last_of path [47, 92] = npos"
    using find_last_of_cases [OF assms, of "[47, 92]"] nth_mem [of _ path] by fastforce
  then show ?thesis
    using True assms by (simp add: GetDirectoryPath_def GetFileName_def substr_def substr_end_def npos_def)
next
  case False
  let ?i = "find_last_of path [47, 92]"
  have i: "?i < length path" "path ! ?i \<in> {47, 92}" "set (drop (Suc ?i) path) \<inter> {47, 92} = {}"
    using find_last_of_cases [OF assms, of "[47, 92]"] False by auto
  then have "path = take ?i path @ path ! ?i # drop (Suc ?i) path"
    by (simp add: id_take_nth_drop)
  moreover have "(?i + 1) mod 2 ^ 64 = Suc ?i"
    using i(1) assms by simp
  ultimately show ?thesis
    using i False by (auto simp: GetDirectoryPath_def GetFileName_def substr_def substr_end_def Let_def)
qed

subsection \<open>Hexadecimal\<close>

lemma binHex_nth: "n < 16 \<Longrightarrow> hex_value (binHex ! n) = Some n \<and> binHex ! n \<notin> {43, 45} \<and> \<not> isspace (binHex ! n)"
proof -
  have "list_all (\<lambda>n. hex_value (binHex ! n) = Some n \<and> binHex ! n \<notin> {43, 45} \<and> \<not> isspace (binHex ! n)) [0 ..< 16]"
    by code_simp
  then show "n < 16 \<Longrightarrow> ?thesis"
    by (simp add: list_all_iff)
qed

lemma nibbles: "unat (signed_drop_bit 4 b AND 0x0F :: byte) = unat b div 16" "unat (b AND 0x0F :: byte) = unat b mod 16"
proof -
  have "signed_drop_bit 4 b AND 0x0F = drop_bit 4 b"
    by (rule byte_bits_eqI) (auto simp: bit_simps bit_signed_drop_bit_iff dest: bit_imp_le_length)
  then show "unat (signed_drop_bit 4 b AND 0x0F :: byte) = unat b div 16"
    by (simp add: unat_drop_bit_eq drop_bit_eq_div [where 'a = nat])
  have "b AND 0x0F = take_bit 4 b"
    by (rule byte_bits_eqI) (simp_all add: bit_simps)
  then show "unat (b AND 0x0F :: byte) = unat b mod 16"
    by (simp add: unsigned_take_bit_eq take_bit_eq_mod [where 'a = nat])
qed

lemma ByteToHex_eq: "ByteToHex b = (binHex ! (unat b div 16), binHex ! (unat b mod 16))"
  unfolding ByteToHex_def nibbles(1) by (simp only: nibbles(2))

lemma ToHex_Cons: "ToHex (b # bs) = fst (ByteToHex b) # snd (ByteToHex b) # ToHex bs"
proof -
  have "foldl (\<lambda>h b. let out = ByteToHex b in h @ [fst out] @ [snd out]) acc bs = acc @ ToHex bs" for acc
    unfolding ToHex_def by (induction bs rule: rev_induct) (simp_all add: Let_def)
  from this [of "[fst (ByteToHex b), snd (ByteToHex b)]"] show ?thesis
    by (simp add: ToHex_def Let_def)
qed

lemma hex_roundtrip: "HexStringToUint8 (ToHex bs) = bs"
proof (induction bs)
  case (Cons b bs)
  have n: "unat b div 16 < 16" "unat b mod 16 < 16"
    using unat_byte_less [of b] by auto
  have "read_hex [fst (ByteToHex b), snd (ByteToHex b)] = int (unat b)"
    using binHex_nth [OF n(1)] binHex_nth [OF n(2)]
    unfolding ByteToHex_eq read_hex_def by simp
  then show ?case
    using Cons by (simp add: ToHex_Cons)
qed (simp add: ToHex_def)


subsection \<open>Properties\<close>

text \<open>
  Property C40. \<open>Split\<close> and \<open>Join\<close> are inverse. For every delimiter that is not
  empty, \<open>Split\<close> returns, never throws, joins back to the string, and no piece
  contains the delimiter; splitting what \<open>Join\<close> printed gives the tokens back when
  no token lets a delimiter begin early. With the empty delimiter the loop never ends.
\<close>

theorem split_join_inverse:
  assumes "d \<noteq> []"
  shows "(\<exists>ps. Split s d = Some (Inr ps) \<and> ps \<noteq> [] \<and> Join ps d = s \<and> (\<forall>p \<in> set ps. \<not> sublist d p)) \<and>
    (ts \<noteq> [] \<longrightarrow> (\<forall>t \<in> set ts. find_str (t @ d) d 0 = Some (length t)) \<longrightarrow> Split (Join ts d) d = Some (Inr ts)) \<and>
    Split s [] = None"
  using assms Split_empty_delimiter
  by (simp add: Split_eq Join_split_spec split_spec_nonempty split_spec_free split_spec_Join)

theorem split_join_inverse_witness:
  "Split (Join [[71, 69, 84], [], [47]] [32]) [32] = Some (Inr [[71, 69, 84], [], [47]])"
  using split_join_inverse [of "[32]" _ "[[71, 69, 84], [], [47]]"] by (simp add: find_char [of _ "[71, 69, 84]", simplified] find_char [of _ "[]", simplified] find_char [of _ "[47]", simplified])

text \<open>
  \<open>ReplaceCharacter\<close> returns when the replacement lacks the first
  character of the sought text, and the result no longer contains that text; it
  never returns when the replacement contains the sought text and the string does.
\<close>

theorem replace_character_returns:
  "(\<forall>a p. toFind = a # p \<longrightarrow> a \<notin> set toReplace \<longrightarrow>
      (\<exists>t. ReplaceCharacter theString toFind toReplace = Some t \<and> \<not> sublist toFind t)) \<and>
   (sublist toFind toReplace \<longrightarrow> sublist toFind theString \<longrightarrow> ReplaceCharacter theString toFind toReplace = None)"
  using ReplaceCharacter_returns ReplaceCharacter_diverges by blast

theorem replace_character_returns_witness:
  "ReplaceCharacter [97, 98] [97] [97, 97] = None \<and> (\<exists>t. ReplaceCharacter [97, 98] [97] [99] = Some t)"
  using replace_character_returns [of "[97]" "[97, 97]" "[97, 98]"] replace_character_returns [of "[97]" "[99]" "[97, 98]"]
  by (auto simp: sublist_def Cons_eq_append_conv)

text \<open>A carriage return and line feed become two escaped line feeds: \<open>replace\<close> removes one character only.\<close>

theorem escape_crlf_doubles: "EscapeChar [97, 13, 10] = Some [97, 92, 110, 92, 110]"
proof -
  have "ReplaceCharacter [97, 13, 10] [13, 10] [92, 110] = Some [97, 92, 110, 10]"
    by (subst ReplaceCharacter.simps, subst ReplaceCharacter.simps) (simp add: find_str_def upt_rec)
  then show ?thesis
    unfolding EscapeChar_def by (simp add: ReplaceCharacter_char)
qed

end
