(* ===== verification/Std_Map.thy ===== *)
theory Std_Map
  imports Prelude "HOL-Library.List_Lexorder"
begin


text \<open>
  \<open>std::map\<close> as the sources use it: \<open>insert\<close>, which keeps an element that is there,
  assignment through \<open>operator[]\<close>, \<open>count\<close>, \<open>at\<close> and iteration in the order of the
  keys. The locale states what the clients rely on, the interpretation shows it for
  association lists sorted by key. Keys that are strings compare as unsigned bytes,
  the order of \<open>char_traits<char>\<close>.
\<close>

locale std_map =
  fixes empty :: "'m" and wf :: "'m \<Rightarrow> bool" and lookup :: "'m \<Rightarrow> 'k \<Rightarrow> 'v option"
    and ins :: "'k \<Rightarrow> 'v \<Rightarrow> 'm \<Rightarrow> 'm" and upd :: "'k \<Rightarrow> 'v \<Rightarrow> 'm \<Rightarrow> 'm"
  assumes wf_empty: "wf empty" and lookup_empty: "lookup empty k = None"
    and wf_ins: "wf m \<Longrightarrow> wf (ins k v m)" and wf_upd: "wf m \<Longrightarrow> wf (upd k v m)"
    and lookup_ins: "wf m \<Longrightarrow> lookup (ins k v m) k' = (if k' = k \<and> lookup m k = None then Some v else lookup m k')"
    and lookup_upd: "wf m \<Longrightarrow> lookup (upd k v m) k' = (if k' = k then Some v else lookup m k')"
    and wf_ext: "wf m \<Longrightarrow> wf m' \<Longrightarrow> (\<And>k. lookup m k = lookup m' k) \<Longrightarrow> m = m'"
begin

definition ins_all :: "('k \<times> 'v) list \<Rightarrow> 'm \<Rightarrow> 'm" where
  "ins_all kvs m = foldl (\<lambda>m kv. ins (fst kv) (snd kv) m) m kvs"

lemma ins_all_simps [simp]:
  "ins_all [] m = m" "ins_all (kv # kvs) m = ins_all kvs (ins (fst kv) (snd kv) m)"
  by (simp_all add: ins_all_def)

lemma wf_ins_all: "wf m \<Longrightarrow> wf (ins_all kvs m)"
  by (induction kvs arbitrary: m) (simp_all add: wf_ins)

text \<open>An element that is there stays; of several insertions of a key the first counts.\<close>

lemma lookup_ins_all:
  "wf m \<Longrightarrow> lookup (ins_all kvs m) k = (case lookup m k of None \<Rightarrow> map_of kvs k | Some v \<Rightarrow> Some v)"
  by (induction kvs arbitrary: m) (auto simp: wf_ins lookup_ins split: option.splits)

lemma ins_all_eq:
  assumes "wf m" and "\<And>k. lookup m k = map_of kvs k"
  shows "ins_all kvs empty = m"
  by (rule wf_ext) (simp_all add: wf_ins_all wf_empty lookup_ins_all lookup_empty assms)

end

type_synonym ('k, 'v) smap = "('k \<times> 'v) list"

definition smap_ok :: "('k :: linorder, 'v) smap \<Rightarrow> bool" where
  "smap_ok m \<longleftrightarrow> sorted_wrt (<) (map fst m)"

fun smap_insert :: "'k :: linorder \<Rightarrow> 'v \<Rightarrow> ('k, 'v) smap \<Rightarrow> ('k, 'v) smap" where
  "smap_insert k v [] = [(k, v)]"
| "smap_insert k v ((k', v') # m) =
     (if k < k' then (k, v) # (k', v') # m else if k = k' then (k', v') # m else (k', v') # smap_insert k v m)"

fun smap_set :: "'k :: linorder \<Rightarrow> 'v \<Rightarrow> ('k, 'v) smap \<Rightarrow> ('k, 'v) smap" where
  "smap_set k v [] = [(k, v)]"
| "smap_set k v ((k', v') # m) =
     (if k < k' then (k, v) # (k', v') # m else if k = k' then (k, v) # m else (k', v') # smap_set k v m)"

lemma smap_ok_simps [simp]:
  "smap_ok []" "smap_ok ((k, v) # m) \<longleftrightarrow> (\<forall>k' \<in> fst ` set m. k < k') \<and> smap_ok m"
  by (auto simp: smap_ok_def)

lemma keys_smap_insert: "fst ` set (smap_insert k v m) = insert k (fst ` set m)"
  by (induction k v m rule: smap_insert.induct) auto

lemma keys_smap_set: "fst ` set (smap_set k v m) = insert k (fst ` set m)"
  by (induction k v m rule: smap_set.induct) auto

lemma map_of_smap_insert:
  "smap_ok m \<Longrightarrow> map_of (smap_insert k v m) k' = (if k' = k \<and> map_of m k = None then Some v else map_of m k')"
proof (induction k v m rule: smap_insert.induct)
  case (2 k v a b m)
  have "k < a \<Longrightarrow> map_of m k = None"
    using 2(2) by (force simp: map_of_eq_None_iff)
  then show ?case
    using 2 by auto
qed simp

lemma smap_ext:
  assumes "smap_ok m" "smap_ok m'" "map_of m = map_of m'"
  shows "m = m'"
proof -
  have d: "distinct (map fst m)" "distinct (map fst m')" "sorted (map fst m)" "sorted (map fst m')"
    using assms(1,2) by (simp_all add: smap_ok_def strict_sorted_iff)
  have "set (map fst m) = set (map fst m')"
    using assms(3) dom_map_of_conv_image_fst by (metis list.set_map)
  then have k: "map fst m = map fst m'"
    using d sorted_distinct_set_unique by blast
  have "map (\<lambda>k. (k, the (map_of n k))) (map fst n) = n" if "distinct (map fst n)" for n :: "('a, 'b) smap"
    using that by (auto intro!: map_idI simp: comp_def)
  then show ?thesis
    using d(1,2) k assms(3) by metis
qed

interpretation sm: std_map "[]" smap_ok map_of smap_insert smap_set
proof unfold_locales
  fix m m' :: "('k :: linorder, 'v) smap" and k k' :: 'k and v :: 'v
  show "smap_ok m \<Longrightarrow> smap_ok (smap_insert k v m)"
    by (induction k v m rule: smap_insert.induct) (auto simp: keys_smap_insert)
  show "smap_ok m \<Longrightarrow> smap_ok (smap_set k v m)"
    by (induction k v m rule: smap_set.induct) (auto simp: keys_smap_set)
  show "smap_ok m \<Longrightarrow> map_of (smap_insert k v m) k' = (if k' = k \<and> map_of m k = None then Some v else map_of m k')"
    by (rule map_of_smap_insert)
  show "smap_ok m \<Longrightarrow> map_of (smap_set k v m) k' = (if k' = k then Some v else map_of m k')"
    by (induction k v m rule: smap_set.induct) auto
  show "smap_ok m \<Longrightarrow> smap_ok m' \<Longrightarrow> (\<And>k. map_of m k = map_of m' k) \<Longrightarrow> m = m'"
    by (rule smap_ext) auto
qed simp_all

end
