(* ===== verification/Web_Socket.thy ===== *)
theory Web_Socket
  imports Base64 Sha_One Util_String
begin


text \<open>
  The sockets of \<open>network/TcpSocket.cpp\<close>: the WebSocket framing
  (\<open>BuildWsFrame\<close>, \<open>DecodeWsData\<close>), the write loop over \<open>send\<close>, the receive loop
  over \<open>recv\<close>, and the handshake of \<open>protocol/HttpProtocol.cpp\<close>
  (\<open>WebSocketRequest::Accept\<close>, \<open>WebSocketRequest::Upgrade\<close>).

  Strings are lists of bytes. A decode ends in a result, in the exception
  \<open>std::out_of_range\<close> of \<open>substr\<close>, or outside the buffer. The operating system
  enters as an argument: the outcome of every \<open>send\<close> and \<open>recv\<close> call.
\<close>

subsection \<open>Peers and connections\<close>

definition cSocketInvalid :: int where "cSocketInvalid = - 1"

record peer =
  p_socket :: int
  isWebSocket :: bool

definition Peer_IsValid :: "peer \<Rightarrow> bool" where
  "Peer_IsValid p \<longleftrightarrow> p_socket p \<noteq> cSocketInvalid"

datatype conn_state = cStateClosed | cStateConnected | cStateDeleteLater

record conn =
  c_peer :: peer
  c_state :: conn_state
  c_payload :: "byte list"

definition Conn_new :: "int \<Rightarrow> bool \<Rightarrow> conn" where
  "Conn_new s ws = \<lparr>c_peer = \<lparr>p_socket = s, isWebSocket = ws\<rparr>, c_state = cStateClosed, c_payload = []\<rparr>"

definition IsClosed :: "conn \<Rightarrow> bool" where
  "IsClosed c \<longleftrightarrow> c_state c = cStateClosed"

definition IsConnected :: "conn \<Rightarrow> bool" where
  "IsConnected c =
     (if Peer_IsValid (c_peer c)
      then if isWebSocket (c_peer c)
           then if c_state c \<noteq> cStateClosed then True else False
           else True
      else False)"

subsection \<open>Frames\<close>

definition WEBSOCKET_OPCODE_CONTINUATION :: byte where "WEBSOCKET_OPCODE_CONTINUATION = 0x00"
definition WEBSOCKET_OPCODE_TEXT :: byte where "WEBSOCKET_OPCODE_TEXT = 0x01"
definition WEBSOCKET_OPCODE_BINARY :: byte where "WEBSOCKET_OPCODE_BINARY = 0x02"
definition WEBSOCKET_OPCODE_CONNECTION_CLOSE :: byte where "WEBSOCKET_OPCODE_CONNECTION_CLOSE = 0x08"
definition WEBSOCKET_OPCODE_PING :: byte where "WEBSOCKET_OPCODE_PING = 0x09"
definition WEBSOCKET_OPCODE_PONG :: byte where "WEBSOCKET_OPCODE_PONG = 0x0A"

lemmas ws_opcodes = WEBSOCKET_OPCODE_CONTINUATION_def WEBSOCKET_OPCODE_TEXT_def WEBSOCKET_OPCODE_BINARY_def
  WEBSOCKET_OPCODE_CONNECTION_CLOSE_def WEBSOCKET_OPCODE_PING_def WEBSOCKET_OPCODE_PONG_def

datatype ws_result = WS_SEND_PONG | WS_PARTIAL | WS_DATA | WS_CLOSE

definition ws_header :: "byte \<Rightarrow> u32 \<Rightarrow> byte list" where
  "ws_header opcode data_len =
     (let h0 = 0x80 + (opcode AND 0x0F) in
      if data_len < 126 then [h0, ucast data_len]
      else if data_len \<le> 0xFFFF
      then [h0, 126, ucast (drop_bit 8 data_len AND 0xFF), ucast (data_len AND 0xFF)]
      else [h0, 127, 0, 0, 0, 0, ucast (drop_bit 24 data_len AND 0xFF), ucast (drop_bit 16 data_len AND 0xFF),
            ucast (drop_bit 8 data_len AND 0xFF), ucast (data_len AND 0xFF)])"

definition BuildWsFrame :: "byte \<Rightarrow> byte list \<Rightarrow> byte list" where
  "BuildWsFrame opcode data = ws_header opcode (of_nat (length data)) @ data"

text \<open>\<open>buf[i]\<close> of a \<open>std::string\<close> of length \<open>i\<close> is the terminating zero.\<close>

definition str_at :: "byte list \<Rightarrow> nat \<Rightarrow> byte" where
  "str_at buf i = (if i < length buf then buf ! i else 0)"

text \<open>The lengths read from a header: \<open>mask_len\<close>, \<open>header_len\<close> and \<open>data_len\<close>.\<close>

definition ws_lengths :: "byte list \<Rightarrow> nat \<times> nat \<times> nat" where
  "ws_lengths buf =
     (let buf_len = unat (of_nat (length buf) :: u32) in
      if buf_len \<ge> 2
      then let len = unat (str_at buf 1 AND 127);
               mask_len = (if str_at buf 1 AND 128 \<noteq> 0 then 4 else 0)
           in if len < 126 \<and> buf_len \<ge> mask_len then (mask_len, 2 + mask_len, len)
              else if len = 126 \<and> buf_len \<ge> 4 + mask_len
              then (mask_len, 4 + mask_len, unat (buf ! 2) * 256 + unat (buf ! 3))
              else if buf_len \<ge> 10 + mask_len
              then (mask_len, 10 + mask_len,
                    unat (GET_UINT32_BE buf 2) * 2 ^ 32 + unat (GET_UINT32_BE buf 6))
              else (mask_len, 0, 0)
      else (0, 0, 0))"

text \<open>The loop that applies the mask in place; it runs to \<open>data_len\<close> whatever the buffer holds.\<close>

definition ws_unmask :: "byte list \<Rightarrow> nat \<Rightarrow> nat \<Rightarrow> nat \<Rightarrow> cpp_fault + byte list" where
  "ws_unmask buf mask_len header_len data_len =
     (if mask_len > 0
      then if data_len > 0 \<and> length buf < header_len + data_len then Inl Undefined
           else Inr (foldl (\<lambda>b i. b[i + header_len := b ! (i + header_len) XOR b ! (header_len - mask_len + i mod 4)])
                  buf [0 ..< data_len])
      else Inr buf)"

definition DecodeWsData :: "byte list \<Rightarrow> byte list \<Rightarrow> cpp_fault + (ws_result \<times> byte list \<times> byte list)" where
  "DecodeWsData buf payload =
     (let (mask_len, header_len, data_len) = ws_lengths buf in
      case ws_unmask buf mask_len header_len data_len of
        Inl e \<Rightarrow> Inl e
      | Inr buf \<Rightarrow>
          let opcode = str_at buf 0 AND 0xF;
              FIN = (str_at buf 0 AND 0x80 = 0x80) in
          if opcode = WEBSOCKET_OPCODE_PING then Inr (WS_SEND_PONG, buf, payload)
          else if opcode = WEBSOCKET_OPCODE_CONNECTION_CLOSE then Inr (WS_CLOSE, buf, payload)
          else
            (case (if opcode = WEBSOCKET_OPCODE_TEXT \<or> opcode = WEBSOCKET_OPCODE_BINARY
                  then substr buf header_len data_len
                  else if opcode = WEBSOCKET_OPCODE_CONTINUATION
                  then map_sum id ((@) payload) (substr buf header_len data_len)
                  else Inr payload) of
              Inl e \<Rightarrow> Inl e
            | Inr payload \<Rightarrow> Inr (if FIN then WS_DATA else WS_PARTIAL, buf, payload)))"

text \<open>
  \<open>DecodeWsData( Conn & )\<close> on the receive buffer \<open>mBuff\<close>: the returned flag, the
  connection and the frame to send back, if any.
\<close>

definition DecodeWsData_conn :: "byte list \<Rightarrow> conn \<Rightarrow> cpp_fault + (bool \<times> conn \<times> byte list \<times> byte list option)" where
  "DecodeWsData_conn mBuff c =
     (case DecodeWsData mBuff (c_payload c) of
        Inl e \<Rightarrow> Inl e
      | Inr (res, buf, pl) \<Rightarrow>
          let c = c\<lparr>c_payload := pl\<rparr> in
          case res of
            WS_CLOSE \<Rightarrow> Inr (False, c\<lparr>c_state := cStateDeleteLater\<rparr>, buf, None)
          | WS_SEND_PONG \<Rightarrow> Inr (False, c, buf, Some (BuildWsFrame WEBSOCKET_OPCODE_PONG []))
          | WS_DATA \<Rightarrow> Inr (True, c, buf, None)
          | WS_PARTIAL \<Rightarrow> Inr (False, c, buf, None))"

definition DeliverData :: "byte list \<Rightarrow> conn \<Rightarrow> conn \<times> byte list" where
  "DeliverData mBuff c = (c\<lparr>c_payload := mBuff\<rparr>, [])"

subsection \<open>Writing\<close>

text \<open>
  The loop of \<open>Write\<close>: \<open>snd k buf\<close> is what the \<open>k\<close>-th call of \<open>send\<close> on the rest
  \<open>buf\<close> returns, \<open>retry k\<close> whether \<open>AnalyzeSocketError\<close> calls its error temporary.
  It does not end when \<open>send\<close> keeps returning 0, which is the value \<open>None\<close>. The
  last component collects what was handed to the system.
\<close>

partial_function (option) Write_loop ::
    "(nat \<Rightarrow> byte list \<Rightarrow> int) \<Rightarrow> (nat \<Rightarrow> bool) \<Rightarrow> nat \<Rightarrow> byte list \<Rightarrow> u32 \<Rightarrow> byte list \<Rightarrow> (bool \<times> u32 \<times> byte list) option" where
  "Write_loop send retry k buf written out =
     (if length buf > 0
      then let n = send k buf in
           if n < 0 then Some (retry k, written, out)
           else Write_loop send retry (Suc k) (drop (nat n) buf) (written + of_int n) (out @ take (nat n) buf)
      else Some (True, written, out))"

definition Write :: "(nat \<Rightarrow> byte list \<Rightarrow> int) \<Rightarrow> (nat \<Rightarrow> bool) \<Rightarrow> byte list \<Rightarrow> (bool \<times> u32 \<times> byte list) option" where
  "Write send retry input = Write_loop send retry 0 input 0 []"

definition Send :: "(nat \<Rightarrow> byte list \<Rightarrow> int) \<Rightarrow> (nat \<Rightarrow> bool) \<Rightarrow> byte list \<Rightarrow> peer \<Rightarrow> (bool \<times> byte list) option" where
  "Send send retry input p =
     (let req = (if isWebSocket p then BuildWsFrame WEBSOCKET_OPCODE_TEXT input else input) in
      if Peer_IsValid p
      then map_option (\<lambda>(success, written, out).
             (if success \<and> length req \<noteq> unat written then False else success, out)) (Write send retry req)
      else Some (False, []))"

subsection \<open>Handshake\<close>

definition Accept :: "byte list \<Rightarrow> byte list" where
  "Accept key =
     (let magic = str ''258EAFA5-E914-47DA-95CA-C5AB0DC85B11'';
          encoded = key @ magic;
          sha = Sha1_Update Sha1_Reset encoded;
          encoded = snd (Sha1_Final sha False)
      in Encode encoded)"

definition Upgrade :: "byte list \<Rightarrow> byte list \<Rightarrow> byte list" where
  "Upgrade key protocol =
     (let accept = Accept key;
          header = str ''HTTP/1.1 101 Switching Protocols'' @ crlf;
          header = header @ str ''Upgrade: websocket'' @ crlf;
          header = header @ str ''Connection: Upgrade'' @ crlf;
          header = header @ str ''Sec-WebSocket-Version: 13'' @ crlf;
          header = header @ str ''Sec-WebSocket-Accept: '' @ accept @ crlf;
          header = (if length protocol \<noteq> 0
                    then header @ str ''Sec-WebSocket-Protocol: '' @ protocol @ crlf
                    else header)
      in header @ crlf)"


subsection \<open>Frames of the protocol\<close>

text \<open>A frame as RFC 6455, section 5.2, lays it out; clients mask with a key of four bytes.\<close>

definition rfc_length :: "nat \<Rightarrow> byte list" where
  "rfc_length n =
     (if n < 126 then [of_nat n]
      else if n \<le> 65535 then [126, of_nat (n div 256), of_nat (n mod 256)]
      else 127 # be64 (of_nat n))"

definition rfc_mask :: "byte list \<Rightarrow> byte list \<Rightarrow> byte list" where
  "rfc_mask key data = map (\<lambda>i. data ! i XOR key ! (i mod 4)) [0 ..< length data]"

definition rfc_header :: "bool \<Rightarrow> byte \<Rightarrow> byte list option \<Rightarrow> nat \<Rightarrow> byte list" where
  "rfc_header fin opcode key n =
     ((if fin then 0x80 else 0) OR opcode) #
     ((if key = None then 0 else 0x80) OR hd (rfc_length n)) # tl (rfc_length n) @ (case key of None \<Rightarrow> [] | Some k \<Rightarrow> k)"

definition rfc_frame :: "bool \<Rightarrow> byte \<Rightarrow> byte list option \<Rightarrow> byte list \<Rightarrow> byte list" where
  "rfc_frame fin opcode key data =
     rfc_header fin opcode key (length data) @ (case key of None \<Rightarrow> data | Some k \<Rightarrow> rfc_mask k data)"

definition frame_ok :: "byte list option \<Rightarrow> byte list \<Rightarrow> bool" where
  "frame_ok key data \<longleftrightarrow> (\<forall>k. key = Some k \<longrightarrow> length k = 4) \<and> length data + 14 < 2 ^ 32"

lemma high_bit_byte:
  fixes l :: byte
  assumes "l < 128"
  shows "(128 OR l) AND 127 = l" "(128 OR l) AND 128 = 128" "l AND 127 = l" "l AND 128 = 0"
proof -
  have "l = take_bit 7 l"
    using assms by (simp add: take_bit_eq_mod word_less_nat_alt word_unat_eq_iff unat_mod)
  then have b: "\<not> bit l 7"
    by (metis bit_take_bit_iff less_irrefl)
  show "(128 OR l) AND 127 = l" "(128 OR l) AND 128 = 128" "l AND 127 = l" "l AND 128 = 0"
    using b by (auto intro!: byte_bits_eqI simp: bit_simps)
qed

lemma low_nibble:
  fixes l :: byte
  assumes "l < 16"
  shows "(128 OR l) AND 15 = l" "l AND 15 = l" "(128 OR l) AND 128 = 128" "l AND 128 = 0"
proof -
  have "l = take_bit 4 l"
    using assms by (simp add: take_bit_eq_mod word_less_nat_alt word_unat_eq_iff unat_mod)
  then have b: "\<not> bit l 4" "\<not> bit l 5" "\<not> bit l 6" "\<not> bit l 7"
    by (metis bit_take_bit_iff less_irrefl numeral_less_iff semiring_norm)+
  show "(128 OR l) AND 15 = l" "l AND 15 = l" "(128 OR l) AND 128 = 128" "l AND 128 = 0"
    using b by (auto intro!: byte_bits_eqI simp: bit_simps)
qed

lemma hd_rfc_length: "hd (rfc_length n) < 128" "rfc_length n \<noteq> []"
  by (auto simp: rfc_length_def word_less_nat_alt unat_of_nat)


lemma GET_UINT32_BE_be32: "i = length xs \<Longrightarrow> GET_UINT32_BE (xs @ be32 w @ ys) i = w"
  using GET_PUT_UINT32_BE [of i "xs @ be32 w @ ys" w] by (simp add: PUT_UINT32_BE_def memcpy_def)

lemma unat_of_nat_u32: "n < 2 ^ 32 \<Longrightarrow> unat (of_nat n :: u32) = n"
  by (simp add: unat_of_nat)

abbreviation mask_size :: "byte list option \<Rightarrow> nat" where
  "mask_size key \<equiv> (if key = None then 0 else 4)"

lemma length_rfc_header:
  "\<forall>k. key = Some k \<longrightarrow> length k = 4 \<Longrightarrow>
   length (rfc_header fin opcode key n) = 1 + length (rfc_length n) + mask_size key"
  using hd_rfc_length(2) [of n] by (auto simp: rfc_header_def Suc_leI split: option.split)

lemma ws_lengths_header:
  assumes key: "\<forall>k. key = Some k \<longrightarrow> length k = 4" and n: "n < 2 ^ 32" and body: "length body + 14 < 2 ^ 32"
  shows "ws_lengths (rfc_header fin opcode key n @ body) = (mask_size key, length (rfc_header fin opcode key n), n)"
proof -
  let ?buf = "rfc_header fin opcode key n @ body"
  let ?k = "case key of None \<Rightarrow> [] | Some k \<Rightarrow> k"
  have lk: "length ?k = mask_size key"
    using key by (cases key) auto
  have lh: "length (rfc_header fin opcode key n) = 1 + length (rfc_length n) + mask_size key"
    by (rule length_rfc_header [OF key])
  have rl: "length (rfc_length n) \<le> 9"
    by (simp add: rfc_length_def)
  have len: "unat (of_nat (length ?buf) :: u32) = length ?buf"
    by (rule unat_of_nat_u32) (use body rl lh in auto)
  have s1: "str_at ?buf 1 = (if key = None then 0 else 0x80) OR hd (rfc_length n)"
    by (simp add: str_at_def rfc_header_def)
  have m: "(if str_at ?buf 1 AND 128 \<noteq> 0 then 4 else 0) = mask_size key"
      "str_at ?buf 1 AND 127 = hd (rfc_length n)"
    unfolding s1 using high_bit_byte [OF hd_rfc_length(1) [of n]] by simp_all
  consider "n < 126" | "126 \<le> n" "n \<le> 65535" | "65535 < n"
    by linarith
  then show ?thesis
  proof cases
    case 1
    then show ?thesis
      unfolding ws_lengths_def len m Let_def lh
      by (simp add: rfc_length_def unat_of_nat lh)
  next
    case 2
    have "?buf ! 2 = of_nat (n div 256)" "?buf ! 3 = of_nat (n mod 256)"
      using 2 by (simp_all add: rfc_header_def rfc_length_def)
    moreover have "unat (of_nat (n div 256) :: byte) = n div 256" "unat (of_nat (n mod 256) :: byte) = n mod 256"
      using 2 by (simp_all add: unat_of_nat)
    ultimately show ?thesis
      using 2 unfolding ws_lengths_def len m Let_def lh
      by (simp add: rfc_length_def lh)
  next
    case 3
    have "unat (of_nat n :: u64) = n"
      using n by (simp add: unat_of_nat)
    moreover have "unat (drop_bit 32 (of_nat n :: u64)) = unat (of_nat n :: u64) div 2 ^ 32"
      unfolding unat_drop_bit_eq by (rule drop_bit_eq_div)
    ultimately have hl: "ucast (drop_bit 32 (of_nat n :: u64)) = (0 :: u32)" "unat (ucast (of_nat n :: u64) :: u32) = n"
      using n by (simp_all only: word_unat_eq_iff unsigned_ucast_eq unsigned_0) (simp_all add: take_bit_nat_eq_self)
    have b: "?buf = [str_at ?buf 0, str_at ?buf 1] @ be32 0 @ be32 (ucast (of_nat n :: u64)) @ ?k @ body"
      unfolding s1 using 3 by (simp add: rfc_header_def rfc_length_def be64_halves hl(1) str_at_def)
    have "GET_UINT32_BE ?buf 2 = 0" "GET_UINT32_BE ?buf 6 = ucast (of_nat n :: u64)"
      by (subst b, rule GET_UINT32_BE_be32, simp)
         (subst b, subst append.assoc [symmetric], rule GET_UINT32_BE_be32, simp)
    then show ?thesis
      using 3 hl(2) unfolding ws_lengths_def len m Let_def lh
      by (simp add: rfc_length_def lh)
  qed
qed

subsection \<open>Unmasking\<close>

lemma length_rfc_mask [simp]: "length (rfc_mask k d) = length d"
  by (simp add: rfc_mask_def)

lemma rfc_mask_inverse: "rfc_mask k (rfc_mask k d) = d"
  by (rule nth_equalityI) (simp_all add: rfc_mask_def xor.assoc)

lemma unmask_loop:
  assumes "length k = 4" and "m \<le> length body"
  shows "foldl (\<lambda>b i. b[i + length (h @ k) := b ! (i + length (h @ k)) XOR b ! (length (h @ k) - 4 + i mod 4)])
      (h @ k @ body) [0 ..< m] = h @ k @ rfc_mask k (take m body) @ drop m body"
  using assms(2)
proof (induction m)
  case (Suc m)
  then have m: "m < length body"
    by simp
  have "rfc_mask k (take (Suc m) body) = rfc_mask k (take m body) @ [body ! m XOR k ! (m mod 4)]"
    using m by (simp add: rfc_mask_def take_Suc_conv_app_nth nth_append min_def)
  moreover have "drop m body = body ! m # drop (Suc m) body"
    using m by (simp add: Cons_nth_drop_Suc)
  ultimately show ?case
    using Suc assms(1) m by (simp add: nth_append list_update_append)
qed (simp add: rfc_mask_def)

lemma rfc_header_key: "\<exists>h. rfc_header fin opcode (Some k) n = h @ k"
  by (metis (no_types, lifting) append_Cons option.simps(5) rfc_header_def)

lemma ws_unmask_frame:
  assumes "\<forall>k. key = Some k \<longrightarrow> length k = 4"
  shows "ws_unmask (rfc_frame fin opcode key data) (mask_size key) (length (rfc_header fin opcode key (length data))) (length data)
    = Inr (rfc_header fin opcode key (length data) @ data)"
proof (cases key)
  case None
  then show ?thesis
    by (simp add: ws_unmask_def rfc_frame_def)
next
  case (Some k)
  then have k: "length k = 4"
    using assms by simp
  obtain h where h: "rfc_header fin opcode (Some k) (length data) = h @ k"
    using rfc_header_key by blast
  show ?thesis
    using unmask_loop [OF k, of "length data" "rfc_mask k data" h] Some k
    by (simp add: ws_unmask_def rfc_frame_def h rfc_mask_inverse)
qed

lemma ws_unmask_truncated:
  assumes "length body < n"
  shows "ws_unmask (rfc_header fin opcode (Some k) n @ body) 4 (length (rfc_header fin opcode (Some k) n)) n = Inl Undefined"
  using assms by (simp add: ws_unmask_def)


subsection \<open>Decoding a complete frame\<close>

abbreviation fin_result :: "bool \<Rightarrow> ws_result" where
  "fin_result fin \<equiv> (if fin then WS_DATA else WS_PARTIAL)"

lemma str_at_header: "str_at (rfc_header fin opcode key n @ body) 0 = (if fin then 0x80 else 0) OR opcode"
  by (simp add: str_at_def rfc_header_def)

lemma decode_frame:
  assumes ok: "frame_ok key data" and op: "opcode < 16"
  shows "DecodeWsData (rfc_frame fin opcode key data) pl =
    (let buf = rfc_header fin opcode key (length data) @ data in
     if opcode = WEBSOCKET_OPCODE_PING then Inr (WS_SEND_PONG, buf, pl)
     else if opcode = WEBSOCKET_OPCODE_CONNECTION_CLOSE then Inr (WS_CLOSE, buf, pl)
     else if opcode = WEBSOCKET_OPCODE_TEXT \<or> opcode = WEBSOCKET_OPCODE_BINARY
     then Inr (fin_result fin, buf, data)
     else if opcode = WEBSOCKET_OPCODE_CONTINUATION then Inr (fin_result fin, buf, pl @ data)
     else Inr (fin_result fin, buf, pl))"
proof -
  have key: "\<forall>k. key = Some k \<longrightarrow> length k = 4" and len: "length data + 14 < 2 ^ 32"
    using ok by (auto simp: frame_ok_def)
  have l: "ws_lengths (rfc_frame fin opcode key data)
      = (mask_size key, length (rfc_header fin opcode key (length data)), length data)"
    using ws_lengths_header [OF key, of "length data" "case key of None \<Rightarrow> data | Some k \<Rightarrow> rfc_mask k data" fin opcode] len
    by (cases key) (simp_all add: rfc_frame_def)
  have b0: "((if fin then 0x80 else 0) OR opcode) AND 0xF = opcode"
      "((if fin then 0x80 else 0) OR opcode) AND 0x80 = 0x80 \<longleftrightarrow> fin"
    using low_nibble [OF op] by simp_all
  show ?thesis
    unfolding DecodeWsData_def l Let_def prod.case ws_unmask_frame [OF key] sum.case str_at_header b0
    by (auto simp: substr_def ws_opcodes)
qed

lemma disjoint_high_bit: "0x80 + (x AND 0x0F :: byte) = 0x80 OR (x AND 0x0F)"
  by (rule disjoint_bytes) (rule byte_bits_eqI; simp add: bit_simps)

lemma ucast_u32_of_nat: "n < 2 ^ 32 \<Longrightarrow> ucast (of_nat n :: u32) = (of_nat n :: 'a :: len word)"
  by (simp add: unsigned_of_nat take_bit_nat_eq_self)

lemma ucast_drop_u32: "n < 2 ^ 32 \<Longrightarrow> ucast (drop_bit k (of_nat n :: u32)) = (of_nat (n div 2 ^ k) :: byte)"
proof -
  assume "n < 2 ^ 32"
  then have "unat (drop_bit k (of_nat n :: u32)) = n div 2 ^ k"
    unfolding unat_drop_bit_eq by (simp only: unat_of_nat_u32 drop_bit_eq_div)
  then show ?thesis
    by (metis of_nat_unat)
qed

lemma of_nat_mod_256: "(of_nat (n mod 256) :: byte) = of_nat n"
  by (simp add: word_unat_eq_iff unat_of_nat)

lemma BuildWsFrame_rfc:
  assumes "length data < 2 ^ 32"
  shows "BuildWsFrame opcode data = rfc_frame True (opcode AND 0x0F) None data"
proof -
  let ?n = "length data"
  let ?L = "of_nat ?n :: u32"
  have L: "?L < 126 \<longleftrightarrow> ?n < 126" "?L \<le> 0xFFFF \<longleftrightarrow> ?n \<le> 65535"
    using assms by (simp_all add: word_less_nat_alt word_le_nat_alt unat_of_nat_u32)
  have c: "of_nat ?n = (ucast (of_nat ?n :: u64) :: u32)" "ucast (drop_bit 32 (of_nat ?n :: u64)) = (0 :: u32)"
  proof -
    have "unat (of_nat ?n :: u64) = ?n"
      using assms by (simp add: unat_of_nat)
    moreover have "unat (drop_bit 32 (of_nat ?n :: u64)) = unat (of_nat ?n :: u64) div 2 ^ 32"
      unfolding unat_drop_bit_eq by (rule drop_bit_eq_div)
    ultimately show "ucast (drop_bit 32 (of_nat ?n :: u64)) = (0 :: u32)"
      using assms by (simp_all only: word_unat_eq_iff unsigned_ucast_eq unsigned_0) (simp_all add: take_bit_nat_eq_self)
    show "of_nat ?n = (ucast (of_nat ?n :: u64) :: u32)"
      using assms by (simp add: unsigned_of_nat take_bit_nat_eq_self)
  qed
  have b64: "be64 (of_nat ?n) = [0, 0, 0, 0, ucast (drop_bit 24 ?L), ucast (drop_bit 16 ?L), ucast (drop_bit 8 ?L), ucast ?L]"
    unfolding be64_halves c(2) c(1) [symmetric] by (simp add: be32_def)
  show ?thesis
    unfolding BuildWsFrame_def ws_header_def Let_def L rfc_frame_def rfc_header_def rfc_length_def ucast_and_0xFF b64
    using ucast_drop_u32 [OF assms, of 8]
    by (simp add: disjoint_high_bit ucast_u32_of_nat [OF assms] of_nat_mod_256)
qed


subsection \<open>Messages in fragments\<close>

text \<open>What a peer sends for one message: fragments, with pings between them.\<close>

datatype ws_item = Fragment "byte list option" "byte list" | Ping "byte list option" "byte list"

fun is_fragment :: "ws_item \<Rightarrow> bool" where
  "is_fragment (Fragment _ _) = True"
| "is_fragment (Ping _ _) = False"

fun item_ok :: "ws_item \<Rightarrow> bool" where
  "item_ok (Fragment key d) = frame_ok key d"
| "item_ok (Ping key d) = frame_ok key d"

fun item_data :: "ws_item \<Rightarrow> byte list" where
  "item_data (Fragment _ d) = d"
| "item_data (Ping _ _) = []"

fun message_frames :: "byte \<Rightarrow> ws_item list \<Rightarrow> byte list list" where
  "message_frames opcode [] = []"
| "message_frames opcode (Ping key d # r) = rfc_frame True WEBSOCKET_OPCODE_PING key d # message_frames opcode r"
| "message_frames opcode (Fragment key d # r) =
     rfc_frame (\<not> list_ex is_fragment r) opcode key d # message_frames WEBSOCKET_OPCODE_CONTINUATION r"

definition pong :: "byte list" where
  "pong = BuildWsFrame WEBSOCKET_OPCODE_PONG []"

text \<open>The connection handles the frames one after the other; the flags and the replies in order.\<close>

fun ws_feed :: "conn \<Rightarrow> byte list list \<Rightarrow> cpp_fault + (bool list \<times> conn \<times> byte list list)" where
  "ws_feed c [] = Inr ([], c, [])"
| "ws_feed c (b # bs) =
     (case DecodeWsData_conn b c of
        Inl e \<Rightarrow> Inl e
      | Inr (flag, c, _, reply) \<Rightarrow>
          (case ws_feed c bs of
             Inl e \<Rightarrow> Inl e
           | Inr (flags, c, replies) \<Rightarrow>
               Inr (flag # flags, c, (case reply of None \<Rightarrow> replies | Some r \<Rightarrow> r # replies))))"

lemma decode_ping:
  "frame_ok key d \<Longrightarrow> \<exists>buf. DecodeWsData_conn (rfc_frame True WEBSOCKET_OPCODE_PING key d) c = Inr (False, c, buf, Some pong)"
  using decode_frame [of key d WEBSOCKET_OPCODE_PING True "c_payload c"]
  by (simp add: DecodeWsData_conn_def ws_opcodes pong_def Let_def)

lemma decode_fragment:
  assumes "frame_ok key d" and "opcode \<in> {WEBSOCKET_OPCODE_TEXT, WEBSOCKET_OPCODE_BINARY, WEBSOCKET_OPCODE_CONTINUATION}"
  shows "\<exists>buf. DecodeWsData_conn (rfc_frame fin opcode key d) c =
    Inr (fin, c\<lparr>c_payload := (if opcode = WEBSOCKET_OPCODE_CONTINUATION then c_payload c else []) @ d\<rparr>, buf, None)"
  using decode_frame [of key d opcode fin "c_payload c"] assms
  by (auto simp: DecodeWsData_conn_def ws_opcodes Let_def)

lemma feed_message:
  assumes "opcode \<in> {WEBSOCKET_OPCODE_TEXT, WEBSOCKET_OPCODE_BINARY, WEBSOCKET_OPCODE_CONTINUATION}"
    and "list_all item_ok items" and "items \<noteq> []" and "is_fragment (last items)"
  shows "ws_feed c (message_frames opcode items) =
    Inr (replicate (length items - 1) False @ [True],
      c\<lparr>c_payload := (if opcode = WEBSOCKET_OPCODE_CONTINUATION then c_payload c else []) @ concat (map item_data items)\<rparr>,
      map (\<lambda>_. pong) (filter (Not \<circ> is_fragment) items))"
  using assms
proof (induction opcode items arbitrary: c rule: message_frames.induct)
  case (2 opcode key d r)
  have "r \<noteq> []"
    using "2.prems"(4) by auto
  moreover obtain buf where "DecodeWsData_conn (rfc_frame True WEBSOCKET_OPCODE_PING key d) c = Inr (False, c, buf, Some pong)"
    using decode_ping [of key d c] "2.prems"(2) by auto
  ultimately show ?case
    using "2.IH" [of c] "2.prems" by (cases r) (simp_all add: replicate_append_same [symmetric])
next
  case (3 opcode key d r)
  define fin where "fin = (\<not> list_ex is_fragment r)"
  define c1 where "c1 = c\<lparr>c_payload := (if opcode = WEBSOCKET_OPCODE_CONTINUATION then c_payload c else []) @ d\<rparr>"
  obtain buf where buf: "DecodeWsData_conn (rfc_frame fin opcode key d) c = Inr (fin, c1, buf, None)"
    using decode_fragment [of key d opcode fin c] "3.prems"(1,2) by (auto simp: c1_def)
  show ?case
  proof (cases "r = []")
    case True
    then show ?thesis
      using buf by (simp add: fin_def c1_def)
  next
    case False
    then have "is_fragment (last r)" "list_all item_ok r"
      using "3.prems" by auto
    moreover from this(1) False have "\<not> fin"
      by (auto simp: fin_def list_ex_iff intro: last_in_set)
    moreover have "replicate (length r) False = False # replicate (length r - 1) False"
      using False by (cases r) simp_all
    ultimately show ?thesis
      using "3.IH" [of c1] buf False
      by (simp add: fin_def [symmetric]) (simp add: c1_def)
  qed
qed simp_all


subsection \<open>The write loop\<close>

definition wrote :: "(nat \<Rightarrow> byte list \<Rightarrow> int) \<Rightarrow> byte list \<Rightarrow> u32 \<Rightarrow> byte list \<Rightarrow> bool \<times> u32 \<times> byte list \<Rightarrow> bool" where
  "wrote send buf written out r \<longleftrightarrow> ((\<forall>k b. send k b \<le> int (length b)) \<longrightarrow>
     (\<exists>sent. prefix sent buf \<and> snd (snd r) = out @ sent \<and> fst (snd r) = written + of_nat (length sent)))"

lemma Write_loop_prefix:
  assumes "Write_loop send retry k buf written out = Some r"
  shows "wrote send buf written out r"
proof (rule Write_loop.raw_induct [where P = "\<lambda>send retry k buf written out r. wrote send buf written out r", OF _ assms])
  fix f send retry k buf written out r
  assume IH: "\<And>send retry k buf written out r. f send retry k buf written out = Some r \<Longrightarrow> wrote send buf written out r"
    and eq: "(if 0 < length buf
       then let n = send k buf
            in if n < 0 then Some (retry k, written, out)
               else f send retry (Suc k) (drop (nat n) buf) (written + word_of_int n) (out @ take (nat n) buf)
       else Some (True, written, out)) = Some r"
  show "wrote send buf written out r"
  proof (cases "buf = [] \<or> send k buf < 0")
    case True
    then show ?thesis
      using eq by (cases "buf = []") (auto simp: Let_def wrote_def intro!: exI [of _ "[]"])
  next
    case False
    let ?n = "nat (send k buf)"
    have w: "wrote send (drop ?n buf) (written + word_of_int (send k buf)) (out @ take ?n buf) r"
      by (rule IH) (use False eq in \<open>auto simp: Let_def\<close>)
    show ?thesis
      unfolding wrote_def
    proof
      assume le: "\<forall>k b. send k b \<le> int (length b)"
      then have n: "?n \<le> length buf" "send k buf = int ?n"
        using False by (auto simp: nat_le_iff)
      obtain sent where sent: "prefix sent (drop ?n buf)" "snd (snd r) = (out @ take ?n buf) @ sent"
          "fst (snd r) = written + word_of_int (send k buf) + of_nat (length sent)"
        using w le by (auto simp: wrote_def)
      have "prefix (take ?n buf @ sent) buf"
        using sent(1) by (metis append_take_drop_id same_prefix_prefix)
      moreover have "word_of_int (send k buf) = (of_nat (length (take ?n buf)) :: u32)"
        using n by (metis length_take min.absorb2 of_int_of_nat_eq)
      ultimately show "\<exists>sent. prefix sent buf \<and> snd (snd r) = out @ sent \<and> fst (snd r) = written + of_nat (length sent)"
        using sent(2,3) by (intro exI [of _ "take ?n buf @ sent"]) (simp add: add.assoc)
    qed
  qed
qed

lemma Write_loop_progress:
  assumes "\<forall>k b. b \<noteq> [] \<longrightarrow> 1 \<le> send k b \<and> send k b \<le> int (length b)"
  shows "Write_loop send retry k buf written out = Some (True, written + of_nat (length buf), out @ buf)"
proof (induction "length buf" arbitrary: k buf written out rule: less_induct)
  case less
  show ?case
  proof (cases "buf = []")
    case True
    then show ?thesis
      by (simp add: Write_loop.simps)
  next
    case False
    let ?n = "nat (send k buf)"
    have "1 \<le> send k buf" "send k buf \<le> int (length buf)"
      using assms False by auto
    then have n: "1 \<le> ?n" "?n \<le> length buf" "send k buf = int ?n"
      by linarith+
    have "Write_loop send retry (Suc k) (drop ?n buf) (written + of_int (send k buf)) (out @ take ?n buf)
        = Some (True, written + of_int (send k buf) + of_nat (length (drop ?n buf)), (out @ take ?n buf) @ drop ?n buf)"
      by (rule less) (use n in simp)
    moreover have "written + of_int (send k buf) + of_nat (length (drop ?n buf)) = written + of_nat (length buf)"
      using n by (simp add: of_nat_diff)
    ultimately show ?thesis
      using False \<open>1 \<le> send k buf\<close> by (subst Write_loop.simps) (simp add: Let_def)
  qed
qed


subsection \<open>Properties\<close>

text \<open>
  Property C4. Framing round trip: what \<open>BuildWsFrame\<close> builds for a text or
  binary message is delivered by \<open>DecodeWsData\<close> as complete data with the same
  bytes, and so is the frame of a client that masks it with any key.
\<close>

theorem ws_frame_roundtrip:
  assumes "length data + 14 < 2 ^ 32" and "length key = 4"
    and "opcode \<in> {WEBSOCKET_OPCODE_TEXT, WEBSOCKET_OPCODE_BINARY}"
  shows "(\<exists>buf. DecodeWsData (BuildWsFrame opcode data) pl = Inr (WS_DATA, buf, data)) \<and>
    (\<exists>buf. DecodeWsData (rfc_frame True opcode (Some key) data) pl = Inr (WS_DATA, buf, data))"
proof (rule conjI)
  have op: "opcode < 16" "opcode AND 0x0F = opcode"
    using assms(3) by (auto simp: ws_opcodes)
  have "BuildWsFrame opcode data = rfc_frame True opcode None data"
    using BuildWsFrame_rfc [of data opcode] assms(1) op by simp
  then show "\<exists>buf. DecodeWsData (BuildWsFrame opcode data) pl = Inr (WS_DATA, buf, data)"
    using decode_frame [of None data opcode True pl] assms op by (auto simp: frame_ok_def ws_opcodes Let_def)
  show "\<exists>buf. DecodeWsData (rfc_frame True opcode (Some key) data) pl = Inr (WS_DATA, buf, data)"
    using decode_frame [of "Some key" data opcode True pl] assms op by (auto simp: frame_ok_def ws_opcodes Let_def)
qed

theorem ws_frame_roundtrip_witness:
  "\<exists>buf. DecodeWsData (BuildWsFrame WEBSOCKET_OPCODE_TEXT [72, 105]) [] = Inr (WS_DATA, buf, [72, 105])"
  using ws_frame_roundtrip [of "[72, 105]" "[1, 2, 3, 4]" WEBSOCKET_OPCODE_TEXT "[]"] by simp

text \<open>
  Property C5. Reassembly: a message sent in any number of fragments, each masked
  or not, with pings anywhere between them, is reported complete exactly at its
  last fragment, with the concatenation of the fragments as payload; every ping
  is answered by one pong, in order, and leaves the payload alone.
\<close>

theorem ws_message_reassembled:
  assumes "opcode \<in> {WEBSOCKET_OPCODE_TEXT, WEBSOCKET_OPCODE_BINARY}"
    and "list_all item_ok items" and "items \<noteq> []" and "is_fragment (last items)"
  shows "ws_feed c (message_frames opcode items) =
    Inr (replicate (length items - 1) False @ [True],
      c\<lparr>c_payload := concat (map item_data items)\<rparr>,
      map (\<lambda>_. pong) (filter (Not \<circ> is_fragment) items))"
  using feed_message [of opcode items c] assms by (auto simp: ws_opcodes)

theorem ws_message_reassembled_witness:
  "ws_feed (Conn_new 5 True) (message_frames WEBSOCKET_OPCODE_TEXT
      [Fragment (Some [1, 2, 3, 4]) [72], Ping None [], Fragment None [105]]) =
    Inr ([False, False, True], (Conn_new 5 True)\<lparr>c_payload := [72, 105]\<rparr>, [pong])"
  using ws_message_reassembled [of WEBSOCKET_OPCODE_TEXT
      "[Fragment (Some [1, 2, 3, 4]) [72], Ping None [], Fragment None [105]]" "Conn_new 5 True"]
  by (simp add: frame_ok_def)

text \<open>
  Property C31. A masked frame whose payload has not arrived completely drives the
  unmasking loop past the end of the receive buffer, for every header, key and
  announced length, and every shorter payload.
\<close>

theorem ws_truncated_masked_overruns:
  assumes "length key = 4" and "length body < n" and "n + 14 < 2 ^ 32"
  shows "DecodeWsData (rfc_header fin opcode (Some key) n @ body) pl = Inl Undefined"
proof -
  have "ws_lengths (rfc_header fin opcode (Some key) n @ body) = (4, length (rfc_header fin opcode (Some key) n), n)"
    using ws_lengths_header [of "Some key" n body fin opcode] assms by simp
  then show ?thesis
    using ws_unmask_truncated [OF assms(2)] by (simp add: DecodeWsData_def)
qed

theorem ws_truncated_masked_overruns_witness:
  "DecodeWsData (rfc_header True WEBSOCKET_OPCODE_TEXT (Some [1, 2, 3, 4]) 100 @ [9, 9]) [] = Inl Undefined"
  by (rule ws_truncated_masked_overruns) simp_all

text \<open>Without a mask, the same incomplete frame is delivered as a complete message.\<close>

theorem ws_truncated_unmasked_delivered:
  "DecodeWsData [0x81, 5, 72, 101] [] = Inr (WS_DATA, [0x81, 5, 72, 101], [72, 101])"
  by (simp add: DecodeWsData_def ws_lengths_def str_at_def ws_unmask_def substr_def ws_opcodes)

text \<open>
  Property C29. \<open>Write\<close> ends and hands over the whole string when every \<open>send\<close>
  accepts at least one byte; in any case what was handed over is a prefix, and
  \<open>Send\<close> reports success only when the complete string, framed for a WebSocket,
  was handed over. \<open>send\<close> accepts at most what it is given.
\<close>

theorem tcp_send_complete:
  assumes "\<forall>k b. send k b \<le> int (length b)"
  shows "((\<forall>k b. b \<noteq> [] \<longrightarrow> 1 \<le> send k b) \<longrightarrow>
      Write send retry input = Some (True, of_nat (length input), input)) \<and>
    (\<forall>r. Write send retry input = Some r \<longrightarrow> prefix (snd (snd r)) input) \<and>
    (Send send retry input p = Some (True, out) \<longrightarrow> length input + 14 < 2 ^ 32 \<longrightarrow>
      out = (if isWebSocket p then BuildWsFrame WEBSOCKET_OPCODE_TEXT input else input))"
proof (intro conjI allI impI)
  show "Write send retry input = Some (True, of_nat (length input), input)" if "\<forall>k b. b \<noteq> [] \<longrightarrow> 1 \<le> send k b"
    using Write_loop_progress [of send retry 0 input 0 "[]"] assms that by (simp add: Write_def)
  show "prefix (snd (snd r)) input" if "Write send retry input = Some r" for r
    using Write_loop_prefix [of send retry 0 input 0 "[]" r] assms that by (auto simp: Write_def wrote_def)
  assume s: "Send send retry input p = Some (True, out)" and len: "length input + 14 < 2 ^ 32"
  define req where "req = (if isWebSocket p then BuildWsFrame WEBSOCKET_OPCODE_TEXT input else input)"
  have lr: "length req < 2 ^ 32"
    using len by (auto simp: req_def BuildWsFrame_def ws_header_def Let_def)
  obtain w where w: "Write send retry req = Some (True, w, out)" "length req = unat w"
    using s by (auto simp: Send_def req_def Let_def split: if_splits)
  obtain sent where "prefix sent req" "out = sent" "w = of_nat (length sent)"
    using Write_loop_prefix [of send retry 0 req 0 "[]" "(True, w, out)"] assms w(1) by (auto simp: Write_def wrote_def)
  then have "prefix sent req" "length sent = length req"
    using w(2) lr unat_of_nat_u32 [of "length sent"] prefix_length_le [of sent req] by auto
  then have "out = req"
    using \<open>out = sent\<close> by (auto simp: prefix_def)
  then show "out = (if isWebSocket p then BuildWsFrame WEBSOCKET_OPCODE_TEXT input else input)"
    by (simp add: req_def)
qed

theorem tcp_send_complete_witness:
  "Write (\<lambda>k b. min 2 (int (length b))) (\<lambda>_. False) [1, 2, 3] = Some (True, 3, [1, 2, 3])"
proof -
  have "\<forall>(k :: nat) b :: byte list. b \<noteq> [] \<longrightarrow> 1 \<le> min 2 (int (length b))"
    by (simp add: Suc_le_eq)
  then show ?thesis
    using tcp_send_complete [of "\<lambda>k b. min 2 (int (length b))" "\<lambda>_. False" "[1, 2, 3]"] by simp
qed

lemma Accept_digest:
  "Accept key = base64_spec (sha1_digest (key @ str ''258EAFA5-E914-47DA-95CA-C5AB0DC85B11''))"
proof -
  let ?m = "key @ str ''258EAFA5-E914-47DA-95CA-C5AB0DC85B11''"
  have "so_absorbed (Sha1_Update Sha1_Reset ?m) ?m"
    using Update_absorbs [OF so_absorbed_Reset, of ?m] by simp
  then have "snd (Sha1_Final (Sha1_Update Sha1_Reset ?m) False) = sha1_digest ?m"
    using Final_digest [of _ ?m False] by (simp only: sha1_digest_def so_bytes_fun if_False snd_conv)
  then show ?thesis
    unfolding Accept_def Let_def Encode_spec by (simp only:)
qed

text \<open>
  Property C28. The handshake answers with the Base64 text of the SHA-1 digest of
  the client's key and the fixed identifier, where the digest is the one mbedtls
  computes and the text the specification's.
\<close>

theorem ws_accept_correct:
  "Accept key = base64_spec (sha1_digest (key @ str ''258EAFA5-E914-47DA-95CA-C5AB0DC85B11''))"
  by (rule Accept_digest)

end
