(* ===== verification/Http_Protocol.thy ===== *)
theory Http_Protocol
  imports Web_Socket Std_Map
begin


text \<open>
  HTTP and the WebSocket upgrade, \<open>protocol/HttpProtocol.cpp\<close>: requests and
  replies, their text form, the parsers, and \<open>TcpSocket::ProceedWsHandshake\<close>.

  A parser ends with a value, in undefined behaviour (\<open>pop_back\<close> of an empty
  string), or, in the type, not at all: the loop of \<open>Split\<close> is partial.
\<close>

subsection \<open>Results\<close>

type_synonym 'a cpp = "(cpp_fault + 'a) option"

definition ret :: "'a \<Rightarrow> 'a cpp" where "ret x = Some (Inr x)"

definition cpp_bind :: "'a cpp \<Rightarrow> ('a \<Rightarrow> 'b cpp) \<Rightarrow> 'b cpp" where
  "cpp_bind m f = (case m of None \<Rightarrow> None | Some (Inl e) \<Rightarrow> Some (Inl e) | Some (Inr x) \<Rightarrow> f x)"

lemma cpp_bind_ret [simp]: "cpp_bind (ret x) f = f x" "cpp_bind (Some (Inr x)) f = f x" "cpp_bind (Some (Inl e)) f = Some (Inl e)"
  by (simp_all add: cpp_bind_def ret_def)

subsection \<open>Streams and strings\<close>

text \<open>
  An \<open>istringstream\<close>: the characters left, and whether its state is good. The
  end of the text without a delimiter sets \<open>eofbit\<close>, after which \<open>getline\<close> and
  \<open>tellg\<close> fail.
\<close>

type_synonym istream = "byte list \<times> bool"

definition getline :: "byte \<Rightarrow> istream \<Rightarrow> (byte list \<times> istream) option" where
  "getline delim iss =
     (if \<not> snd iss \<or> fst iss = [] then None
      else let line = takeWhile (\<lambda>c. c \<noteq> delim) (fst iss) in
           if length line = length (fst iss) then Some (line, ([], False))
           else Some (line, (drop (Suc (length line)) (fst iss), True)))"

lemma getline_shorter: "getline d iss = Some (line, iss') \<Longrightarrow> length (fst iss') < length (fst iss)"
  by (auto simp: getline_def Let_def split: if_splits)

definition tellg :: "byte list \<Rightarrow> istream \<Rightarrow> u32" where
  "tellg payload iss = (if snd iss then of_nat (length payload - length (fst iss)) else - 1)"

definition pop_back :: "byte list \<Rightarrow> byte list cpp" where
  "pop_back s = (if s = [] then Some (Inl Undefined) else ret (butlast s))"

definition find_first_not_of :: "byte list \<Rightarrow> byte list \<Rightarrow> nat" where
  "find_first_not_of s cs = (case List.find (\<lambda>i. s ! i \<notin> set cs) [0 ..< length s] of None \<Rightarrow> npos | Some i \<Rightarrow> i)"

definition find_last_not_of :: "byte list \<Rightarrow> byte list \<Rightarrow> nat" where
  "find_last_not_of s cs = (case List.find (\<lambda>i. s ! i \<notin> set cs) (rev [0 ..< length s]) of None \<Rightarrow> npos | Some i \<Rightarrow> i)"

definition blanks :: "byte list" where "blanks = [32, 9, 13, 11, 10]"

definition trim :: "byte list \<Rightarrow> byte list" where
  "trim s =
     (let s = drop (min (find_first_not_of s blanks) (length s)) s;
          n = min ((length s + 2 ^ 64 - find_last_not_of s blanks - 1) mod 2 ^ 64) (length s)
      in take (length s - n) s)"

text \<open>\<open>ss << n\<close> for an unsigned number.\<close>

fun to_dec :: "nat \<Rightarrow> byte list" where
  "to_dec n = (if n < 10 then [48 + of_nat n] else to_dec (n div 10) @ [48 + of_nat (n mod 10)])"

declare to_dec.simps [simp del]

text \<open>
  \<open>ss >> ret\<close> for a \<open>uint32_t\<close>: blanks, a sign, digits; no digit gives 0, a
  magnitude out of range the largest number, a minus sign the negation modulo
  \<open>2^32\<close>. At the end of the text nothing is assigned and \<open>junk\<close>, the
  uninitialised local, is returned.
\<close>

fun dec_digits :: "nat \<Rightarrow> byte list \<Rightarrow> nat" where
  "dec_digits n [] = n"
| "dec_digits n (c # cs) = (if 48 \<le> c \<and> c \<le> 57 then dec_digits (10 * n + (unat c - 48)) cs else n)"

definition FromString_u32 :: "u32 \<Rightarrow> byte list \<Rightarrow> u32" where
  "FromString_u32 junk s =
     (case dropWhile isspace s of
        [] \<Rightarrow> junk
      | c # cs \<Rightarrow>
          let n = dec_digits 0 (if c = 43 \<or> c = 45 then cs else c # cs) in
          if n > 2 ^ 32 - 1 then - 1 else if c = 45 then - of_nat n else of_nat n)"

subsection \<open>Requests and replies\<close>

type_synonym dict = "(byte list, byte list) smap"

record http_request =
  rq_method :: "byte list"
  rq_query :: "byte list"
  rq_protocol :: "byte list"
  rq_params :: dict
  rq_headers :: dict
  rq_body :: "byte list"

definition HttpRequest :: http_request where
  "HttpRequest = \<lparr>rq_method = str ''GET'', rq_query = str ''/'', rq_protocol = str ''HTTP/1.1'',
     rq_params = [], rq_headers = [], rq_body = []\<rparr>"

record http_reply =
  rp_protocol :: "byte list"
  rp_code :: "byte list"
  rp_result :: "byte list"
  rp_params :: dict
  rp_headers :: dict
  rp_body :: "byte list"
  rp_chunked :: bool
  rp_contentLength :: u32

definition HttpReply :: http_reply where
  "HttpReply = \<lparr>rp_protocol = [], rp_code = [], rp_result = [], rp_params = [], rp_headers = [], rp_body = [],
     rp_chunked = False, rp_contentLength = 0\<rparr>"

record websocket_request =
  ws_request :: http_request
  ws_key :: "byte list"
  ws_protocol :: "byte list"

definition WebSocketRequest :: websocket_request where
  "WebSocketRequest = \<lparr>ws_request = HttpRequest, ws_key = [], ws_protocol = []\<rparr>"

subsection \<open>Parsing requests\<close>

definition cSupportedMethods :: "byte list list" where
  "cSupportedMethods = [str ''GET'', str ''POST'']"

function url_params :: "istream \<Rightarrow> dict \<Rightarrow> dict" where
  "url_params iss params =
     (case getline 38 iss of
        None \<Rightarrow> params
      | Some (keyval, iss') \<Rightarrow>
          url_params iss'
            (case getline 61 (keyval, True) of
               None \<Rightarrow> params
             | Some (key, kv) \<Rightarrow>
                 (case getline 10 kv of
                    None \<Rightarrow> params
                  | Some (val, _) \<Rightarrow> smap_set key val params)))"
  by pat_completeness auto
termination
  by (relation "measure (\<lambda>(iss, params). length (fst iss))") (auto dest: getline_shorter)

declare url_params.simps [simp del]

definition ParseUrlParameters :: "http_request \<Rightarrow> http_request" where
  "ParseUrlParameters request =
     (case getline 63 (rq_query request, True) of
        None \<Rightarrow> request
      | Some (url, iss) \<Rightarrow> request\<lparr>rq_params := url_params iss (rq_params request)\<rparr>)"

text \<open>
  The loop over the header lines, up to the line that holds a carriage return
  only. The flag turns false at a line without a colon.
\<close>

function header_lines :: "istream \<Rightarrow> dict \<Rightarrow> bool \<Rightarrow> (istream \<times> dict \<times> bool) cpp" where
  "header_lines iss headers success =
     (case getline 10 iss of
        None \<Rightarrow> ret (([], False), headers, success)
      | Some (line, iss') \<Rightarrow>
          if line \<noteq> [13]
          then (case pop_back line of
                  None \<Rightarrow> None
                | Some (Inl e) \<Rightarrow> Some (Inl e)
                | Some (Inr line) \<Rightarrow>
                    (case find_str line [58] 0 of
                       None \<Rightarrow> header_lines iss' headers False
                     | Some index \<Rightarrow>
                         let option = map tolower (take index line);
                             optionValue = trim (drop (index + 1) line)
                         in header_lines iss' (smap_insert option optionValue headers) success))
          else ret (iss', headers, success))"
  by pat_completeness auto
termination
  by (relation "measure (\<lambda>(iss, headers, success). length (fst iss))") (auto dest: getline_shorter)

declare header_lines.simps [simp del]

definition set_body :: "byte list \<Rightarrow> istream \<Rightarrow> http_request \<Rightarrow> http_request" where
  "set_body payload iss request =
     (let body_start = tellg payload iss in
      if unat body_start < length payload
      then request\<lparr>rq_body := drop (unat body_start) payload\<rparr>
      else request)"

definition ParseRequestHeader :: "byte list \<Rightarrow> http_request \<Rightarrow> (bool \<times> http_request) cpp" where
  "ParseRequestHeader payload request =
     (case getline 10 (payload, True) of
        None \<Rightarrow> ret (False, request)
      | Some (line, iss) \<Rightarrow>
          cpp_bind (pop_back line) (\<lambda>line.
          cpp_bind (Split line [32]) (\<lambda>parts.
            if length parts = 3
            then let request = request\<lparr>rq_method := parts ! 0, rq_query := parts ! 1, rq_protocol := parts ! 2\<rparr> in
                 if rq_method request \<in> set cSupportedMethods
                 then let request = ParseUrlParameters request in
                      cpp_bind (header_lines iss (rq_headers request) True) (\<lambda>(iss, headers, _).
                        ret (True, set_body payload iss (request\<lparr>rq_headers := headers\<rparr>)))
                 else ret (False, request)
            else ret (False, request))))"

definition GetRequestHeaderValue :: "http_request \<Rightarrow> byte list \<Rightarrow> byte list \<Rightarrow> bool \<times> byte list" where
  "GetRequestHeaderValue request option value =
     (case map_of (rq_headers request) (map tolower option) of
        None \<Rightarrow> (False, value)
      | Some v \<Rightarrow> (True, v))"

definition ParseWebSocketRequest :: "byte list \<Rightarrow> websocket_request \<Rightarrow> (bool \<times> websocket_request) cpp" where
  "ParseWebSocketRequest payload ws =
     cpp_bind (ParseRequestHeader payload (ws_request ws)) (\<lambda>(valid, request).
       let ws = ws\<lparr>ws_request := request\<rparr> in
       if valid
       then let (ok, key) = GetRequestHeaderValue (ws_request ws) (str ''Sec-WebSocket-Key'') (ws_key ws);
                ws = ws\<lparr>ws_key := key\<rparr>;
                (ok, mustBeWebsocket) =
                  (if ok then GetRequestHeaderValue (ws_request ws) (str ''Upgrade'') [] else (False, []));
                ok = (if mustBeWebsocket \<noteq> str ''websocket'' then False else ok)
            in ret (ok, ws)
       else ret (False, ws))"

subsection \<open>Parsing replies\<close>

definition ParseReplyFirstLine :: "byte list \<Rightarrow> http_reply \<Rightarrow> (bool \<times> http_reply) cpp" where
  "ParseReplyFirstLine payload reply =
     (let reply = reply\<lparr>rp_contentLength := 0, rp_chunked := False, rp_headers := [], rp_params := []\<rparr> in
      case getline 10 (payload, True) of
        None \<Rightarrow> ret (False, reply)
      | Some (line, iss) \<Rightarrow>
          cpp_bind (pop_back line) (\<lambda>line.
          cpp_bind (Split line [32]) (\<lambda>parts.
            if length parts \<ge> 3
            then ret (True, reply\<lparr>rp_protocol := parts ! 0, rp_code := parts ! 1, rp_result := parts ! 2\<rparr>)
            else ret (False, reply))))"

definition ParseReplyHeaders :: "u32 \<Rightarrow> byte list \<Rightarrow> http_reply \<Rightarrow> (bool \<times> http_reply) cpp" where
  "ParseReplyHeaders junk payload reply =
     cpp_bind (header_lines (payload, True) (rp_headers reply) True) (\<lambda>(iss, headers, success).
       let reply = reply\<lparr>rp_headers := headers\<rparr> in
       case map_of headers (str ''content-length'') of
         None \<Rightarrow>
           ret (success, if map_of headers (str ''transfer-encoding'') = Some (str ''chunked'')
                         then reply\<lparr>rp_chunked := True\<rparr> else reply)
       | Some v \<Rightarrow> ret (success, reply\<lparr>rp_contentLength := FromString_u32 junk v\<rparr>))"

definition GetReplyHeaderValue :: "http_reply \<Rightarrow> byte list \<Rightarrow> byte list \<Rightarrow> bool \<times> byte list" where
  "GetReplyHeaderValue reply option value =
     (case map_of (rp_headers reply) (map tolower option) of
        None \<Rightarrow> (False, value)
      | Some v \<Rightarrow> (True, v))"

subsection \<open>Generating\<close>

definition header_text :: "byte list \<times> byte list \<Rightarrow> byte list" where
  "header_text x = fst x @ str '': '' @ snd x @ crlf"

definition GenerateRequest :: "http_request \<Rightarrow> byte list" where
  "GenerateRequest request =
     (let ss = rq_method request @ [32] @ rq_query request @ [32] @ rq_protocol request @ crlf;
          ss = foldl (\<lambda>ss x. ss @ header_text x) ss (rq_headers request)
      in ss @ crlf @ rq_body request)"

definition GenerateHttpJsonResponse :: "byte list \<Rightarrow> byte list" where
  "GenerateHttpJsonResponse data =
     str ''HTTP/1.1 200 OK'' @ crlf @ str ''Content-type: application/json'' @ crlf @
     str ''Content-length: '' @ to_dec (length data) @ crlf @ crlf @ data"

text \<open>\<open>random\<close> is what \<open>Util::GenerateRandomString(23)\<close> returned.\<close>

definition GenerateWebSocketRequest :: "byte list \<Rightarrow> websocket_request \<Rightarrow> byte list \<times> websocket_request" where
  "GenerateWebSocketRequest random ws =
     (let h = rq_headers (ws_request ws);
          h = smap_set (str ''Connection'') (str ''keep-alive, Upgrade'') h;
          h = smap_set (str ''Upgrade'') (str ''websocket'') h;
          h = smap_set (str ''Sec-WebSocket-Key'') (Encode random) h;
          h = smap_set (str ''Sec-WebSocket-Version'') (str ''13'') h;
          ws = ws\<lparr>ws_request := (ws_request ws)\<lparr>rq_headers := h\<rparr>\<rparr>
      in (GenerateRequest (ws_request ws), ws))"

text \<open>
  \<open>TcpSocket::ProceedWsHandshake\<close> on the receive buffer: whether the handshake
  succeeded, and what was written to the socket. \<open>send\<close> and \<open>retry\<close> are the
  system calls of \<open>Write\<close>.
\<close>

definition ProceedWsHandshake ::
    "(nat \<Rightarrow> byte list \<Rightarrow> int) \<Rightarrow> (nat \<Rightarrow> bool) \<Rightarrow> byte list \<Rightarrow> (bool \<times> byte list) cpp" where
  "ProceedWsHandshake send retry mBuff =
     cpp_bind (ParseWebSocketRequest mBuff WebSocketRequest) (\<lambda>(ok, ws).
       if ok
       then let req = Upgrade (ws_key ws) (ws_protocol ws) in
            case Write send retry req of
              None \<Rightarrow> None
            | Some (success, written, out) \<Rightarrow>
                ret (if success \<and> length req \<noteq> unat written then False else success, out)
       else ret (False, []))"


subsection \<open>Lines\<close>

lemma takeWhile_until:
  "d \<notin> set l \<Longrightarrow> takeWhile (\<lambda>c. c \<noteq> d) (l @ d # r) = l"
  "d \<notin> set l \<Longrightarrow> takeWhile (\<lambda>c. c \<noteq> d) l = l"
  by (induction l) auto

lemma getline_append [simp]: "d \<notin> set l \<Longrightarrow> getline d (l @ d # r, True) = Some (l, (r, True))"
  by (simp add: getline_def takeWhile_until Let_def)

lemma getline_last: "d \<notin> set l \<Longrightarrow> l \<noteq> [] \<Longrightarrow> getline d (l, True) = Some (l, ([], False))"
  by (simp add: getline_def Let_def takeWhile_until)

lemma getline_bad [simp]: "getline d (r, False) = None" "getline d ([], g) = None"
  by (simp_all add: getline_def)

lemma pop_back_snoc [simp]: "pop_back (s @ [c]) = ret s"
  by (simp add: pop_back_def)

lemma find_str_char:
  assumes "c \<notin> set t"
  shows "find_str (t @ c # r) [c] 0 = Some (length t)"
proof -
  have "\<not> occurs_at [c] j (t @ c # r)" if "j < length t" for j
    using that find_char [OF assms] occurs_at_prefix [of "[c]" j "t @ [c]" r] by (auto simp: find_eq_Some)
  then show ?thesis
    by (auto simp: find_eq_Some occurs_at_def)
qed

subsection \<open>Trimming\<close>

lemma takeWhile_shorter: "\<not> (\<forall>x \<in> set s. P x) \<Longrightarrow> length (takeWhile P s) < length s"
  by (induction s) auto

lemma find_index:
  "List.find (\<lambda>i. P (s ! i)) [0 ..< length s] = (if \<forall>x \<in> set s. \<not> P x then None else Some (length (takeWhile (\<lambda>x. \<not> P x) s)))"
proof (cases "\<forall>x \<in> set s. \<not> P x")
  case True
  then show ?thesis
    by (simp add: find_None_iff)
next
  case False
  let ?n = "length (takeWhile (\<lambda>x. \<not> P x) s)"
  have n: "?n < length s"
    using False by (rule takeWhile_shorter)
  have "P (s ! ?n)"
    using nth_length_takeWhile [OF n] by simp
  moreover have "\<forall>j < ?n. \<not> P (s ! j)"
    by (metis nth_mem set_takeWhileD takeWhile_nth)
  ultimately show ?thesis
    using n False by (auto simp: find_Some_iff)
qed

lemma find_rev_index:
  "List.find (\<lambda>i. P (s ! i)) (rev [0 ..< length s]) =
     (if \<forall>x \<in> set s. \<not> P x then None else Some (length s - 1 - length (takeWhile (\<lambda>x. \<not> P x) (rev s))))"
proof (induction s rule: rev_induct)
  case (snoc x s)
  have "List.find (\<lambda>i. P ((s @ [x]) ! i)) (rev [0 ..< length s]) = List.find (\<lambda>i. P (s ! i)) (rev [0 ..< length s])"
    by (rule find_cong) (simp_all add: nth_append)
  then show ?case
    using snoc by auto
qed simp

abbreviation blank :: "byte \<Rightarrow> bool" where "blank c \<equiv> c \<in> set blanks"

lemma skip_first:
  assumes "length s < 2 ^ 64"
  shows "drop (min (find_first_not_of s blanks) (length s)) s = dropWhile blank s"
proof (cases "\<forall>x \<in> set s. blank x")
  case True
  then have "find_first_not_of s blanks = npos"
    using find_index [of "\<lambda>c. \<not> blank c" s] by (simp add: find_first_not_of_def)
  moreover have "dropWhile blank s = []"
    using True by (simp add: dropWhile_eq_Nil_conv)
  moreover have "length s \<le> npos"
    using assms by (simp add: npos_def)
  ultimately show ?thesis
    by (simp only: min_absorb2 drop_all order_refl)
next
  case False
  then have "find_first_not_of s blanks = length (takeWhile blank s)"
    using find_index [of "\<lambda>c. \<not> blank c" s] by (auto simp: find_first_not_of_def)
  then show ?thesis
    by (simp add: dropWhile_eq_drop min_absorb1 length_takeWhile_le)
qed

lemma wrap_last: "k < n \<Longrightarrow> n < 2 ^ 64 \<Longrightarrow> (n + 2 ^ 64 - (n - 1 - k) - 1) mod 2 ^ 64 = k" for n k :: nat
proof -
  assume k: "k < n" "n < 2 ^ 64"
  then have "n + 2 ^ 64 - (n - 1 - k) - 1 = k + 2 ^ 64"
    by linarith
  then show ?thesis
    using k by simp
qed

lemma skip_last:
  assumes "length t < 2 ^ 64" and "t \<noteq> [] \<longrightarrow> \<not> blank (hd t)"
  shows "min ((length t + 2 ^ 64 - find_last_not_of t blanks - 1) mod 2 ^ 64) (length t) = length (takeWhile blank (rev t))"
proof (cases "t = []")
  case False
  then have x: "\<not> (\<forall>x \<in> set t. blank x)"
    using assms(2) hd_in_set [of t] by blast
  then have n: "find_last_not_of t blanks = length t - 1 - length (takeWhile blank (rev t))"
    using find_rev_index [of "\<lambda>c. \<not> blank c" t] by (auto simp: find_last_not_of_def)
  have k: "length (takeWhile blank (rev t)) < length t"
    using x takeWhile_shorter [of "rev t" blank] by simp
  show ?thesis
    unfolding n wrap_last [OF k assms(1)] using k by simp
qed (simp add: find_last_not_of_def npos_def)

lemma trim_eq:
  assumes "length s < 2 ^ 64"
  shows "trim s = rev (dropWhile blank (rev (dropWhile blank s)))"
proof -
  let ?t = "dropWhile blank s"
  let ?k = "length (takeWhile blank (rev ?t))"
  have "length ?t < 2 ^ 64"
    using assms length_dropWhile_le [of blank s] by linarith
  then have last: "min ((length ?t + 2 ^ 64 - find_last_not_of ?t blanks - 1) mod 2 ^ 64) (length ?t) = ?k"
    by (rule skip_last) (use hd_dropWhile [of blank s] in blast)
  have "take (length ?t - ?k) ?t = rev (drop ?k (rev ?t))"
    by (simp add: rev_drop)
  also have "\<dots> = rev (dropWhile blank (rev ?t))"
    by (simp only: dropWhile_eq_drop)
  finally show ?thesis
    unfolding trim_def Let_def skip_first [OF assms] last .
qed

definition bare :: "byte list \<Rightarrow> bool" where
  "bare s \<longleftrightarrow> (s \<noteq> [] \<longrightarrow> \<not> blank (hd s) \<and> \<not> blank (last s))"

lemma trim_bare:
  assumes "bare v" and "Suc (length v) < 2 ^ 64"
  shows "trim (32 # v) = v"
proof -
  have "blank 32"
    by (simp add: blanks_def)
  moreover have "dropWhile blank v = v" "dropWhile blank (rev v) = rev v"
    using assms(1) by (auto simp: bare_def dropWhile_eq_self_iff hd_rev)
  ultimately show ?thesis
    using assms(2) by (simp add: trim_eq)
qed

subsection \<open>Header lines\<close>

definition header_ok :: "byte list \<times> byte list \<Rightarrow> bool" where
  "header_ok kv \<longleftrightarrow> 10 \<notin> set (fst kv) \<and> 58 \<notin> set (fst kv) \<and> 10 \<notin> set (snd kv) \<and> bare (snd kv)"

definition lower_key :: "byte list \<times> byte list \<Rightarrow> byte list \<times> byte list" where
  "lower_key kv = (map tolower (fst kv), snd kv)"

lemma str_colon: "str '': '' = [58, 32]" "str '''' = []"
  by (simp_all add: str_def of_char_def)

lemma header_lines_step:
  assumes "header_ok kv" and "Suc (length (snd kv)) < 2 ^ 64"
  shows "header_lines (header_text kv @ r, True) m f =
    header_lines (r, True) (smap_insert (map tolower (fst kv)) (snd kv) m) f"
proof -
  have "10 \<notin> set (fst kv @ [58, 32] @ snd kv @ [13])"
    using assms by (simp add: header_ok_def)
  from getline_append [OF this, of r]
  have "getline 10 (header_text kv @ r, True) = Some ((fst kv @ [58, 32] @ snd kv) @ [13], (r, True))"
    by (simp add: header_text_def str_colon crlf_def)
  moreover have "find_str (fst kv @ [58, 32] @ snd kv) [58] 0 = Some (length (fst kv))"
    using assms(1) find_str_char [of 58 "fst kv" "32 # snd kv"] by (simp add: header_ok_def)
  moreover have "trim (32 # snd kv) = snd kv"
    using assms trim_bare by (simp add: header_ok_def)
  ultimately show ?thesis
    by (subst header_lines.simps) (simp add: pop_back_def ret_def butlast_append)
qed

lemma header_lines_end: "header_lines (crlf @ r, True) m f = ret ((r, True), m, f)"
  using getline_append [of 10 "[13]" r] by (subst header_lines.simps) (simp add: crlf_def)

lemma header_lines_text:
  assumes "list_all header_ok hs" and "list_all (\<lambda>kv. Suc (length (snd kv)) < 2 ^ 64) hs"
  shows "header_lines (concat (map header_text hs) @ crlf @ r, True) m f =
    ret ((r, True), sm.ins_all (map lower_key hs) m, f)"
  using assms
proof (induction hs arbitrary: m)
  case (Cons kv hs)
  then show ?case
    using header_lines_step [of kv "concat (map header_text hs) @ crlf @ r"] by (simp add: lower_key_def)
qed (simp add: header_lines_end)


subsection \<open>Requests\<close>

definition word_ok :: "byte list \<Rightarrow> bool" where
  "word_ok w \<longleftrightarrow> 10 \<notin> set w \<and> 32 \<notin> set w"

text \<open>A request whose text form is unambiguous.\<close>

definition request_ok :: "http_request \<Rightarrow> bool" where
  "request_ok r \<longleftrightarrow> rq_method r \<in> set cSupportedMethods \<and> word_ok (rq_query r) \<and> word_ok (rq_protocol r) \<and>
     list_all header_ok (rq_headers r) \<and> length (GenerateRequest r) < 2 ^ 32"

lemma Split_three:
  assumes "32 \<notin> set a" "32 \<notin> set b" "32 \<notin> set c"
  shows "Split (a @ 32 # b @ 32 # c) [32] = Some (Inr [a, b, c])"
proof -
  have "a @ 32 # b @ 32 # c = Join [a, b, c] [32]"
    by (simp add: Join_Cons)
  then show ?thesis
    using split_spec_Join [of "[32]" "[a, b, c]"] assms by (simp add: Split_eq find_char)
qed

lemma GenerateRequest_eq:
  "GenerateRequest r = (rq_method r @ 32 # rq_query r @ 32 # rq_protocol r) @ [13, 10] @
     concat (map header_text (rq_headers r)) @ crlf @ rq_body r"
  by (simp add: GenerateRequest_def Let_def foldl_append_start crlf_def)

lemma supported_word: "m \<in> set cSupportedMethods \<Longrightarrow> word_ok m"
  by (auto simp: cSupportedMethods_def word_ok_def str_def of_char_def)

lemma set_body_rest:
  assumes "payload = pre @ body" and "length payload < 2 ^ 32" and "body = [] \<longrightarrow> rq_body r = []"
  shows "set_body payload (body, True) r = r\<lparr>rq_body := body\<rparr>"
proof -
  have "unat (tellg payload (body, True)) = length pre"
    using assms(1,2) by (simp add: tellg_def unat_of_nat_u32)
  then show ?thesis
    using assms by (cases body) (auto simp: set_body_def)
qed

lemma headers_short:
  assumes "length (GenerateRequest r) < 2 ^ 32"
  shows "list_all (\<lambda>kv. Suc (length (snd kv)) < 2 ^ 64) (rq_headers r)"
proof (unfold list_all_iff, rule ballI)
  fix kv
  assume "kv \<in> set (rq_headers r)"
  then have "length (header_text kv) \<le> length (concat (map header_text (rq_headers r)))"
    by (metis concat_append concat.simps(2) in_set_conv_decomp length_append le_add1 le_add2 le_trans map_append list.simps(9))
  also have "\<dots> \<le> length (GenerateRequest r)"
    by (simp add: GenerateRequest_eq)
  finally show "Suc (length (snd kv)) < 2 ^ 64"
    using assms by (simp add: header_text_def)
qed

lemma ParseRequestHeader_Generate:
  assumes "request_ok r" and "rq_body q = []"
  shows "ParseRequestHeader (GenerateRequest r) q =
    (let q = ParseUrlParameters (q\<lparr>rq_method := rq_method r, rq_query := rq_query r, rq_protocol := rq_protocol r\<rparr>) in
     ret (True, q\<lparr>rq_headers := sm.ins_all (map lower_key (rq_headers r)) (rq_headers q), rq_body := rq_body r\<rparr>))"
proof -
  let ?l = "rq_method r @ 32 # rq_query r @ 32 # rq_protocol r"
  let ?hs = "concat (map header_text (rq_headers r)) @ crlf @ rq_body r"
  have ok: "word_ok (rq_method r)" "word_ok (rq_query r)" "word_ok (rq_protocol r)"
    using assms(1) supported_word by (auto simp: request_ok_def)
  then have "10 \<notin> set (?l @ [13])"
    by (simp add: word_ok_def)
  from getline_append [OF this, of ?hs]
  have "getline 10 (GenerateRequest r, True) = Some (?l @ [13], (?hs, True))"
    by (simp add: GenerateRequest_eq)
  moreover have "Split ?l [32] = Some (Inr [rq_method r, rq_query r, rq_protocol r])"
    using ok by (intro Split_three) (simp_all add: word_ok_def)
  moreover have "header_lines (?hs, True) m True = ret ((rq_body r, True), sm.ins_all (map lower_key (rq_headers r)) m, True)" for m
    using assms(1) headers_short by (intro header_lines_text) (auto simp: request_ok_def)
  moreover have "set_body (GenerateRequest r) (rq_body r, True) q' = q'\<lparr>rq_body := rq_body r\<rparr>"
    if "rq_body q' = []" for q'
    using assms(1) that by (intro set_body_rest) (auto simp: request_ok_def GenerateRequest_eq)
  moreover have "rq_body (ParseUrlParameters q') = rq_body q'" for q'
    by (simp add: ParseUrlParameters_def split: option.split)
  ultimately show ?thesis
    using assms by (simp add: ParseRequestHeader_def Let_def request_ok_def pop_back_def butlast_append)
qed

subsection \<open>Query parameters\<close>

definition param_ok :: "byte list \<times> byte list \<Rightarrow> bool" where
  "param_ok kv \<longleftrightarrow> set (fst kv) \<inter> {38, 61} = {} \<and> 38 \<notin> set (snd kv) \<and> 10 \<notin> set (snd kv) \<and> snd kv \<noteq> []"

definition param_text :: "byte list \<times> byte list \<Rightarrow> byte list" where
  "param_text kv = fst kv @ [61] @ snd kv"

lemma url_params_one:
  assumes "param_ok kv"
  shows "(case getline 61 (param_text kv, True) of None \<Rightarrow> m
     | Some (key, kv') \<Rightarrow> (case getline 10 kv' of None \<Rightarrow> m | Some (val, _) \<Rightarrow> smap_set key val m)) =
    smap_set (fst kv) (snd kv) m"
  using assms getline_append [of 61 "fst kv" "snd kv"] getline_last [of 10 "snd kv"]
  by (simp add: param_ok_def param_text_def)

lemma url_params_text:
  "list_all param_ok kvs \<Longrightarrow> url_params (Join (map param_text kvs) [38], True) m =
     foldl (\<lambda>m kv. smap_set (fst kv) (snd kv) m) m kvs"
proof (induction kvs arbitrary: m rule: induct_list012)
  case 1
  then show ?case
    by (simp add: url_params.simps)
next
  case (2 kv)
  then have "38 \<notin> set (param_text kv)" "param_text kv \<noteq> []"
    by (auto simp: param_ok_def param_text_def)
  then show ?case
    using url_params_one [of kv m] 2 getline_last
    by (subst url_params.simps, subst url_params.simps) (simp add: Join_Cons)
next
  case (3 kv kv' kvs)
  then have "38 \<notin> set (param_text kv)"
    by (auto simp: param_ok_def param_text_def)
  then show ?case
    using url_params_one [of kv m] 3
    by (subst url_params.simps) (simp add: Join_Cons_Cons)
qed

lemma ParseUrlParameters_text:
  assumes "list_all param_ok kvs" and "63 \<notin> set url" and "kvs \<noteq> []"
  shows "ParseUrlParameters (r\<lparr>rq_query := url @ [63] @ Join (map param_text kvs) [38]\<rparr>) =
    r\<lparr>rq_query := url @ [63] @ Join (map param_text kvs) [38],
      rq_params := foldl (\<lambda>m kv. smap_set (fst kv) (snd kv) m) (rq_params r) kvs\<rparr>"
  using assms getline_append [of 63 url "Join (map param_text kvs) [38]"] url_params_text
  by (simp add: ParseUrlParameters_def)


subsection \<open>Decimal numbers\<close>

lemma dec_digit_less: "d < 10 \<Longrightarrow> unat (48 + of_nat d :: byte) = 48 + d"
  by (simp add: unat_word_ariths unat_of_nat)

lemma dec_digit:
  assumes "d < 10"
  shows "48 \<le> (48 + of_nat d :: byte) \<and> (48 + of_nat d :: byte) \<le> 57"
  using dec_digit_less [OF assms] assms by (simp add: word_le_nat_alt)

lemma to_dec_digits: "list_all (\<lambda>c. 48 \<le> c \<and> c \<le> 57) (to_dec n) \<and> to_dec n \<noteq> []"
proof (induction n rule: to_dec.induct)
  case (1 n)
  show ?case
    using 1 dec_digit [of n] dec_digit [of "n mod 10"] by (subst to_dec.simps, subst (2) to_dec.simps) auto
qed

lemma dec_digits_append:
  "list_all (\<lambda>c. 48 \<le> c \<and> c \<le> 57) xs \<Longrightarrow> dec_digits n (xs @ ys) = dec_digits (dec_digits n xs) ys"
  by (induction xs arbitrary: n) auto

lemma dec_digits_to_dec: "dec_digits 0 (to_dec n) = n"
proof (induction n rule: to_dec.induct)
  case (1 n)
  show ?case
  proof (cases "n < 10")
    case True
    then show ?thesis
      using dec_digit [OF True] dec_digit_less [OF True] by (subst to_dec.simps) simp
  next
    case False
    have m: "n mod 10 < 10"
      by simp
    show ?thesis
      using 1 [OF False] False dec_digit [OF m] dec_digit_less [OF m] to_dec_digits [of "n div 10"]
      by (subst to_dec.simps) (simp add: dec_digits_append)
  qed
qed

lemma digit_range: "48 \<le> c \<Longrightarrow> c \<le> 57 \<Longrightarrow> \<not> isspace c \<and> c \<noteq> 43 \<and> c \<noteq> 45 \<and> c \<noteq> 10 \<and> \<not> blank c" for c :: byte
  by (auto simp: isspace_def blanks_def word_le_nat_alt word_unat_eq_iff)

lemma FromString_to_dec:
  assumes "n < 2 ^ 32"
  shows "FromString_u32 junk (to_dec n) = of_nat n"
proof -
  obtain c cs where c: "to_dec n = c # cs"
    using to_dec_digits [of n] by (cases "to_dec n") auto
  then have "48 \<le> c" "c \<le> 57"
    using to_dec_digits [of n] by simp_all
  from digit_range [OF this] show ?thesis
    using c dec_digits_to_dec [of n] assms by (simp add: FromString_u32_def)
qed

lemma bare_to_dec: "bare (to_dec n)" "10 \<notin> set (to_dec n)"
proof -
  have "\<forall>c \<in> set (to_dec n). \<not> blank c \<and> c \<noteq> 10"
    using to_dec_digits [of n] digit_range unfolding list_all_iff by blast
  then show "bare (to_dec n)" "10 \<notin> set (to_dec n)"
    using hd_in_set [of "to_dec n"] last_in_set [of "to_dec n"] unfolding bare_def by blast+
qed

subsection \<open>Base64 text in headers\<close>

definition plain :: "byte \<Rightarrow> bool" where "plain c \<longleftrightarrow> c \<noteq> 10 \<and> \<not> blank c"

lemma plain_base64: "k < 64 \<Longrightarrow> plain (base64_chars ! k)" "plain 61"
proof -
  have "list_all plain base64_chars"
    by (simp add: base64_chars_eq base64_enc_map_def blanks_def plain_def)
  then show "k < 64 \<Longrightarrow> plain (base64_chars ! k)"
    by (simp add: list_all_length length_base64_chars)
  show "plain 61"
    by (simp add: plain_def blanks_def)
qed

lemma top_sextet:
  "(unat a * 65536 + unat b * 256 + unat c) div 262144 < 64"
  "(unat a * 65536 + unat b * 256) div 262144 < 64" "(unat a * 65536) div 262144 < 64" for a b c :: byte
  using unat_byte_less [of a] unat_byte_less [of b] unat_byte_less [of c] by (simp_all add: div_less_iff_less_mult)

lemma base64_text: "list_all plain (Encode s)"
  unfolding Encode_spec
  by (induction s rule: base64_spec.induct)
    (simp_all only: base64_spec.simps Let_def list_all_append list.pred_inject plain_base64 top_sextet simp_thms
      mod_less_divisor zero_less_numeral)

lemma bare_Encode: "bare (Encode s)" "10 \<notin> set (Encode s)"
  using base64_text [of s] hd_in_set [of "Encode s"] last_in_set [of "Encode s"]
  unfolding bare_def list_all_iff plain_def by blast+

subsection \<open>Handshake\<close>

lemma map_of_lower:
  assumes "smap_ok h" and "map_of h k = Some v"
    and "\<forall>k' \<in> fst ` set h. map tolower k' = map tolower k \<longrightarrow> k' = k"
  shows "map_of (map lower_key h) (map tolower k) = Some v"
  using assms
proof (induction h)
  case (Cons kv h)
  show ?case
  proof (cases "fst kv = k")
    case True
    then show ?thesis
      using Cons(3) by (simp add: lower_key_def)
  next
    case False
    then have "map tolower (fst kv) \<noteq> map tolower k"
      using Cons(4) by auto
    then show ?thesis
      using Cons False by (cases kv) (auto simp: lower_key_def)
  qed
qed simp

text \<open>The headers that \<open>GenerateWebSocketRequest\<close> sets.\<close>

definition ws_keys :: "byte list list" where
  "ws_keys = [str ''Connection'', str ''Upgrade'', str ''Sec-WebSocket-Key'', str ''Sec-WebSocket-Version'']"

definition ws_headers :: "byte list \<Rightarrow> dict \<Rightarrow> dict" where
  "ws_headers random h = rq_headers (ws_request (snd (GenerateWebSocketRequest random
     (WebSocketRequest\<lparr>ws_request := HttpRequest\<lparr>rq_headers := h\<rparr>\<rparr>))))"

lemma ws_keys_distinct: "distinct ws_keys" "distinct (map (map tolower) ws_keys)"
  by (simp_all add: ws_keys_def str_def of_char_def tolower_def)

lemma ws_headers_eq:
  "ws_headers random h = smap_set (str ''Sec-WebSocket-Version'') (str ''13'') (smap_set (str ''Sec-WebSocket-Key'') (Encode random)
     (smap_set (str ''Upgrade'') (str ''websocket'') (smap_set (str ''Connection'') (str ''keep-alive, Upgrade'') h)))"
  by (simp add: ws_headers_def GenerateWebSocketRequest_def Let_def)

lemma GenerateWebSocketRequest_eq:
  "GenerateWebSocketRequest random ws =
     (let r = (ws_request ws)\<lparr>rq_headers := ws_headers random (rq_headers (ws_request ws))\<rparr>
      in (GenerateRequest r, ws\<lparr>ws_request := r\<rparr>))"
  by (simp add: GenerateWebSocketRequest_def ws_headers_eq Let_def)

lemma smap_ok_ws_headers: "smap_ok h \<Longrightarrow> smap_ok (ws_headers random h)"
  by (simp add: ws_headers_eq sm.wf_upd)

lemma keys_ws_headers: "fst ` set (ws_headers random h) = set ws_keys \<union> fst ` set h"
  by (auto simp: ws_headers_eq keys_smap_set ws_keys_def)

lemma map_of_ws_headers:
  assumes "smap_ok h"
  shows "map_of (ws_headers random h) (str ''Sec-WebSocket-Key'') = Some (Encode random)"
    and "map_of (ws_headers random h) (str ''Upgrade'') = Some (str ''websocket'')"
  using assms ws_keys_distinct(1) by (auto simp: ws_headers_eq sm.lookup_upd sm.wf_upd ws_keys_def)

lemma set_smap_set: "smap_ok m \<Longrightarrow> set (smap_set k v m) \<subseteq> insert (k, v) (set m)"
  by (induction k v m rule: smap_set.induct) auto

lemma header_ok_ws_headers:
  assumes "smap_ok h" "list_all header_ok h"
  shows "list_all header_ok (ws_headers random h)"
proof -
  have "set (ws_headers random h) \<subseteq> set [(str ''Connection'', str ''keep-alive, Upgrade''), (str ''Upgrade'', str ''websocket''),
      (str ''Sec-WebSocket-Key'', Encode random), (str ''Sec-WebSocket-Version'', str ''13'')] \<union> set h"
    unfolding ws_headers_eq using assms(1) by (auto dest!: set_smap_set [THEN subsetD, rotated] intro: sm.wf_upd)
  moreover have "list_all header_ok [(str ''Connection'', str ''keep-alive, Upgrade''), (str ''Upgrade'', str ''websocket''),
      (str ''Sec-WebSocket-Version'', str ''13'')]" "header_ok (str ''Sec-WebSocket-Key'', Encode random)"
    using bare_Encode by (simp_all add: header_ok_def bare_def blanks_def str_def of_char_def)
  ultimately show ?thesis
    using assms(2) by (auto simp: list_all_iff)
qed


lemma length_Upgrade: "length (Upgrade key []) < 2 ^ 32"
proof -
  have "length (Accept key) = 28"
    by (simp add: Accept_digest length_base64_spec length_sha1_digest)
  then show ?thesis
    by (simp add: Upgrade_def Let_def str_def crlf_def)
qed


lemma ParseWebSocketRequest_Generate:
  assumes "request_ok r" and "map_of (map lower_key (rq_headers r)) (map tolower (str ''Sec-WebSocket-Key'')) = Some key"
    and "map_of (map lower_key (rq_headers r)) (map tolower (str ''Upgrade'')) = Some (str ''websocket'')"
  shows "\<exists>r'. ParseWebSocketRequest (GenerateRequest r) WebSocketRequest = ret (True, \<lparr>ws_request = r', ws_key = key, ws_protocol = []\<rparr>)"
proof -
  have "rq_headers (ParseUrlParameters q) = rq_headers q" for q
    by (simp add: ParseUrlParameters_def split: option.split)
  then show ?thesis
    using ParseRequestHeader_Generate [OF assms(1), of HttpRequest] assms(2,3)
    by (simp add: ParseWebSocketRequest_def WebSocketRequest_def HttpRequest_def Let_def GetRequestHeaderValue_def
        sm.lookup_ins_all ret_def)
qed

lemma ws_lookup:
  assumes h: "smap_ok h" and inj: "\<forall>k \<in> fst ` set h. map tolower k \<in> map tolower ` set ws_keys \<longrightarrow> k \<in> set ws_keys"
    and k: "k \<in> set ws_keys" and v: "map_of (ws_headers random h) k = Some v"
  shows "map_of (map lower_key (ws_headers random h)) (map tolower k) = Some v"
proof (rule map_of_lower [OF smap_ok_ws_headers [OF h] v], rule ballI, rule impI)
  fix k'
  assume k': "k' \<in> fst ` set (ws_headers random h)" "map tolower k' = map tolower k"
  then have "k' \<in> set ws_keys"
    using inj k by (auto simp: keys_ws_headers)
  then show "k' = k"
    using ws_keys_distinct(2) k k'(2) by (auto simp: distinct_map inj_on_def)
qed

subsection \<open>Faults\<close>

text \<open>A head: complete lines, none of them empty.\<close>

definition head_ok :: "byte list \<Rightarrow> bool" where
  "head_ok h \<longleftrightarrow> (h \<noteq> [] \<longrightarrow> last h = 10) \<and> \<not> sublist [10, 10] (10 # h)"

lemma head_line:
  assumes "head_ok h" and "h \<noteq> []"
  obtains l h' where "h = l @ 10 # h'" "10 \<notin> set l" "l \<noteq> []" "head_ok h'"
proof -
  have "10 \<in> set h"
    using assms last_in_set [of h] by (auto simp: head_ok_def)
  then obtain l h' where h: "h = l @ 10 # h'" "10 \<notin> set l"
    by (metis split_list_first)
  have "l \<noteq> []"
  proof
    assume "l = []"
    then have "sublist [10, 10] (10 # h)"
      using h by (simp add: sublist_def) (metis append_Cons append_Nil)
    then show False
      using assms(1) by (simp add: head_ok_def)
  qed
  moreover have "head_ok h'"
  proof -
    have "sublist (10 # h') (10 # h)"
      by (simp add: h sublist_Cons_right sublist_append)
    then have "\<not> sublist [10, 10] (10 # h')"
      using assms(1) sublist_order.order_trans unfolding head_ok_def by blast
    then show ?thesis
      using assms(1) h by (auto simp: head_ok_def split: if_splits)
  qed
  ultimately show ?thesis
    using that h by blast
qed

lemma header_lines_safe: "head_ok h \<Longrightarrow> \<exists>v. header_lines (h @ crlf @ body, True) m f = ret v"
proof (induction h arbitrary: m f rule: length_induct)
  case (1 h)
  show ?case
  proof (cases "h = []")
    case True
    then show ?thesis
      using header_lines_end by auto
  next
    case False
    then obtain l h' where h: "h = l @ 10 # h'" "10 \<notin> set l" "l \<noteq> []" "head_ok h'"
      using head_line [OF 1(2)] by blast
    then have g: "getline 10 (h @ crlf @ body, True) = Some (l, (h' @ crlf @ body, True))"
      using getline_append [OF h(2), of "h' @ crlf @ body"] by simp
    have "\<exists>v. header_lines (h' @ crlf @ body, True) m f = ret v" for m f
      using 1(1) h by auto
    then show ?thesis
      using h(3) g by (subst header_lines.simps) (auto simp: pop_back_def ret_def Let_def split: option.split)
  qed
qed

lemma Split_space: "Split l [32] = ret (split_spec [32] l)"
  by (simp add: Split_eq ret_def)

subsection \<open>Properties\<close>

text \<open>
  Property C6. A request survives the wire: the text that \<open>GenerateRequest\<close> prints
  is parsed by \<open>ParseRequestHeader\<close> to the request itself, its parameters being
  those of its query. The method is one the server supports, the words of the
  first line hold no space or line feed, the header names are lower case without
  colon, the values have no blanks at their ends, and the text is below 4 GiB.
\<close>

theorem http_request_roundtrip:
  assumes "request_ok r" and "smap_ok (rq_headers r)" and "\<forall>k \<in> fst ` set (rq_headers r). map tolower k = k"
  shows "ParseRequestHeader (GenerateRequest r) HttpRequest = ret (True, ParseUrlParameters (r\<lparr>rq_params := []\<rparr>))"
proof -
  have "map lower_key (rq_headers r) = rq_headers r"
    using assms(3) by (auto intro!: map_idI simp: lower_key_def prod_eq_iff)
  then have "sm.ins_all (map lower_key (rq_headers r)) [] = rq_headers r"
    using assms(2) by (simp add: sm.ins_all_eq)
  then show ?thesis
    using ParseRequestHeader_Generate [OF assms(1), of HttpRequest]
    by (cases r) (simp add: HttpRequest_def Let_def ParseUrlParameters_def split: option.split)
qed

definition sample_request :: http_request where
  "sample_request = \<lparr>rq_method = str ''POST'', rq_query = str ''/a?b=c'', rq_protocol = str ''HTTP/1.1'', rq_params = [],
     rq_headers = [(str ''host'', str ''x''), (str ''x'', str ''a b'')], rq_body = [10, 0]\<rparr>"

theorem http_request_roundtrip_witness:
  "ParseRequestHeader (GenerateRequest sample_request) HttpRequest =
     ret (True, sample_request\<lparr>rq_params := [(str ''b'', str ''c'')]\<rparr>)"
proof -
  have "length (GenerateRequest sample_request) < 100"
    by code_simp
  moreover have "rq_method sample_request \<in> set cSupportedMethods \<and> word_ok (rq_query sample_request) \<and>
      word_ok (rq_protocol sample_request) \<and> list_all header_ok (rq_headers sample_request)"
    by code_simp
  ultimately have "request_ok sample_request"
    unfolding request_ok_def by simp
  moreover have "smap_ok (rq_headers sample_request) \<and> (\<forall>k \<in> fst ` set (rq_headers sample_request). map tolower k = k)"
    by code_simp
  moreover have "ParseUrlParameters (sample_request\<lparr>rq_params := []\<rparr>) = sample_request\<lparr>rq_params := [(str ''b'', str ''c'')]\<rparr>"
    by code_simp
  ultimately show ?thesis
    using http_request_roundtrip [of sample_request] by simp
qed

text \<open>
  Property C7. Client and server of the library agree on the WebSocket upgrade: the
  request a client generates, with whatever headers of its own, is accepted by
  \<open>ProceedWsHandshake\<close>, which writes the upgrade answer for the client's key, when
  \<open>send\<close> makes progress. No header of the client's may be a respelling of one of
  the four that the upgrade sets.
\<close>

theorem ws_handshake_accepted:
  assumes "smap_ok (rq_headers (ws_request ws))"
    and "\<forall>k \<in> fst ` set (rq_headers (ws_request ws)). map tolower k \<in> map tolower ` set ws_keys \<longrightarrow> k \<in> set ws_keys"
    and "list_all header_ok (rq_headers (ws_request ws))"
    and "rq_method (ws_request ws) \<in> set cSupportedMethods" "word_ok (rq_query (ws_request ws))" "word_ok (rq_protocol (ws_request ws))"
    and "length (fst (GenerateWebSocketRequest random ws)) < 2 ^ 32"
    and "\<forall>k b. send k b \<le> int (length b)" and "\<forall>k b. b \<noteq> [] \<longrightarrow> 1 \<le> send k b"
  shows "ProceedWsHandshake send retry (fst (GenerateWebSocketRequest random ws)) = ret (True, Upgrade (Encode random) [])"
proof -
  let ?h = "rq_headers (ws_request ws)"
  define r where "r = (ws_request ws)\<lparr>rq_headers := ws_headers random ?h\<rparr>"
  have g: "fst (GenerateWebSocketRequest random ws) = GenerateRequest r"
    by (simp add: GenerateWebSocketRequest_eq r_def Let_def)
  have "request_ok r"
    unfolding request_ok_def g [symmetric]
    using assms(3-7) header_ok_ws_headers [OF assms(1,3), of random] by (simp add: r_def)
  moreover have "map_of (map lower_key (ws_headers random ?h)) (map tolower (str ''Sec-WebSocket-Key'')) = Some (Encode random)"
      "map_of (map lower_key (ws_headers random ?h)) (map tolower (str ''Upgrade'')) = Some (str ''websocket'')"
    by (rule ws_lookup [OF assms(1,2) _ map_of_ws_headers(1) [OF assms(1)]], simp add: ws_keys_def)
      (rule ws_lookup [OF assms(1,2) _ map_of_ws_headers(2) [OF assms(1)]], simp add: ws_keys_def)
  ultimately obtain r' where
    "ParseWebSocketRequest (GenerateRequest r) WebSocketRequest = ret (True, \<lparr>ws_request = r', ws_key = Encode random, ws_protocol = []\<rparr>)"
    using ParseWebSocketRequest_Generate [of r "Encode random"] by (auto simp: r_def)
  moreover have "Write send retry (Upgrade (Encode random) []) =
      Some (True, of_nat (length (Upgrade (Encode random) [])), Upgrade (Encode random) [])"
    using Write_loop_progress [of send retry 0 "Upgrade (Encode random) []" 0 "[]"] assms(8,9) by (simp add: Write_def)
  ultimately show ?thesis
    using length_Upgrade by (simp add: ProceedWsHandshake_def g Let_def unat_of_nat_u32)
qed


theorem ws_handshake_accepted_witness:
  "ProceedWsHandshake (\<lambda>k b. int (length b)) (\<lambda>k. False) (fst (GenerateWebSocketRequest [65, 66, 67] WebSocketRequest)) =
     ret (True, Upgrade [81, 85, 74, 68] [])"
proof -
  have e: "Encode [65, 66, 67] = [81, 85, 74, 68]"
    by code_simp
  have "length (fst (GenerateWebSocketRequest [65, 66, 67] WebSocketRequest)) < 200"
    by code_simp
  moreover have "rq_headers (ws_request WebSocketRequest) = []" "rq_method (ws_request WebSocketRequest) \<in> set cSupportedMethods"
      "word_ok (rq_query (ws_request WebSocketRequest))" "word_ok (rq_protocol (ws_request WebSocketRequest))"
    by code_simp+
  ultimately show ?thesis
    using ws_handshake_accepted [of WebSocketRequest "[65, 66, 67]" "\<lambda>k b. int (length b)" "\<lambda>k. False"]
    by (simp add: e Suc_le_eq)
qed

text \<open>
  Property C39. Parsing a request returns a value, never undefined behaviour, when
  the lines before the blank line that ends the head are complete and none is
  empty; a payload whose first line is empty pops from an empty string.
\<close>

theorem http_parse_safe:
  assumes "head_ok h" and "h \<noteq> []"
  shows "(\<exists>v. ParseRequestHeader (h @ crlf @ body) r = ret v) \<and>
    ParseRequestHeader (10 # body) r = Some (Inl Undefined)"
proof
  obtain l h' where h: "h = l @ 10 # h'" "10 \<notin> set l" "l \<noteq> []" "head_ok h'"
    using head_line [OF assms] by blast
  have g: "getline 10 (h @ crlf @ body, True) = Some (l, (h' @ crlf @ body, True))"
    using getline_append [OF h(2), of "h' @ crlf @ body"] h(1) by simp
  have "\<exists>v. cpp_bind (header_lines (h' @ crlf @ body, True) m f) (\<lambda>(iss, headers, b). ret (k iss headers)) = ret v" for m f and k :: "istream \<Rightarrow> dict \<Rightarrow> bool \<times> http_request"
  proof -
    obtain x where "header_lines (h' @ crlf @ body, True) m f = ret x"
      using header_lines_safe [OF h(4), of body m f] by blast
    then show ?thesis
      by (intro exI [of _ "k (fst x) (fst (snd x))"]) (simp add: split_beta)
  qed
  then show "\<exists>v. ParseRequestHeader (h @ crlf @ body) r = ret v"
    using h(3) unfolding ParseRequestHeader_def g by (auto simp: pop_back_def Split_space Let_def)
  show "ParseRequestHeader (10 # body) r = Some (Inl Undefined)"
    using getline_append [of 10 "[]" body] by (simp add: ParseRequestHeader_def pop_back_def)
qed

theorem http_parse_safe_witness:
  "\<exists>v. ParseRequestHeader ([88, 10] @ crlf @ [1]) HttpRequest = ret v"
proof -
  have "head_ok [88, 10]"
    by (simp add: head_ok_def sublist_Cons_right)
  then show ?thesis
    using http_parse_safe [of "[88, 10]" "[1]" HttpRequest] by simp
qed

text \<open>
  The parameters of a query are those its text lists, the last value
  of a repeated name: with values that are not empty, hold no ampersand or line
  feed, and names without ampersand and equals sign.
\<close>

theorem url_parameters_parsed:
  assumes "list_all param_ok kvs" and "63 \<notin> set url" and "kvs \<noteq> []" and "smap_ok (rq_params r)"
    and "rq_query r = url @ [63] @ Join (map param_text kvs) [38]"
  shows "map_of (rq_params (ParseUrlParameters r)) = map_of (rq_params r) ++ map_of (rev kvs)"
proof -
  have "map_of (foldl (\<lambda>m kv. smap_set (fst kv) (snd kv) m) m kvs) = map_of m ++ map_of (rev kvs)" if "smap_ok m" for m :: dict
    using that
  proof (induction kvs arbitrary: m)
    case (Cons kv kvs)
    have "map_of (smap_set (fst kv) (snd kv) m) = (map_of m)(fst kv \<mapsto> snd kv)"
      using Cons(2) by (auto simp: sm.lookup_upd)
    then show ?case
      using Cons by (cases kv) (auto simp: sm.wf_upd fun_eq_iff map_add_def split: option.splits)
  qed simp
  moreover have "r = r\<lparr>rq_query := url @ [63] @ Join (map param_text kvs) [38]\<rparr>"
    using assms(5) by (cases r) simp
  ultimately show ?thesis
    using ParseUrlParameters_text [OF assms(1-3), of r] assms(4) by simp
qed

theorem url_parameters_parsed_witness:
  "map_of (rq_params (ParseUrlParameters (HttpRequest\<lparr>rq_query := str ''/x?a=1&b=2''\<rparr>))) (str ''b'') = Some (str ''2'')"
proof -
  let ?kvs = "[(str ''a'', str ''1''), (str ''b'', str ''2'')]"
  have "list_all param_ok ?kvs" "63 \<notin> set (str ''/x'')" "smap_ok (rq_params HttpRequest)"
      "str ''/x?a=1&b=2'' = str ''/x'' @ [63] @ Join (map param_text ?kvs) [38]" "str ''a'' \<noteq> str ''b''"
    by code_simp+
  then show ?thesis
    using url_parameters_parsed [of ?kvs "str ''/x''" "HttpRequest\<lparr>rq_query := str ''/x?a=1&b=2''\<rparr>"]
    by (simp add: map_add_def)
qed

subsection \<open>Replies\<close>

lemma length_to_dec: "length (to_dec n) \<le> Suc n"
proof (induction n rule: to_dec.induct)
  case (1 n)
  show ?case
  proof (cases "n < 10")
    case False
    have "Suc (Suc (n div 10)) \<le> Suc n"
      using False by linarith
    then show ?thesis
      using 1 [OF False] False by (subst to_dec.simps) simp
  qed (subst to_dec.simps, simp)
qed

lemma header_lines_skip:
  assumes "10 \<notin> set l" and "58 \<notin> set l"
  shows "header_lines (l @ crlf @ r, True) m f = header_lines (r, True) m (if l = [] then f else False) \<or> l = []"
proof (cases "l = []")
  case False
  have "getline 10 (l @ crlf @ r, True) = Some (l @ [13], (r, True))"
    using getline_append [of 10 "l @ [13]" r] assms(1) by (simp add: crlf_def)
  moreover have "find_str l [58] 0 = None"
    using assms(2) by (simp add: find_singleton)
  ultimately show ?thesis
    using False by (subst header_lines.simps) (simp add: pop_back_def ret_def)
qed simp

text \<open>
  The JSON answer of the library is understood by its client: the
  first line is read as \<open>HTTP/1.1\<close>, \<open>200\<close> and \<open>OK\<close>, and from the complete answer,
  the way \<open>HttpClient\<close> hands it over, the parser takes the number of data bytes as
  the content length, but returns false because of the status line.
\<close>

theorem json_response_length:
  assumes "length data < 2 ^ 32"
  shows "(\<exists>reply. ParseReplyHeaders junk (GenerateHttpJsonResponse data) HttpReply = ret (False, reply) \<and>
      rp_contentLength reply = of_nat (length data) \<and> \<not> rp_chunked reply \<and>
      GetReplyHeaderValue reply (str ''Content-Type'') [] = (True, str ''application/json'')) \<and>
    (\<exists>reply. ParseReplyFirstLine (GenerateHttpJsonResponse data) HttpReply = ret (True, reply) \<and>
      rp_protocol reply = str ''HTTP/1.1'' \<and> rp_code reply = str ''200'' \<and> rp_result reply = str ''OK'')"
proof
  let ?hs = "[(str ''Content-type'', str ''application/json''), (str ''Content-length'', to_dec (length data))]"
  let ?l = "str ''HTTP/1.1 200 OK''"
  have g: "GenerateHttpJsonResponse data = ?l @ crlf @ concat (map header_text ?hs) @ crlf @ data"
    by (simp add: GenerateHttpJsonResponse_def header_text_def str_def)
  have l: "10 \<notin> set ?l" "58 \<notin> set ?l" "?l \<noteq> []"
    by code_simp+
  have "header_ok (str ''Content-type'', str ''application/json'')" "10 \<notin> set (str ''Content-length'')" "58 \<notin> set (str ''Content-length'')"
    by code_simp+
  then have ok: "list_all header_ok ?hs"
    using bare_to_dec [of "length data"] by (simp add: header_ok_def)
  have "length (to_dec (length data)) < 2 ^ 64 - 1"
    using length_to_dec [of "length data"] assms by simp
  then have len: "list_all (\<lambda>kv. Suc (length (snd kv)) < 2 ^ 64) ?hs"
    by (simp add: str_def)
  have keys: "map tolower (str ''Content-type'') = str ''content-type''" "map tolower (str ''Content-length'') = str ''content-length''"
      "str ''content-type'' \<noteq> str ''content-length''" "str ''content-type'' \<noteq> str ''transfer-encoding''" "map tolower (str ''Content-Type'') = str ''content-type''"
    by code_simp+
  have "header_lines (GenerateHttpJsonResponse data, True) [] True = ret ((data, True), sm.ins_all (map lower_key ?hs) [], False)"
    unfolding g using header_lines_skip [OF l(1,2)] l(3) header_lines_text [OF ok len] by simp
  then show "\<exists>reply. ParseReplyHeaders junk (GenerateHttpJsonResponse data) HttpReply = ret (False, reply) \<and>
      rp_contentLength reply = of_nat (length data) \<and> \<not> rp_chunked reply \<and>
      GetReplyHeaderValue reply (str ''Content-Type'') [] = (True, str ''application/json'')"
    using keys FromString_to_dec [OF assms, of junk]
    by (simp add: ParseReplyHeaders_def HttpReply_def sm.lookup_ins_all lower_key_def Let_def GetReplyHeaderValue_def ret_def del: sm.ins_all_simps)
  have "getline 10 (GenerateHttpJsonResponse data, True) = Some (?l @ [13], (concat (map header_text ?hs) @ crlf @ data, True))"
    unfolding g using getline_append [of 10 "?l @ [13]"] l(1) by (simp add: crlf_def)
  moreover have "Split ?l [32] = Some (Inr [str ''HTTP/1.1'', str ''200'', str ''OK''])"
    using Split_three [of "str ''HTTP/1.1''" "str ''200''" "str ''OK''"] by (simp add: str_def of_char_def)
  ultimately show "\<exists>reply. ParseReplyFirstLine (GenerateHttpJsonResponse data) HttpReply = ret (True, reply) \<and>
      rp_protocol reply = str ''HTTP/1.1'' \<and> rp_code reply = str ''200'' \<and> rp_result reply = str ''OK''"
    by (simp add: ParseReplyFirstLine_def pop_back_def Let_def ret_def)
qed

theorem json_response_length_witness:
  "\<exists>reply. ParseReplyHeaders 7 (GenerateHttpJsonResponse [123, 125]) HttpReply = ret (False, reply) \<and> rp_contentLength reply = 2"
  using json_response_length [of "[123, 125]" 7] by auto

end
