(* ===== verification/Transition_System.thy ===== *)
theory Transition_System
  imports Main
begin


text \<open>
  Transition systems: the interface of the concurrent components. A component
  gives its initial states and its steps; reachability, the rule for invariants and
  the bound that a measure puts on runs are proved once.
\<close>

locale transition_system =
  fixes init :: "'s \<Rightarrow> bool" and step :: "'s \<Rightarrow> 's \<Rightarrow> bool"
begin

inductive reach :: "'s \<Rightarrow> bool" where
  reach_init: "init s \<Longrightarrow> reach s"
| reach_step: "reach s \<Longrightarrow> step s s' \<Longrightarrow> reach s'"

lemma invariant:
  assumes "reach s" and "\<And>s. init s \<Longrightarrow> I s" and "\<And>s s'. reach s \<Longrightarrow> I s \<Longrightarrow> step s s' \<Longrightarrow> I s'"
  shows "I s"
  using assms(1) by induction (auto intro: assms)

lemma reach_run: "step\<^sup>*\<^sup>* s s' \<Longrightarrow> reach s \<Longrightarrow> reach s'"
  by (induction rule: rtranclp_induct) (auto intro: reach_step)

end

text \<open>A system whose steps inside a region are bounded by a measure and are possible until a goal holds.\<close>

locale terminating_system = transition_system init step for init :: "'s \<Rightarrow> bool" and step :: "'s \<Rightarrow> 's \<Rightarrow> bool" +
  fixes region :: "'s \<Rightarrow> bool" and goal :: "'s \<Rightarrow> bool" and weight :: "'s \<Rightarrow> nat" and act :: "'s \<Rightarrow> 's \<Rightarrow> bool"
  assumes act_step: "act s s' \<Longrightarrow> step s s'"
    and decreases: "reach s \<Longrightarrow> region s \<Longrightarrow> act s s' \<Longrightarrow> region s' \<and> weight s' < weight s"
    and progress: "reach s \<Longrightarrow> region s \<Longrightarrow> \<not> goal s \<Longrightarrow> \<exists>s'. act s s'"
begin

lemma runs_bounded:
  assumes "reach s" "region s" "(act ^^ n) s s'"
  shows "n + weight s' \<le> weight s \<and> reach s' \<and> region s'"
  using assms(3)
proof (induction n arbitrary: s')
  case (Suc n)
  then obtain t where t: "(act ^^ n) s t" "act t s'"
    by auto
  with Suc.IH [OF t(1)] decreases [of t s'] show ?case
    by (auto intro: reach_step act_step)
qed (use assms in simp)

lemma reaches_goal:
  assumes "reach s" "region s"
  shows "\<exists>s'. act\<^sup>*\<^sup>* s s' \<and> goal s' \<and> reach s' \<and> region s'"
  using assms
proof (induction "weight s" arbitrary: s rule: less_induct)
  case less
  show ?case
  proof (cases "goal s")
    case True
    with less show ?thesis by blast
  next
    case False
    then obtain t where t: "act s t"
      using progress less by blast
    then have "weight t < weight s" "reach t" "region t"
      using decreases [OF less(2,3) t] less(2) by (auto intro: reach_step act_step)
    then obtain s' where "act\<^sup>*\<^sup>* t s'" "goal s'" "reach s'" "region s'"
      using less(1) by blast
    with t show ?thesis
      by (meson converse_rtranclp_into_rtranclp)
  qed
qed

end

end
