(* ===== verification/Thread_Pool.thy ===== *)
theory Thread_Pool
  imports Transition_System Prelude "HOL-Library.Multiset" "HOL-Library.Sublist"
begin


text \<open>
  \<open>util/ThreadQueue.h\<close> and \<open>util/Pool.h\<close>: the blocking queue and the worker threads
  that drain it. Every member function of the queue holds its mutex, so a call is one
  step; a wait on the condition variable is a state of the thread, left by
  \<open>notify_one\<close> or without any reason. Taking an item from the queue and calling
  it are two steps, between which other threads run. The work itself, an \<open>std::function\<close>,
  is a name; the null function that stops the pool is \<open>None\<close>.
\<close>

subsection \<open>The queue\<close>

definition Push :: "'d list \<Rightarrow> 'd \<Rightarrow> 'd list" where
  "Push mQueue data = mQueue @ [data]"

definition Empty :: "'d list \<Rightarrow> bool" where
  "Empty mQueue \<longleftrightarrow> mQueue = []"

definition TryPop :: "'d list \<Rightarrow> ('d list \<times> 'd) option" where
  "TryPop mQueue = (case mQueue of [] \<Rightarrow> None | d # q \<Rightarrow> Some (q, d))"

definition Queue_Size :: "'d list \<Rightarrow> u32" where
  "Queue_Size mQueue = of_nat (length mQueue)"

subsection \<open>The threads\<close>

text \<open>
  Where a worker stands: before the test of \<open>WaitAndPop\<close>, in its \<open>wait\<close>, with an
  item that it has taken and not yet called, inside an item, between
  taking the null item and pushing it again, or returned.
\<close>

datatype 'w worker = Testing | Blocked | Popped 'w | Running 'w | Stopping | Returned

text \<open>
  Besides the queue and the threads, the state records whether the destructor has pushed
  the null item, and the work enqueued before and after that, taken from the queue, called, and
  returned from, each in the order in which it happened.
\<close>

record 'w thread_pool =
  m_workQueue :: "'w option list"
  m_threads :: "'w worker list"
  destroyed :: bool
  accepted :: "'w list"
  late :: "'w list"
  taken :: "'w list"
  begun :: "'w list"
  completed :: "'w list"

text \<open>\<open>notify_one\<close> wakes some thread that waits, if there is one.\<close>

definition notify_one :: "'w worker list \<Rightarrow> 'w worker list \<Rightarrow> bool" where
  "notify_one ts ts' \<longleftrightarrow>
     (if Blocked \<in> set ts then \<exists>i < length ts. ts ! i = Blocked \<and> ts' = ts[i := Testing] else ts' = ts)"

definition new_pool :: "nat \<Rightarrow> 'w thread_pool" where
  "new_pool threads = \<lparr>m_workQueue = [], m_threads = replicate threads Testing, destroyed = False,
     accepted = [], late = [], taken = [], begun = [], completed = []\<rparr>"

inductive pool_init :: "'w thread_pool \<Rightarrow> bool" where
  "threads \<noteq> 0 \<Longrightarrow> pool_init (new_pool threads)"

text \<open>The steps of the workers, spurious wake-ups excepted.\<close>

inductive worker_step :: "'w thread_pool \<Rightarrow> 'w thread_pool \<Rightarrow> bool" where
  wait: "i < length (m_threads p) \<Longrightarrow> m_threads p ! i = Testing \<Longrightarrow> Empty (m_workQueue p) \<Longrightarrow>
     worker_step p (p\<lparr>m_threads := (m_threads p)[i := Blocked]\<rparr>)"
| pop_work: "i < length (m_threads p) \<Longrightarrow> m_threads p ! i = Testing \<Longrightarrow> TryPop (m_workQueue p) = Some (q, Some w) \<Longrightarrow>
     worker_step p (p\<lparr>m_workQueue := q, m_threads := (m_threads p)[i := Popped w], taken := taken p @ [w]\<rparr>)"
| call_work: "i < length (m_threads p) \<Longrightarrow> m_threads p ! i = Popped w \<Longrightarrow>
     worker_step p (p\<lparr>m_threads := (m_threads p)[i := Running w], begun := begun p @ [w]\<rparr>)"
| finish: "i < length (m_threads p) \<Longrightarrow> m_threads p ! i = Running w \<Longrightarrow>
     worker_step p (p\<lparr>m_threads := (m_threads p)[i := Testing], completed := completed p @ [w]\<rparr>)"
| pop_null: "i < length (m_threads p) \<Longrightarrow> m_threads p ! i = Testing \<Longrightarrow> TryPop (m_workQueue p) = Some (q, None) \<Longrightarrow>
     worker_step p (p\<lparr>m_workQueue := q, m_threads := (m_threads p)[i := Stopping]\<rparr>)"
| push_null: "i < length (m_threads p) \<Longrightarrow> m_threads p ! i = Stopping \<Longrightarrow> notify_one ((m_threads p)[i := Returned]) ts \<Longrightarrow>
     worker_step p (p\<lparr>m_workQueue := Push (m_workQueue p) None, m_threads := ts\<rparr>)"

text \<open>
  All steps: those of the workers, wake-ups without reason, calls of \<open>enqueue_work\<close>, by any
  thread and also while the destructor waits, as a work item may do, and the destructor, which runs once.
\<close>

inductive pool_step :: "'w thread_pool \<Rightarrow> 'w thread_pool \<Rightarrow> bool" where
  worker: "worker_step p p' \<Longrightarrow> pool_step p p'"
| spurious: "i < length (m_threads p) \<Longrightarrow> m_threads p ! i = Blocked \<Longrightarrow>
     pool_step p (p\<lparr>m_threads := (m_threads p)[i := Testing]\<rparr>)"
| enqueue_work: "notify_one (m_threads p) ts \<Longrightarrow>
     pool_step p (p\<lparr>m_workQueue := Push (m_workQueue p) (Some w), m_threads := ts,
       accepted := accepted p @ (if destroyed p then [] else [w]), late := late p @ (if destroyed p then [w] else [])\<rparr>)"
| destroy: "\<not> destroyed p \<Longrightarrow> notify_one (m_threads p) ts \<Longrightarrow>
     pool_step p (p\<lparr>m_workQueue := Push (m_workQueue p) None, m_threads := ts, destroyed := True\<rparr>)"

inductive_cases worker_stepE: "worker_step p p'"
inductive_cases pool_stepE: "pool_step p p'"
inductive_cases pool_initE: "pool_init p"

definition joined :: "'w thread_pool \<Rightarrow> bool" where
  "joined p \<longleftrightarrow> set (m_threads p) \<subseteq> {Returned}"

interpretation pool: transition_system pool_init pool_step .


subsection \<open>Counting workers\<close>

definition weigh :: "('w worker \<Rightarrow> 'b :: comm_monoid_add) \<Rightarrow> 'w worker list \<Rightarrow> 'b" where
  "weigh f ts = sum_list (map f ts)"

lemma weigh_update: "i < length ts \<Longrightarrow> weigh f (ts[i := x]) + f (ts ! i) = weigh f ts + f x"
proof (induction ts arbitrary: i)
  case (Cons t ts)
  show ?case
  proof (cases i)
    case (Suc j)
    then have "weigh f (ts[j := x]) + f (ts ! j) = weigh f ts + f x"
      using Cons by simp
    then show ?thesis
      using Suc by (simp add: weigh_def add.assoc)
  qed (simp add: weigh_def ac_simps)
qed simp

abbreviation is_worker :: "'w worker \<Rightarrow> 'w worker \<Rightarrow> nat" where
  "is_worker t t' \<equiv> (if t' = t then 1 else 0)"

abbreviation workers :: "'w worker \<Rightarrow> 'w worker list \<Rightarrow> nat" where
  "workers t ts \<equiv> weigh (is_worker t) ts"

lemma workers_0: "workers t ts = 0 \<longleftrightarrow> t \<notin> set ts"
  by (auto simp: weigh_def)

lemma workers_set: "workers t ts = workers t ts' \<Longrightarrow> t \<in> set ts \<longleftrightarrow> t \<in> set ts'"
  by (metis workers_0)

text \<open>The item a worker has taken and not called, and the item it is in.\<close>

fun popped_of :: "'w worker \<Rightarrow> 'w multiset" where
  "popped_of (Popped w) = {#w#}"
| "popped_of _ = {#}"

fun work_of :: "'w worker \<Rightarrow> 'w multiset" where
  "work_of (Running w) = {#w#}"
| "work_of _ = {#}"

lemma notify_one_cases:
  assumes "notify_one ts ts'"
  obtains "Blocked \<notin> set ts" "ts' = ts"
  | i where "i < length ts" "ts ! i = Blocked" "ts' = ts[i := Testing]"
  using assms by (auto simp: notify_one_def split: if_splits)

lemma TryPop_Some: "TryPop q = Some (q', d) \<longleftrightarrow> q = d # q'"
  by (cases q) (auto simp: TryPop_def)

subsection \<open>The invariant\<close>

definition works :: "'w option list \<Rightarrow> 'w list" where
  "works q = List.map_filter id q"

lemma works_simps [simp]:
  "works [] = []" "works (Some w # q) = w # works q" "works (None # q) = works q" "works (q @ q') = works q @ works q'"
  "works (map Some ws) = ws"
  by (simp_all add: works_def map_filter_def)

lemma works_only: "None \<notin> set q \<Longrightarrow> q = map Some (works q)"
proof (induction q)
  case (Cons d q)
  then show ?case
    by (cases d) auto
qed simp

text \<open>
  There is one null item, in the queue or in the hands of a worker, once the destructor has
  started and none before. As long as no worker has taken it, the work that was enqueued
  before the destructor and is still in the queue is in front of it; later all of it is taken.
\<close>

definition queue_ok :: "'w thread_pool \<Rightarrow> bool" where
  "queue_ok p \<longleftrightarrow>
     count_list (m_workQueue p) None + workers Stopping (m_threads p) = (if destroyed p then 1 else 0) \<and>
     (\<not> destroyed p \<longrightarrow> workers Returned (m_threads p) = 0 \<and> late p = []) \<and>
     (destroyed p \<longrightarrow>
        (if workers Stopping (m_threads p) = 0 \<and> workers Returned (m_threads p) = 0
         then \<exists>ws q. m_workQueue p = map Some ws @ None # q \<and> accepted p = taken p @ ws
         else prefix (accepted p) (taken p)))"

definition order_ok :: "'w thread_pool \<Rightarrow> bool" where
  "order_ok p \<longleftrightarrow> accepted p @ late p = taken p @ works (m_workQueue p) \<and>
     mset (taken p) = mset (begun p) + weigh popped_of (m_threads p) \<and>
     mset (begun p) = mset (completed p) + weigh work_of (m_threads p)"

definition pool_inv :: "'w thread_pool \<Rightarrow> bool" where
  "pool_inv p \<longleftrightarrow> m_threads p \<noteq> [] \<and> queue_ok p \<and> order_ok p \<and>
     (Blocked \<in> set (m_threads p) \<longrightarrow> length (m_workQueue p) \<le> workers Testing (m_threads p))"

lemma weigh_replicate: "weigh f (replicate n t) = (\<Sum>i < n. f t)"
  by (induction n) (simp_all add: weigh_def ac_simps)

lemma pool_inv_init:
  assumes "pool_init p"
  shows "pool_inv p"
proof -
  obtain n where "p = new_pool n" "n \<noteq> 0"
    using assms by (auto elim: pool_initE)
  then show ?thesis
    by (simp add: pool_inv_def queue_ok_def order_ok_def new_pool_def weigh_replicate)
qed

text \<open>What the update of one worker changes, for every count of the invariant.\<close>

lemma worker_update:
  fixes ts :: "'w worker list"
  assumes "i < length ts"
  shows "workers Testing (ts[i := x]) + is_worker Testing (ts ! i) = workers Testing ts + is_worker Testing x"
    and "workers Stopping (ts[i := x]) + is_worker Stopping (ts ! i) = workers Stopping ts + is_worker Stopping x"
    and "workers Returned (ts[i := x]) + is_worker Returned (ts ! i) = workers Returned ts + is_worker Returned x"
    and "weigh work_of (ts[i := x]) + work_of (ts ! i) = weigh work_of ts + work_of x"
    and "weigh popped_of (ts[i := x]) + popped_of (ts ! i) = weigh popped_of ts + popped_of x"
    and "workers Blocked (ts[i := x]) + is_worker Blocked (ts ! i) = workers Blocked ts + is_worker Blocked x"
  using weigh_update [OF assms] by blast+

lemma blocked_update:
  assumes "i < length ts" "ts ! i \<noteq> Blocked" "x \<noteq> Blocked"
  shows "Blocked \<in> set (ts[i := x]) \<longleftrightarrow> Blocked \<in> set ts"
  by (rule workers_set) (use worker_update(6) [OF assms(1), of x] assms in simp)

text \<open>A wake-up changes only the counts of blocked and testing workers.\<close>

lemma notify_counts:
  assumes "notify_one ts ts'"
  shows "workers Stopping ts' = workers Stopping ts" "workers Returned ts' = workers Returned ts"
    "weigh work_of ts' = weigh work_of ts" "weigh popped_of ts' = weigh popped_of ts" "ts' = [] \<longleftrightarrow> ts = []"
    "workers Testing ts' = workers Testing ts + (if Blocked \<in> set ts then 1 else 0)"
    "Blocked \<in> set ts' \<Longrightarrow> Blocked \<in> set ts"
proof -
  from assms have "workers Stopping ts' = workers Stopping ts \<and> workers Returned ts' = workers Returned ts \<and>
    weigh work_of ts' = weigh work_of ts \<and> weigh popped_of ts' = weigh popped_of ts \<and> (ts' = [] \<longleftrightarrow> ts = []) \<and>
    workers Testing ts' = workers Testing ts + (if Blocked \<in> set ts then 1 else 0) \<and>
    (Blocked \<in> set ts' \<longrightarrow> Blocked \<in> set ts)"
  proof (cases rule: notify_one_cases)
    case (2 i)
    have "Blocked \<in> set ts"
      using 2 by (metis nth_mem)
    then show ?thesis
      using 2 worker_update [OF 2(1), of Testing] by simp
  qed simp
  then show "workers Stopping ts' = workers Stopping ts" "workers Returned ts' = workers Returned ts"
    "weigh work_of ts' = weigh work_of ts" "weigh popped_of ts' = weigh popped_of ts" "ts' = [] \<longleftrightarrow> ts = []"
    "workers Testing ts' = workers Testing ts + (if Blocked \<in> set ts then 1 else 0)"
    "Blocked \<in> set ts' \<Longrightarrow> Blocked \<in> set ts"
    by blast+
qed

lemma pool_inv_worker:
  assumes "pool_inv p" and "worker_step p p'"
  shows "pool_inv p'"
  using assms(2)
proof cases
  case (wait i)
  note u = worker_update [OF wait(2), of Blocked]
  have "m_workQueue p = []"
    using wait(4) by (simp add: Empty_def)
  then show ?thesis
    using assms(1) u wait by (simp add: pool_inv_def queue_ok_def order_ok_def split: if_splits)
next
  case (pop_work i q w)
  note u = worker_update [OF pop_work(2), of "Popped w"] and b = blocked_update [OF pop_work(2), of "Popped w"]
  have q: "m_workQueue p = Some w # q"
    using pop_work(4) by (simp add: TryPop_Some)
  have "queue_ok p'"
    using assms(1) u pop_work(1,3) q
    by (auto simp: pool_inv_def queue_ok_def Cons_eq_append_conv map_eq_Cons_conv prefix_def split: if_splits)
  moreover have "order_ok p'"
    using assms(1) u pop_work(1,3) q by (simp add: pool_inv_def order_ok_def)
  ultimately show ?thesis
    using assms(1) u pop_work q b by (auto simp: pool_inv_def)
next
  case (call_work i w)
  note u = worker_update [OF call_work(2), of "Running w"] and b = blocked_update [OF call_work(2), of "Running w"]
  have "queue_ok p'"
    using assms(1) u call_work(1,3) by (auto simp: pool_inv_def queue_ok_def split: if_splits)
  moreover have "order_ok p'"
    using assms(1) u call_work(1,3) by (simp add: pool_inv_def order_ok_def)
  ultimately show ?thesis
    using assms(1) u call_work b by (auto simp: pool_inv_def)
next
  case (finish i w)
  note u = worker_update [OF finish(2), of Testing] and b = blocked_update [OF finish(2), of Testing]
  have "queue_ok p'"
    using assms(1) u finish(1,3) by (auto simp: pool_inv_def queue_ok_def split: if_splits)
  moreover have "order_ok p'"
    using assms(1) u finish(1,3) by (simp add: pool_inv_def order_ok_def)
  ultimately show ?thesis
    using assms(1) u(1) finish b by (auto simp: pool_inv_def)
next
  case (pop_null i q)
  note u = worker_update [OF pop_null(2), of Stopping] and b = blocked_update [OF pop_null(2), of Stopping]
  have q: "m_workQueue p = None # q"
    using pop_null(4) by (simp add: TryPop_Some)
  have "queue_ok p'"
    using assms(1) u pop_null(1,3) q by (auto simp: pool_inv_def queue_ok_def Cons_eq_append_conv split: if_splits)
  moreover have "order_ok p'"
    using assms(1) u pop_null(1,3) q by (simp add: pool_inv_def order_ok_def)
  ultimately show ?thesis
    using assms(1) u pop_null q b by (auto simp: pool_inv_def)
next
  case (push_null i ts)
  note u = worker_update [OF push_null(2), of Returned] and n = notify_counts [OF push_null(4)]
    and b = blocked_update [OF push_null(2), of Returned]
  have "queue_ok p'"
    using assms(1) u n push_null(1,3) by (auto simp: pool_inv_def queue_ok_def Push_def split: if_splits)
  moreover have "order_ok p'"
    using assms(1) u n push_null(1,3) by (simp add: pool_inv_def order_ok_def Push_def)
  ultimately show ?thesis
    using assms(1) u n push_null b by (auto simp: pool_inv_def Push_def)
qed

lemma pool_inv_step:
  assumes "pool_inv p" and "pool_step p p'"
  shows "pool_inv p'"
  using assms(2)
proof cases
  case worker
  then show ?thesis
    using assms(1) pool_inv_worker [of p p'] by simp
next
  case (spurious i)
  note u = worker_update [OF spurious(2), of Testing]
  have "Blocked \<in> set (m_threads p)"
    using spurious by (metis nth_mem)
  then show ?thesis
    using assms(1) u spurious by (auto simp: pool_inv_def queue_ok_def order_ok_def split: if_splits)
next
  case (enqueue_work ts w)
  note n = notify_counts [OF enqueue_work(2)]
  have "queue_ok p'"
    using assms(1) n enqueue_work by (auto simp: pool_inv_def queue_ok_def Push_def split: if_splits)
  moreover have "order_ok p'"
    using assms(1) n enqueue_work by (auto simp: pool_inv_def queue_ok_def order_ok_def Push_def)
  ultimately show ?thesis
    using assms(1) n enqueue_work by (auto simp: pool_inv_def Push_def)
next
  case (destroy ts)
  note n = notify_counts [OF destroy(3)]
  have "count_list (m_workQueue p) None = 0" "late p = []" "workers Stopping ts = 0"
    using assms(1) n(1) destroy(2) by (auto simp: pool_inv_def queue_ok_def)
  then have w: "m_workQueue p = map Some (works (m_workQueue p))" "accepted p = taken p @ works (m_workQueue p)"
    using assms(1) works_only [of "m_workQueue p"] by (auto simp: pool_inv_def order_ok_def count_list_0_iff)
  have "queue_ok p'"
    using assms(1) n destroy w by (auto simp: pool_inv_def queue_ok_def Push_def)
  then show ?thesis
    using assms(1) n destroy by (auto simp: pool_inv_def order_ok_def Push_def)
qed

lemma pool_invariant: "pool.reach p \<Longrightarrow> pool_inv p"
  by (erule pool.invariant) (auto intro: pool_inv_init pool_inv_step)

subsection \<open>A single worker\<close>

text \<open>With one worker the work is called and completed in the order in which it is taken.\<close>

definition single_ok :: "'w thread_pool \<Rightarrow> bool" where
  "single_ok p \<longleftrightarrow> (\<forall>t. m_threads p = [t] \<longrightarrow>
     taken p = begun p @ (case t of Popped w \<Rightarrow> [w] | _ \<Rightarrow> []) \<and> begun p = completed p @ (case t of Running w \<Rightarrow> [w] | _ \<Rightarrow> []))"

lemma update_single: "i < length ts \<Longrightarrow> ts[i := x] = [t] \<longleftrightarrow> i = 0 \<and> (\<exists>y. ts = [y]) \<and> t = x"
  by (cases ts; cases i) auto

lemma notify_single: "notify_one ts [t'] \<Longrightarrow> \<exists>t. ts = [t] \<and> (t' = t \<or> t = Blocked \<and> t' = Testing)"
  by (erule notify_one_cases) (auto simp: update_single eq_commute [of "[t']"])

lemma single_ok_step:
  assumes "single_ok p" and "pool_step p p'"
  shows "single_ok p'"
  using assms(2)
proof cases
  case worker
  from this show ?thesis
    using assms(1) by cases (auto simp: single_ok_def update_single dest!: notify_single)
qed (use assms(1) in \<open>auto simp: single_ok_def update_single dest!: notify_single\<close>)

lemma single_invariant: "pool.reach p \<Longrightarrow> single_ok p"
proof (erule pool.invariant)
  show "single_ok p" if "pool_init p" for p :: "'a thread_pool"
    using that by (auto simp: single_ok_def new_pool_def Cons_replicate_eq eq_commute [of "replicate _ _"] elim!: pool_initE)
qed (auto intro: single_ok_step)

subsection \<open>Shutting down\<close>

fun worker_weight :: "'w worker \<Rightarrow> nat" where
  "worker_weight Returned = 0"
| "worker_weight Stopping = 2"
| "worker_weight Blocked = 2"
| "worker_weight Testing = 3"
| "worker_weight (Running w) = 4"
| "worker_weight (Popped w) = 5"

definition pool_weight :: "'w thread_pool \<Rightarrow> nat" where
  "pool_weight p = weigh worker_weight (m_threads p) + 3 * length (works (m_workQueue p))"

lemma notify_weight: "notify_one ts ts' \<Longrightarrow> weigh worker_weight ts' \<le> weigh worker_weight ts + 1"
  by (erule notify_one_cases) (use weigh_update [of _ ts worker_weight Testing] in force)+

lemma worker_step_weight:
  assumes "worker_step p p'"
  shows "pool_weight p' < pool_weight p \<and> destroyed p' = destroyed p"
  using assms
proof cases
  case (wait i)
  then show ?thesis
    using weigh_update [OF wait(2), of worker_weight Blocked] by (simp add: pool_weight_def)
next
  case (pop_work i q w)
  then show ?thesis
    using weigh_update [OF pop_work(2), of worker_weight "Popped w"] by (simp add: pool_weight_def TryPop_Some)
next
  case (call_work i w)
  then show ?thesis
    using weigh_update [OF call_work(2), of worker_weight "Running w"] by (simp add: pool_weight_def)
next
  case (finish i w)
  then show ?thesis
    using weigh_update [OF finish(2), of worker_weight Testing] by (simp add: pool_weight_def)
next
  case (pop_null i q)
  then show ?thesis
    using weigh_update [OF pop_null(2), of worker_weight Stopping] by (simp add: pool_weight_def TryPop_Some)
next
  case (push_null i ts)
  then show ?thesis
    using weigh_update [OF push_null(2), of worker_weight Returned] notify_weight [OF push_null(4)]
    by (simp add: pool_weight_def Push_def)
qed

lemma notify_exists: "\<exists>ts'. notify_one ts ts'"
  by (auto simp: notify_one_def in_set_conv_nth)

lemma some_worker_active:
  assumes inv: "pool_inv p" and d: "destroyed p \<or> m_workQueue p \<noteq> []" and j: "\<not> joined p"
  shows "\<exists>t \<in> set (m_threads p). t \<noteq> Returned \<and> t \<noteq> Blocked"
proof (cases "Stopping \<in> set (m_threads p)")
  case False
  then have "workers Stopping (m_threads p) = 0"
    by (simp add: workers_0)
  then have q: "m_workQueue p \<noteq> []"
    using inv d by (auto simp: pool_inv_def queue_ok_def split: if_splits)
  show ?thesis
  proof (cases "Blocked \<in> set (m_threads p)")
    case True
    then have "length (m_workQueue p) \<le> workers Testing (m_threads p)"
      using inv by (simp add: pool_inv_def)
    then have "workers Testing (m_threads p) \<noteq> 0"
      using q by (cases "m_workQueue p") auto
    then have "Testing \<in> set (m_threads p)"
      by (simp only: workers_0) simp
    then show ?thesis
      by blast
  next
    case False
    then show ?thesis
      using j by (auto simp: joined_def)
  qed
qed blast

lemma worker_progress:
  assumes "pool_inv p" and "destroyed p \<or> m_workQueue p \<noteq> []" and "\<not> joined p"
  shows "\<exists>p'. worker_step p p'"
proof -
  obtain i where i: "i < length (m_threads p)" "m_threads p ! i \<noteq> Returned" "m_threads p ! i \<noteq> Blocked"
    using some_worker_active [OF assms] by (auto simp: in_set_conv_nth)
  show ?thesis
  proof (cases "m_threads p ! i")
    case Testing
    show ?thesis
    proof (cases "m_workQueue p")
      case Nil
      then show ?thesis
        using worker_step.wait [OF i(1) Testing] by (auto simp: Empty_def)
    next
      case (Cons d q)
      then show ?thesis
        using worker_step.pop_work [OF i(1) Testing, of q] worker_step.pop_null [OF i(1) Testing, of q]
        by (cases d) (simp_all add: TryPop_Some, blast+)
    qed
  next
    case Stopping
    then show ?thesis
      using notify_exists [of "(m_threads p)[i := Returned]"] worker_step.push_null [OF i(1) Stopping] by blast
  next
    case (Popped w)
    then show ?thesis
      using worker_step.call_work [OF i(1) Popped] by blast
  next
    case (Running w)
    then show ?thesis
      using worker_step.finish [OF i(1) Running] by blast
  qed (use i in simp_all)
qed

interpretation shutdown: terminating_system pool_init pool_step destroyed joined pool_weight worker_step
  by unfold_locales
    (auto intro: pool_step.worker worker_progress pool_invariant dest: worker_step_weight)


subsection \<open>A semaphore\<close>

text \<open>
  \<open>util/Semaphore.h\<close>. \<open>Sem_Wait\<close> takes the count and, for every return of
  \<open>wait_for\<close>, whether it was a timeout and the count found then; \<open>None\<close> while the
  call is still waiting.
\<close>

definition Sem_Notify :: "u32 \<Rightarrow> u32" where
  "Sem_Notify mCount = mCount + 1"

fun Sem_Wait :: "u32 \<Rightarrow> (bool \<times> u32) list \<Rightarrow> (bool \<times> u32) option" where
  "Sem_Wait mCount wakes =
     (if mCount = 0
      then (case wakes of
              [] \<Rightarrow> None
            | (timeout, c) # wakes \<Rightarrow>
                if timeout then Some (False, if c > 0 then c - 1 else c) else Sem_Wait c wakes)
      else Some (True, mCount - 1))"

text \<open>A notification that arrives as the wait times out is consumed, although the call reports failure.\<close>

lemma semaphore_timeout_consumes: "Sem_Wait 0 [(True, Sem_Notify 0)] = Some (False, 0)"
  by (simp add: Sem_Notify_def)

lemma semaphore_success_consumes: "Sem_Wait c ws = Some (True, c') \<Longrightarrow> \<exists>d. d \<noteq> 0 \<and> c' = d - 1"
  by (induction c ws rule: Sem_Wait.induct) (auto split: if_splits list.splits)

subsection \<open>Properties\<close>

text \<open>
  Property C13. The queue hands out work in the order in which it was enqueued, and none is
  lost, invented or done twice: in every reachable state what was taken is a prefix of what was
  enqueued, what was called is part of what was taken and what has returned part of what
  was called. Once all threads of a destroyed pool have returned, everything enqueued before
  the destructor has been taken and completed; what is enqueued while the destructor waits, and only
  that, may be left over. With several threads an item can be overtaken between its removal
  from the queue and its call; a pool of one thread also calls and completes the work in the order of the queue.
\<close>

theorem pool_completes_accepted_work:
  assumes "pool.reach p"
  shows "prefix (taken p) (accepted p @ late p) \<and> mset (begun p) \<subseteq># mset (taken p) \<and> mset (completed p) \<subseteq># mset (begun p) \<and>
    (length (m_threads p) = 1 \<longrightarrow> prefix (begun p) (taken p) \<and> prefix (completed p) (begun p)) \<and>
    (destroyed p \<and> joined p \<longrightarrow>
       prefix (accepted p) (taken p) \<and> mset (begun p) = mset (taken p) \<and> mset (completed p) = mset (taken p) \<and>
       (late p = [] \<longrightarrow> mset (completed p) = mset (accepted p)))"
proof (intro conjI impI)
  have inv: "pool_inv p"
    by (rule pool_invariant [OF assms])
  then show t: "prefix (taken p) (accepted p @ late p)" "mset (begun p) \<subseteq># mset (taken p)" "mset (completed p) \<subseteq># mset (begun p)"
    by (simp_all add: pool_inv_def order_ok_def)
  show "prefix (begun p) (taken p)" "prefix (completed p) (begun p)" if "length (m_threads p) = 1"
    using that single_invariant [OF assms] by (auto simp: single_ok_def length_Suc_conv)
  assume j: "destroyed p \<and> joined p"
  have ts: "m_threads p = replicate (length (m_threads p)) Returned" "m_threads p \<noteq> []"
    using j inv by (auto simp: joined_def pool_inv_def intro: replicate_eqI)
  have "weigh f (m_threads p) = {#}" if "f Returned = {#}" for f :: "'a worker \<Rightarrow> 'a multiset"
    using that by (subst ts(1)) (simp add: weigh_replicate)
  then show c: "mset (begun p) = mset (taken p)" "mset (completed p) = mset (taken p)"
    using inv by (simp_all add: pool_inv_def order_ok_def)
  have "workers Returned (m_threads p) \<noteq> 0"
    unfolding workers_0 using j ts(2) by (cases "m_threads p"; auto simp: joined_def)
  then show a: "prefix (accepted p) (taken p)"
    using inv j by (simp add: pool_inv_def queue_ok_def)
  show "mset (completed p) = mset (accepted p)" if "late p = []"
    using t(1) a c that prefix_order.antisym [of "taken p" "accepted p"] by simp
qed

lemma overlap_reachable:
  "pool.reach \<lparr>m_workQueue = [], m_threads = [Running a, Running b], destroyed = False, accepted = [a, b], late = [],
     taken = [a, b], begun = [b, a], completed = []\<rparr>"
proof -
  let ?p0 = "new_pool 2"
  let ?p1 = "\<lparr>m_workQueue = [Some a], m_threads = [Testing, Testing], destroyed = False, accepted = [a], late = [],
    taken = [], begun = [], completed = []\<rparr>"
  let ?p2 = "?p1\<lparr>m_workQueue := [Some a, Some b], accepted := [a, b]\<rparr>"
  let ?p3 = "?p2\<lparr>m_workQueue := [Some b], m_threads := [Popped a, Testing], taken := [a]\<rparr>"
  let ?p4 = "?p3\<lparr>m_workQueue := [], m_threads := [Popped a, Popped b], taken := [a, b]\<rparr>"
  let ?p5 = "?p4\<lparr>m_threads := [Popped a, Running b], begun := [b]\<rparr>"
  have "pool.reach ?p0"
    by (intro pool.reach_init pool_init.intros) simp
  moreover have "pool_step ?p0 ?p1"
    using pool_step.enqueue_work [of ?p0 "[Testing, Testing]" a] by (simp add: new_pool_def notify_one_def Push_def numeral_2_eq_2)
  moreover have "pool_step ?p1 ?p2"
    using pool_step.enqueue_work [of ?p1 "[Testing, Testing]" b] by (simp add: notify_one_def Push_def)
  moreover have "pool_step ?p2 ?p3"
    using worker_step.pop_work [of 0 ?p2 "[Some b]" a] by (simp add: TryPop_Some pool_step.worker)
  moreover have "pool_step ?p3 ?p4"
    using worker_step.pop_work [of 1 ?p3 "[]" b] by (simp add: TryPop_Some pool_step.worker)
  moreover have "pool_step ?p4 ?p5"
    using worker_step.call_work [of 1 ?p4 b] by (simp add: pool_step.worker)
  moreover have "pool_step ?p5 (?p5\<lparr>m_threads := [Running a, Running b], begun := [b, a]\<rparr>)"
    using worker_step.call_work [of 0 ?p5 a] by (simp add: pool_step.worker)
  ultimately have "pool.reach (?p5\<lparr>m_threads := [Running a, Running b], begun := [b, a]\<rparr>)"
    by (meson pool.reach_step)
  then show ?thesis
    by simp
qed

text \<open>Work that an item enqueues while the destructor waits can be left in the queue for ever.\<close>

lemma late_work_lost:
  "\<exists>p. pool.reach p \<and> destroyed p \<and> joined p \<and> late p = [b] \<and> taken p = [a] \<and> completed p = [a] \<and> works (m_workQueue p) = [b]"
proof -
  let ?p0 = "new_pool 1"
  let ?p1 = "\<lparr>m_workQueue = [Some a], m_threads = [Testing], destroyed = False, accepted = [a], late = [],
    taken = [], begun = [], completed = []\<rparr>"
  let ?p2 = "?p1\<lparr>m_workQueue := [], m_threads := [Popped a], taken := [a]\<rparr>"
  let ?p3 = "?p2\<lparr>m_threads := [Running a], begun := [a]\<rparr>"
  let ?p4 = "?p3\<lparr>m_workQueue := [None], destroyed := True\<rparr>"
  let ?p5 = "?p4\<lparr>m_workQueue := [None, Some b], late := [b]\<rparr>"
  let ?p6 = "?p5\<lparr>m_threads := [Testing], completed := [a]\<rparr>"
  let ?p7 = "?p6\<lparr>m_workQueue := [Some b], m_threads := [Stopping]\<rparr>"
  let ?p8 = "?p7\<lparr>m_workQueue := [Some b, None], m_threads := [Returned]\<rparr>"
  have "pool.reach ?p0"
    by (intro pool.reach_init pool_init.intros) simp
  moreover have "pool_step ?p0 ?p1"
    using pool_step.enqueue_work [of ?p0 "[Testing]" a] by (simp add: new_pool_def notify_one_def Push_def)
  moreover have "pool_step ?p1 ?p2"
    using worker_step.pop_work [of 0 ?p1 "[]" a] by (simp add: TryPop_Some pool_step.worker)
  moreover have "pool_step ?p2 ?p3"
    using worker_step.call_work [of 0 ?p2 a] by (simp add: pool_step.worker)
  moreover have "pool_step ?p3 ?p4"
    using pool_step.destroy [of ?p3 "[Running a]"] by (simp add: notify_one_def Push_def)
  moreover have "pool_step ?p4 ?p5"
    using pool_step.enqueue_work [of ?p4 "[Running a]" b] by (simp add: notify_one_def Push_def)
  moreover have "pool_step ?p5 ?p6"
    using worker_step.finish [of 0 ?p5 a] by (simp add: pool_step.worker)
  moreover have "pool_step ?p6 ?p7"
    using worker_step.pop_null [of 0 ?p6 "[Some b]"] by (simp add: TryPop_Some pool_step.worker)
  moreover have "pool_step ?p7 ?p8"
    using worker_step.push_null [of 0 ?p7 "[Returned]"] by (simp add: pool_step.worker notify_one_def Push_def)
  ultimately have "pool.reach ?p8"
    by (meson pool.reach_step)
  then show ?thesis
    by (intro exI [of _ ?p8]) (simp add: joined_def)
qed

theorem pool_completes_accepted_work_witness:
  "\<exists>p :: nat thread_pool. pool.reach p \<and> m_threads p = [Running 1, Running 2] \<and> begun p = [2, 1] \<and>
     prefix (taken p) (accepted p @ late p) \<and> mset (begun p) \<subseteq># mset (taken p)"
  using pool_completes_accepted_work [OF overlap_reachable [of 1 2]] overlap_reachable [of "1 :: nat" 2] by force

text \<open>
  Property C14. The pool never hangs: as long as the queue holds an item and not every
  thread has returned, some worker can go on, whatever wake-ups were lost or
  combined; and after the destructor has pushed the null item every run of the
  workers, spurious wake-ups and further calls of \<open>enqueue_work\<close> aside, is bounded and can be extended until all threads have returned,
  so that the joins of the destructor return.
\<close>

theorem pool_never_hangs:
  assumes "pool.reach p"
  shows "(m_workQueue p \<noteq> [] \<and> \<not> joined p \<longrightarrow> (\<exists>p'. worker_step p p')) \<and>
    (destroyed p \<longrightarrow> (\<forall>n p'. (worker_step ^^ n) p p' \<longrightarrow> n \<le> pool_weight p \<and>
       (\<exists>p''. worker_step\<^sup>*\<^sup>* p' p'' \<and> joined p'')))"
proof (intro conjI impI allI)
  show "\<exists>p'. worker_step p p'" if "m_workQueue p \<noteq> [] \<and> \<not> joined p"
    using that worker_progress [OF pool_invariant [OF assms]] by blast
  fix n p'
  assume "destroyed p" and r: "(worker_step ^^ n) p p'"
  then have b: "n + pool_weight p' \<le> pool_weight p \<and> pool.reach p' \<and> destroyed p'"
    using shutdown.runs_bounded [OF assms] by blast
  then show "n \<le> pool_weight p"
    by simp
  show "\<exists>p''. worker_step\<^sup>*\<^sup>* p' p'' \<and> joined p''"
    using shutdown.reaches_goal [of p'] b by blast
qed

theorem pool_never_hangs_witness:
  "\<exists>p :: nat thread_pool. pool.reach p \<and> destroyed p \<and> (\<exists>p'. worker_step\<^sup>*\<^sup>* p p' \<and> joined p')"
proof -
  let ?q = "\<lparr>m_workQueue = [], m_threads = [Running 1, Running 2], destroyed = False, accepted = [1, 2], late = [],
    taken = [1, 2], begun = [2, 1], completed = []\<rparr> :: nat thread_pool"
  let ?p = "?q\<lparr>m_workQueue := [None], destroyed := True\<rparr>"
  have "pool_step ?q ?p"
    using pool_step.destroy [of ?q "m_threads ?q"] by (simp add: notify_one_def Push_def)
  then have p: "pool.reach ?p"
    using overlap_reachable [of "1 :: nat" 2] by (rule pool.reach_step [rotated])
  have "(worker_step ^^ 0) ?p ?p" "destroyed ?p"
    by simp_all
  then show ?thesis
    using pool_never_hangs [OF p] p by blast
qed

end
