(* ===== verification/Tcp_Server.thy ===== *)
theory Tcp_Server
  imports Http_Protocol Transition_System
begin


text \<open>
  The server of \<open>network/TcpServerEpoll.cpp\<close>, with \<open>TcpSocket::Recv\<close>: accepting,
  reading, hang-ups, the clean-up at the end of a round, sending to all clients, and
  the end of the server thread.

  The state has the clients, the descriptors registered with \<open>epoll\<close>, the open
  connection sockets and the calls of the event handler in the order in which
  they were handed to the thread pool; the pool takes them in this order, but with several
  threads it may call them in another. \<open>Run\<close> holds the mutex during a round of
  events, so other threads act between rounds. What the system answers
  (\<open>epoll_wait\<close>, \<open>accept\<close>, \<open>epoll_ctl\<close>, \<open>recv\<close>, \<open>send\<close>) are arguments. The
  transition system has the rounds of \<open>Run\<close>; the clean-up after the last of them is
  \<open>cleanup\<close>, with what it leaves open.
\<close>

subsection \<open>Receiving\<close>

definition MAXRECV :: nat where "MAXRECV = 16 * 1024"

text \<open>The result of a \<open>recv\<close> call: an error, which \<open>AnalyzeSocketError\<close> calls temporary or not, or bytes (none at the end of the stream).\<close>

datatype recv_result = Recv_error bool | Recv_bytes "byte list"

function Recv_loop :: "(nat \<Rightarrow> recv_result) \<Rightarrow> nat \<Rightarrow> nat \<Rightarrow> byte list \<Rightarrow> bool \<times> byte list" where
  "Recv_loop recv k count output =
     (case recv k of
        Recv_error retry \<Rightarrow> (retry, output)
      | Recv_bytes buff \<Rightarrow>
          if buff = [] then (False, output)
          else let output = output @ buff in
               if count > length buff then Recv_loop recv (Suc k) (count - length buff) output
               else (True, output))"
  by pat_completeness auto
termination
  by (relation "measure (\<lambda>(recv, k, count, output). count)") auto

declare Recv_loop.simps [simp del]

text \<open>\<open>count\<close> is what \<open>ioctl(FIONREAD)\<close> reported, \<open>limit\<close> the argument \<open>max\<close>.\<close>

definition Recv :: "nat \<Rightarrow> nat \<Rightarrow> (nat \<Rightarrow> recv_result) \<Rightarrow> byte list \<Rightarrow> bool \<times> byte list" where
  "Recv count limit recv output =
     (if count > 0
      then let count = (if count > MAXRECV then MAXRECV else count);
               count = (if limit > 0 then if count > limit then limit else count else count)
           in Recv_loop recv 0 count output
      else (False, output))"

subsection \<open>State\<close>

datatype close_type = WAIT_SOCK_FAILED | TIMEOUT | CLOSED

datatype event = NewConnection conn | ReadData conn | ClientClosed conn | ServerTerminated close_type

record server =
  mTcpServer :: int
  mWsServer :: int
  mReceiveFd :: int
  mClients :: "conn list"
  mEpollFd :: "int set"
  opened :: "int set"
  mPool :: "event list"
  mMutex :: bool
  end_server :: bool

abbreviation c_socket :: "conn \<Rightarrow> int" where "c_socket c \<equiv> p_socket (c_peer c)"

text \<open>What the system answers while one event is handled.\<close>

record system =
  s_accept :: "(int \<times> bool) list"
  s_count :: nat
  s_recv :: "nat \<Rightarrow> recv_result"
  s_send :: "nat \<Rightarrow> byte list \<Rightarrow> int"
  s_retry :: "nat \<Rightarrow> bool"

record epoll_event =
  ev_fd :: int
  ev_error :: bool
  ev_rdhup :: bool

subsection \<open>Handlers\<close>

text \<open>
  \<open>s_accept\<close> lists the results of \<open>accept\<close> up to the first that fails, each with the
  success of \<open>epoll_ctl\<close>.
\<close>

definition accept_one :: "bool \<Rightarrow> int \<Rightarrow> bool \<Rightarrow> server \<Rightarrow> server" where
  "accept_one webSocket new_sd added s =
     (let newPeer = Conn_new new_sd webSocket;
          s = s\<lparr>mClients := mClients s @ [newPeer], opened := insert new_sd (opened s)\<rparr>;
          s = (if added then s\<lparr>mEpollFd := insert new_sd (mEpollFd s)\<rparr> else s)
      in if \<not> webSocket then s\<lparr>mPool := mPool s @ [NewConnection newPeer]\<rparr> else s)"

fun IncommingConnection :: "bool \<Rightarrow> (int \<times> bool) list \<Rightarrow> server \<Rightarrow> server" where
  "IncommingConnection webSocket [] s = s"
| "IncommingConnection webSocket ((new_sd, added) # accepts) s =
     (if new_sd \<ge> 0 then IncommingConnection webSocket accepts (accept_one webSocket new_sd added s) else s)"

text \<open>The pong of \<open>DecodeWsData\<close>, if there is one; \<open>None\<close> when the write does not end.\<close>

definition send_pong :: "system \<Rightarrow> byte list option \<Rightarrow> unit option" where
  "send_pong sys reply =
     (case reply of None \<Rightarrow> Some () | Some frame \<Rightarrow> map_option (\<lambda>_. ()) (Write (s_send sys) (s_retry sys) frame))"

text \<open>The connection afterwards, and the calls handed to the pool.\<close>

definition IncommingData :: "system \<Rightarrow> conn \<Rightarrow> (conn \<times> event list) cpp" where
  "IncommingData sys conn =
     (let (hasData, mBuff) = Recv (s_count sys) 0 (s_recv sys) [] in
      if hasData
      then if isWebSocket (c_peer conn)
           then if IsClosed conn
                then cpp_bind (ProceedWsHandshake (s_send sys) (s_retry sys) mBuff) (\<lambda>(ok, _).
                       if ok
                       then let conn = conn\<lparr>c_state := cStateConnected\<rparr> in ret (conn, [NewConnection conn])
                       else let conn = conn\<lparr>c_state := cStateDeleteLater\<rparr> in ret (conn, [ReadData conn]))
                else (case DecodeWsData_conn mBuff conn of
                        Inl f \<Rightarrow> Some (Inl f)
                      | Inr (hasData, conn, buf, reply) \<Rightarrow>
                          (case send_pong sys reply of
                             None \<Rightarrow> None
                           | Some _ \<Rightarrow> ret (conn, if hasData then [ReadData conn] else [])))
           else let (conn, mBuff) = DeliverData mBuff conn in ret (conn, [ReadData conn])
      else ret (conn\<lparr>c_state := cStateDeleteLater\<rparr>, []))"

definition RemoveClient :: "int \<Rightarrow> server \<Rightarrow> server" where
  "RemoveClient fd s =
     s\<lparr>mClients := map (\<lambda>c. if c_socket c = fd then c\<lparr>c_state := cStateDeleteLater\<rparr> else c) (mClients s)\<rparr>"

definition to_delete :: "conn \<Rightarrow> bool" where
  "to_delete c \<longleftrightarrow> c_state c = cStateDeleteLater \<or> \<not> Peer_IsValid (c_peer c)"

text \<open>The first client that has to go is erased, reported, removed from \<open>epoll\<close> and closed; then the search starts again.\<close>

definition erase_client :: "nat \<Rightarrow> server \<Rightarrow> server" where
  "erase_client i s =
     (let conn = mClients s ! i;
          s = s\<lparr>mClients := take i (mClients s) @ drop (Suc i) (mClients s)\<rparr>;
          s = (if IsConnected conn then s\<lparr>mPool := mPool s @ [ClientClosed conn]\<rparr> else s);
          s = s\<lparr>mEpollFd := mEpollFd s - {c_socket conn}\<rparr>
      in s\<lparr>opened := opened s - {c_socket conn}\<rparr>)"

function UpdateClients :: "server \<Rightarrow> server" where
  "UpdateClients s =
     (case List.find (\<lambda>i. to_delete (mClients s ! i)) [0 ..< length (mClients s)] of
        None \<Rightarrow> s
      | Some i \<Rightarrow> UpdateClients (erase_client i s))"
  by pat_completeness auto
termination
  by (relation "measure (\<lambda>s. length (mClients s))") (auto simp: erase_client_def Let_def find_Some_iff)

declare UpdateClients.simps [simp del]

text \<open>\<open>sent\<close> tells for which clients \<open>TcpSocket::Send\<close> succeeds.\<close>

definition SendToAllClients :: "(conn \<Rightarrow> bool) \<Rightarrow> bool \<Rightarrow> server \<Rightarrow> bool \<times> server" where
  "SendToAllClients sent wsOnly s =
     (let fails = (\<lambda>c. (if wsOnly then isWebSocket (c_peer c) else True) \<and> \<not> sent c)
      in (\<not> list_ex fails (mClients s),
          s\<lparr>mClients := map (\<lambda>c. if fails c then c\<lparr>c_state := cStateDeleteLater\<rparr> else c) (mClients s)\<rparr>))"

subsection \<open>The server thread\<close>

text \<open>The clients with the descriptor of the event, one after the other.\<close>

fun scan_clients :: "system \<Rightarrow> int \<Rightarrow> conn list \<Rightarrow> (conn list \<times> event list) cpp" where
  "scan_clients sys fd [] = ret ([], [])"
| "scan_clients sys fd (c # cs) =
     (if c_socket c = fd
      then cpp_bind (IncommingData sys c) (\<lambda>(c, evs).
           cpp_bind (scan_clients sys fd cs) (\<lambda>(cs, evs'). ret (c # cs, evs @ evs')))
      else cpp_bind (scan_clients sys fd cs) (\<lambda>(cs, evs). ret (c # cs, evs)))"

text \<open>One event of the loop in \<open>Run\<close>.\<close>

definition dispatch :: "system \<Rightarrow> epoll_event \<Rightarrow> server \<Rightarrow> server cpp" where
  "dispatch sys ev s =
     (if ev_error ev then ret (RemoveClient (ev_fd ev) s)
      else if ev_rdhup ev then ret (RemoveClient (ev_fd ev) s)
      else if mReceiveFd s = ev_fd ev
      then ret (s\<lparr>end_server := True, mPool := mPool s @ [ServerTerminated CLOSED]\<rparr>)
      else if mTcpServer s = ev_fd ev
      then ret (if mTcpServer s \<noteq> cSocketInvalid then IncommingConnection False (s_accept sys) s else s)
      else if mWsServer s = ev_fd ev
      then ret (if mWsServer s \<noteq> cSocketInvalid then IncommingConnection True (s_accept sys) s else s)
      else cpp_bind (scan_clients sys (ev_fd ev) (mClients s)) (\<lambda>(cs, evs).
             ret (s\<lparr>mClients := cs, mPool := mPool s @ evs\<rparr>)))"

text \<open>The end of \<open>Run\<close>: the clients that are connected are closed, then all are forgotten.\<close>

definition cleanup :: "server \<Rightarrow> server" where
  "cleanup s = s\<lparr>opened := opened s - c_socket ` set (filter IsConnected (mClients s)), mClients := []\<rparr>"

text \<open>The start of \<open>Run\<close>: the listening sockets that are valid and the pipe are registered.\<close>

definition run_init :: "int \<Rightarrow> int \<Rightarrow> int \<Rightarrow> server" where
  "run_init tcp ws pipe = \<lparr>mTcpServer = tcp, mWsServer = ws, mReceiveFd = pipe, mClients = [],
     mEpollFd = ({tcp, ws} - {cSocketInvalid}) \<union> {pipe}, opened = {}, mPool = [], mMutex = False, end_server = False\<rparr>"

inductive server_init :: "server \<Rightarrow> bool" where
  "pipe \<ge> 0 \<Longrightarrow> pipe \<notin> {tcp, ws} \<Longrightarrow> tcp \<ge> -1 \<Longrightarrow> ws \<ge> -1 \<Longrightarrow> server_init (run_init tcp ws pipe)"

text \<open>\<open>accept\<close> returns descriptors that are not in use.\<close>

fun fresh_accepts :: "int set \<Rightarrow> (int \<times> bool) list \<Rightarrow> bool" where
  "fresh_accepts used [] = True"
| "fresh_accepts used ((sd, added) # as) = (sd \<ge> 0 \<longrightarrow> sd \<notin> used \<and> fresh_accepts (insert sd used) as)"

definition used_fds :: "server \<Rightarrow> int set" where
  "used_fds s = opened s \<union> {mTcpServer s, mWsServer s, mReceiveFd s}"

inductive server_step :: "server \<Rightarrow> server \<Rightarrow> bool" where
  begin_round: "\<not> mMutex s \<Longrightarrow> \<not> end_server s \<Longrightarrow> server_step s (s\<lparr>mMutex := True\<rparr>)"
| handle: "mMutex s \<Longrightarrow> fresh_accepts (used_fds s) (s_accept sys) \<Longrightarrow> dispatch sys ev s = ret s' \<Longrightarrow> server_step s s'"
| end_round: "mMutex s \<Longrightarrow> server_step s ((UpdateClients s)\<lparr>mMutex := False\<rparr>)"
| wait_failed: "\<not> mMutex s \<Longrightarrow> \<not> end_server s \<Longrightarrow>
     server_step s (s\<lparr>end_server := True, mPool := mPool s @ [ServerTerminated WAIT_SOCK_FAILED]\<rparr>)"
| send_all: "\<not> mMutex s \<Longrightarrow> SendToAllClients sent wsOnly s = (ok, s') \<Longrightarrow> server_step s s'"

interpretation srv: transition_system server_init server_step .


subsection \<open>Cleaning up\<close>

definition dead :: "server \<Rightarrow> conn list" where
  "dead s = filter to_delete (mClients s)"

text \<open>What \<open>UpdateClients\<close> does, in one step.\<close>

definition sweep :: "server \<Rightarrow> server" where
  "sweep s = s\<lparr>mClients := filter (\<lambda>c. \<not> to_delete c) (mClients s),
     mPool := mPool s @ map ClientClosed (filter IsConnected (dead s)),
     mEpollFd := mEpollFd s - c_socket ` set (dead s), opened := opened s - c_socket ` set (dead s)\<rparr>"

lemma UpdateClients_eq: "UpdateClients s = sweep s"
proof (induction s rule: UpdateClients.induct)
  case (1 s)
  let ?f = "List.find (\<lambda>i. to_delete (mClients s ! i)) [0 ..< length (mClients s)]"
  show ?case
  proof (cases ?f)
    case None
    then have "filter to_delete (mClients s) = []" "filter (\<lambda>c. \<not> to_delete c) (mClients s) = mClients s"
      using find_index [of to_delete "mClients s"] by (auto simp: filter_empty_conv intro: filter_True split: if_splits)
    then show ?thesis
      using None by (subst UpdateClients.simps) (simp add: sweep_def dead_def)
  next
    case (Some i)
    let ?c = "mClients s ! i" and ?a = "take i (mClients s)" and ?b = "drop (Suc i) (mClients s)"
    have i: "i < length (mClients s)" "to_delete ?c" "\<forall>c \<in> set ?a. \<not> to_delete c"
      using Some by (auto simp: find_Some_iff in_set_conv_nth)
    then have cl: "mClients s = ?a @ ?c # ?b"
      by (simp add: id_take_nth_drop)
    have a: "filter to_delete ?a = []"
      using i(3) by (simp add: filter_empty_conv)
    have e: "mClients (erase_client i s) = ?a @ ?b"
        "mPool (erase_client i s) = mPool s @ map ClientClosed (filter IsConnected [?c])"
        "mEpollFd (erase_client i s) = mEpollFd s - {c_socket ?c}" "opened (erase_client i s) = opened s - {c_socket ?c}"
      by (simp_all add: erase_client_def Let_def)
    have d: "dead s = ?c # dead (erase_client i s)"
      unfolding dead_def e(1) by (subst cl, simp only: filter_append a filter.simps i(2) if_True append_Nil)
    have f: "filter (\<lambda>c. \<not> to_delete c) (mClients s) = filter (\<lambda>c. \<not> to_delete c) (mClients (erase_client i s))"
      unfolding e(1) by (subst cl) (simp add: i(2))
    have "sweep (erase_client i s) = s\<lparr>mClients := mClients (sweep (erase_client i s)), mPool := mPool (sweep (erase_client i s)),
        mEpollFd := mEpollFd (sweep (erase_client i s)), opened := opened (sweep (erase_client i s))\<rparr>"
      by (simp add: sweep_def erase_client_def Let_def)
    also have "\<dots> = sweep s"
      unfolding sweep_def d f by (simp add: e Diff_insert2 [symmetric])
    finally have "sweep (erase_client i s) = sweep s" .
    then show ?thesis
      using 1 Some by (subst UpdateClients.simps) simp
  qed
qed

subsection \<open>The invariant\<close>

definition server_inv :: "server \<Rightarrow> bool" where
  "server_inv s \<longleftrightarrow> distinct (map c_socket (mClients s)) \<and> opened s = c_socket ` set (mClients s) \<and>
     (\<forall>fd \<in> opened s. 0 \<le> fd \<and> fd \<notin> {mTcpServer s, mWsServer s, mReceiveFd s}) \<and>
     mEpollFd s \<subseteq> used_fds s"

lemma server_inv_cong:
  assumes "server_inv s" and "map c_peer cs = map c_peer (mClients s)"
  shows "server_inv (s\<lparr>mClients := cs, mPool := evs\<rparr>)"
proof -
  have "map c_socket cs = map c_socket (mClients s)"
    using arg_cong [OF assms(2), of "map p_socket"] by (simp add: comp_def)
  moreover from arg_cong [OF this, of set] have "c_socket ` set cs = c_socket ` set (mClients s)"
    by simp
  ultimately show ?thesis
    using assms(1) by (auto simp: server_inv_def used_fds_def)
qed

lemma IncommingData_peer:
  assumes "IncommingData sys c = ret (c', evs)"
  shows "c_peer c' = c_peer c"
  using assms
  by (auto simp: IncommingData_def Let_def split_beta cpp_bind_def ret_def DecodeWsData_conn_def DeliverData_def
      split: if_splits option.splits sum.splits prod.splits ws_result.splits)

lemma ret_inject [simp]: "ret x = ret y \<longleftrightarrow> x = y"
  by (simp add: ret_def)

lemma cpp_bind_ret_iff: "cpp_bind m f = ret y \<longleftrightarrow> (\<exists>x. m = ret x \<and> f x = ret y)"
  by (auto simp: cpp_bind_def ret_def split: option.splits sum.splits)

lemma scan_clients_Cons:
  assumes "scan_clients sys fd (c # cs) = ret (cs', evs)"
  obtains c' rest evs1 evs2 where "cs' = c' # rest" "evs = evs1 @ evs2" "scan_clients sys fd cs = ret (rest, evs2)"
    "c_socket c = fd \<and> IncommingData sys c = ret (c', evs1) \<or> c_socket c \<noteq> fd \<and> c' = c \<and> evs1 = []"
  using assms by (cases "c_socket c = fd") (auto simp: cpp_bind_ret_iff split_beta)

lemma scan_clients_peers:
  "scan_clients sys fd cs = ret (cs', evs) \<Longrightarrow> map c_peer cs' = map c_peer cs"
proof (induction cs arbitrary: cs' evs)
  case (Cons c cs)
  show ?case
    by (rule scan_clients_Cons [OF Cons(2)]) (use Cons(1) IncommingData_peer in auto)
qed simp

lemma accept_one_simps [simp]:
  "mClients (accept_one ws sd added s) = mClients s @ [Conn_new sd ws]"
  "opened (accept_one ws sd added s) = insert sd (opened s)"
  "mTcpServer (accept_one ws sd added s) = mTcpServer s" "mWsServer (accept_one ws sd added s) = mWsServer s"
  "mReceiveFd (accept_one ws sd added s) = mReceiveFd s"
  "mEpollFd (accept_one ws sd added s) = (if added then insert sd (mEpollFd s) else mEpollFd s)"
  "mPool (accept_one ws sd added s) = mPool s @ (if ws then [] else [NewConnection (Conn_new sd ws)])"
  by (simp_all add: accept_one_def Let_def)

lemma accept_one_inv:
  assumes "server_inv s" "sd \<ge> 0" "sd \<notin> used_fds s"
  shows "server_inv (accept_one ws sd added s)"
  using assms by (auto simp: server_inv_def used_fds_def Conn_new_def)

lemma IncommingConnection_inv:
  "server_inv s \<Longrightarrow> fresh_accepts (used_fds s) accepts \<Longrightarrow> server_inv (IncommingConnection ws accepts s)"
proof (induction accepts arbitrary: s)
  case (Cons a accepts)
  obtain sd added where a: "a = (sd, added)"
    by (cases a)
  have "used_fds (accept_one ws sd added s) = insert sd (used_fds s)"
    by (auto simp: used_fds_def)
  then show ?case
    using Cons accept_one_inv [of s sd ws added] by (auto simp: a)
qed simp

lemma RemoveClient_inv: "server_inv s \<Longrightarrow> server_inv (RemoveClient fd s)"
  using server_inv_cong [of s "map (\<lambda>c. if c_socket c = fd then c\<lparr>c_state := cStateDeleteLater\<rparr> else c) (mClients s)" "mPool s"]
  by (simp add: RemoveClient_def comp_def if_distrib cong: if_cong)

lemma sweep_inv:
  assumes "server_inv s"
  shows "server_inv (sweep s)"
proof -
  have "distinct (map c_socket (mClients s))"
    using assms by (simp add: server_inv_def)
  then have "c_socket ` set (filter (\<lambda>c. \<not> to_delete c) (mClients s)) =
      c_socket ` set (mClients s) - c_socket ` set (filter to_delete (mClients s))"
    by (auto simp: distinct_map inj_on_def)
  then show ?thesis
    using assms by (auto simp: server_inv_def sweep_def dead_def used_fds_def distinct_map_filter)
qed

lemma dispatch_cases:
  assumes "dispatch sys ev s = ret s'"
  obtains (remove) "s' = RemoveClient (ev_fd ev) s"
  | (stop) "s' = s\<lparr>end_server := True, mPool := mPool s @ [ServerTerminated CLOSED]\<rparr>"
  | (accept) ws where "s' = IncommingConnection ws (s_accept sys) s" "(if ws then mWsServer s else mTcpServer s) \<noteq> cSocketInvalid"
  | (nothing) "s' = s"
  | (data) cs evs where "scan_clients sys (ev_fd ev) (mClients s) = ret (cs, evs)" "s' = s\<lparr>mClients := cs, mPool := mPool s @ evs\<rparr>"
proof -
  let ?fd = "ev_fd ev"
  consider "ev_error ev \<or> ev_rdhup ev" | "\<not> ev_error ev \<and> \<not> ev_rdhup ev" "mReceiveFd s = ?fd"
    | "\<not> ev_error ev \<and> \<not> ev_rdhup ev" "mReceiveFd s \<noteq> ?fd" "mTcpServer s = ?fd"
    | "\<not> ev_error ev \<and> \<not> ev_rdhup ev" "mReceiveFd s \<noteq> ?fd" "mTcpServer s \<noteq> ?fd" "mWsServer s = ?fd"
    | "\<not> ev_error ev \<and> \<not> ev_rdhup ev" "mReceiveFd s \<noteq> ?fd" "mTcpServer s \<noteq> ?fd" "mWsServer s \<noteq> ?fd"
    by blast
  then show ?thesis
  proof cases
    case 1
    with assms show ?thesis
      by (intro remove) (auto simp: dispatch_def split: if_splits)
  next
    case 2
    with assms show ?thesis
      by (intro stop) (simp add: dispatch_def)
  next
    case 3
    show ?thesis
    proof (cases "mTcpServer s = cSocketInvalid")
      case True
      show ?thesis
        by (rule nothing) (use assms 3 True in \<open>simp add: dispatch_def\<close>)
    next
      case False
      show ?thesis
        by (rule accept [of False]) (use assms 3 False in \<open>simp_all add: dispatch_def\<close>)
    qed
  next
    case 4
    show ?thesis
    proof (cases "mWsServer s = cSocketInvalid")
      case True
      show ?thesis
        by (rule nothing) (use assms 4 True in \<open>simp add: dispatch_def\<close>)
    next
      case False
      show ?thesis
        by (rule accept [of True]) (use assms 4 False in \<open>simp_all add: dispatch_def\<close>)
    qed
  next
    case 5
    with assms obtain x where "scan_clients sys ?fd (mClients s) = ret x" "s' = s\<lparr>mClients := fst x, mPool := mPool s @ snd x\<rparr>"
      by (auto simp: dispatch_def cpp_bind_ret_iff split_beta)
    then show ?thesis
      using data [of "fst x" "snd x"] by simp
  qed
qed

lemma dispatch_inv:
  assumes "server_inv s" "fresh_accepts (used_fds s) (s_accept sys)" "dispatch sys ev s = ret s'"
  shows "server_inv s'"
  using assms(3)
proof (cases rule: dispatch_cases)
  case stop
  then show ?thesis
    using assms(1) by (auto simp: server_inv_def used_fds_def)
next
  case (data cs evs)
  then show ?thesis
    using server_inv_cong [OF assms(1) scan_clients_peers [OF data(1)]] by simp
qed (use assms RemoveClient_inv IncommingConnection_inv in auto)

lemma server_invariant: "srv.reach s \<Longrightarrow> server_inv s"
proof (erule srv.invariant)
  show "server_init s \<Longrightarrow> server_inv s" for s
    by (auto simp: server_init.simps run_init_def server_inv_def used_fds_def)
  fix s s'
  assume s: "server_inv s" and "server_step s s'"
  from this(2) show "server_inv s'"
  proof cases
    case (handle sys ev)
    then show ?thesis
      using dispatch_inv s by blast
  next
    case end_round
    then show ?thesis
      using sweep_inv [OF s] by (auto simp: UpdateClients_eq server_inv_def used_fds_def)
  next
    case (send_all sent wsOnly ok)
    then show ?thesis
      using server_inv_cong [OF s, of "mClients s'" "mPool s"]
      by (auto simp: SendToAllClients_def Let_def comp_def if_distrib cong: if_cong)
  qed (use s in \<open>auto simp: server_inv_def used_fds_def\<close>)
qed


subsection \<open>The order of the calls\<close>

text \<open>
  What an event handler may rely on for one socket: a connection is announced, read
  any number of times, closed, and only then announced again. The value is whether
  the socket is announced, \<open>None\<close> after a violation.
\<close>

fun session_step :: "int \<Rightarrow> bool option \<Rightarrow> event \<Rightarrow> bool option" where
  "session_step fd None e = None"
| "session_step fd (Some a) (NewConnection c) = (if c_socket c = fd then if a then None else Some True else Some a)"
| "session_step fd (Some a) (ReadData c) = (if c_socket c = fd \<and> \<not> a then None else Some a)"
| "session_step fd (Some a) (ClientClosed c) = (if c_socket c = fd then if a then Some False else None else Some a)"
| "session_step fd (Some a) (ServerTerminated t) = Some a"

definition session :: "int \<Rightarrow> event list \<Rightarrow> bool option" where
  "session fd evs = foldl (session_step fd) (Some False) evs"

lemma session_append: "session fd (evs @ evs') = foldl (session_step fd) (session fd evs) evs'"
  by (simp add: session_def)

lemma foldl_session_None [simp]: "foldl (session_step fd) None evs = None"
  by (induction evs) auto

text \<open>
  The calls for plain TCP connections, and the sockets of these connections. The other
  connections came through the WebSocket port.
\<close>

fun plain_event :: "event \<Rightarrow> bool" where
  "plain_event (NewConnection c) = (\<not> isWebSocket (c_peer c))"
| "plain_event (ReadData c) = (\<not> isWebSocket (c_peer c))"
| "plain_event (ClientClosed c) = (\<not> isWebSocket (c_peer c))"
| "plain_event (ServerTerminated t) = True"

definition plain_fds :: "conn list \<Rightarrow> int set" where
  "plain_fds cs = c_socket ` set (filter (\<lambda>c. \<not> isWebSocket (c_peer c)) cs)"

definition plain_inv :: "server \<Rightarrow> bool" where
  "plain_inv s \<longleftrightarrow> server_inv s \<and> (\<forall>fd. session fd (filter plain_event (mPool s)) = Some (fd \<in> plain_fds (mClients s))) \<and>
     (mWsServer s = cSocketInvalid \<longrightarrow> (\<forall>c \<in> set (mClients s). \<not> isWebSocket (c_peer c)) \<and> list_all plain_event (mPool s))"

text \<open>What one reading does to a connection and hands to the pool.\<close>

lemma IncommingData_events:
  assumes "IncommingData sys c = ret (c', evs)"
  obtains "evs = []" | "evs = [ReadData c']" | "evs = [NewConnection c']" "isWebSocket (c_peer c)" "IsClosed c" "\<not> IsClosed c'"
  using assms
  by (auto simp: IncommingData_def Let_def split_beta cpp_bind_def ret_def DeliverData_def IsClosed_def
      split: if_splits option.splits sum.splits prod.splits)

lemma IncommingData_state:
  assumes "IncommingData sys c = ret (c', evs)"
  shows "isWebSocket (c_peer c) \<Longrightarrow> \<not> IsClosed c'" "c_state c = cStateDeleteLater \<Longrightarrow> c_state c' = cStateDeleteLater"
  using assms
  by (auto simp: IncommingData_def Let_def split_beta cpp_bind_def ret_def DecodeWsData_conn_def DeliverData_def IsClosed_def
      split: if_splits option.splits sum.splits prod.splits ws_result.splits)

text \<open>Sockets being different, an event concerns at most one client.\<close>

lemma scan_clients_other: "fd \<notin> c_socket ` set cs \<Longrightarrow> scan_clients sys fd cs = ret (cs, [])"
  by (induction cs) (auto simp: cpp_bind_def ret_def)

lemma scan_clients_split:
  assumes "distinct (map c_socket (xs @ c # ys))"
  shows "scan_clients sys (c_socket c) (xs @ c # ys) =
    cpp_bind (IncommingData sys c) (\<lambda>(c', evs). ret (xs @ c' # ys, evs))"
  using assms
proof (induction xs)
  case Nil
  then have "scan_clients sys (c_socket c) ys = ret (ys, [])"
    by (intro scan_clients_other) simp
  then show ?case
    by (auto simp: cpp_bind_def ret_def split: option.splits sum.splits)
next
  case (Cons x xs)
  then have "scan_clients sys (c_socket c) (xs @ c # ys) = cpp_bind (IncommingData sys c) (\<lambda>(c', evs). ret (xs @ c' # ys, evs))"
    and "c_socket x \<noteq> c_socket c"
    by auto
  then show ?case
    by (auto simp: cpp_bind_def ret_def split: option.splits sum.splits)
qed

lemma scan_clients_one:
  assumes "distinct (map c_socket cs)" and "scan_clients sys fd cs = ret (cs', evs)"
  obtains (none) "cs' = cs" "evs = []"
  | (one) xs c ys c' where "cs = xs @ c # ys" "cs' = xs @ c' # ys" "c_socket c = fd" "IncommingData sys c = ret (c', evs)"
proof (cases "fd \<in> c_socket ` set cs")
  case True
  then obtain xs c ys where cs: "cs = xs @ c # ys" "c_socket c = fd"
    by (auto simp: in_set_conv_decomp)
  then have "cpp_bind (IncommingData sys c) (\<lambda>(c', evs). ret (xs @ c' # ys, evs)) = ret (cs', evs)"
    using assms scan_clients_split [of xs c ys sys] by simp
  then obtain c' where "IncommingData sys c = ret (c', evs)" "cs' = xs @ c' # ys"
    by (auto simp: cpp_bind_ret_iff)
  then show ?thesis
    using one cs by blast
next
  case False
  then show ?thesis
    using none assms(2) scan_clients_other [OF False, of sys] by simp
qed

lemma accept_one_plain:
  assumes "plain_inv s" "sd \<ge> 0" "sd \<notin> used_fds s" "ws \<Longrightarrow> mWsServer s \<noteq> cSocketInvalid"
  shows "plain_inv (accept_one ws sd added s)"
proof -
  have "sd \<notin> plain_fds (mClients s)"
    using assms(1,3) by (auto simp: plain_inv_def server_inv_def used_fds_def plain_fds_def)
  moreover have "plain_fds (mClients s @ [Conn_new sd ws]) = plain_fds (mClients s) \<union> (if ws then {} else {sd})"
    by (cases ws) (simp_all add: plain_fds_def Conn_new_def del: set_filter)
  ultimately show ?thesis
    using assms accept_one_inv [of s sd ws added] by (auto simp: plain_inv_def session_append Conn_new_def)
qed

lemma IncommingConnection_plain:
  "plain_inv s \<Longrightarrow> fresh_accepts (used_fds s) accepts \<Longrightarrow> (ws \<Longrightarrow> mWsServer s \<noteq> cSocketInvalid) \<Longrightarrow>
   plain_inv (IncommingConnection ws accepts s)"
proof (induction accepts arbitrary: s)
  case (Cons a accepts)
  obtain sd added where a: "a = (sd, added)"
    by (cases a)
  have "used_fds (accept_one ws sd added s) = insert sd (used_fds s)"
    by (auto simp: used_fds_def)
  then show ?case
    using Cons accept_one_plain [of s sd ws added] by (auto simp: a)
qed simp

lemma session_closes:
  "distinct (map c_socket cs) \<Longrightarrow> set (map c_socket cs) \<subseteq> S \<Longrightarrow>
   foldl (session_step fd) (Some (fd \<in> S)) (map ClientClosed cs) = Some (fd \<in> S - set (map c_socket cs))"
proof (induction cs arbitrary: S)
  case (Cons c cs)
  have "session_step fd (Some (fd \<in> S)) (ClientClosed c) = Some (fd \<in> S - {c_socket c})"
    using Cons(3) by auto
  moreover have "foldl (session_step fd) (Some (fd \<in> S - {c_socket c})) (map ClientClosed cs) =
      Some (fd \<in> S - {c_socket c} - set (map c_socket cs))"
    using Cons(2,3) by (intro Cons(1)) (simp_all add: subset_Diff_insert)
  moreover have "fd \<in> S - {c_socket c} - set (map c_socket cs) \<longleftrightarrow> fd \<in> S - set (map c_socket (c # cs))"
    by auto
  ultimately show ?case
    by (simp only: list.map foldl_Cons)
qed simp

lemma dead_connected:
  assumes "server_inv s" "c \<in> set (dead s)"
  shows "IsConnected c"
proof -
  have "0 \<le> c_socket c" "to_delete c"
    using assms by (auto simp: dead_def server_inv_def)
  then show ?thesis
    by (auto simp: to_delete_def IsConnected_def Peer_IsValid_def cSocketInvalid_def)
qed

lemma sweep_pool: "server_inv s \<Longrightarrow> mPool (sweep s) = mPool s @ map ClientClosed (dead s)"
  using dead_connected by (simp add: sweep_def filter_id_conv)

lemma sweep_plain:
  assumes "plain_inv s"
  shows "plain_inv (sweep s)"
proof -
  let ?d = "filter (\<lambda>c. \<not> isWebSocket (c_peer c)) (dead s)"
  have inv: "server_inv s"
    using assms by (simp add: plain_inv_def)
  then have inj: "inj_on c_socket (set (mClients s))"
    by (simp add: server_inv_def distinct_map)
  have f: "filter plain_event (map ClientClosed (dead s)) = map ClientClosed ?d"
    by (simp add: filter_map comp_def)
  have "plain_fds (mClients (sweep s)) = plain_fds (mClients s) - set (map c_socket ?d)"
    using inj by (auto simp: plain_fds_def sweep_def dead_def inj_on_def)
  moreover have "distinct (map c_socket ?d)" "set (map c_socket ?d) \<subseteq> plain_fds (mClients s)"
    using inv by (auto simp: dead_def plain_fds_def server_inv_def distinct_map_filter)
  ultimately have "session fd (filter plain_event (mPool (sweep s))) = Some (fd \<in> plain_fds (mClients (sweep s)))" for fd
    using assms session_closes [of ?d "plain_fds (mClients s)" fd] inv by (simp add: sweep_pool session_append f plain_inv_def)
  moreover have "list_all plain_event (mPool (sweep s))" if "list_all plain_event (mPool s)" "\<forall>c \<in> set (mClients s). \<not> isWebSocket (c_peer c)"
    using that inv by (auto simp: sweep_pool list_all_iff dead_def)
  ultimately show ?thesis
    using assms sweep_inv [OF inv] by (simp add: plain_inv_def) (simp add: sweep_def)
qed

lemma plain_inv_peers:
  assumes "plain_inv s" "map c_peer cs = map c_peer (mClients s)"
    and "\<And>fd. foldl (session_step fd) (Some (fd \<in> plain_fds (mClients s))) (filter plain_event evs) = Some (fd \<in> plain_fds (mClients s))"
    and "\<forall>c \<in> set (mClients s). \<not> isWebSocket (c_peer c) \<Longrightarrow> list_all plain_event evs"
  shows "plain_inv (s\<lparr>mClients := cs, mPool := mPool s @ evs\<rparr>)"
proof -
  have p: "c_peer ` set cs = c_peer ` set (mClients s)"
    using arg_cong [OF assms(2), of set] by simp
  have "plain_fds cs = p_socket ` {p \<in> c_peer ` set cs. \<not> isWebSocket p}" for cs
    by (auto simp: plain_fds_def)
  then have "plain_fds cs = plain_fds (mClients s)"
    using p by simp
  moreover have "\<forall>c \<in> set cs. \<not> isWebSocket (c_peer c)" if "\<forall>c \<in> set (mClients s). \<not> isWebSocket (c_peer c)"
    using that p by (metis imageE imageI)
  ultimately show ?thesis
    using assms server_inv_cong [of s cs] by (simp add: plain_inv_def session_append)
qed

lemma dispatch_plain:
  assumes "plain_inv s" "fresh_accepts (used_fds s) (s_accept sys)" "dispatch sys ev s = ret s'"
  shows "plain_inv s'"
  using assms(3)
proof (cases rule: dispatch_cases)
  case remove
  then show ?thesis
    using plain_inv_peers [OF assms(1), of "mClients s'" "[]"]
    by (simp add: RemoveClient_def comp_def if_distrib cong: if_cong)
next
  case stop
  then show ?thesis
    using assms(1) by (auto simp: plain_inv_def server_inv_def used_fds_def session_append)
next
  case (accept ws)
  then show ?thesis
    using assms IncommingConnection_plain [of s "s_accept sys" ws] by (cases ws) auto
next
  case (data cs evs)
  have d: "distinct (map c_socket (mClients s))"
    using assms(1) by (simp add: plain_inv_def server_inv_def)
  from d data(1) show ?thesis
  proof (cases rule: scan_clients_one)
    case none
    then show ?thesis
      using assms(1) data(2) by simp
  next
    case (one xs c ys c')
    have p: "c_peer c' = c_peer c"
      by (rule IncommingData_peer [OF one(4)])
    have m: "c \<in> set (mClients s)"
      using one(1) by simp
    have "foldl (session_step fd) (Some (fd \<in> plain_fds (mClients s))) (filter plain_event evs) = Some (fd \<in> plain_fds (mClients s)) \<and>
      (\<not> isWebSocket (c_peer c) \<longrightarrow> list_all plain_event evs)" for fd
      using one(4) by (cases rule: IncommingData_events) (use p m in \<open>auto simp: plain_fds_def\<close>)
    then show ?thesis
      unfolding data(2) using m by (intro plain_inv_peers [OF assms(1) scan_clients_peers [OF data(1)]]) blast+
  qed
qed (use assms in simp)

lemma SendToAllClients_eq:
  "SendToAllClients sent wsOnly s = (ok, s') \<Longrightarrow> s' = s\<lparr>mClients := mClients s', mPool := mPool s @ []\<rparr> \<and>
     map c_peer (mClients s') = map c_peer (mClients s)"
  by (auto simp: SendToAllClients_def Let_def)

lemma plain_inv_step:
  assumes s: "plain_inv s" and st: "server_step s s'"
  shows "plain_inv s'"
  using st
proof cases
  case (handle sys ev)
  then show ?thesis
    using dispatch_plain s by blast
next
  case end_round
  then show ?thesis
    using sweep_plain [OF s] by (auto simp: UpdateClients_eq plain_inv_def server_inv_def used_fds_def)
next
  case (send_all sent wsOnly ok)
  note e = SendToAllClients_eq [OF send_all(2)]
  have "plain_inv (s\<lparr>mClients := mClients s', mPool := mPool s @ []\<rparr>)"
    by (rule plain_inv_peers [OF s conjunct2 [OF e]]) simp_all
  then show ?thesis
    using e by simp
qed (use s in \<open>auto simp: plain_inv_def server_inv_def used_fds_def session_append\<close>)

lemma plain_invariant: "srv.reach s \<Longrightarrow> plain_inv s"
proof (erule srv.invariant)
  show "server_init s \<Longrightarrow> plain_inv s" for s
    using server_invariant [OF srv.reach_init, of s]
    by (auto simp: plain_inv_def) (auto simp: server_init.simps run_init_def session_def plain_fds_def)
qed (rule plain_inv_step)

subsection \<open>Which sockets are announced\<close>

text \<open>Whether the last call that announces or closes a socket announces it.\<close>

fun announced_step :: "int \<Rightarrow> bool \<Rightarrow> event \<Rightarrow> bool" where
  "announced_step fd a (NewConnection c) = (c_socket c = fd \<or> a)"
| "announced_step fd a (ClientClosed c) = (c_socket c \<noteq> fd \<and> a)"
| "announced_step fd a _ = a"

definition announced :: "int \<Rightarrow> event list \<Rightarrow> bool" where
  "announced fd evs = foldl (announced_step fd) False evs"

lemma announced_append [simp]:
  "announced fd [] = False" "announced fd (evs @ [e]) = announced_step fd (announced fd evs) e"
  by (simp_all add: announced_def)

lemma announced_closes: "announced fd (evs @ map ClientClosed cs) \<longleftrightarrow> announced fd evs \<and> fd \<notin> c_socket ` set cs"
  by (induction cs rule: rev_induct) (auto simp flip: append_assoc)

lemma announced_session: "session fd evs = Some a \<Longrightarrow> announced fd evs = a"
proof (induction evs arbitrary: a rule: rev_induct)
  case (snoc e evs)
  then obtain b where "session fd evs = Some b" "session_step fd (Some b) e = Some a"
    by (cases "session fd evs") (auto simp: session_append)
  then show ?case
    using snoc(1) by (cases e) (auto split: if_splits)
qed (simp add: session_def)

text \<open>A WebSocket client that has not done its handshake is not announced.\<close>

definition waiting :: "conn \<Rightarrow> bool" where
  "waiting c \<longleftrightarrow> isWebSocket (c_peer c) \<and> IsClosed c"

definition announced_inv :: "server \<Rightarrow> bool" where
  "announced_inv s \<longleftrightarrow> (\<forall>fd. announced fd (mPool s) \<longrightarrow> (\<exists>c \<in> set (mClients s). c_socket c = fd \<and> \<not> waiting c))"

lemma announced_inv_map:
  assumes "announced_inv s" "\<And>c. c_socket (g c) = c_socket c" "\<And>c. \<not> waiting c \<Longrightarrow> \<not> waiting (g c)"
  shows "announced_inv (s\<lparr>mClients := map g (mClients s)\<rparr>)"
  using assms by (fastforce simp: announced_inv_def)

lemma delete_later_inv:
  "announced_inv s \<Longrightarrow> announced_inv (s\<lparr>mClients := map (\<lambda>c. if P c then c\<lparr>c_state := cStateDeleteLater\<rparr> else c) (mClients s)\<rparr>)"
  by (rule announced_inv_map) (auto simp: waiting_def IsClosed_def)

lemma IncommingConnection_announced: "announced_inv s \<Longrightarrow> announced_inv (IncommingConnection ws accepts s)"
proof (induction ws accepts s rule: IncommingConnection.induct)
  case (2 ws sd added accepts s)
  have "announced_inv (accept_one ws sd added s)"
    using 2(2) by (auto simp: announced_inv_def waiting_def Conn_new_def)
  then show ?case
    using 2 by simp
qed simp

lemma dispatch_announced:
  assumes "server_inv s" "announced_inv s" "dispatch sys ev s = ret s'"
  shows "announced_inv s'"
  using assms(3)
proof (cases rule: dispatch_cases)
  case remove
  then show ?thesis
    using delete_later_inv [OF assms(2)] by (simp add: RemoveClient_def)
next
  case (data cs evs)
  have d: "distinct (map c_socket (mClients s))"
    using assms(1) by (simp add: server_inv_def)
  from d data(1) show ?thesis
  proof (cases rule: scan_clients_one)
    case none
    then show ?thesis
      using assms(2) data(2) by simp
  next
    case (one xs c ys c')
    have p: "c_peer c' = c_peer c" "\<not> waiting c'"
      using IncommingData_peer [OF one(4)] IncommingData_state(1) [OF one(4)] by (auto simp: waiting_def)
    have "announced fd (mPool s @ evs) \<longrightarrow> announced fd (mPool s) \<or> fd = c_socket c" for fd
      using one(4) by (cases rule: IncommingData_events) (use p in auto)
    then show ?thesis
      using assms(2) one(1,2) p unfolding data(2) announced_inv_def by fastforce
  qed
qed (use assms(2) IncommingConnection_announced in \<open>auto simp: announced_inv_def\<close>)

lemma sweep_announced: "server_inv s \<Longrightarrow> announced_inv s \<Longrightarrow> announced_inv (sweep s)"
  unfolding announced_inv_def sweep_pool announced_closes by (auto simp: sweep_def dead_def)

lemma announced_invariant: "srv.reach s \<Longrightarrow> announced_inv s"
proof (erule srv.invariant)
  show "server_init s \<Longrightarrow> announced_inv s" for s
    by (auto simp: announced_inv_def server_init.simps run_init_def)
  fix s s'
  assume r: "srv.reach s" and s: "announced_inv s" and "server_step s s'"
  from this(3) show "announced_inv s'"
  proof cases
    case (handle sys ev)
    then show ?thesis
      using dispatch_announced server_invariant [OF r] s by blast
  next
    case end_round
    then show ?thesis
      using sweep_announced [OF server_invariant [OF r] s] by (simp add: UpdateClients_eq announced_inv_def)
  next
    case (send_all sent wsOnly ok)
    then show ?thesis
      using delete_later_inv [OF s] by (auto simp: SendToAllClients_def Let_def)
  qed (use s in \<open>auto simp: announced_inv_def\<close>)
qed

subsection \<open>The rest of a round\<close>

text \<open>The events that are handled after one another under the mutex.\<close>

definition handles :: "server \<Rightarrow> server \<Rightarrow> bool" where
  "handles s t \<longleftrightarrow> (\<exists>sys ev. fresh_accepts (used_fds s) (s_accept sys) \<and> dispatch sys ev s = ret t)"

text \<open>A client that is to be deleted stays so until the end of the round, and no call announces its socket.\<close>

definition doomed :: "peer \<Rightarrow> server \<Rightarrow> bool" where
  "doomed p s \<longleftrightarrow> server_inv s \<and> (\<exists>c \<in> set (mClients s). c_peer c = p \<and> c_state c = cStateDeleteLater)"

definition unannounced :: "int \<Rightarrow> event list \<Rightarrow> bool" where
  "unannounced fd evs \<longleftrightarrow> (\<forall>c. NewConnection c \<in> set evs \<longrightarrow> c_socket c \<noteq> fd)"

lemma unannounced_Nil: "unannounced fd []"
  by (simp add: unannounced_def)

lemma unannounced_append [simp]: "unannounced fd (evs @ evs') \<longleftrightarrow> unannounced fd evs \<and> unannounced fd evs'"
  by (auto simp: unannounced_def)

lemma IncommingConnection_new:
  "fresh_accepts used accepts \<Longrightarrow> fd \<in> used \<Longrightarrow>
   \<exists>new evs. mClients (IncommingConnection ws accepts s) = mClients s @ new \<and>
     mPool (IncommingConnection ws accepts s) = mPool s @ evs \<and> unannounced fd evs"
proof (induction ws accepts s arbitrary: used rule: IncommingConnection.induct)
  case (2 ws sd added accepts s)
  show ?case
  proof (cases "sd \<ge> 0")
    case True
    then have "sd \<noteq> fd"
      using 2(2,3) by auto
    moreover obtain new evs where "mClients (IncommingConnection ws accepts (accept_one ws sd added s)) = mClients (accept_one ws sd added s) @ new"
      "mPool (IncommingConnection ws accepts (accept_one ws sd added s)) = mPool (accept_one ws sd added s) @ evs" "unannounced fd evs"
      using 2(1) [OF True, of "insert sd used"] 2(2,3) True by auto
    ultimately show ?thesis
      using True by (auto simp: unannounced_def Conn_new_def)
  qed (simp add: unannounced_def)
qed (simp add: unannounced_def)

lemma scan_clients_doomed:
  assumes inv: "server_inv s" and c: "c \<in> set (mClients s)" "c_state c = cStateDeleteLater"
    and sc: "scan_clients sys fd (mClients s) = ret (cs, evs)"
  shows "\<exists>c' \<in> set cs. c_peer c' = c_peer c \<and> c_state c' = cStateDeleteLater" and "unannounced (c_socket c) evs"
proof -
  have d: "distinct (map c_socket (mClients s))"
    using inv by (simp add: server_inv_def)
  from d sc have "(\<exists>c' \<in> set cs. c_peer c' = c_peer c \<and> c_state c' = cStateDeleteLater) \<and> unannounced (c_socket c) evs"
  proof (cases rule: scan_clients_one)
    case none
    then show ?thesis
      using c by (auto simp: unannounced_Nil)
  next
    case (one xs e ys e')
    note e = IncommingData_peer [OF one(4)] IncommingData_state(2) [OF one(4)]
    show ?thesis
    proof (cases "e = c")
      case True
      have "e' \<in> set cs" "c_peer e' = c_peer c" "c_state e' = cStateDeleteLater" "\<not> IsClosed e"
        using one(2) e c(2) True by (simp_all add: IsClosed_def)
      moreover from this(4) one(4) have "unannounced (c_socket c) evs"
        by (elim IncommingData_events) (simp_all add: unannounced_def)
      ultimately show ?thesis
        by blast
    next
      case False
      then have "c_socket e' \<noteq> c_socket c"
        using d c(1) e(1) unfolding one(1) by (auto simp: image_iff)
      with one(4) have "unannounced (c_socket c) evs"
        by (elim IncommingData_events) (simp_all add: unannounced_def)
      moreover have "c \<in> set cs"
        using False c(1) one(1,2) by auto
      ultimately show ?thesis
        using c(2) by blast
    qed
  qed
  then show "\<exists>c' \<in> set cs. c_peer c' = c_peer c \<and> c_state c' = cStateDeleteLater" "unannounced (c_socket c) evs"
    by blast+
qed

lemma handles_doomed:
  assumes "doomed p s" "handles s t"
  shows "doomed p t \<and> (\<exists>evs. mPool t = mPool s @ evs \<and> unannounced (p_socket p) evs)"
proof -
  obtain sys ev where h: "fresh_accepts (used_fds s) (s_accept sys)" "dispatch sys ev s = ret t"
    using assms(2) by (auto simp: handles_def)
  obtain c where c: "c \<in> set (mClients s)" "c_peer c = p" "c_state c = cStateDeleteLater" and inv: "server_inv s"
    using assms(1) by (auto simp: doomed_def)
  have t: "server_inv t"
    by (rule dispatch_inv [OF inv h])
  have same: ?thesis if "\<exists>d \<in> set (mClients t). c_peer d = p \<and> c_state d = cStateDeleteLater"
      "mPool t = mPool s @ evs" "unannounced (p_socket p) evs" for evs
    using that t by (auto simp: doomed_def)
  from h(2) show ?thesis
  proof (cases rule: dispatch_cases)
    case remove
    let ?g = "\<lambda>c. if c_socket c = ev_fd ev then c\<lparr>c_state := cStateDeleteLater\<rparr> else c"
    have "?g c \<in> set (mClients t)" "c_peer (?g c) = p" "c_state (?g c) = cStateDeleteLater" "mPool t = mPool s"
      using remove c by (simp_all add: RemoveClient_def)
    then show ?thesis
      by (intro same [of "[]"]) (auto simp: unannounced_Nil)
  next
    case stop
    then show ?thesis
      using c by (intro same [of "[ServerTerminated CLOSED]"]) (auto simp: unannounced_def)
  next
    case (accept ws)
    have "p_socket p \<in> used_fds s"
      using inv c by (auto simp: server_inv_def used_fds_def)
    then obtain new evs where "mClients t = mClients s @ new" "mPool t = mPool s @ evs" "unannounced (p_socket p) evs"
      using IncommingConnection_new [OF h(1), of "p_socket p" ws s] accept(1) by auto
    then show ?thesis
      using c by (intro same [of evs]) auto
  next
    case nothing
    then show ?thesis
      using c by (intro same [of "[]"]) (auto simp: unannounced_Nil)
  next
    case (data cs evs)
    then show ?thesis
      using scan_clients_doomed [OF inv c(1,3) data(1)] c(2) by (intro same [of evs]) simp_all
  qed
qed

lemma round_doomed:
  "handles\<^sup>*\<^sup>* s t \<Longrightarrow> doomed p s \<Longrightarrow> doomed p t \<and> (\<exists>evs. mPool t = mPool s @ evs \<and> unannounced (p_socket p) evs)"
proof (induction rule: rtranclp_induct)
  case (step t u)
  then show ?case
    using handles_doomed [of p t u] by fastforce
qed (simp add: unannounced_def)

lemma end_doomed:
  assumes "doomed p t"
  shows "\<exists>evs d. mPool (UpdateClients t) = mPool t @ evs \<and> unannounced (p_socket p) evs \<and> ClientClosed d \<in> set evs \<and> c_peer d = p"
proof -
  obtain d where d: "d \<in> set (dead t)" "c_peer d = p" and "server_inv t"
    using assms by (auto simp: doomed_def dead_def to_delete_def)
  then show ?thesis
    by (intro exI [of _ "map ClientClosed (dead t)"] exI [of _ d]) (auto simp: UpdateClients_eq sweep_pool unannounced_def)
qed

text \<open>The event of a client whose handshake fails.\<close>

lemma failed_handshake:
  assumes inv: "server_inv s" and c: "c \<in> set (mClients s)" "isWebSocket (c_peer c)" "IsClosed c"
    and "Recv (s_count sys) 0 (s_recv sys) [] = (True, buff)" "ProceedWsHandshake (s_send sys) (s_retry sys) buff = ret (False, r)"
  defines "c' \<equiv> c\<lparr>c_state := cStateDeleteLater\<rparr>"
  shows "\<exists>s'. dispatch sys \<lparr>ev_fd = c_socket c, ev_error = False, ev_rdhup = False\<rparr> s = ret s' \<and>
    mPool s' = mPool s @ [ReadData c'] \<and> doomed (c_peer c) s'"
proof -
  obtain xs ys where cs: "mClients s = xs @ c # ys"
    using c(1) by (auto simp: in_set_conv_decomp)
  have "IncommingData sys c = ret (c', [ReadData c'])"
    using assms(3-6) by (simp add: IncommingData_def c'_def Let_def)
  then have sc: "scan_clients sys (c_socket c) (mClients s) = ret (xs @ c' # ys, [ReadData c'])"
    using scan_clients_split [of xs c ys sys] inv by (simp add: cs server_inv_def cpp_bind_def ret_def)
  have fd: "c_socket c \<notin> {mTcpServer s, mWsServer s, mReceiveFd s}"
    using inv c(1) by (auto simp: server_inv_def)
  let ?s' = "s\<lparr>mClients := xs @ c' # ys, mPool := mPool s @ [ReadData c']\<rparr>"
  have "dispatch sys \<lparr>ev_fd = c_socket c, ev_error = False, ev_rdhup = False\<rparr> s = ret ?s'"
    using fd sc by (auto simp: dispatch_def cpp_bind_ret_iff)
  moreover have "server_inv ?s'"
    by (rule server_inv_cong [OF inv scan_clients_peers [OF sc]])
  then have "doomed (c_peer c) ?s'"
    by (simp add: doomed_def c'_def)
  ultimately show ?thesis
    by (intro exI [of _ ?s']) simp
qed


subsection \<open>What the handlers leave behind\<close>

text \<open>A read takes at most \<open>MAXRECV\<close> bytes, however many are waiting.\<close>

lemma recv_stops_at_16K:
  assumes "MAXRECV \<le> count" and "recv 0 = Recv_bytes buff" and "length buff = MAXRECV"
  shows "Recv count 0 recv [] = (True, buff)"
proof -
  have "buff \<noteq> []" "MAXRECV > 0"
    using assms(3) by (auto simp: MAXRECV_def)
  then show ?thesis
    using assms by (simp add: Recv_def Recv_loop.simps [of recv 0])
qed

text \<open>Of two frames that arrive together the second is dropped with the receive buffer.\<close>

lemma second_frame_dropped:
  assumes "length data + length extra + 14 < 2 ^ 32"
  shows "DecodeWsData (BuildWsFrame WEBSOCKET_OPCODE_TEXT data @ extra) pl =
    Inr (WS_DATA, BuildWsFrame WEBSOCKET_OPCODE_TEXT data @ extra, data)"
proof -
  let ?h = "rfc_header True WEBSOCKET_OPCODE_TEXT None (length data)"
  have f: "BuildWsFrame WEBSOCKET_OPCODE_TEXT data = ?h @ data"
    using BuildWsFrame_rfc [of data WEBSOCKET_OPCODE_TEXT] assms by (simp add: rfc_frame_def ws_opcodes)
  have "ws_lengths (?h @ data @ extra) = (0, length ?h, length data)"
    using ws_lengths_header [of None "length data" "data @ extra" True WEBSOCKET_OPCODE_TEXT] assms by simp
  moreover have "str_at (?h @ data @ extra) 0 = 0x80 OR WEBSOCKET_OPCODE_TEXT"
    by (simp add: str_at_def rfc_header_def)
  ultimately show ?thesis
    unfolding f by (simp add: DecodeWsData_def ws_unmask_def substr_def ws_opcodes)
qed

text \<open>The end of the server thread forgets the WebSocket clients that did not finish the handshake without closing them.\<close>

lemma cleanup_leaks:
  assumes "srv.reach s"
  shows "opened (cleanup s) = c_socket ` {c \<in> set (mClients s). isWebSocket (c_peer c) \<and> IsClosed c}"
proof -
  have inv: "server_inv s"
    by (rule server_invariant [OF assms])
  have con: "IsConnected c \<longleftrightarrow> \<not> (isWebSocket (c_peer c) \<and> IsClosed c)" if "c \<in> set (mClients s)" for c
  proof -
    have "0 \<le> c_socket c"
      using inv that by (simp add: server_inv_def)
    then show ?thesis
      by (auto simp: IsConnected_def Peer_IsValid_def IsClosed_def cSocketInvalid_def)
  qed
  have "inj_on c_socket (set (mClients s))"
    using inv by (simp add: server_inv_def distinct_map)
  then have "c_socket ` set (mClients s) - c_socket ` {c \<in> set (mClients s). IsConnected c} =
      c_socket ` {c \<in> set (mClients s). \<not> IsConnected c}"
    by (auto simp: inj_on_def)
  also have "{c \<in> set (mClients s). \<not> IsConnected c} = {c \<in> set (mClients s). isWebSocket (c_peer c) \<and> IsClosed c}"
    using con by blast
  finally show ?thesis
    using inv by (simp add: cleanup_def server_inv_def)
qed

subsection \<open>Properties\<close>

text \<open>
  Property C8. The descriptors of the server: in every reachable state, during and
  between rounds, the clients have different sockets, the open connection sockets
  are exactly theirs, so that none leaks and none is used after it was closed, and
  \<open>epoll\<close> watches only those, the listening sockets and the pipe. \<open>accept\<close> returns
  descriptors that are not in use.
\<close>

theorem server_descriptors:
  assumes "srv.reach s"
  shows "distinct (map c_socket (mClients s)) \<and> opened s = set (map c_socket (mClients s)) \<and>
    mEpollFd s \<subseteq> opened s \<union> {mTcpServer s, mWsServer s, mReceiveFd s} \<and>
    opened s \<inter> {mTcpServer s, mWsServer s, mReceiveFd s, cSocketInvalid} = {}"
  using server_invariant [OF assms] by (fastforce simp: server_inv_def used_fds_def cSocketInvalid_def)

definition sample_system :: "(int \<times> bool) list \<Rightarrow> system" where
  "sample_system accepts = \<lparr>s_accept = accepts, s_count = 2, s_recv = (\<lambda>k. Recv_bytes [88, 10]),
     s_send = (\<lambda>k b. int (length b)), s_retry = (\<lambda>k. False)\<rparr>"

abbreviation readable :: "int \<Rightarrow> epoll_event" where
  "readable fd \<equiv> \<lparr>ev_fd = fd, ev_error = False, ev_rdhup = False\<rparr>"

lemma sample_accept:
  assumes "ws \<longrightarrow> tcp = -1 \<and> wsp = 5" and "\<not> ws \<longrightarrow> tcp = 5 \<and> wsp = -1"
  shows "srv.reach ((accept_one ws 7 True ((run_init tcp wsp 3)\<lparr>mMutex := True\<rparr>)))"
proof -
  let ?s = "run_init tcp wsp 3"
  have "srv.reach ?s"
    using assms by (intro srv.reach_init server_init.intros) (cases ws; auto)+
  then have "srv.reach (?s\<lparr>mMutex := True\<rparr>)"
    by (rule srv.reach_step) (rule server_step.begin_round, simp_all add: run_init_def)
  then show ?thesis
    by (rule srv.reach_step, intro server_step.handle [where sys = "sample_system [(7, True), (-1, False)]" and ev = "readable 5"])
      (use assms in \<open>cases ws; simp add: run_init_def sample_system_def used_fds_def dispatch_def cSocketInvalid_def\<close>)+
qed

theorem server_descriptors_witness:
  "\<exists>s. srv.reach s \<and> map c_socket (mClients s) = [7] \<and> opened s = {7}"
  using sample_accept [of False 5 "-1"] server_descriptors [OF sample_accept [of False 5 "-1"]]
  by (intro exI [of _ "accept_one False 7 True ((run_init 5 (-1) 3)\<lparr>mMutex := True\<rparr>)"]) (simp add: Conn_new_def run_init_def)

text \<open>
  The clean-up, which searches the clients from the beginning after every
  removal, ends and amounts to one pass: the clients to be deleted are removed, the
  others stay in order, every removed client that counts as connected is reported
  closed, in order, and the removed sockets are taken from \<open>epoll\<close> and closed.
\<close>

theorem update_clients_is_one_pass: "UpdateClients s = sweep s"
  by (rule UpdateClients_eq)

text \<open>
  Property C9. The order of the calls for plain TCP: on every server, with or without a WebSocket
  port, and for every socket, the calls for plain TCP connections are handed to the thread pool in
  the order \<open>NewConnection\<close>, any number of \<open>ReadData\<close>, \<open>ClientClosed\<close>, and the same again when
  the descriptor is reused; and exactly the sockets of the current plain TCP clients are
  announced and not closed. Without a WebSocket port there are no other calls. (The pool takes
  the calls in this order; only with one thread does it also begin them in this order.)
\<close>

theorem tcp_event_order:
  assumes "srv.reach s"
  shows "session fd (filter plain_event (mPool s)) = Some (fd \<in> c_socket ` {c \<in> set (mClients s). \<not> isWebSocket (c_peer c)}) \<and>
    (mWsServer s = cSocketInvalid \<longrightarrow> session fd (mPool s) = Some (fd \<in> c_socket ` set (mClients s)))"
proof (intro conjI impI)
  have inv: "plain_inv s"
    by (rule plain_invariant [OF assms])
  then show t: "session fd (filter plain_event (mPool s)) = Some (fd \<in> c_socket ` {c \<in> set (mClients s). \<not> isWebSocket (c_peer c)})"
    by (simp add: plain_inv_def plain_fds_def)
  assume "mWsServer s = cSocketInvalid"
  then have "filter plain_event (mPool s) = mPool s" "{c \<in> set (mClients s). \<not> isWebSocket (c_peer c)} = set (mClients s)"
    using inv by (auto simp: plain_inv_def list_all_iff)
  then show "session fd (mPool s) = Some (fd \<in> c_socket ` set (mClients s))"
    using t by simp
qed

theorem tcp_event_order_witness:
  "\<exists>s. srv.reach s \<and> session 7 (mPool s) = Some True"
proof -
  let ?s = "accept_one False 7 True ((run_init 5 (-1) 3)\<lparr>mMutex := True\<rparr>)"
  have r: "srv.reach ?s"
    by (rule sample_accept) simp_all
  then show ?thesis
    using tcp_event_order [OF r, of 7, THEN conjunct2] by (intro exI [of _ ?s]) (simp add: run_init_def cSocketInvalid_def Conn_new_def)
qed

text \<open>
  Property C30. For a WebSocket that order is not kept: whenever a client that has not done its handshake
  sends data that \<open>ProceedWsHandshake\<close> refuses, its socket is not announced, \<open>ReadData\<close> is
  handed over for it, against the order of the calls, and at the end of the round, whatever events are handled before,
  \<open>ClientClosed\<close> is handed over for it, all without a \<open>NewConnection\<close>.
\<close>

theorem ws_unannounced_client:
  assumes "srv.reach s" and "c \<in> set (mClients s)" "isWebSocket (c_peer c)" "IsClosed c"
    and "Recv (s_count sys) 0 (s_recv sys) [] = (True, buff)"
    and "ProceedWsHandshake (s_send sys) (s_retry sys) buff = ret (False, reply)"
  shows "\<not> announced (c_socket c) (mPool s) \<and>
    (\<exists>s'. dispatch sys \<lparr>ev_fd = c_socket c, ev_error = False, ev_rdhup = False\<rparr> s = ret s' \<and>
       mPool s' = mPool s @ [ReadData (c\<lparr>c_state := cStateDeleteLater\<rparr>)] \<and> session (c_socket c) (mPool s') = None \<and>
       (\<forall>t. handles\<^sup>*\<^sup>* s' t \<longrightarrow>
          (\<exists>evs d. mPool (UpdateClients t) = mPool s' @ evs \<and> ClientClosed d \<in> set evs \<and> c_peer d = c_peer c \<and>
             (\<forall>e. NewConnection e \<in> set evs \<longrightarrow> c_socket e \<noteq> c_socket c))))"
proof
  have inv: "server_inv s"
    by (rule server_invariant [OF assms(1)])
  then have "inj_on c_socket (set (mClients s))"
    by (simp add: server_inv_def distinct_map)
  then show n: "\<not> announced (c_socket c) (mPool s)"
    using announced_invariant [OF assms(1)] assms(2-4) unfolding announced_inv_def waiting_def inj_on_def by blast
  obtain s' where s': "dispatch sys \<lparr>ev_fd = c_socket c, ev_error = False, ev_rdhup = False\<rparr> s = ret s'"
      "mPool s' = mPool s @ [ReadData (c\<lparr>c_state := cStateDeleteLater\<rparr>)]" "doomed (c_peer c) s'"
    using failed_handshake [OF inv assms(2-6)] by blast
  have "session (c_socket c) (mPool s') = None"
    using n announced_session [of "c_socket c" "mPool s"] by (cases "session (c_socket c) (mPool s)") (auto simp: s'(2) session_append)
  moreover have "\<exists>evs d. mPool (UpdateClients t) = mPool s' @ evs \<and> ClientClosed d \<in> set evs \<and> c_peer d = c_peer c \<and>
      (\<forall>e. NewConnection e \<in> set evs \<longrightarrow> c_socket e \<noteq> c_socket c)" if "handles\<^sup>*\<^sup>* s' t" for t
    using round_doomed [OF that s'(3)] end_doomed [of "c_peer c" t] by (fastforce simp: unannounced_def)
  ultimately show "\<exists>s'. dispatch sys \<lparr>ev_fd = c_socket c, ev_error = False, ev_rdhup = False\<rparr> s = ret s' \<and>
       mPool s' = mPool s @ [ReadData (c\<lparr>c_state := cStateDeleteLater\<rparr>)] \<and> session (c_socket c) (mPool s') = None \<and>
       (\<forall>t. handles\<^sup>*\<^sup>* s' t \<longrightarrow>
          (\<exists>evs d. mPool (UpdateClients t) = mPool s' @ evs \<and> ClientClosed d \<in> set evs \<and> c_peer d = c_peer c \<and>
             (\<forall>e. NewConnection e \<in> set evs \<longrightarrow> c_socket e \<noteq> c_socket c)))"
    using s'(1,2) by blast
qed

lemma sample_refused:
  "Recv (s_count (sample_system as)) 0 (s_recv (sample_system as)) [] = (True, [88, 10])"
  "ProceedWsHandshake (s_send (sample_system as)) (s_retry (sample_system as)) [88, 10] = ret (False, [])"
proof -
  have "getline 10 ([88, 10], True) = Some ([88], ([], True))"
    using getline_append [of 10 "[88]" "[]"] by simp
  then have "ParseRequestHeader [88, 10] HttpRequest = ret (False, HttpRequest)"
    by (simp add: ParseRequestHeader_def pop_back_def Split_space split_spec_last)
  then show "ProceedWsHandshake (s_send (sample_system as)) (s_retry (sample_system as)) [88, 10] = ret (False, [])"
    by (simp add: ProceedWsHandshake_def ParseWebSocketRequest_def WebSocketRequest_def)
  show "Recv (s_count (sample_system as)) 0 (s_recv (sample_system as)) [] = (True, [88, 10])"
    by (simp add: Recv_def MAXRECV_def Recv_loop.simps sample_system_def)
qed

theorem ws_unannounced_client_witness:
  "\<exists>s s' c. srv.reach s \<and> mPool s = [] \<and> dispatch (sample_system []) (readable 7) s = ret s' \<and>
     mPool s' = [ReadData c] \<and> session 7 (mPool s') = None \<and> (\<exists>evs d. mPool (UpdateClients s') = mPool s' @ evs \<and> ClientClosed d \<in> set evs)"
proof -
  let ?s = "accept_one True 7 True ((run_init (-1) 5 3)\<lparr>mMutex := True\<rparr>)" and ?c = "Conn_new 7 True"
  have r: "srv.reach ?s"
    by (rule sample_accept) simp_all
  have c: "?c \<in> set (mClients ?s)" "isWebSocket (c_peer ?c)" "IsClosed ?c" "c_socket ?c = 7" "mPool ?s = []"
    by (simp_all add: run_init_def Conn_new_def IsClosed_def)
  obtain s' where s': "dispatch (sample_system []) (readable 7) ?s = ret s'"
      "mPool s' = [ReadData (?c\<lparr>c_state := cStateDeleteLater\<rparr>)]" "session 7 (mPool s') = None"
      "\<forall>t. handles\<^sup>*\<^sup>* s' t \<longrightarrow> (\<exists>evs d. mPool (UpdateClients t) = mPool s' @ evs \<and> ClientClosed d \<in> set evs)"
    using ws_unannounced_client [OF r c(1-3) sample_refused] unfolding c(4,5) append_Nil by meson
  then have "\<exists>evs d. mPool (UpdateClients s') = mPool s' @ evs \<and> ClientClosed d \<in> set evs"
    by blast
  then show ?thesis
    using r c(5) s'(1-3) by blast
qed

end
