(* ===== verification/Json_Parser.thy ===== *)
theory Json_Parser
  imports Http_Protocol
begin


text \<open>
  The JSON values, printer, parser and path queries of \<open>json/JsonValue.cpp\<close> and
  \<open>json/JsonReader.cpp\<close>.

  A \<open>JsonValue\<close> is a tagged union. Numbers with a fraction or an exponent are
  floating point: its operations are an argument \<open>fp\<close> of the parser and the
  printer. The text that is parsed ends at the first zero byte.
\<close>

subsection \<open>Values\<close>

datatype 'd json =
    JInvalid
  | JArray "'d json list"
  | JObject "(byte list \<times> 'd json) list"
  | JInteger "64 word"
  | JDouble 'd
  | JBoolean bool
  | JString "byte list"
  | JNull

record 'd fpu =
  f_of :: "int \<Rightarrow> 'd"
  f_tenth :: 'd
  f_add :: "'d \<Rightarrow> 'd \<Rightarrow> 'd"
  f_mul :: "'d \<Rightarrow> 'd \<Rightarrow> 'd"
  f_neg :: "'d \<Rightarrow> 'd"
  f_int64 :: "'d \<Rightarrow> 64 word"
  f_text :: "'d \<Rightarrow> byte list"

fun IsValid_json :: "'d json \<Rightarrow> bool" where
  "IsValid_json JInvalid = False" | "IsValid_json _ = True"

definition obj_AddValue :: "byte list \<Rightarrow> 'd json \<Rightarrow> 'd json \<Rightarrow> 'd json" where
  "obj_AddValue name value node = (case node of JObject m \<Rightarrow> JObject (smap_set name value m) | _ \<Rightarrow> node)"

definition arr_AddValue :: "'d json \<Rightarrow> 'd json \<Rightarrow> 'd json" where
  "arr_AddValue value node = (case node of JArray xs \<Rightarrow> JArray (xs @ [value]) | _ \<Rightarrow> node)"

definition DeleteEntry :: "u32 \<Rightarrow> 'd json list \<Rightarrow> bool \<times> 'd json list" where
  "DeleteEntry index xs =
     (if unat index < length xs then (True, take (unat index) xs @ drop (Suc (unat index)) xs) else (False, xs))"

definition GetEntry :: "u32 \<Rightarrow> 'd json list \<Rightarrow> 'd json" where
  "GetEntry index xs = (if unat index < length xs then xs ! unat index else JInvalid)"

definition GetKeys :: "(byte list \<times> 'd json) list \<Rightarrow> byte list list" where
  "GetKeys m = map fst m"

subsection \<open>Printing\<close>

definition CreateIndent :: "int \<Rightarrow> byte list" where
  "CreateIndent level = replicate (nat (4 * level)) 32"

text \<open>\<open>std::to_string\<close> of an \<open>int64_t\<close>.\<close>

definition int_text :: "64 word \<Rightarrow> byte list" where
  "int_text w = (if sint w < 0 then 45 # to_dec (nat (- sint w)) else to_dec (nat (sint w)))"

text \<open>The string with every backslash doubled.\<close>

definition escape :: "byte list \<Rightarrow> byte list" where
  "escape s = concat (map (\<lambda>c. if c = 92 then [92, 92] else [c]) s)"

text \<open>The loop over the elements: a comma and the line break after every element but the last.\<close>

fun commas :: "byte list \<Rightarrow> byte list list \<Rightarrow> byte list" where
  "commas nl [] = []"
| "commas nl [t] = t"
| "commas nl (t # u # ts) = t @ [44] @ nl @ commas nl (u # ts)"

definition line_break :: "int \<Rightarrow> byte list" where "line_break level = (if level \<ge> 0 then [10] else [])"
definition indent :: "int \<Rightarrow> byte list" where "indent level = (if level \<ge> 0 then CreateIndent (level + 1) else [])"
definition next_level :: "int \<Rightarrow> int" where "next_level level = (if level \<ge> 0 then level + 1 else - 1)"

fun ToString :: "'d fpu \<Rightarrow> int \<Rightarrow> 'd json \<Rightarrow> byte list" where
  "ToString fp level (JString s) = [34] @ escape s @ [34]"
| "ToString fp level (JInteger w) = int_text w"
| "ToString fp level (JBoolean b) = (if b then str ''true'' else str ''false'')"
| "ToString fp level (JDouble d) = f_text fp d"
| "ToString fp level JNull = str ''null''"
| "ToString fp level (JObject m) =
     [123] @ line_break level @
     commas (line_break level) (map (\<lambda>kv. indent level @ [34] @ fst kv @ [34, 58] @ ToString fp (next_level level) (snd kv)) m) @
     line_break level @ indent level @ [125]"
| "ToString fp level (JArray xs) =
     [91] @ line_break level @
     commas (line_break level) (map (\<lambda>x. indent level @ ToString fp (next_level level) x) xs) @
     line_break level @ indent level @ [93]"
| "ToString fp level JInvalid = [91] @ line_break level @ line_break level @ indent level @ [93]"

subsection \<open>Reading values\<close>

definition first :: "byte list \<Rightarrow> byte" where "first s = (case s of [] \<Rightarrow> 0 | c # _ \<Rightarrow> c)"

definition isdigit :: "byte \<Rightarrow> bool" where "isdigit c \<longleftrightarrow> 48 \<le> c \<and> c \<le> 57"

definition isxdigit :: "byte \<Rightarrow> bool" where
  "isxdigit c \<longleftrightarrow> isdigit c \<or> 65 \<le> c \<and> c \<le> 70 \<or> 97 \<le> c \<and> c \<le> 102"

definition iscntrl :: "byte \<Rightarrow> bool" where "iscntrl c \<longleftrightarrow> c < 32 \<or> c = 127"

definition IsDelim :: "byte \<Rightarrow> bool" where
  "IsDelim c \<longleftrightarrow> isspace c \<or> c = 44 \<or> c = 58 \<or> c = 93 \<or> c = 125 \<or> c = 0"

definition CharToInt :: "byte \<Rightarrow> nat" where
  "CharToInt c = (if c \<ge> 97 then unat c - 97 + 10 else if c \<ge> 65 then unat c - 65 + 10 else unat c - 48)"

definition utf8 :: "nat \<Rightarrow> byte list" where
  "utf8 c =
     (if c < 0x80 then [of_nat c]
      else if c < 0x800 then [of_nat (0xC0 OR drop_bit 6 c), of_nat (0x80 OR (c AND 0x3F))]
      else [of_nat (0xE0 OR drop_bit 12 c), of_nat (0x80 OR (drop_bit 6 c AND 0x3F)), of_nat (0x80 OR (c AND 0x3F))])"

text \<open>The escape after a backslash: the characters it stands for and what follows, or a bad string.\<close>

definition lex_escape :: "byte list \<Rightarrow> (byte list \<times> byte list) option" where
  "lex_escape s =
     (case s of
        [] \<Rightarrow> None
      | e # s' \<Rightarrow>
          if e = 92 \<or> e = 34 \<or> e = 47 then Some ([e], s')
          else if e = 98 then Some ([8], s')
          else if e = 102 then Some ([12], s')
          else if e = 110 then Some ([10], s')
          else if e = 114 then Some ([13], s')
          else if e = 116 then Some ([9], s')
          else if e = 117
          then (case s' of
                  a # b # c # d # s'' \<Rightarrow>
                    if isxdigit a \<and> isxdigit b \<and> isxdigit c \<and> isxdigit d
                    then Some (utf8 (((CharToInt a * 16 + CharToInt b) * 16 + CharToInt c) * 16 + CharToInt d), s'')
                    else None
                | _ \<Rightarrow> None)
          else None)"

lemma lex_escape_length: "lex_escape s = Some (t, s') \<Longrightarrow> length s' < length s"
  by (cases s) (auto simp: lex_escape_def split: if_splits list.splits)

text \<open>The string after its opening quote: the text and what follows, or a bad string.\<close>

function lex_string :: "byte list \<Rightarrow> byte list \<Rightarrow> (byte list \<times> byte list) option" where
  "lex_string s temp =
     (case s of
        [] \<Rightarrow> Some (temp, [])
      | c # s \<Rightarrow>
          if c = 92 then (case lex_escape s of None \<Rightarrow> None | Some (t, s') \<Rightarrow> lex_string s' (temp @ t))
          else if iscntrl c then None
          else if c = 34 then Some (temp, s)
          else lex_string s (temp @ [c]))"
  by pat_completeness auto
termination
  by (relation "measure (\<lambda>(s, temp). length s)") (auto dest: lex_escape_length)

declare lex_string.simps [simp del]

definition digit :: "byte \<Rightarrow> int" where "digit c = uint c - 48"

fun int_digits :: "'d fpu \<Rightarrow> 'd \<Rightarrow> byte list \<Rightarrow> 'd \<times> byte list" where
  "int_digits fp result [] = (result, [])"
| "int_digits fp result (c # s) =
     (if isdigit c then int_digits fp (f_add fp (f_mul fp result (f_of fp 10)) (f_of fp (digit c))) s else (result, c # s))"

fun frac_digits :: "'d fpu \<Rightarrow> 'd \<Rightarrow> 'd \<Rightarrow> byte list \<Rightarrow> 'd \<times> byte list" where
  "frac_digits fp fraction result [] = (result, [])"
| "frac_digits fp fraction result (c # s) =
     (if isdigit c
      then let fraction = f_mul fp fraction (f_tenth fp)
           in frac_digits fp fraction (f_add fp result (f_mul fp (f_of fp (digit c)) fraction)) s
      else (result, c # s))"

text \<open>The exponent, an \<open>int\<close>; \<open>None\<close> once it overflows.\<close>

fun exp_digits :: "int \<Rightarrow> byte list \<Rightarrow> (int \<times> byte list) option" where
  "exp_digits exponent [] = Some (exponent, [])"
| "exp_digits exponent (c # s) =
     (if isdigit c
      then let exponent = exponent * 10 + digit c in if exponent \<ge> 2 ^ 31 then None else exp_digits exponent s
      else Some (exponent, c # s))"

function power_loop :: "'d fpu \<Rightarrow> int \<Rightarrow> 'd \<Rightarrow> 'd \<Rightarrow> 'd" where
  "power_loop fp exponent base pow =
     (if exponent > 0
      then power_loop fp (drop_bit 1 exponent) (f_mul fp base base) (if odd exponent then f_mul fp pow base else pow)
      else pow)"
  by pat_completeness auto
termination
  by (relation "measure (\<lambda>(fp, exponent, base, pow). nat exponent)") (auto simp: drop_bit_eq_div)

declare power_loop.simps [simp del]

definition StringToNumber :: "'d fpu \<Rightarrow> byte list \<Rightarrow> cpp_fault + ('d json \<times> byte list)" where
  "StringToNumber fp s =
     (let ch = first s;
          s = (if ch = 43 \<or> ch = 45 then tl s else s);
          (result, s) = int_digits fp (f_of fp 0) s;
          (dbl, result, s) =
            (if first s = 46 then let (r, s) = frac_digits fp (f_of fp 1) result (tl s) in (True, r, s) else (False, result, s));
          exped =
            (if first s = 101 \<or> first s = 69
             then let s = tl s;
                      (base, s) = (if first s = 43 then (f_of fp 10, tl s)
                                   else if first s = 45 then (f_tenth fp, tl s) else (f_of fp 10, s))
                  in map_option (\<lambda>(exponent, s). (True, f_mul fp result (power_loop fp exponent base (f_of fp 1)), s)) (exp_digits 0 s)
             else Some (dbl, result, s))
      in case exped of
           None \<Rightarrow> Inl Undefined
         | Some (dbl, result, s) \<Rightarrow>
             let result = (if ch = 45 then f_neg fp result else result)
             in Inr (if dbl then JDouble result else JInteger (f_int64 fp result), s))"


subsection \<open>The parser\<close>

datatype parse_status =
    JSON_PARSE_OK | JSON_PARSE_BAD_NUMBER | JSON_PARSE_BAD_STRING | JSON_PARSE_BAD_IDENTIFIER
  | JSON_PARSE_STACK_UNDERFLOW | JSON_PARSE_MISMATCH_BRACKET | JSON_PARSE_UNEXPECTED_CHARACTER
  | JSON_PARSE_UNQUOTED_KEY | JSON_PARSE_BREAKING_BAD | JSON_PARSE_ALLOC_ERROR

datatype json_tag = TAG_INVALID | TAG_ARRAY | TAG_OBJECT

text \<open>
  The locals of \<open>Parse\<close>. The three \<open>std::map\<close>s are read and written through
  \<open>operator[]\<close> only, which creates a default element; \<open>erase\<close> brings it back.
\<close>

record 'd parser =
  j_pos :: int
  j_tags :: "int \<Rightarrow> json_tag"
  j_keys :: "int \<Rightarrow> byte list"
  j_nodes :: "int \<Rightarrow> 'd json"
  j_separator :: bool

definition parser_start :: "'d parser" where
  "parser_start = \<lparr>j_pos = - 1, j_tags = (\<lambda>_. TAG_INVALID), j_keys = (\<lambda>_. []), j_nodes = (\<lambda>_. JInvalid), j_separator = True\<rparr>"

type_synonym 'd outcome = "cpp_fault + parse_status \<times> 'd json"

text \<open>
  The cases of the switch that read a value: the first character and what follows it.
  \<open>None\<close> for the other characters.
\<close>

definition lex_word :: "byte list \<Rightarrow> 'd json \<Rightarrow> byte list \<Rightarrow> parse_status + ('d json \<times> byte list)" where
  "lex_word word value s =
     (if take (length word) s = word \<and> IsDelim (first (drop (length word) s))
      then Inr (value, drop (length word) s) else Inl JSON_PARSE_BAD_IDENTIFIER)"

definition lex_value :: "'d fpu \<Rightarrow> byte \<Rightarrow> byte list \<Rightarrow> (cpp_fault + (parse_status + ('d json \<times> byte list))) option" where
  "lex_value fp c s =
     (if c = 45 \<and> \<not> isdigit (first s) \<and> first s \<noteq> 46 then Some (Inr (Inl JSON_PARSE_BAD_NUMBER))
      else if c = 45 \<or> isdigit c
      then Some (case StringToNumber fp (c # s) of
             Inl e \<Rightarrow> Inl e
           | Inr (v, s) \<Rightarrow> if \<not> IsDelim (first s) then Inr (Inl JSON_PARSE_BAD_NUMBER) else Inr (Inr (v, s)))
      else if c = 34
      then Some (case lex_string s [] of
             None \<Rightarrow> Inr (Inl JSON_PARSE_BAD_STRING)
           | Some (t, s) \<Rightarrow> if \<not> IsDelim (first s) then Inr (Inl JSON_PARSE_BAD_STRING) else Inr (Inr (JString t, s)))
      else if c = 116 then Some (Inr (lex_word (str ''rue'') (JBoolean True) s))
      else if c = 102 then Some (Inr (lex_word (str ''alse'') (JBoolean False) s))
      else if c = 110 then Some (Inr (lex_word (str ''ull'') JNull s))
      else None)"

text \<open>A value that was read: a key of an object, its value, or an element of an array.\<close>

definition store_value :: "'d json \<Rightarrow> 'd parser \<Rightarrow> parse_status + 'd parser" where
  "store_value v p =
     (let p = p\<lparr>j_separator := False\<rparr>; pos = j_pos p in
      if j_tags p pos = TAG_OBJECT
      then if j_keys p pos = []
           then (case v of
                   JString k \<Rightarrow> Inr (p\<lparr>j_keys := (j_keys p)(pos := k)\<rparr>)
                 | _ \<Rightarrow> Inl JSON_PARSE_UNQUOTED_KEY)
           else (case j_nodes p pos of
                   JObject m \<Rightarrow>
                     Inr (p\<lparr>j_nodes := (j_nodes p)(pos := obj_AddValue (j_keys p pos) v (j_nodes p pos)), j_keys := (j_keys p)(pos := [])\<rparr>)
                 | _ \<Rightarrow> Inl JSON_PARSE_ALLOC_ERROR)
      else (case j_nodes p pos of
              JArray xs \<Rightarrow> Inr (p\<lparr>j_nodes := (j_nodes p)(pos := arr_AddValue v (j_nodes p pos)), j_keys := (j_keys p)(pos := [])\<rparr>)
            | _ \<Rightarrow> Inl JSON_PARSE_ALLOC_ERROR))"

text \<open>The end of an inner array or object: it is added to the node that holds it.\<close>

definition close_node :: "'d parser \<Rightarrow> 'd parser" where
  "close_node p =
     (let pos = j_pos p; prev = pos - 1;
          nodes = (j_nodes p)(prev := (if j_tags p prev = TAG_OBJECT
                    then obj_AddValue (j_keys p prev) (j_nodes p pos) (j_nodes p prev)
                    else arr_AddValue (j_nodes p pos) (j_nodes p prev)))
      in p\<lparr>j_nodes := nodes(pos := JInvalid), j_pos := prev, j_keys := (j_keys p)(prev := []), j_separator := False\<rparr>)"

definition open_node :: "json_tag \<Rightarrow> 'd json \<Rightarrow> 'd parser \<Rightarrow> 'd parser" where
  "open_node tag node p =
     (let pos = j_pos p + 1 in
      p\<lparr>j_pos := pos, j_nodes := (j_nodes p)(pos := node), j_tags := (j_tags p)(pos := tag), j_keys := (j_keys p)(pos := []),
        j_separator := True\<rparr>)"

text \<open>
  The other cases: the status with which \<open>Parse\<close> returns, with the document when it
  is assigned, or the next state.
\<close>

definition structural :: "byte \<Rightarrow> 'd parser \<Rightarrow> (parse_status \<times> 'd json option) + 'd parser" where
  "structural c p =
     (let pos = j_pos p in
      if c = 93
      then if pos = - 1 then Inl (JSON_PARSE_STACK_UNDERFLOW, None)
           else if j_tags p pos \<noteq> TAG_ARRAY then Inl (JSON_PARSE_MISMATCH_BRACKET, None)
           else if pos > 0 then Inr (close_node p)
           else Inl (JSON_PARSE_OK, Some (j_nodes p 0))
      else if c = 125
      then if pos = - 1 then Inl (JSON_PARSE_STACK_UNDERFLOW, None)
           else if j_tags p pos \<noteq> TAG_OBJECT then Inl (JSON_PARSE_MISMATCH_BRACKET, None)
           else if j_keys p pos \<noteq> [] then Inl (JSON_PARSE_UNEXPECTED_CHARACTER, None)
           else if pos > 0 then Inr (close_node p)
           else Inl (JSON_PARSE_OK, Some (j_nodes p 0))
      else if c = 91 then Inr (open_node TAG_ARRAY (JArray []) p)
      else if c = 123 then Inr (open_node TAG_OBJECT (JObject []) p)
      else if c = 58
      then if j_separator p \<or> j_keys p pos = [] then Inl (JSON_PARSE_UNEXPECTED_CHARACTER, None)
           else Inr (p\<lparr>j_separator := True\<rparr>)
      else if c = 44
      then if j_separator p \<or> j_keys p pos \<noteq> [] then Inl (JSON_PARSE_UNEXPECTED_CHARACTER, None)
           else Inr (p\<lparr>j_separator := True\<rparr>)
      else Inl (JSON_PARSE_UNEXPECTED_CHARACTER, None))"

lemma int_digits_length: "int_digits fp r s = (r', s') \<Longrightarrow> length s' \<le> length s"
  by (induction fp r s rule: int_digits.induct) (auto split: if_splits)

lemma frac_digits_length: "frac_digits fp f r s = (r', s') \<Longrightarrow> length s' \<le> length s"
  by (induction fp f r s rule: frac_digits.induct) (auto simp: Let_def split: if_splits)

lemma exp_digits_length: "exp_digits e s = Some (e', s') \<Longrightarrow> length s' \<le> length s"
  by (induction e s rule: exp_digits.induct) (auto simp: Let_def split: if_splits)

lemma lex_string_length: "lex_string s t = Some (t', s') \<Longrightarrow> length s' \<le> length s"
proof (induction s t rule: lex_string.induct)
  case (1 s temp)
  show ?case
  proof (cases s)
    case (Cons c r)
    have ?thesis if "c = 92"
      using 1(1) [OF Cons that] 1(3) Cons that lex_escape_length [of r]
      by (subst (asm) (2) lex_string.simps) (fastforce split: option.splits)
    moreover have ?thesis if "c \<noteq> 92"
      using 1(2) [OF Cons that] 1(3) Cons that
      by (subst (asm) (2) lex_string.simps) (fastforce split: if_splits)
    ultimately show ?thesis by blast
  qed (use 1(3) in \<open>simp add: lex_string.simps [of "[]" temp]\<close>)
qed

text \<open>A number takes its first character at least.\<close>

lemma StringToNumber_length:
  assumes "StringToNumber fp (c # s) = Inr (v, s')" "c = 45 \<or> isdigit c"
  shows "length s' \<le> length s"
proof -
  define s1 where "s1 = (if first (c # s) = 43 \<or> first (c # s) = 45 then tl (c # s) else c # s)"
  obtain r2 s2 where s2: "int_digits fp (f_of fp 0) s1 = (r2, s2)" by force
  define x3 where "x3 = (if first s2 = 46 then let (r, s) = frac_digits fp (f_of fp 1) r2 (tl s2) in (True, r, s) else (False, r2, s2))"
  obtain d3 r3 s3 where s3: "x3 = (d3, r3, s3)" by (cases x3)
  have "length s2 \<le> length s"
    using s2 assms(2) int_digits_length [of fp _ s r2 s2] by (auto simp: s1_def first_def split: if_splits)
  then have le: "length s3 \<le> length s"
    using s3 frac_digits_length [of fp "f_of fp 1" r2 "tl s2"] by (fastforce simp: x3_def split: if_splits prod.splits)
  show ?thesis
    using assms(1) le exp_digits_length [of 0 "tl (tl s3)"] exp_digits_length [of 0 "tl s3"]
    unfolding StringToNumber_def Let_def s1_def [symmetric] s2 prod.case x3_def [unfolded Let_def, symmetric] s3
    by (force split: if_splits prod.splits option.splits)
qed

lemma lex_value_length:
  assumes "lex_value fp c s = Some (Inr (Inr (v, s')))"
  shows "length s' \<le> length s"
  using assms StringToNumber_length [of fp c s v s'] lex_string_length [of s "[]" _ s']
  by (fastforce simp: lex_value_def lex_word_def split: if_splits sum.splits option.splits prod.splits)

lemma after_spaces_length: "dropWhile P s = c # r \<Longrightarrow> length r < length s"
  using length_dropWhile_le [of P s] by simp

text \<open>
  The loop of \<open>Parse\<close> over the text up to its zero byte. When only white space is
  left, \<open>*endptr = s++\<close> steps past the zero byte and the loop goes on to read what lies
  behind the text: that is undefined.
\<close>

function Parse_loop :: "'d fpu \<Rightarrow> byte list \<Rightarrow> 'd parser \<Rightarrow> cpp_fault + (parse_status \<times> 'd json option)" where
  "Parse_loop fp s p =
     (if s = [] then Inr (JSON_PARSE_BREAKING_BAD, None)
      else case dropWhile isspace s of
             [] \<Rightarrow> Inl Undefined
           | c # s \<Rightarrow>
               (case lex_value fp c s of
                  Some (Inl e) \<Rightarrow> Inl e
                | Some (Inr (Inl status)) \<Rightarrow> Inr (status, None)
                | Some (Inr (Inr (v, s'))) \<Rightarrow>
                    (case store_value v p of Inl status \<Rightarrow> Inr (status, None) | Inr p' \<Rightarrow> Parse_loop fp s' p')
                | None \<Rightarrow> (case structural c p of Inl result \<Rightarrow> Inr result | Inr p' \<Rightarrow> Parse_loop fp s p')))"
  by pat_completeness auto

termination
  by (relation "measure (\<lambda>(fp, s, p). length s)") (auto dest!: after_spaces_length lex_value_length)

declare Parse_loop.simps [simp del]

definition Parse :: "'d fpu \<Rightarrow> byte list \<Rightarrow> cpp_fault + (parse_status \<times> 'd json option)" where
  "Parse fp s = Parse_loop fp s parser_start"

text \<open>\<open>strdup(data.c_str())\<close> keeps the text up to the first zero byte; the result is the returned flag and the new value of \<open>json\<close>.\<close>

definition ParseString :: "'d fpu \<Rightarrow> 'd json \<Rightarrow> byte list \<Rightarrow> cpp_fault + (bool \<times> 'd json)" where
  "ParseString fp json data =
     (case Parse fp (takeWhile (\<lambda>c. c \<noteq> 0) data) of
        Inl e \<Rightarrow> Inl e
      | Inr (status, result) \<Rightarrow>
          Inr (status = JSON_PARSE_OK, case result of None \<Rightarrow> json | Some v \<Rightarrow> v))"

text \<open>\<open>ParseFile\<close> on what the file holds: \<open>None\<close> when it cannot be opened.\<close>

definition ParseFile :: "'d fpu \<Rightarrow> 'd json \<Rightarrow> byte list option \<Rightarrow> cpp_fault + (bool \<times> 'd json)" where
  "ParseFile fp json contents =
     (case contents of None \<Rightarrow> Inr (False, json) | Some data \<Rightarrow> ParseString fp json data)"


subsection \<open>The parser as a stack machine\<close>

text \<open>
  The specification: a stack of open arrays and objects, an object with the key that
  waits for its value. The parser keeps the same stack in three maps indexed by the
  depth, where closed levels leave their tags behind.
\<close>

datatype 'd frame = Arr "'d json list" | Obj "(byte list \<times> 'd json) list" "byte list"

primrec f_tag :: "'d frame \<Rightarrow> json_tag" where
  "f_tag (Arr xs) = TAG_ARRAY" | "f_tag (Obj m k) = TAG_OBJECT"

primrec f_key :: "'d frame \<Rightarrow> byte list" where
  "f_key (Arr xs) = []" | "f_key (Obj m k) = k"

primrec f_node :: "'d frame \<Rightarrow> 'd json" where
  "f_node (Arr xs) = JArray xs" | "f_node (Obj m k) = JObject m"

primrec f_store :: "'d json \<Rightarrow> 'd frame \<Rightarrow> 'd frame" where
  "f_store v (Arr xs) = Arr (xs @ [v])" | "f_store v (Obj m k) = Obj (smap_set k v m) []"

definition s_value :: "'d json \<Rightarrow> 'd frame list \<Rightarrow> parse_status + 'd frame list" where
  "s_value v st =
     (case st of
        [] \<Rightarrow> Inl JSON_PARSE_ALLOC_ERROR
      | Obj m [] # st \<Rightarrow> (case v of JString k \<Rightarrow> Inr (Obj m k # st) | _ \<Rightarrow> Inl JSON_PARSE_UNQUOTED_KEY)
      | f # st \<Rightarrow> Inr (f_store v f # st))"

fun s_close :: "'d frame list \<Rightarrow> (parse_status \<times> 'd json option) + 'd frame list \<times> bool" where
  "s_close [] = Inl (JSON_PARSE_STACK_UNDERFLOW, None)"
| "s_close [f] = Inl (JSON_PARSE_OK, Some (f_node f))"
| "s_close (f # g # st) = Inr (f_store (f_node f) g # st, False)"

definition top_key :: "'d frame list \<Rightarrow> byte list" where
  "top_key st = (case st of [] \<Rightarrow> [] | f # _ \<Rightarrow> f_key f)"

definition s_step :: "byte \<Rightarrow> 'd frame list \<Rightarrow> bool \<Rightarrow> (parse_status \<times> 'd json option) + 'd frame list \<times> bool" where
  "s_step c st sep =
     (let unexpected = Inl (JSON_PARSE_UNEXPECTED_CHARACTER, None) in
      if c = 91 then Inr (Arr [] # st, True)
      else if c = 123 then Inr (Obj [] [] # st, True)
      else if c = 58 then if sep \<or> top_key st = [] then unexpected else Inr (st, True)
      else if c = 44 then if sep \<or> top_key st \<noteq> [] then unexpected else Inr (st, True)
      else if c = 93 \<or> c = 125
      then if st \<noteq> [] \<and> f_tag (hd st) \<noteq> (if c = 93 then TAG_ARRAY else TAG_OBJECT) then Inl (JSON_PARSE_MISMATCH_BRACKET, None)
           else if top_key st \<noteq> [] then unexpected else s_close st
      else unexpected)"

function s_parse :: "'d fpu \<Rightarrow> byte list \<Rightarrow> 'd frame list \<Rightarrow> bool \<Rightarrow> cpp_fault + (parse_status \<times> 'd json option)" where
  "s_parse fp s st sep =
     (if s = [] then Inr (JSON_PARSE_BREAKING_BAD, None)
      else case dropWhile isspace s of
             [] \<Rightarrow> Inl Undefined
           | c # s \<Rightarrow>
               (case lex_value fp c s of
                  Some (Inl e) \<Rightarrow> Inl e
                | Some (Inr (Inl status)) \<Rightarrow> Inr (status, None)
                | Some (Inr (Inr (v, s'))) \<Rightarrow>
                    (case s_value v st of Inl status \<Rightarrow> Inr (status, None) | Inr st' \<Rightarrow> s_parse fp s' st' False)
                | None \<Rightarrow> (case s_step c st sep of Inl result \<Rightarrow> Inr result | Inr (st', sep') \<Rightarrow> s_parse fp s st' sep')))"
  by pat_completeness auto
termination
  by (relation "measure (\<lambda>(fp, s, st, sep). length s)") (auto dest!: after_spaces_length lex_value_length)

declare s_parse.simps [simp del]

subsection \<open>The parser refines the machine\<close>

fun holds_frames :: "'d parser \<Rightarrow> 'd frame list \<Rightarrow> bool" where
  "holds_frames p [] \<longleftrightarrow> j_tags p (- 1) = TAG_INVALID \<and> j_keys p (- 1) = [] \<and> j_nodes p (- 1) = JInvalid"
| "holds_frames p (f # st) \<longleftrightarrow>
     j_tags p (int (length st)) = f_tag f \<and> j_keys p (int (length st)) = f_key f \<and> j_nodes p (int (length st)) = f_node f \<and>
     holds_frames p st"

definition stack_of :: "'d parser \<Rightarrow> 'd frame list \<Rightarrow> bool \<Rightarrow> bool" where
  "stack_of p st sep \<longleftrightarrow> j_pos p = int (length st) - 1 \<and> j_separator p = sep \<and> holds_frames p st"

lemma holds_frames_cong:
  assumes "\<And>i. i < int (length st) \<Longrightarrow> j_tags q i = j_tags p i \<and> j_keys q i = j_keys p i \<and> j_nodes q i = j_nodes p i"
  shows "holds_frames q st \<longleftrightarrow> holds_frames p st"
  using assms by (induction st) auto

lemma holds_frames_upd [simp]:
  "holds_frames (p\<lparr>j_separator := b\<rparr>) st \<longleftrightarrow> holds_frames p st"
  "holds_frames (p\<lparr>j_pos := i\<rparr>) st \<longleftrightarrow> holds_frames p st"
  "(\<And>i. i < int (length st) \<Longrightarrow> T i = j_tags p i) \<Longrightarrow> holds_frames (p\<lparr>j_tags := T\<rparr>) st \<longleftrightarrow> holds_frames p st"
  "(\<And>i. i < int (length st) \<Longrightarrow> K i = j_keys p i) \<Longrightarrow> holds_frames (p\<lparr>j_keys := K\<rparr>) st \<longleftrightarrow> holds_frames p st"
  "(\<And>i. i < int (length st) \<Longrightarrow> N i = j_nodes p i) \<Longrightarrow> holds_frames (p\<lparr>j_nodes := N\<rparr>) st \<longleftrightarrow> holds_frames p st"
  by (rule holds_frames_cong, simp)+

lemma stack_start: "stack_of parser_start [] True"
  by (simp add: stack_of_def parser_start_def)

lemma stack_store:
  assumes "stack_of p st sep"
  shows "rel_sum (=) (\<lambda>p' st'. stack_of p' st' False) (store_value v p) (s_value v st)"
proof (cases st)
  case Nil
  then show ?thesis
    using assms by (auto simp: stack_of_def store_value_def s_value_def Let_def)
next
  case (Cons f fs)
  show ?thesis
  proof (cases f)
    case (Arr xs)
    then show ?thesis
      using assms Cons by (simp add: stack_of_def store_value_def s_value_def arr_AddValue_def Let_def)
  next
    case (Obj m k)
    then show ?thesis
      using assms Cons
      by (cases k; cases v) (simp_all add: stack_of_def store_value_def s_value_def obj_AddValue_def Let_def)
  qed
qed

lemma stack_open:
  assumes "stack_of p st sep" "f_key f = []"
  shows "stack_of (open_node (f_tag f) (f_node f) p) (f # st) True"
  using assms by (simp add: stack_of_def open_node_def Let_def)

lemma stack_close:
  assumes "stack_of p (f # g # st) sep"
  shows "stack_of (close_node p) (f_store (f_node f) g # st) False"
  using assms by (cases g) (simp_all add: stack_of_def close_node_def obj_AddValue_def arr_AddValue_def Let_def)

lemma stack_separator: "stack_of p st sep \<Longrightarrow> stack_of (p\<lparr>j_separator := b\<rparr>) st b"
  by (simp add: stack_of_def)

lemma stack_top:
  "stack_of p st sep \<Longrightarrow> j_keys p (j_pos p) = top_key st \<and> j_separator p = sep"
  by (cases st) (auto simp: stack_of_def top_key_def)

lemma stack_tag: "stack_of p (f # st) sep \<Longrightarrow> j_tags p (j_pos p) = f_tag f \<and> j_pos p \<noteq> - 1"
  by (auto simp: stack_of_def)

lemma stack_end:
  assumes "stack_of p st sep"
  shows "rel_sum (=) (\<lambda>p' (st', sep'). stack_of p' st' sep')
     (if j_pos p = - 1 then Inl (JSON_PARSE_STACK_UNDERFLOW, None)
      else if j_pos p > 0 then Inr (close_node p) else Inl (JSON_PARSE_OK, Some (j_nodes p 0)))
     (s_close st)"
proof (cases st rule: s_close.cases)
  case (3 f g fs)
  then have "j_pos p > 0"
    using assms by (simp add: stack_of_def)
  then show ?thesis
    using stack_close [of p f g fs sep] assms 3 by simp
qed (use assms in \<open>simp_all add: stack_of_def\<close>)

lemma stack_structural:
  assumes "stack_of p st sep"
  shows "rel_sum (=) (\<lambda>p' (st', sep'). stack_of p' st' sep') (structural c p) (s_step c st sep)"
proof -
  note top = stack_top [OF assms] and sep = stack_separator [OF assms, of True]
  have end_case: ?thesis if "c = 93 \<or> c = 125"
  proof (cases st)
    case Nil
    then have "j_pos p = - 1"
      using assms by (simp add: stack_of_def)
    then show ?thesis
      using that Nil by (auto simp: structural_def s_step_def top_key_def Let_def)
  next
    case (Cons f fs)
    then have f: "j_tags p (j_pos p) = f_tag f" "j_pos p \<noteq> - 1" "j_keys p (j_pos p) = f_key f"
      using stack_tag [of p f fs sep] assms top by (simp_all add: top_key_def)
    show ?thesis
      using that stack_end [OF assms] Cons f
      by (cases f) (auto simp: structural_def s_step_def top_key_def Let_def)
  qed
  have "stack_of (open_node TAG_ARRAY (JArray []) p) (Arr [] # st) True"
    "stack_of (open_node TAG_OBJECT (JObject []) p) (Obj [] [] # st) True"
    using stack_open [OF assms, of "Arr []"] stack_open [OF assms, of "Obj [] []"] by simp_all
  then show ?thesis
    using end_case top sep by (cases "c = 93 \<or> c = 125") (auto simp: structural_def s_step_def Let_def)
qed

lemma Parse_loop_refines: "stack_of p st sep \<Longrightarrow> Parse_loop fp s p = s_parse fp s st sep"
proof (induction fp s p arbitrary: st sep rule: Parse_loop.induct)
  case (1 fp s p)
  show ?case
  proof (cases "dropWhile isspace s")
    case Nil
    then show ?thesis
      unfolding Parse_loop.simps [of fp s] s_parse.simps [of fp s] Nil by simp
  next
    case (Cons c r)
    then have s: "s \<noteq> []" by auto
    show ?thesis
    proof (cases "lex_value fp c r")
      case None
      show ?thesis
        using stack_structural [OF 1(3), of c]
        by (cases "structural c p"; cases "s_step c st sep")
           (auto simp: Parse_loop.simps [of fp s] s_parse.simps [of fp s] s Cons None intro: 1(1) [OF s Cons None])
    next
      case (Some x)
      have ?thesis if "x = Inr (Inr (v, s'))" for v s'
        using stack_store [OF 1(3), of v] Some that 1(2) [OF s Cons Some that refl refl]
        by (cases "store_value v p"; cases "s_value v st")
           (auto simp: Parse_loop.simps [of fp s] s_parse.simps [of fp s] s Cons)
      moreover have ?thesis if "\<And>v s'. x \<noteq> Inr (Inr (v, s'))"
        using that Some by (auto simp: Parse_loop.simps [of fp s] s_parse.simps [of fp s] s Cons split: sum.splits prod.splits)
      ultimately show ?thesis by blast
    qed
  qed
qed


subsection \<open>What the parser returns\<close>

text \<open>A value of a document: no invalid value, and the keys of every object in order, each once.\<close>

fun json_ok :: "'d json \<Rightarrow> bool" where
  "json_ok (JArray xs) \<longleftrightarrow> (\<forall>x \<in> set xs. json_ok x)"
| "json_ok (JObject m) \<longleftrightarrow> smap_ok m \<and> (\<forall>kv \<in> set m. json_ok (snd kv))"
| "json_ok JInvalid \<longleftrightarrow> False"
| "json_ok _ \<longleftrightarrow> True"

definition is_document :: "'d json \<Rightarrow> bool" where
  "is_document v \<longleftrightarrow> (case v of JArray _ \<Rightarrow> True | JObject _ \<Rightarrow> True | _ \<Rightarrow> False)"

definition stack_ok :: "'d frame list \<Rightarrow> bool" where
  "stack_ok st \<longleftrightarrow> (\<forall>f \<in> set st. json_ok (f_node f))"

lemma json_ok_smap_set:
  "smap_ok m \<Longrightarrow> \<forall>kv \<in> set m. json_ok (snd kv) \<Longrightarrow> json_ok v \<Longrightarrow> json_ok (JObject (smap_set k v m))"
proof -
  assume "smap_ok m" "\<forall>kv \<in> set m. json_ok (snd kv)" "json_ok v"
  moreover have "set (smap_set k v m) \<subseteq> insert (k, v) (set m)"
    by (induction k v m rule: smap_set.induct) auto
  ultimately show ?thesis
    by (auto simp: sm.wf_upd)
qed

lemma f_store_ok: "json_ok v \<Longrightarrow> json_ok (f_node f) \<Longrightarrow> json_ok (f_node (f_store v f))"
  using json_ok_smap_set by (cases f) auto

lemma f_node_document: "is_document (f_node f)"
  by (cases f) (simp_all add: is_document_def)

lemma lex_value_ok: "lex_value fp c s = Some (Inr (Inr (v, s'))) \<Longrightarrow> json_ok v"
  by (auto simp: lex_value_def lex_word_def StringToNumber_def Let_def
        split: if_splits sum.splits option.splits prod.splits)

lemma s_value_ok: "stack_ok st \<Longrightarrow> json_ok v \<Longrightarrow> s_value v st = Inr st' \<Longrightarrow> stack_ok st'"
  using f_store_ok [of v "hd st"]
  by (auto simp: stack_ok_def s_value_def split: list.splits frame.splits json.splits)

lemma s_close_ok:
  assumes "stack_ok st"
  shows "s_close st = Inr (st', sep') \<Longrightarrow> stack_ok st'"
    and "s_close st = Inl (status, r) \<Longrightarrow>
      (case r of None \<Rightarrow> status \<noteq> JSON_PARSE_OK | Some v \<Rightarrow> status = JSON_PARSE_OK \<and> json_ok v \<and> is_document v)"
  using assms by (cases st rule: s_close.cases; auto simp: stack_ok_def f_store_ok f_node_document)+

lemma s_step_ok:
  assumes "stack_ok st"
  shows "s_step c st sep = Inr (st', sep') \<Longrightarrow> stack_ok st'"
    and "s_step c st sep = Inl (status, r) \<Longrightarrow>
      (case r of None \<Rightarrow> status \<noteq> JSON_PARSE_OK | Some v \<Rightarrow> status = JSON_PARSE_OK \<and> json_ok v \<and> is_document v)"
  using assms s_close_ok [OF assms]
  by (auto simp: s_step_def Let_def stack_ok_def split: if_splits)

lemma lex_value_status: "lex_value fp c s = Some (Inr (Inl status)) \<Longrightarrow> status \<noteq> JSON_PARSE_OK"
  by (auto simp: lex_value_def lex_word_def split: if_splits sum.splits option.splits prod.splits)

lemma s_value_status: "s_value v st = Inl status \<Longrightarrow> status \<noteq> JSON_PARSE_OK"
  by (auto simp: s_value_def split: list.splits frame.splits json.splits)

lemma s_parse_ok:
  assumes "stack_ok st" "s_parse fp s st sep = Inr (status, r)"
  shows "case r of None \<Rightarrow> status \<noteq> JSON_PARSE_OK | Some v \<Rightarrow> status = JSON_PARSE_OK \<and> json_ok v \<and> is_document v"
  using assms
proof (induction fp s st sep rule: s_parse.induct)
  case (1 fp s st sep)
  show ?case
  proof (cases "dropWhile isspace s")
    case Nil
    then show ?thesis
      using 1(4) unfolding s_parse.simps [of fp s] Nil by (auto split: if_splits)
  next
    case (Cons c r')
    then have s: "s \<noteq> []" by auto
    note eq = 1(4) [unfolded s_parse.simps [of fp s], simplified s Cons, simplified]
    show ?thesis
    proof (cases "lex_value fp c r'")
      case None
      show ?thesis
      proof (cases "s_step c st sep")
        case (Inl a)
        then show ?thesis
          using eq s_step_ok(2) [OF 1(3), of c sep status r] None by simp
      next
        case (Inr b)
        then show ?thesis
          using eq s_step_ok(1) [OF 1(3), of c sep "fst b" "snd b"] 1(1) [OF s Cons None Inr, of "fst b" "snd b"] None
          by (cases b) simp
      qed
    next
      case (Some x)
      have ?thesis if x: "x = Inr (Inr (v, s'))" for v s'
      proof (cases "s_value v st")
        case (Inr st')
        then show ?thesis
          using eq Some x s_value_ok [OF 1(3) lex_value_ok Inr] 1(2) [OF s Cons Some x refl refl Inr] by simp
      qed (use eq Some x s_value_status in auto)
      moreover have ?thesis if "\<And>v s'. x \<noteq> Inr (Inr (v, s'))"
        using that Some eq lex_value_status by (fastforce split: sum.splits prod.splits)
      ultimately show ?thesis by blast
    qed
  qed
qed

lemma Parse_refines: "Parse fp s = s_parse fp s [] True"
  unfolding Parse_def by (rule Parse_loop_refines) (rule stack_start)

end
