(* ===== verification/Json.thy ===== *)
theory Json
  imports Json_Parser
begin

text \<open>
  What \<open>JsonValue::ToString\<close> prints and \<open>JsonReader::ParseString\<close> reads back, and the access by
  paths of keys in \<open>json/JsonValue.cpp\<close>.
\<close>


subsection \<open>Reading scalars back\<close>

text \<open>Strings that are printed as they are read: no quote, no control character.\<close>

definition verbatim :: "byte \<Rightarrow> bool" where "verbatim c \<longleftrightarrow> \<not> iscntrl c \<and> c \<noteq> 34"

text \<open>
  What is relied on of \<open>double\<close>: it computes with natural numbers up to \<open>2^53\<close> exactly,
  and the conversion to an integer gives them back.
\<close>

definition exact_integers :: "'d fpu \<Rightarrow> bool" where
  "exact_integers fp \<longleftrightarrow>
     (\<forall>a b. 0 \<le> a \<and> 0 \<le> b \<and> a \<le> 2 ^ 53 \<and> b \<le> 2 ^ 53 \<longrightarrow>
        (a * b \<le> 2 ^ 53 \<longrightarrow> f_mul fp (f_of fp a) (f_of fp b) = f_of fp (a * b)) \<and>
        (a + b \<le> 2 ^ 53 \<longrightarrow> f_add fp (f_of fp a) (f_of fp b) = f_of fp (a + b))) \<and>
     (\<forall>a. 0 \<le> a \<and> a \<le> 2 ^ 53 \<longrightarrow>
        f_int64 fp (f_of fp a) = word_of_int a \<and> f_int64 fp (f_neg fp (f_of fp a)) = word_of_int (- a))"

lemma lex_string_escape:
  "\<forall>c \<in> set s. verbatim c \<Longrightarrow> lex_string (escape s @ 34 # rest') t = Some (t @ s, rest')"
proof (induction s arbitrary: t)
  case Nil
  then show ?case
    by (subst lex_string.simps) (simp add: escape_def iscntrl_def)
next
  case (Cons c s)
  then have IH: "lex_string (escape s @ 34 # rest') (t @ [c]) = Some (t @ c # s, rest')"
    by simp
  show ?case
  proof (cases "c = 92")
    case True
    then show ?thesis
      using IH by (subst lex_string.simps) (simp add: escape_def lex_escape_def)
  next
    case False
    then show ?thesis
      using IH Cons.prems by (subst lex_string.simps) (simp add: escape_def verbatim_def)
  qed
qed

lemma escape_id: "92 \<notin> set s \<Longrightarrow> escape s = s"
  by (induction s) (auto simp: escape_def)

lemma dec_digits_ge: "n \<le> dec_digits n cs"
proof (induction n cs rule: dec_digits.induct)
  case (2 n c cs)
  then show ?case by (cases "48 \<le> c \<and> c \<le> 57") auto
qed simp

lemma exact_arith:
  assumes "exact_integers fp" "0 \<le> a" "0 \<le> b" "a \<le> 2 ^ 53" "b \<le> 2 ^ 53"
  shows "a * b \<le> 2 ^ 53 \<Longrightarrow> f_mul fp (f_of fp a) (f_of fp b) = f_of fp (a * b)"
    and "a + b \<le> 2 ^ 53 \<Longrightarrow> f_add fp (f_of fp a) (f_of fp b) = f_of fp (a + b)"
  using assms unfolding exact_integers_def by blast+

lemma exact_convert:
  assumes "exact_integers fp" "0 \<le> a" "a \<le> 2 ^ 53"
  shows "f_int64 fp (f_of fp a) = word_of_int a" "f_int64 fp (f_neg fp (f_of fp a)) = word_of_int (- a)"
  using assms unfolding exact_integers_def by blast+

lemma exact_digit:
  assumes "exact_integers fp" "0 \<le> a" "0 \<le> d" "a * 10 + d \<le> 2 ^ 53"
  shows "f_add fp (f_mul fp (f_of fp a) (f_of fp 10)) (f_of fp d) = f_of fp (a * 10 + d)"
proof -
  have "f_mul fp (f_of fp a) (f_of fp 10) = f_of fp (a * 10)"
    by (rule exact_arith [OF assms(1)]) (use assms in simp_all)
  moreover have "f_add fp (f_of fp (a * 10)) (f_of fp d) = f_of fp (a * 10 + d)"
    by (rule exact_arith [OF assms(1)]) (use assms in simp_all)
  ultimately show ?thesis by simp
qed

lemma int_digits_exact:
  assumes "exact_integers fp" "\<not> isdigit (first r)"
  shows "list_all isdigit ds \<Longrightarrow> dec_digits n ds \<le> 2 ^ 53 \<Longrightarrow>
    int_digits fp (f_of fp (int n)) (ds @ r) = (f_of fp (int (dec_digits n ds)), r)"
proof (induction ds arbitrary: n)
  case Nil
  then show ?case
    using assms(2) by (cases r) (simp_all add: first_def)
next
  case (Cons c ds)
  let ?m = "10 * n + (unat c - 48)"
  have c: "isdigit c" "48 \<le> unat c" "unat c \<le> 57"
    using Cons.prems by (simp_all add: isdigit_def word_le_nat_alt)
  have le: "?m \<le> 2 ^ 53"
    using Cons.prems c dec_digits_ge [of ?m ds] by (simp add: isdigit_def)
  have digit: "digit c = int (unat c - 48)"
    using c by (simp add: digit_def of_nat_diff)
  have "f_add fp (f_mul fp (f_of fp (int n)) (f_of fp 10)) (f_of fp (digit c)) = f_of fp (int n * 10 + digit c)"
    by (rule exact_digit [OF assms(1)]) (use le digit in simp_all)
  then show ?case
    using Cons.IH [of ?m] Cons.prems c by (simp add: isdigit_def digit mult.commute add_diff_eq)
qed

lemma delim_props:
  assumes "IsDelim (first r)"
  shows "\<not> isdigit (first r)" "first r \<noteq> 46" "first r \<noteq> 101" "first r \<noteq> 69"
  using assms by (auto simp: IsDelim_def isspace_def isdigit_def word_le_nat_alt)

lemma to_dec_isdigit: "list_all isdigit (to_dec n)" "to_dec n \<noteq> []"
  using to_dec_digits [of n] by (simp_all add: isdigit_def list_all_iff)

lemma int_digits_to_dec:
  assumes "exact_integers fp" "IsDelim (first r)" "n \<le> 2 ^ 53"
  shows "int_digits fp (f_of fp 0) (to_dec n @ r) = (f_of fp (int n), r)"
  using int_digits_exact [OF assms(1) delim_props(1) [OF assms(2)] to_dec_isdigit(1), of 0 n] assms(3)
  by (simp add: dec_digits_to_dec)

lemma StringToNumber_int_text:
  assumes "exact_integers fp" "IsDelim (first r)" "\<bar>sint w\<bar> \<le> 2 ^ 53"
  shows "StringToNumber fp (int_text w @ r) = Inr (JInteger w, r)"
proof (cases "sint w < 0")
  case True
  then have "int_digits fp (f_of fp 0) (to_dec (nat (- sint w)) @ r) = (f_of fp (- sint w), r)"
    using int_digits_to_dec [OF assms(1,2), of "nat (- sint w)"] assms(3) by simp
  then show ?thesis
    using True delim_props [OF assms(2)] exact_convert(2) [OF assms(1), of "- sint w"] assms(3)
    by (simp add: StringToNumber_def int_text_def first_def)
next
  case False
  obtain c cs where c: "to_dec (nat (sint w)) = c # cs" "isdigit c"
    using to_dec_isdigit [of "nat (sint w)"] by (cases "to_dec (nat (sint w))") auto
  have sign: "c \<noteq> 43" "c \<noteq> 45"
    using c(2) by (auto simp: isdigit_def word_le_nat_alt)
  have "int_digits fp (f_of fp 0) (to_dec (nat (sint w)) @ r) = (f_of fp (sint w), r)"
    using int_digits_to_dec [OF assms(1,2), of "nat (sint w)"] assms(3) False by simp
  then show ?thesis
    using False delim_props [OF assms(2)] exact_convert(1) [OF assms(1), of "sint w"] assms(3) sign c(1)
    by (simp add: StringToNumber_def int_text_def first_def del: int_digits.simps)
qed


subsection \<open>Reading documents back\<close>

fun printable :: "'d json \<Rightarrow> bool" where
  "printable (JString s) \<longleftrightarrow> (\<forall>c \<in> set s. verbatim c)"
| "printable (JInteger w) \<longleftrightarrow> \<bar>sint w\<bar> \<le> 2 ^ 53"
| "printable (JBoolean b) \<longleftrightarrow> True"
| "printable JNull \<longleftrightarrow> True"
| "printable (JArray xs) \<longleftrightarrow> (\<forall>x \<in> set xs. printable x)"
| "printable (JObject m) \<longleftrightarrow>
     smap_ok m \<and> (\<forall>kv \<in> set m. fst kv \<noteq> [] \<and> (\<forall>c \<in> set (fst kv). verbatim c \<and> c \<noteq> 92) \<and> printable (snd kv))"
| "printable (JDouble d) \<longleftrightarrow> False"
| "printable JInvalid \<longleftrightarrow> False"

fun scalar :: "'d json \<Rightarrow> bool" where
  "scalar (JArray xs) \<longleftrightarrow> False" | "scalar (JObject m) \<longleftrightarrow> False" | "scalar _ \<longleftrightarrow> True"

lemma s_parse_skip: "\<forall>c \<in> set ws. isspace c \<Longrightarrow> s \<noteq> [] \<Longrightarrow> s_parse fp (ws @ s) st sep = s_parse fp s st sep"
proof -
  assume ws: "\<forall>c \<in> set ws. isspace c" and s: "s \<noteq> []"
  have "dropWhile isspace (ws @ s) = dropWhile isspace s"
    using ws by (simp add: dropWhile_append2)
  then show ?thesis
    unfolding s_parse.simps [of fp "ws @ s"] s_parse.simps [of fp s] using s by simp
qed

lemma s_parse_value:
  assumes "lex_value fp c s = Some (Inr (Inr (v, s')))" "\<not> isspace c" "s_value v st = Inr st'"
  shows "s_parse fp (c # s) st sep = s_parse fp s' st' False"
  using assms by (subst s_parse.simps) simp

lemma s_parse_step:
  assumes "c \<in> {91, 93, 123, 125, 58, 44}"
  shows "s_parse fp (c # s) st sep =
    (case s_step c st sep of Inl result \<Rightarrow> Inr result | Inr (st', sep') \<Rightarrow> s_parse fp s st' sep')"
proof -
  have "lex_value fp c s = None" "\<not> isspace c"
    using assms by (auto simp: lex_value_def isdigit_def isspace_def)
  then show ?thesis
    by (subst s_parse.simps) simp
qed

lemma lex_number:
  assumes "exact_integers fp" "IsDelim (first r)" "\<bar>sint w\<bar> \<le> 2 ^ 53"
  obtains c t where "int_text w = c # t" "\<not> isspace c" "lex_value fp c (t @ r) = Some (Inr (Inr (JInteger w, r)))"
proof -
  obtain d ds where d: "to_dec (nat \<bar>sint w\<bar>) = d # ds" "isdigit d"
    using to_dec_isdigit [of "nat \<bar>sint w\<bar>"] by (cases "to_dec (nat \<bar>sint w\<bar>)") auto
  obtain c t where c: "int_text w = c # t"
    using d by (cases "int_text w") (auto simp: int_text_def split: if_splits)
  have "c = 45 \<and> t = d # ds \<or> c = d \<and> t = ds"
    using c d by (auto simp: int_text_def split: if_splits)
  then have "c = 45 \<or> isdigit c" "\<not> (c = 45 \<and> \<not> isdigit (first (t @ r)) \<and> first (t @ r) \<noteq> 46)"
    using d(2) by (auto simp: first_def isdigit_def)
  moreover have "\<not> isspace c"
    using calculation(1) by (auto simp: isdigit_def isspace_def word_le_nat_alt)
  ultimately show thesis
    using that [OF c] StringToNumber_int_text [OF assms] assms(2) c by (simp add: lex_value_def)
qed

lemma lex_scalar:
  assumes "exact_integers fp" "IsDelim (first r)" "printable v" "scalar v"
  obtains c t where "ToString fp l v = c # t" "\<not> isspace c" "lex_value fp c (t @ r) = Some (Inr (Inr (v, r)))"
proof (cases v)
  case (JInteger w)
  then show thesis
    using lex_number [OF assms(1,2), of w] that assms(3) by auto
next
  case (JString s)
  then show thesis
    using that [of 34 "escape s @ [34]"] lex_string_escape [of s r "[]"] assms(2,3)
    by (simp add: lex_value_def isdigit_def isspace_def)
next
  case (JBoolean b)
  then show thesis
    using that [of "if b then 116 else 102" "if b then str ''rue'' else str ''alse''"] assms(2)
    by (simp add: lex_value_def lex_word_def isdigit_def isspace_def str_def)
next
  case JNull
  then show thesis
    using that [of 110 "str ''ull''"] assms(2)
    by (simp add: lex_value_def lex_word_def isdigit_def isspace_def str_def)
qed (use assms in simp_all)

text \<open>A frame that takes a value: an array, or an object whose key was read.\<close>

definition ready :: "'d frame \<Rightarrow> bool" where
  "ready f \<longleftrightarrow> (case f of Arr _ \<Rightarrow> True | Obj _ k \<Rightarrow> k \<noteq> [])"

lemma s_value_ready: "ready f \<Longrightarrow> s_value v (f # st) = Inr (f_store v f # st)"
  by (auto simp: ready_def s_value_def split: frame.splits list.splits)

definition reads_back :: "'d fpu \<Rightarrow> byte list \<Rightarrow> 'd json \<Rightarrow> bool" where
  "reads_back fp t v \<longleftrightarrow> t \<noteq> [] \<and>
     (\<forall>f st sep r. ready f \<longrightarrow> IsDelim (first r) \<longrightarrow>
        s_parse fp (t @ r) (f # st) sep = s_parse fp r (f_store v f # st) False)"

lemma reads_back_scalar:
  assumes "exact_integers fp" "printable v" "scalar v"
  shows "reads_back fp (ToString fp l v) v"
proof -
  have "s_parse fp (ToString fp l v @ r) (f # st) sep = s_parse fp r (f_store v f # st) False \<and> ToString fp l v \<noteq> []"
    if "ready f" "IsDelim (first r)" for f st sep r
    using lex_scalar [OF assms(1) that(2) assms(2,3), of l] s_parse_value [OF _ _ s_value_ready [OF that(1)]]
    by (metis append_Cons list.distinct(1))
  moreover have "ready (Arr [])" "IsDelim (first [])"
    by (simp_all add: ready_def IsDelim_def first_def)
  ultimately show ?thesis
    unfolding reads_back_def by blast
qed

text \<open>Members separated by commas: each brings the top frame from one value to the next.\<close>

lemma commas_parse:
  assumes member: "\<And>x f sep r. x \<in> set xs \<Longrightarrow> ok f \<Longrightarrow> IsDelim (first r) \<Longrightarrow>
      s_parse fp (U x @ r) (f # st) sep = s_parse fp r (add x f # st) False \<and> U x \<noteq> []"
    and ok: "\<And>x f. ok f \<Longrightarrow> ok (add x f) \<and> f_key f = []"
    and ws: "\<forall>c \<in> set nl. isspace c"
    and tail: "IsDelim (first tail)"
  shows "ok f \<Longrightarrow> s_parse fp (commas nl (map U xs) @ tail) (f # st) sep =
    s_parse fp tail (fold add xs f # st) (xs = [] \<and> sep)"
  using member
proof (induction xs arbitrary: f sep rule: induct_list012)
  case (2 x)
  then show ?case
    using tail by simp
next
  case (3 x y xs)
  let ?r = "commas nl (map U (y # xs)) @ tail"
  have ne: "?r \<noteq> []"
    using 3(4) [of y f "[]"] 3(3) by (cases xs) (auto simp: IsDelim_def first_def)
  have "s_parse fp (commas nl (map U (x # y # xs)) @ tail) (f # st) sep = s_parse fp (44 # nl @ ?r) (add x f # st) False"
    using 3(4) [of x f "44 # nl @ ?r" sep] 3(3) by (simp add: IsDelim_def first_def)
  also have "\<dots> = s_parse fp (nl @ ?r) (add x f # st) True"
    using ok [of "add x f"] ok [of f x] 3(3) by (simp add: s_parse_step s_step_def top_key_def)
  also have "\<dots> = s_parse fp ?r (add x f # st) True"
    by (rule s_parse_skip [OF ws ne])
  also have "\<dots> = s_parse fp tail (fold add (y # xs) (add x f) # st) False"
    using 3(2) [of "add x f" True] 3(4) ok [of f x] 3(3) by simp
  finally show ?case by simp
qed simp


lemma isspace_layout:
  "\<forall>c \<in> set (line_break l). isspace c" "\<forall>c \<in> set (indent l). isspace c" "\<forall>c \<in> set (line_break l @ indent l). isspace c"
  by (auto simp: line_break_def indent_def CreateIndent_def isspace_def)

definition closed :: "'d fpu \<Rightarrow> byte list \<Rightarrow> 'd frame list \<Rightarrow> cpp_fault + (parse_status \<times> 'd json option)" where
  "closed fp r st = (case s_close st of Inl result \<Rightarrow> Inr result | Inr (st', sep') \<Rightarrow> s_parse fp r st' sep')"

lemma s_parse_end:
  assumes "f_key f = []"
  shows "s_parse fp (line_break l @ indent l @ (if f_tag f = TAG_ARRAY then 93 else 125) # r) (f # st) sep = closed fp r (f # st)"
proof -
  have "s_parse fp ((line_break l @ indent l) @ (if f_tag f = TAG_ARRAY then 93 else 125) # r) (f # st) sep =
    s_parse fp ((if f_tag f = TAG_ARRAY then 93 else 125) # r) (f # st) sep"
    by (rule s_parse_skip [OF isspace_layout(3)]) simp
  also have "\<dots> = closed fp r (f # st)"
    using assms by (cases f) (simp_all add: s_parse_step s_step_def top_key_def closed_def)
  finally show ?thesis by simp
qed

lemma delim_layout: "c = 93 \<or> c = 125 \<Longrightarrow> IsDelim (first (line_break l @ indent l @ c # r))"
  by (cases "nat (4 * (l + 1))")
     (auto simp: line_break_def indent_def CreateIndent_def IsDelim_def first_def isspace_def split: list.splits)

lemma reads_back_indent: "reads_back fp t v \<Longrightarrow> reads_back fp (indent l @ t) v"
  unfolding reads_back_def by (simp add: s_parse_skip [OF isspace_layout(2)])

lemma fold_store_Arr: "fold f_store xs (Arr ys) = Arr (ys @ xs)"
  by (induction xs arbitrary: ys) auto

lemma array_parse:
  fixes fp :: "'d fpu"
  assumes "\<And>x. x \<in> set xs \<Longrightarrow> reads_back fp (ToString fp (next_level l) x) x"
  shows "s_parse fp (ToString fp l (JArray xs) @ r) st sep = closed fp r (Arr xs # st)"
proof -
  let ?tail = "line_break l @ indent l @ 93 # r"
  let ?U = "\<lambda>x. indent l @ ToString fp (next_level l) x"
  have body: "s_parse fp (commas (line_break l) (map ?U xs) @ ?tail) (Arr [] # st) True =
    s_parse fp ?tail (fold f_store xs (Arr []) # st) (xs = [] \<and> True)"
  proof (rule commas_parse [where ok = "\<lambda>f. \<exists>ys. f = Arr ys"])
    fix x and f :: "'d frame" and sep and r :: "byte list"
    assume "x \<in> set xs" "\<exists>ys. f = Arr ys" "IsDelim (first r)"
    then show "s_parse fp (?U x @ r) (f # st) sep = s_parse fp r (f_store x f # st) False \<and> ?U x \<noteq> []"
      using reads_back_indent [OF assms, of x l] unfolding reads_back_def ready_def by auto
  qed (auto simp: isspace_layout delim_layout)
  have "s_parse fp (ToString fp l (JArray xs) @ r) st sep =
    s_parse fp (line_break l @ commas (line_break l) (map ?U xs) @ ?tail) (Arr [] # st) True"
    by (simp add: s_parse_step s_step_def)
  also have "\<dots> = s_parse fp (commas (line_break l) (map ?U xs) @ ?tail) (Arr [] # st) True"
    by (rule s_parse_skip [OF isspace_layout(1)]) simp
  also have "\<dots> = closed fp r (Arr xs # st)"
    using body s_parse_end [of "Arr xs" fp l r st] by (simp add: fold_store_Arr)
  finally show ?thesis .
qed

text \<open>The members of an object are stored in the order of their keys: the map grows at its end.\<close>

definition f_member :: "byte list \<times> 'd json \<Rightarrow> 'd frame \<Rightarrow> 'd frame" where
  "f_member kv f = (case f of Arr xs \<Rightarrow> Arr xs | Obj m k \<Rightarrow> Obj (smap_set (fst kv) (snd kv) m) [])"

lemma smap_set_last: "\<forall>k' \<in> fst ` set m. k' < k \<Longrightarrow> smap_set k v m = m @ [(k, v)]"
  by (induction k v m rule: smap_set.induct) auto

lemma fold_member_Obj: "smap_ok (n @ m) \<Longrightarrow> fold f_member m (Obj n []) = Obj (n @ m) []"
proof (induction m arbitrary: n)
  case (Cons kv m)
  have "\<forall>k' \<in> fst ` set n. k' < fst kv"
    using Cons.prems by (auto simp: smap_ok_def sorted_wrt_append)
  then show ?case
    using Cons.IH [of "n @ [kv]"] Cons.prems by (simp add: f_member_def smap_set_last)
qed simp

lemma member_parse:
  assumes "reads_back fp t v" "k \<noteq> []" "\<forall>c \<in> set k. verbatim c \<and> c \<noteq> 92" "IsDelim (first r)"
  shows "s_parse fp (indent l @ [34] @ k @ [34, 58] @ t @ r) (Obj m [] # st) sep =
    s_parse fp r (Obj (smap_set k v m) [] # st) False"
proof -
  have k: "lex_string (k @ 34 # 58 # t @ r) [] = Some (k, 58 # t @ r)"
    using lex_string_escape [of k "58 # t @ r" "[]"] assms(3) escape_id [of k] by auto
  have "s_parse fp (indent l @ [34] @ k @ [34, 58] @ t @ r) (Obj m [] # st) sep =
    s_parse fp (34 # k @ 34 # 58 # t @ r) (Obj m [] # st) sep"
    using s_parse_skip [OF isspace_layout(2) [of l], of "34 # k @ 34 # 58 # t @ r"] by simp
  also have "\<dots> = s_parse fp (58 # t @ r) (Obj m k # st) False"
    using k by (intro s_parse_value [where v = "JString k"])
      (simp_all add: lex_value_def isdigit_def isspace_def IsDelim_def first_def s_value_def)
  also have "\<dots> = s_parse fp (t @ r) (Obj m k # st) True"
    using assms(2) by (simp add: s_parse_step s_step_def top_key_def)
  also have "\<dots> = s_parse fp r (Obj (smap_set k v m) [] # st) False"
    using assms(1,2,4) by (simp add: reads_back_def ready_def)
  finally show ?thesis .
qed

lemma object_parse:
  fixes fp :: "'d fpu"
  assumes "\<And>kv. kv \<in> set m \<Longrightarrow> reads_back fp (ToString fp (next_level l) (snd kv)) (snd kv)" "printable (JObject m)"
  shows "s_parse fp (ToString fp l (JObject m) @ r) st sep = closed fp r (Obj m [] # st)"
proof -
  let ?tail = "line_break l @ indent l @ 125 # r"
  let ?U = "\<lambda>kv. indent l @ [34] @ fst kv @ [34, 58] @ ToString fp (next_level l) (snd kv)"
  have body: "s_parse fp (commas (line_break l) (map ?U m) @ ?tail) (Obj [] [] # st) True =
    s_parse fp ?tail (fold f_member m (Obj [] []) # st) (m = [] \<and> True)"
  proof (rule commas_parse [where ok = "\<lambda>f. \<exists>n. f = Obj n []"])
    fix kv and f :: "'d frame" and sep and r :: "byte list"
    assume kv: "kv \<in> set m" "\<exists>n. f = Obj n []" "IsDelim (first r)"
    then show "s_parse fp (?U kv @ r) (f # st) sep = s_parse fp r (f_member kv f # st) False \<and> ?U kv \<noteq> []"
      using member_parse [OF assms(1) [OF kv(1)], of "fst kv" r l] assms(2) by (auto simp: f_member_def)
  qed (auto simp: isspace_layout delim_layout f_member_def)
  have "s_parse fp (ToString fp l (JObject m) @ r) st sep =
    s_parse fp (line_break l @ commas (line_break l) (map ?U m) @ ?tail) (Obj [] [] # st) True"
    by (simp add: s_parse_step s_step_def)
  also have "\<dots> = s_parse fp (commas (line_break l) (map ?U m) @ ?tail) (Obj [] [] # st) True"
    by (rule s_parse_skip [OF isspace_layout(1)]) simp
  also have "\<dots> = closed fp r (Obj m [] # st)"
    using body s_parse_end [of "Obj m []" fp l r st] assms(2) fold_member_Obj [of "[]" m] by simp
  finally show ?thesis .
qed

lemma reads_back_closed:
  assumes "t \<noteq> []" "\<And>r st sep. s_parse fp (t @ r) st sep = closed fp r (f # st)"
  shows "reads_back fp t (f_node f)"
  using assms by (simp add: reads_back_def closed_def)

lemma reads_back_ToString:
  "exact_integers fp \<Longrightarrow> printable v \<Longrightarrow> reads_back fp (ToString fp l v) v"
proof (induction fp l v rule: ToString.induct)
  case (6 fp l m)
  then show ?case
    using reads_back_closed [of "ToString fp l (JObject m)" fp "Obj m []"] object_parse [of m fp l] by fastforce
next
  case (7 fp l xs)
  then show ?case
    using reads_back_closed [of "ToString fp l (JArray xs)" fp "Arr xs"] array_parse [of xs fp l] by fastforce
qed (simp_all add: reads_back_scalar del: ToString.simps)


lemma verbatim_zero: "\<not> verbatim 0"
  by (simp add: verbatim_def iscntrl_def)

lemma commas_nonzero: "0 \<notin> set nl \<Longrightarrow> \<forall>t \<in> set ts. 0 \<notin> set t \<Longrightarrow> 0 \<notin> set (commas nl ts)"
  by (induction nl ts rule: commas.induct) auto

lemma layout_nonzero: "0 \<notin> set (line_break l)" "0 \<notin> set (indent l)"
  by (simp_all add: line_break_def indent_def CreateIndent_def)

lemma int_text_nonzero: "0 \<notin> set (int_text w)"
proof -
  have "0 \<notin> set (to_dec n)" for n
    using to_dec_isdigit(1) [of n] by (auto simp: list_all_iff isdigit_def)
  then show ?thesis
    by (simp add: int_text_def)
qed

lemma ToString_nonzero: "printable v \<Longrightarrow> 0 \<notin> set (ToString fp l v)"
proof (induction fp l v rule: ToString.induct)
  case (1 fp level s)
  then show ?case
    using verbatim_zero by (auto simp: escape_def)
next
  case (6 fp level m)
  then have "0 \<notin> set (fst kv)" "0 \<notin> set (ToString fp (next_level level) (snd kv))" if "kv \<in> set m" for kv
    using that verbatim_zero by (auto simp del: ToString.simps)
  then show ?case
    using layout_nonzero by (simp add: commas_nonzero)
next
  case (7 fp level xs)
  then show ?case
    using layout_nonzero by (simp add: commas_nonzero)
qed (simp_all add: int_text_nonzero str_def)

subsection \<open>Paths\<close>

text \<open>The keys of a path. \<open>Split\<close> with a colon always returns.\<close>

definition keys_of :: "byte list \<Rightarrow> byte list list" where
  "keys_of path = (case Split path [58] of Some (Inr ks) \<Rightarrow> ks | _ \<Rightarrow> [])"

text \<open>The first object of an array that has the key.\<close>

fun find_in_array :: "byte list \<Rightarrow> 'd json list \<Rightarrow> 'd json option" where
  "find_in_array k [] = None"
| "find_in_array k (x # xs) =
     (case x of
        JObject m \<Rightarrow> (case map_of m k of Some v \<Rightarrow> Some v | None \<Rightarrow> find_in_array k xs)
      | _ \<Rightarrow> find_in_array k xs)"

text \<open>
  The loop of \<open>FindValue\<close>. A key of the path has no colon, so that \<open>HasValue\<close> and
  \<open>GetValue\<close> of an object look it up directly.
\<close>

fun find_loop :: "byte list list \<Rightarrow> bool \<Rightarrow> 'd json \<Rightarrow> 'd json" where
  "find_loop [] found temp = (if found then temp else JInvalid)"
| "find_loop (k # ks) found temp =
     (case temp of
        JObject m \<Rightarrow> (case map_of m k of Some v \<Rightarrow> find_loop ks True v | None \<Rightarrow> find_loop ks found temp)
      | JArray xs \<Rightarrow> (case find_in_array k xs of Some v \<Rightarrow> find_loop ks True v | None \<Rightarrow> find_loop ks found temp)
      | _ \<Rightarrow> if found then temp else JInvalid)"

definition FindValue :: "byte list \<Rightarrow> 'd json \<Rightarrow> 'd json" where
  "FindValue keyPath v = find_loop (keys_of keyPath) False v"

definition HasValue :: "byte list \<Rightarrow> 'd json \<Rightarrow> bool" where
  "HasValue keyPath v = IsValid_json (FindValue keyPath v)"

definition obj_HasValue :: "byte list \<Rightarrow> (byte list \<times> 'd json) list \<Rightarrow> bool" where
  "obj_HasValue keyPath m =
     (let keys = keys_of keyPath; name = hd keys; keys = tl keys in
      case map_of m name of
        None \<Rightarrow> False
      | Some x \<Rightarrow> if keys = [] then True else HasValue (Join keys [58]) x)"

definition obj_GetValue :: "byte list \<Rightarrow> (byte list \<times> 'd json) list \<Rightarrow> 'd json" where
  "obj_GetValue keyPath m =
     (let keys = keys_of keyPath; name = hd keys; keys = tl keys in
      case map_of m name of
        None \<Rightarrow> JInvalid
      | Some x \<Rightarrow> if keys = [] then x else FindValue (Join keys [58]) x)"

text \<open>The typed getters: the returned flag and the argument, which keeps its value when the flag is false.\<close>

definition GetValue_string :: "byte list \<Rightarrow> byte list \<Rightarrow> 'd json \<Rightarrow> bool \<times> byte list" where
  "GetValue_string nodePath value v = (case FindValue nodePath v of JString s \<Rightarrow> (True, s) | _ \<Rightarrow> (False, value))"

definition GetInteger :: "64 word \<Rightarrow> 32 word" where "GetInteger w = ucast w"

definition GetValue_u32 :: "byte list \<Rightarrow> u32 \<Rightarrow> 'd json \<Rightarrow> bool \<times> u32" where
  "GetValue_u32 nodePath value v = (case FindValue nodePath v of JInteger w \<Rightarrow> (True, GetInteger w) | _ \<Rightarrow> (False, value))"

definition GetValue_u16 :: "byte list \<Rightarrow> 16 word \<Rightarrow> 'd json \<Rightarrow> bool \<times> 16 word" where
  "GetValue_u16 nodePath value v = (case FindValue nodePath v of JInteger w \<Rightarrow> (True, ucast (GetInteger w)) | _ \<Rightarrow> (False, value))"

definition GetValue_i32 :: "byte list \<Rightarrow> 32 word \<Rightarrow> 'd json \<Rightarrow> bool \<times> 32 word" where
  "GetValue_i32 nodePath value v = (case FindValue nodePath v of JInteger w \<Rightarrow> (True, GetInteger w) | _ \<Rightarrow> (False, value))"

definition GetValue_bool :: "byte list \<Rightarrow> bool \<Rightarrow> 'd json \<Rightarrow> bool \<times> bool" where
  "GetValue_bool nodePath value v = (case FindValue nodePath v of JBoolean b \<Rightarrow> (True, b) | _ \<Rightarrow> (False, value))"

definition GetValue_double :: "byte list \<Rightarrow> 'd \<Rightarrow> 'd json \<Rightarrow> bool \<times> 'd" where
  "GetValue_double nodePath value v = (case FindValue nodePath v of JDouble d \<Rightarrow> (True, d) | _ \<Rightarrow> (False, value))"

lemma size_member: "map_of m k = Some x \<Longrightarrow> size x < size (JObject m)"
  using size_list_estimation' [of "(k, x)" m "size x" "size_prod (\<lambda>_. 0) size"] by (auto dest!: map_of_SomeD)

lemma size_entry: "i < length xs mod 2 ^ 32 \<Longrightarrow> size (xs ! i) < size (JArray xs)"
proof -
  assume "i < length xs mod 2 ^ 32"
  then have "i < length xs"
    using mod_less_eq_dividend [of "length xs" "2 ^ 32"] by linarith
  then show ?thesis
    using size_list_estimation' [of "xs ! i" xs "size (xs ! i)" size] by simp
qed

text \<open>
  \<open>ReplaceValue\<close> of a value, an object and an array: the returned flag and the value after
  the call. The element of a \<open>std::map\<close> that has the key is assigned.
\<close>

function ReplaceValue :: "byte list \<Rightarrow> 'd json \<Rightarrow> 'd json \<Rightarrow> bool \<times> 'd json" where
  "ReplaceValue keyPath value node =
     (let keys = keys_of keyPath; name = hd keys; keys = tl keys in
      case node of
        JObject m \<Rightarrow>
          (case map_of m name of
             None \<Rightarrow> (False, node)
           | Some x \<Rightarrow>
               if keys = [] then (True, JObject (smap_set name value m))
               else let (ret, x') = ReplaceValue (Join keys [58]) value x in (ret, JObject (smap_set name x' m)))
      | JArray xs \<Rightarrow>
          (let index = unat (FromString_u32 0 name) in
           if index < length xs mod 2 ^ 32
           then if keys = [] then (True, JArray (xs[index := value]))
                else let (ret, x') = ReplaceValue (Join keys [58]) value (xs ! index) in (ret, JArray (xs[index := x']))
           else (False, node))
      | _ \<Rightarrow> (False, node))"
  by pat_completeness auto

termination
  by (relation "measure (\<lambda>(p, v, x). size x)") (simp_all add: size_member size_entry del: json.size)

declare ReplaceValue.simps [simp del]


subsection \<open>Laws of the paths\<close>

lemma keys_of_eq: "keys_of path = split_spec [58] path"
  by (simp add: keys_of_def Split_eq)

lemma keys_of_Join: "ks \<noteq> [] \<Longrightarrow> \<forall>k \<in> set ks. 58 \<notin> set k \<Longrightarrow> keys_of (Join ks [58]) = ks"
  unfolding keys_of_eq by (rule split_spec_Join) (auto simp: find_char)

lemma keys_of_key: "58 \<notin> set k \<Longrightarrow> keys_of k = [k]"
  using keys_of_Join [of "[k]"] by (simp add: Join_Cons)

text \<open>The lookups of an object agree with those in the loop of \<open>FindValue\<close>.\<close>

lemma obj_lookup_key:
  assumes "58 \<notin> set k"
  shows "obj_HasValue k m \<longleftrightarrow> map_of m k \<noteq> None"
    and "obj_GetValue k m = (case map_of m k of None \<Rightarrow> JInvalid | Some v \<Rightarrow> v)"
  using keys_of_key [OF assms] by (auto simp: obj_HasValue_def obj_GetValue_def split: option.splits)

text \<open>The value at a path through nested objects.\<close>

fun at_keys :: "byte list list \<Rightarrow> 'd json \<Rightarrow> 'd json option" where
  "at_keys [] v = Some v"
| "at_keys (k # ks) (JObject m) = Option.bind (map_of m k) (at_keys ks)"
| "at_keys (k # ks) _ = None"

lemma find_loop_at: "at_keys ks v = Some x \<Longrightarrow> ks \<noteq> [] \<or> found \<Longrightarrow> find_loop ks found v = x"
  by (induction ks v arbitrary: found rule: at_keys.induct) (auto simp: bind_eq_Some_conv)

text \<open>The same value after the assignment at a path.\<close>

lemma smap_set_lookup: "smap_ok m \<Longrightarrow> map_of (smap_set k v m) k' = (if k' = k then Some v else map_of m k')"
  by (simp add: sm.lookup_upd)

fun paths_ok :: "'d json \<Rightarrow> bool" where
  "paths_ok (JObject m) \<longleftrightarrow> smap_ok m \<and> (\<forall>kv \<in> set m. paths_ok (snd kv))"
| "paths_ok _ \<longleftrightarrow> True"

lemma ReplaceValue_at:
  assumes "\<forall>k \<in> set ks. 58 \<notin> set k" "ks \<noteq> []" "paths_ok v" "at_keys ks v = Some x"
  shows "\<exists>v'. ReplaceValue (Join ks [58]) w v = (True, v') \<and> at_keys ks v' = Some w \<and>
    (\<forall>qs. \<not> prefix ks qs \<longrightarrow> \<not> prefix qs ks \<longrightarrow> at_keys qs v' = at_keys qs v)"
  using assms
proof (induction ks v rule: at_keys.induct)
  case (2 k ks m)
  have keys: "keys_of (Join (k # ks) [58]) = k # ks"
    using keys_of_Join [of "k # ks"] 2(2) by simp
  obtain y where y: "map_of m k = Some y" "at_keys ks y = Some x"
    using 2(5) by (auto simp: bind_eq_Some_conv)
  have m: "smap_ok m" "paths_ok y"
    using 2(4) map_of_SomeD [OF y(1)] by auto
  have other: "at_keys qs (JObject (smap_set k y' m)) = at_keys qs (JObject m)"
    if "\<not> prefix (k # ks) qs" "\<not> prefix qs (k # ks)"
      "\<And>rs. \<not> prefix ks rs \<Longrightarrow> \<not> prefix rs ks \<Longrightarrow> at_keys rs y' = at_keys rs y" for qs y'
    using that y(1) m(1) by (cases qs) (auto simp: smap_set_lookup)
  show ?case
  proof (cases "ks = []")
    case True
    then show ?thesis
      using keys y m other [of _ w] by (subst ReplaceValue.simps) (auto simp: smap_set_lookup)
  next
    case False
    obtain y' where y': "ReplaceValue (Join ks [58]) w y = (True, y')" "at_keys ks y' = Some w"
      "\<And>qs. \<not> prefix ks qs \<Longrightarrow> \<not> prefix qs ks \<Longrightarrow> at_keys qs y' = at_keys qs y"
      using 2(1) [of y] 2(2) False m(2) y by auto
    show ?thesis
      using keys y' y(1) m(1) False other [of _ y'] by (subst ReplaceValue.simps) (auto simp: smap_set_lookup)
  qed
qed auto


section \<open>Properties\<close>

text \<open>
  Property C10. The parser, which keeps its open arrays and objects in three maps indexed
  by the depth, computes what the stack machine does, for every text: the same
  document, the same error, and undefined behaviour for the same texts.
\<close>

theorem parse_refines_stack_machine: "Parse fp s = s_parse fp s [] True"
  unfolding Parse_def by (rule Parse_loop_refines) (rule stack_start)

text \<open>
  Property C12. When \<open>ParseString\<close> returns true, the value is an array or an object, holds no
  invalid value, and every object in it has its keys in order and each once; when it
  returns false, the argument is unchanged.
\<close>

theorem parsed_value_well_formed:
  assumes "ParseString fp json data = Inr (valid, v)"
  shows "if valid then json_ok v \<and> is_document v else v = json"
proof -
  obtain status r where r: "s_parse fp (takeWhile (\<lambda>c. c \<noteq> 0) data) [] True = Inr (status, r)"
    "valid = (status = JSON_PARSE_OK)" "v = (case r of None \<Rightarrow> json | Some v \<Rightarrow> v)"
    using assms by (auto simp: ParseString_def Parse_refines split: sum.splits)
  show ?thesis
    using s_parse_ok [OF _ r(1)] r(2,3) by (auto simp: stack_ok_def split: option.splits)
qed

text \<open>Doubles as integers: an instance of the arithmetic the parser is given.\<close>

definition int_fpu :: "int fpu" where
  "int_fpu = \<lparr>f_of = id, f_tenth = 0, f_add = (+), f_mul = (*), f_neg = uminus, f_int64 = word_of_int, f_text = (\<lambda>_. [])\<rparr>"

theorem parsed_value_well_formed_witness:
  "json_ok (JArray [JObject [(str ''a'', JNull)]] :: int json) \<and> is_document (JArray [JObject [(str ''a'', JNull)]] :: int json)"
proof -
  have "ParseString int_fpu JInvalid [91, 123, 32, 34, 97, 34, 58, 110, 117, 108, 108, 125, 93] =
    Inr (True, JArray [JObject [(str ''a'', JNull)]])"
    by code_simp
  from parsed_value_well_formed [OF this] show ?thesis by simp
qed

text \<open>
  Property C11. A document printed by \<open>ToString\<close>, compact or indented at any level, is read
  back by \<open>ParseString\<close>: its strings hold no quote and no control character, its keys no
  backslash either and none is empty, its integers are at most \<open>2^53\<close> in magnitude, and
  it holds no floating-point number. It relies on \<open>double\<close> being exact for such integers.
\<close>

theorem json_round_trip:
  assumes "exact_integers fp" "printable v" "is_document v"
  shows "ParseString fp json (ToString fp level v) = Inr (True, v)"
proof -
  have whole: "takeWhile (\<lambda>c. c \<noteq> 0) (ToString fp level v) = ToString fp level v"
    using ToString_nonzero [OF assms(2), of fp level] by (auto simp: takeWhile_eq_all_conv)
  have "s_parse fp (ToString fp level v @ []) [] True = Inr (JSON_PARSE_OK, Some v)"
    using assms array_parse [of _ fp level "[]" "[]" True] object_parse [of _ fp level "[]" "[]" True]
    by (cases v) (auto simp: closed_def is_document_def reads_back_ToString simp del: ToString.simps)
  then show ?thesis
    by (simp add: ParseString_def Parse_refines whole)
qed

lemma int_fpu_exact: "exact_integers int_fpu"
  by (simp add: exact_integers_def int_fpu_def)

theorem json_round_trip_witness:
  "ParseString int_fpu JInvalid (ToString int_fpu 0 (JObject [(str ''k'', JArray [JInteger (- 12), JString [92, 110], JBoolean False])])) =
   Inr (True, JObject [(str ''k'', JArray [JInteger (- 12), JString [92, 110], JBoolean False])])"
  by (rule json_round_trip [OF int_fpu_exact])
     (simp_all add: is_document_def str_def verbatim_def iscntrl_def)

text \<open>
  Property C38. \<open>ReplaceValue\<close> on a path through nested objects that leads to a value returns
  true, \<open>FindValue\<close> then finds the new value on this path, and the value on every
  path that neither extends it nor is extended by it is what it was.
\<close>

theorem replace_then_find:
  assumes "\<forall>k \<in> set ks. 58 \<notin> set k" "ks \<noteq> []" "paths_ok v" "at_keys ks v = Some x"
  shows "\<exists>v'. ReplaceValue (Join ks [58]) w v = (True, v') \<and> FindValue (Join ks [58]) v' = w \<and>
    (\<forall>qs. \<not> prefix ks qs \<longrightarrow> \<not> prefix qs ks \<longrightarrow> at_keys qs v' = at_keys qs v)"
  using ReplaceValue_at [OF assms, of w] keys_of_Join [OF assms(2,1)] find_loop_at [of ks] assms(2)
  by (auto simp: FindValue_def)

theorem replace_then_find_witness:
  "\<exists>v'. ReplaceValue (Join [str ''a'', str ''b''] [58]) JNull
      (JObject [(str ''a'', JObject [(str ''b'', JBoolean True)]), (str ''c'', JBoolean False)] :: int json) = (True, v') \<and>
    FindValue (Join [str ''a'', str ''b''] [58]) v' = JNull \<and>
    (\<forall>qs. \<not> prefix [str ''a'', str ''b''] qs \<longrightarrow> \<not> prefix qs [str ''a'', str ''b''] \<longrightarrow>
      at_keys qs v' = at_keys qs (JObject [(str ''a'', JObject [(str ''b'', JBoolean True)]), (str ''c'', JBoolean False)]))"
  by (rule replace_then_find) (simp_all add: str_def)

text \<open>
  A text that ends in white space before the document does makes the
  parser read past its end, a blank text among them; the empty text is refused.
\<close>

theorem blank_text_over_reads:
  assumes "ws \<noteq> []" "\<forall>c \<in> set ws. isspace c"
  shows "ParseString fp json ws = Inl Undefined \<and> ParseString fp json ([91] @ ws) = Inl Undefined \<and>
    ParseString fp json [] = Inr (False, json)"
proof -
  have blank: "s_parse fp ws st sep = Inl Undefined" for st :: "'a frame list" and sep
    using assms by (subst s_parse.simps) (simp add: dropWhile_eq_Nil_conv [THEN iffD2])
  have "c \<noteq> 0" if "c \<in> set ws" for c
    using assms(2) that by (auto simp: isspace_def)
  then have whole: "takeWhile (\<lambda>c. c \<noteq> 0) ws = ws"
    by (auto simp: takeWhile_eq_all_conv)
  show ?thesis
    using blank s_parse_step [of 91 fp ws "[]" True]
    by (simp add: ParseString_def Parse_refines s_step_def s_parse.simps [of fp "[]"] whole)
qed

theorem blank_text_over_reads_witness:
  "ParseString int_fpu JNull [32] = Inl Undefined \<and> ParseString int_fpu JNull ([91] @ [32]) = Inl Undefined \<and>
    ParseString int_fpu JNull [] = Inr (False, JNull)"
  by (rule blank_text_over_reads) (simp_all add: isspace_def)

text \<open>\<open>FindValue\<close> passes over a key that an object does not have: it finds the object itself.\<close>

lemma missing_key_ignored:
  assumes "58 \<notin> set a" "58 \<notin> set b" "map_of m a = Some (JObject n)" "map_of n b = None"
  shows "FindValue (Join [a, b] [58]) (JObject m) = JObject n" "HasValue (Join [a, b] [58]) (JObject m)"
  using assms keys_of_Join [of "[a, b]"] by (simp_all add: FindValue_def HasValue_def)

end
