(* ===== verification/Aes_Tables.thy ===== *)
theory Aes_Tables
  imports Prelude
begin


text \<open>
  The tables of AES in \<open>mbedtls/library/aes.c\<close>: the constants compiled in with
  \<open>MBEDTLS_AES_ROM_TABLES\<close>, and \<open>aes_gen_tables\<close>, which computes them on first use
  otherwise. Both builds have the same tables.
\<close>

record aes_tables =
  FSb :: "byte list"
  RSb :: "byte list"
  FT0 :: "u32 list"
  FT1 :: "u32 list"
  FT2 :: "u32 list"
  FT3 :: "u32 list"
  RT0 :: "u32 list"
  RT1 :: "u32 list"
  RT2 :: "u32 list"
  RT3 :: "u32 list"
  RCON :: "u32 list"

subsection \<open>The constant tables\<close>

definition FSb_rom :: "byte list" where
  "FSb_rom = [
     0x63, 0x7c, 0x77, 0x7b, 0xf2, 0x6b, 0x6f, 0xc5, 0x30, 1, 0x67, 0x2b, 0xfe, 0xd7, 0xab, 0x76,
     0xca, 0x82, 0xc9, 0x7d, 0xfa, 0x59, 0x47, 0xf0, 0xad, 0xd4, 0xa2, 0xaf, 0x9c, 0xa4, 0x72, 0xc0,
     0xb7, 0xfd, 0x93, 0x26, 0x36, 0x3f, 0xf7, 0xcc, 0x34, 0xa5, 0xe5, 0xf1, 0x71, 0xd8, 0x31, 0x15,
     4, 0xc7, 0x23, 0xc3, 0x18, 0x96, 5, 0x9a, 7, 0x12, 0x80, 0xe2, 0xeb, 0x27, 0xb2, 0x75,
     9, 0x83, 0x2c, 0x1a, 0x1b, 0x6e, 0x5a, 0xa0, 0x52, 0x3b, 0xd6, 0xb3, 0x29, 0xe3, 0x2f, 0x84,
     0x53, 0xd1, 0, 0xed, 0x20, 0xfc, 0xb1, 0x5b, 0x6a, 0xcb, 0xbe, 0x39, 0x4a, 0x4c, 0x58, 0xcf,
     0xd0, 0xef, 0xaa, 0xfb, 0x43, 0x4d, 0x33, 0x85, 0x45, 0xf9, 2, 0x7f, 0x50, 0x3c, 0x9f, 0xa8,
     0x51, 0xa3, 0x40, 0x8f, 0x92, 0x9d, 0x38, 0xf5, 0xbc, 0xb6, 0xda, 0x21, 0x10, 0xff, 0xf3, 0xd2,
     0xcd, 0x0c, 0x13, 0xec, 0x5f, 0x97, 0x44, 0x17, 0xc4, 0xa7, 0x7e, 0x3d, 0x64, 0x5d, 0x19, 0x73,
     0x60, 0x81, 0x4f, 0xdc, 0x22, 0x2a, 0x90, 0x88, 0x46, 0xee, 0xb8, 0x14, 0xde, 0x5e, 0x0b, 0xdb,
     0xe0, 0x32, 0x3a, 0x0a, 0x49, 6, 0x24, 0x5c, 0xc2, 0xd3, 0xac, 0x62, 0x91, 0x95, 0xe4, 0x79,
     0xe7, 0xc8, 0x37, 0x6d, 0x8d, 0xd5, 0x4e, 0xa9, 0x6c, 0x56, 0xf4, 0xea, 0x65, 0x7a, 0xae, 8,
     0xba, 0x78, 0x25, 0x2e, 0x1c, 0xa6, 0xb4, 0xc6, 0xe8, 0xdd, 0x74, 0x1f, 0x4b, 0xbd, 0x8b, 0x8a,
     0x70, 0x3e, 0xb5, 0x66, 0x48, 3, 0xf6, 0x0e, 0x61, 0x35, 0x57, 0xb9, 0x86, 0xc1, 0x1d, 0x9e,
     0xe1, 0xf8, 0x98, 0x11, 0x69, 0xd9, 0x8e, 0x94, 0x9b, 0x1e, 0x87, 0xe9, 0xce, 0x55, 0x28, 0xdf,
     0x8c, 0xa1, 0x89, 0x0d, 0xbf, 0xe6, 0x42, 0x68, 0x41, 0x99, 0x2d, 0x0f, 0xb0, 0x54, 0xbb, 0x16]"

definition FT :: "(byte \<times> byte \<times> byte \<times> byte) list" where
  "FT = [
     (0xa5, 0x63, 0x63, 0xc6), (0x84, 0x7c, 0x7c, 0xf8), (0x99, 0x77, 0x77, 0xee), (0x8d, 0x7b, 0x7b, 0xf6),
     (0x0d, 0xf2, 0xf2, 0xff), (0xbd, 0x6b, 0x6b, 0xd6), (0xb1, 0x6f, 0x6f, 0xde), (0x54, 0xc5, 0xc5, 0x91),
     (0x50, 0x30, 0x30, 0x60), (3, 1, 1, 2), (0xa9, 0x67, 0x67, 0xce), (0x7d, 0x2b, 0x2b, 0x56),
     (0x19, 0xfe, 0xfe, 0xe7), (0x62, 0xd7, 0xd7, 0xb5), (0xe6, 0xab, 0xab, 0x4d), (0x9a, 0x76, 0x76, 0xec),
     (0x45, 0xca, 0xca, 0x8f), (0x9d, 0x82, 0x82, 0x1f), (0x40, 0xc9, 0xc9, 0x89), (0x87, 0x7d, 0x7d, 0xfa),
     (0x15, 0xfa, 0xfa, 0xef), (0xeb, 0x59, 0x59, 0xb2), (0xc9, 0x47, 0x47, 0x8e), (0x0b, 0xf0, 0xf0, 0xfb),
     (0xec, 0xad, 0xad, 0x41), (0x67, 0xd4, 0xd4, 0xb3), (0xfd, 0xa2, 0xa2, 0x5f), (0xea, 0xaf, 0xaf, 0x45),
     (0xbf, 0x9c, 0x9c, 0x23), (0xf7, 0xa4, 0xa4, 0x53), (0x96, 0x72, 0x72, 0xe4), (0x5b, 0xc0, 0xc0, 0x9b),
     (0xc2, 0xb7, 0xb7, 0x75), (0x1c, 0xfd, 0xfd, 0xe1), (0xae, 0x93, 0x93, 0x3d), (0x6a, 0x26, 0x26, 0x4c),
     (0x5a, 0x36, 0x36, 0x6c), (0x41, 0x3f, 0x3f, 0x7e), (2, 0xf7, 0xf7, 0xf5), (0x4f, 0xcc, 0xcc, 0x83),
     (0x5c, 0x34, 0x34, 0x68), (0xf4, 0xa5, 0xa5, 0x51), (0x34, 0xe5, 0xe5, 0xd1), (8, 0xf1, 0xf1, 0xf9),
     (0x93, 0x71, 0x71, 0xe2), (0x73, 0xd8, 0xd8, 0xab), (0x53, 0x31, 0x31, 0x62), (0x3f, 0x15, 0x15, 0x2a),
     (0x0c, 4, 4, 8), (0x52, 0xc7, 0xc7, 0x95), (0x65, 0x23, 0x23, 0x46), (0x5e, 0xc3, 0xc3, 0x9d),
     (0x28, 0x18, 0x18, 0x30), (0xa1, 0x96, 0x96, 0x37), (0x0f, 5, 5, 0x0a), (0xb5, 0x9a, 0x9a, 0x2f),
     (9, 7, 7, 0x0e), (0x36, 0x12, 0x12, 0x24), (0x9b, 0x80, 0x80, 0x1b), (0x3d, 0xe2, 0xe2, 0xdf),
     (0x26, 0xeb, 0xeb, 0xcd), (0x69, 0x27, 0x27, 0x4e), (0xcd, 0xb2, 0xb2, 0x7f), (0x9f, 0x75, 0x75, 0xea),
     (0x1b, 9, 9, 0x12), (0x9e, 0x83, 0x83, 0x1d), (0x74, 0x2c, 0x2c, 0x58), (0x2e, 0x1a, 0x1a, 0x34),
     (0x2d, 0x1b, 0x1b, 0x36), (0xb2, 0x6e, 0x6e, 0xdc), (0xee, 0x5a, 0x5a, 0xb4), (0xfb, 0xa0, 0xa0, 0x5b),
     (0xf6, 0x52, 0x52, 0xa4), (0x4d, 0x3b, 0x3b, 0x76), (0x61, 0xd6, 0xd6, 0xb7), (0xce, 0xb3, 0xb3, 0x7d),
     (0x7b, 0x29, 0x29, 0x52), (0x3e, 0xe3, 0xe3, 0xdd), (0x71, 0x2f, 0x2f, 0x5e), (0x97, 0x84, 0x84, 0x13),
     (0xf5, 0x53, 0x53, 0xa6), (0x68, 0xd1, 0xd1, 0xb9), (0, 0, 0, 0), (0x2c, 0xed, 0xed, 0xc1),
     (0x60, 0x20, 0x20, 0x40), (0x1f, 0xfc, 0xfc, 0xe3), (0xc8, 0xb1, 0xb1, 0x79), (0xed, 0x5b, 0x5b, 0xb6),
     (0xbe, 0x6a, 0x6a, 0xd4), (0x46, 0xcb, 0xcb, 0x8d), (0xd9, 0xbe, 0xbe, 0x67), (0x4b, 0x39, 0x39, 0x72),
     (0xde, 0x4a, 0x4a, 0x94), (0xd4, 0x4c, 0x4c, 0x98), (0xe8, 0x58, 0x58, 0xb0), (0x4a, 0xcf, 0xcf, 0x85),
     (0x6b, 0xd0, 0xd0, 0xbb), (0x2a, 0xef, 0xef, 0xc5), (0xe5, 0xaa, 0xaa, 0x4f), (0x16, 0xfb, 0xfb, 0xed),
     (0xc5, 0x43, 0x43, 0x86), (0xd7, 0x4d, 0x4d, 0x9a), (0x55, 0x33, 0x33, 0x66), (0x94, 0x85, 0x85, 0x11),
     (0xcf, 0x45, 0x45, 0x8a), (0x10, 0xf9, 0xf9, 0xe9), (6, 2, 2, 4), (0x81, 0x7f, 0x7f, 0xfe),
     (0xf0, 0x50, 0x50, 0xa0), (0x44, 0x3c, 0x3c, 0x78), (0xba, 0x9f, 0x9f, 0x25), (0xe3, 0xa8, 0xa8, 0x4b),
     (0xf3, 0x51, 0x51, 0xa2), (0xfe, 0xa3, 0xa3, 0x5d), (0xc0, 0x40, 0x40, 0x80), (0x8a, 0x8f, 0x8f, 5),
     (0xad, 0x92, 0x92, 0x3f), (0xbc, 0x9d, 0x9d, 0x21), (0x48, 0x38, 0x38, 0x70), (4, 0xf5, 0xf5, 0xf1),
     (0xdf, 0xbc, 0xbc, 0x63), (0xc1, 0xb6, 0xb6, 0x77), (0x75, 0xda, 0xda, 0xaf), (0x63, 0x21, 0x21, 0x42),
     (0x30, 0x10, 0x10, 0x20), (0x1a, 0xff, 0xff, 0xe5), (0x0e, 0xf3, 0xf3, 0xfd), (0x6d, 0xd2, 0xd2, 0xbf),
     (0x4c, 0xcd, 0xcd, 0x81), (0x14, 0x0c, 0x0c, 0x18), (0x35, 0x13, 0x13, 0x26), (0x2f, 0xec, 0xec, 0xc3),
     (0xe1, 0x5f, 0x5f, 0xbe), (0xa2, 0x97, 0x97, 0x35), (0xcc, 0x44, 0x44, 0x88), (0x39, 0x17, 0x17, 0x2e),
     (0x57, 0xc4, 0xc4, 0x93), (0xf2, 0xa7, 0xa7, 0x55), (0x82, 0x7e, 0x7e, 0xfc), (0x47, 0x3d, 0x3d, 0x7a),
     (0xac, 0x64, 0x64, 0xc8), (0xe7, 0x5d, 0x5d, 0xba), (0x2b, 0x19, 0x19, 0x32), (0x95, 0x73, 0x73, 0xe6),
     (0xa0, 0x60, 0x60, 0xc0), (0x98, 0x81, 0x81, 0x19), (0xd1, 0x4f, 0x4f, 0x9e), (0x7f, 0xdc, 0xdc, 0xa3),
     (0x66, 0x22, 0x22, 0x44), (0x7e, 0x2a, 0x2a, 0x54), (0xab, 0x90, 0x90, 0x3b), (0x83, 0x88, 0x88, 0x0b),
     (0xca, 0x46, 0x46, 0x8c), (0x29, 0xee, 0xee, 0xc7), (0xd3, 0xb8, 0xb8, 0x6b), (0x3c, 0x14, 0x14, 0x28),
     (0x79, 0xde, 0xde, 0xa7), (0xe2, 0x5e, 0x5e, 0xbc), (0x1d, 0x0b, 0x0b, 0x16), (0x76, 0xdb, 0xdb, 0xad),
     (0x3b, 0xe0, 0xe0, 0xdb), (0x56, 0x32, 0x32, 0x64), (0x4e, 0x3a, 0x3a, 0x74), (0x1e, 0x0a, 0x0a, 0x14),
     (0xdb, 0x49, 0x49, 0x92), (0x0a, 6, 6, 0x0c), (0x6c, 0x24, 0x24, 0x48), (0xe4, 0x5c, 0x5c, 0xb8),
     (0x5d, 0xc2, 0xc2, 0x9f), (0x6e, 0xd3, 0xd3, 0xbd), (0xef, 0xac, 0xac, 0x43), (0xa6, 0x62, 0x62, 0xc4),
     (0xa8, 0x91, 0x91, 0x39), (0xa4, 0x95, 0x95, 0x31), (0x37, 0xe4, 0xe4, 0xd3), (0x8b, 0x79, 0x79, 0xf2),
     (0x32, 0xe7, 0xe7, 0xd5), (0x43, 0xc8, 0xc8, 0x8b), (0x59, 0x37, 0x37, 0x6e), (0xb7, 0x6d, 0x6d, 0xda),
     (0x8c, 0x8d, 0x8d, 1), (0x64, 0xd5, 0xd5, 0xb1), (0xd2, 0x4e, 0x4e, 0x9c), (0xe0, 0xa9, 0xa9, 0x49),
     (0xb4, 0x6c, 0x6c, 0xd8), (0xfa, 0x56, 0x56, 0xac), (7, 0xf4, 0xf4, 0xf3), (0x25, 0xea, 0xea, 0xcf),
     (0xaf, 0x65, 0x65, 0xca), (0x8e, 0x7a, 0x7a, 0xf4), (0xe9, 0xae, 0xae, 0x47), (0x18, 8, 8, 0x10),
     (0xd5, 0xba, 0xba, 0x6f), (0x88, 0x78, 0x78, 0xf0), (0x6f, 0x25, 0x25, 0x4a), (0x72, 0x2e, 0x2e, 0x5c),
     (0x24, 0x1c, 0x1c, 0x38), (0xf1, 0xa6, 0xa6, 0x57), (0xc7, 0xb4, 0xb4, 0x73), (0x51, 0xc6, 0xc6, 0x97),
     (0x23, 0xe8, 0xe8, 0xcb), (0x7c, 0xdd, 0xdd, 0xa1), (0x9c, 0x74, 0x74, 0xe8), (0x21, 0x1f, 0x1f, 0x3e),
     (0xdd, 0x4b, 0x4b, 0x96), (0xdc, 0xbd, 0xbd, 0x61), (0x86, 0x8b, 0x8b, 0x0d), (0x85, 0x8a, 0x8a, 0x0f),
     (0x90, 0x70, 0x70, 0xe0), (0x42, 0x3e, 0x3e, 0x7c), (0xc4, 0xb5, 0xb5, 0x71), (0xaa, 0x66, 0x66, 0xcc),
     (0xd8, 0x48, 0x48, 0x90), (5, 3, 3, 6), (1, 0xf6, 0xf6, 0xf7), (0x12, 0x0e, 0x0e, 0x1c),
     (0xa3, 0x61, 0x61, 0xc2), (0x5f, 0x35, 0x35, 0x6a), (0xf9, 0x57, 0x57, 0xae), (0xd0, 0xb9, 0xb9, 0x69),
     (0x91, 0x86, 0x86, 0x17), (0x58, 0xc1, 0xc1, 0x99), (0x27, 0x1d, 0x1d, 0x3a), (0xb9, 0x9e, 0x9e, 0x27),
     (0x38, 0xe1, 0xe1, 0xd9), (0x13, 0xf8, 0xf8, 0xeb), (0xb3, 0x98, 0x98, 0x2b), (0x33, 0x11, 0x11, 0x22),
     (0xbb, 0x69, 0x69, 0xd2), (0x70, 0xd9, 0xd9, 0xa9), (0x89, 0x8e, 0x8e, 7), (0xa7, 0x94, 0x94, 0x33),
     (0xb6, 0x9b, 0x9b, 0x2d), (0x22, 0x1e, 0x1e, 0x3c), (0x92, 0x87, 0x87, 0x15), (0x20, 0xe9, 0xe9, 0xc9),
     (0x49, 0xce, 0xce, 0x87), (0xff, 0x55, 0x55, 0xaa), (0x78, 0x28, 0x28, 0x50), (0x7a, 0xdf, 0xdf, 0xa5),
     (0x8f, 0x8c, 0x8c, 3), (0xf8, 0xa1, 0xa1, 0x59), (0x80, 0x89, 0x89, 9), (0x17, 0x0d, 0x0d, 0x1a),
     (0xda, 0xbf, 0xbf, 0x65), (0x31, 0xe6, 0xe6, 0xd7), (0xc6, 0x42, 0x42, 0x84), (0xb8, 0x68, 0x68, 0xd0),
     (0xc3, 0x41, 0x41, 0x82), (0xb0, 0x99, 0x99, 0x29), (0x77, 0x2d, 0x2d, 0x5a), (0x11, 0x0f, 0x0f, 0x1e),
     (0xcb, 0xb0, 0xb0, 0x7b), (0xfc, 0x54, 0x54, 0xa8), (0xd6, 0xbb, 0xbb, 0x6d), (0x3a, 0x16, 0x16, 0x2c)]"

definition RSb_rom :: "byte list" where
  "RSb_rom = [
     0x52, 9, 0x6a, 0xd5, 0x30, 0x36, 0xa5, 0x38, 0xbf, 0x40, 0xa3, 0x9e, 0x81, 0xf3, 0xd7, 0xfb,
     0x7c, 0xe3, 0x39, 0x82, 0x9b, 0x2f, 0xff, 0x87, 0x34, 0x8e, 0x43, 0x44, 0xc4, 0xde, 0xe9, 0xcb,
     0x54, 0x7b, 0x94, 0x32, 0xa6, 0xc2, 0x23, 0x3d, 0xee, 0x4c, 0x95, 0x0b, 0x42, 0xfa, 0xc3, 0x4e,
     8, 0x2e, 0xa1, 0x66, 0x28, 0xd9, 0x24, 0xb2, 0x76, 0x5b, 0xa2, 0x49, 0x6d, 0x8b, 0xd1, 0x25,
     0x72, 0xf8, 0xf6, 0x64, 0x86, 0x68, 0x98, 0x16, 0xd4, 0xa4, 0x5c, 0xcc, 0x5d, 0x65, 0xb6, 0x92,
     0x6c, 0x70, 0x48, 0x50, 0xfd, 0xed, 0xb9, 0xda, 0x5e, 0x15, 0x46, 0x57, 0xa7, 0x8d, 0x9d, 0x84,
     0x90, 0xd8, 0xab, 0, 0x8c, 0xbc, 0xd3, 0x0a, 0xf7, 0xe4, 0x58, 5, 0xb8, 0xb3, 0x45, 6,
     0xd0, 0x2c, 0x1e, 0x8f, 0xca, 0x3f, 0x0f, 2, 0xc1, 0xaf, 0xbd, 3, 1, 0x13, 0x8a, 0x6b,
     0x3a, 0x91, 0x11, 0x41, 0x4f, 0x67, 0xdc, 0xea, 0x97, 0xf2, 0xcf, 0xce, 0xf0, 0xb4, 0xe6, 0x73,
     0x96, 0xac, 0x74, 0x22, 0xe7, 0xad, 0x35, 0x85, 0xe2, 0xf9, 0x37, 0xe8, 0x1c, 0x75, 0xdf, 0x6e,
     0x47, 0xf1, 0x1a, 0x71, 0x1d, 0x29, 0xc5, 0x89, 0x6f, 0xb7, 0x62, 0x0e, 0xaa, 0x18, 0xbe, 0x1b,
     0xfc, 0x56, 0x3e, 0x4b, 0xc6, 0xd2, 0x79, 0x20, 0x9a, 0xdb, 0xc0, 0xfe, 0x78, 0xcd, 0x5a, 0xf4,
     0x1f, 0xdd, 0xa8, 0x33, 0x88, 7, 0xc7, 0x31, 0xb1, 0x12, 0x10, 0x59, 0x27, 0x80, 0xec, 0x5f,
     0x60, 0x51, 0x7f, 0xa9, 0x19, 0xb5, 0x4a, 0x0d, 0x2d, 0xe5, 0x7a, 0x9f, 0x93, 0xc9, 0x9c, 0xef,
     0xa0, 0xe0, 0x3b, 0x4d, 0xae, 0x2a, 0xf5, 0xb0, 0xc8, 0xeb, 0xbb, 0x3c, 0x83, 0x53, 0x99, 0x61,
     0x17, 0x2b, 4, 0x7e, 0xba, 0x77, 0xd6, 0x26, 0xe1, 0x69, 0x14, 0x63, 0x55, 0x21, 0x0c, 0x7d]"

definition RT :: "(byte \<times> byte \<times> byte \<times> byte) list" where
  "RT = [
     (0x50, 0xa7, 0xf4, 0x51), (0x53, 0x65, 0x41, 0x7e), (0xc3, 0xa4, 0x17, 0x1a), (0x96, 0x5e, 0x27, 0x3a),
     (0xcb, 0x6b, 0xab, 0x3b), (0xf1, 0x45, 0x9d, 0x1f), (0xab, 0x58, 0xfa, 0xac), (0x93, 3, 0xe3, 0x4b),
     (0x55, 0xfa, 0x30, 0x20), (0xf6, 0x6d, 0x76, 0xad), (0x91, 0x76, 0xcc, 0x88), (0x25, 0x4c, 2, 0xf5),
     (0xfc, 0xd7, 0xe5, 0x4f), (0xd7, 0xcb, 0x2a, 0xc5), (0x80, 0x44, 0x35, 0x26), (0x8f, 0xa3, 0x62, 0xb5),
     (0x49, 0x5a, 0xb1, 0xde), (0x67, 0x1b, 0xba, 0x25), (0x98, 0x0e, 0xea, 0x45), (0xe1, 0xc0, 0xfe, 0x5d),
     (2, 0x75, 0x2f, 0xc3), (0x12, 0xf0, 0x4c, 0x81), (0xa3, 0x97, 0x46, 0x8d), (0xc6, 0xf9, 0xd3, 0x6b),
     (0xe7, 0x5f, 0x8f, 3), (0x95, 0x9c, 0x92, 0x15), (0xeb, 0x7a, 0x6d, 0xbf), (0xda, 0x59, 0x52, 0x95),
     (0x2d, 0x83, 0xbe, 0xd4), (0xd3, 0x21, 0x74, 0x58), (0x29, 0x69, 0xe0, 0x49), (0x44, 0xc8, 0xc9, 0x8e),
     (0x6a, 0x89, 0xc2, 0x75), (0x78, 0x79, 0x8e, 0xf4), (0x6b, 0x3e, 0x58, 0x99), (0xdd, 0x71, 0xb9, 0x27),
     (0xb6, 0x4f, 0xe1, 0xbe), (0x17, 0xad, 0x88, 0xf0), (0x66, 0xac, 0x20, 0xc9), (0xb4, 0x3a, 0xce, 0x7d),
     (0x18, 0x4a, 0xdf, 0x63), (0x82, 0x31, 0x1a, 0xe5), (0x60, 0x33, 0x51, 0x97), (0x45, 0x7f, 0x53, 0x62),
     (0xe0, 0x77, 0x64, 0xb1), (0x84, 0xae, 0x6b, 0xbb), (0x1c, 0xa0, 0x81, 0xfe), (0x94, 0x2b, 8, 0xf9),
     (0x58, 0x68, 0x48, 0x70), (0x19, 0xfd, 0x45, 0x8f), (0x87, 0x6c, 0xde, 0x94), (0xb7, 0xf8, 0x7b, 0x52),
     (0x23, 0xd3, 0x73, 0xab), (0xe2, 2, 0x4b, 0x72), (0x57, 0x8f, 0x1f, 0xe3), (0x2a, 0xab, 0x55, 0x66),
     (7, 0x28, 0xeb, 0xb2), (3, 0xc2, 0xb5, 0x2f), (0x9a, 0x7b, 0xc5, 0x86), (0xa5, 8, 0x37, 0xd3),
     (0xf2, 0x87, 0x28, 0x30), (0xb2, 0xa5, 0xbf, 0x23), (0xba, 0x6a, 3, 2), (0x5c, 0x82, 0x16, 0xed),
     (0x2b, 0x1c, 0xcf, 0x8a), (0x92, 0xb4, 0x79, 0xa7), (0xf0, 0xf2, 7, 0xf3), (0xa1, 0xe2, 0x69, 0x4e),
     (0xcd, 0xf4, 0xda, 0x65), (0xd5, 0xbe, 5, 6), (0x1f, 0x62, 0x34, 0xd1), (0x8a, 0xfe, 0xa6, 0xc4),
     (0x9d, 0x53, 0x2e, 0x34), (0xa0, 0x55, 0xf3, 0xa2), (0x32, 0xe1, 0x8a, 5), (0x75, 0xeb, 0xf6, 0xa4),
     (0x39, 0xec, 0x83, 0x0b), (0xaa, 0xef, 0x60, 0x40), (6, 0x9f, 0x71, 0x5e), (0x51, 0x10, 0x6e, 0xbd),
     (0xf9, 0x8a, 0x21, 0x3e), (0x3d, 6, 0xdd, 0x96), (0xae, 5, 0x3e, 0xdd), (0x46, 0xbd, 0xe6, 0x4d),
     (0xb5, 0x8d, 0x54, 0x91), (5, 0x5d, 0xc4, 0x71), (0x6f, 0xd4, 6, 4), (0xff, 0x15, 0x50, 0x60),
     (0x24, 0xfb, 0x98, 0x19), (0x97, 0xe9, 0xbd, 0xd6), (0xcc, 0x43, 0x40, 0x89), (0x77, 0x9e, 0xd9, 0x67),
     (0xbd, 0x42, 0xe8, 0xb0), (0x88, 0x8b, 0x89, 7), (0x38, 0x5b, 0x19, 0xe7), (0xdb, 0xee, 0xc8, 0x79),
     (0x47, 0x0a, 0x7c, 0xa1), (0xe9, 0x0f, 0x42, 0x7c), (0xc9, 0x1e, 0x84, 0xf8), (0, 0, 0, 0),
     (0x83, 0x86, 0x80, 9), (0x48, 0xed, 0x2b, 0x32), (0xac, 0x70, 0x11, 0x1e), (0x4e, 0x72, 0x5a, 0x6c),
     (0xfb, 0xff, 0x0e, 0xfd), (0x56, 0x38, 0x85, 0x0f), (0x1e, 0xd5, 0xae, 0x3d), (0x27, 0x39, 0x2d, 0x36),
     (0x64, 0xd9, 0x0f, 0x0a), (0x21, 0xa6, 0x5c, 0x68), (0xd1, 0x54, 0x5b, 0x9b), (0x3a, 0x2e, 0x36, 0x24),
     (0xb1, 0x67, 0x0a, 0x0c), (0x0f, 0xe7, 0x57, 0x93), (0xd2, 0x96, 0xee, 0xb4), (0x9e, 0x91, 0x9b, 0x1b),
     (0x4f, 0xc5, 0xc0, 0x80), (0xa2, 0x20, 0xdc, 0x61), (0x69, 0x4b, 0x77, 0x5a), (0x16, 0x1a, 0x12, 0x1c),
     (0x0a, 0xba, 0x93, 0xe2), (0xe5, 0x2a, 0xa0, 0xc0), (0x43, 0xe0, 0x22, 0x3c), (0x1d, 0x17, 0x1b, 0x12),
     (0x0b, 0x0d, 9, 0x0e), (0xad, 0xc7, 0x8b, 0xf2), (0xb9, 0xa8, 0xb6, 0x2d), (0xc8, 0xa9, 0x1e, 0x14),
     (0x85, 0x19, 0xf1, 0x57), (0x4c, 7, 0x75, 0xaf), (0xbb, 0xdd, 0x99, 0xee), (0xfd, 0x60, 0x7f, 0xa3),
     (0x9f, 0x26, 1, 0xf7), (0xbc, 0xf5, 0x72, 0x5c), (0xc5, 0x3b, 0x66, 0x44), (0x34, 0x7e, 0xfb, 0x5b),
     (0x76, 0x29, 0x43, 0x8b), (0xdc, 0xc6, 0x23, 0xcb), (0x68, 0xfc, 0xed, 0xb6), (0x63, 0xf1, 0xe4, 0xb8),
     (0xca, 0xdc, 0x31, 0xd7), (0x10, 0x85, 0x63, 0x42), (0x40, 0x22, 0x97, 0x13), (0x20, 0x11, 0xc6, 0x84),
     (0x7d, 0x24, 0x4a, 0x85), (0xf8, 0x3d, 0xbb, 0xd2), (0x11, 0x32, 0xf9, 0xae), (0x6d, 0xa1, 0x29, 0xc7),
     (0x4b, 0x2f, 0x9e, 0x1d), (0xf3, 0x30, 0xb2, 0xdc), (0xec, 0x52, 0x86, 0x0d), (0xd0, 0xe3, 0xc1, 0x77),
     (0x6c, 0x16, 0xb3, 0x2b), (0x99, 0xb9, 0x70, 0xa9), (0xfa, 0x48, 0x94, 0x11), (0x22, 0x64, 0xe9, 0x47),
     (0xc4, 0x8c, 0xfc, 0xa8), (0x1a, 0x3f, 0xf0, 0xa0), (0xd8, 0x2c, 0x7d, 0x56), (0xef, 0x90, 0x33, 0x22),
     (0xc7, 0x4e, 0x49, 0x87), (0xc1, 0xd1, 0x38, 0xd9), (0xfe, 0xa2, 0xca, 0x8c), (0x36, 0x0b, 0xd4, 0x98),
     (0xcf, 0x81, 0xf5, 0xa6), (0x28, 0xde, 0x7a, 0xa5), (0x26, 0x8e, 0xb7, 0xda), (0xa4, 0xbf, 0xad, 0x3f),
     (0xe4, 0x9d, 0x3a, 0x2c), (0x0d, 0x92, 0x78, 0x50), (0x9b, 0xcc, 0x5f, 0x6a), (0x62, 0x46, 0x7e, 0x54),
     (0xc2, 0x13, 0x8d, 0xf6), (0xe8, 0xb8, 0xd8, 0x90), (0x5e, 0xf7, 0x39, 0x2e), (0xf5, 0xaf, 0xc3, 0x82),
     (0xbe, 0x80, 0x5d, 0x9f), (0x7c, 0x93, 0xd0, 0x69), (0xa9, 0x2d, 0xd5, 0x6f), (0xb3, 0x12, 0x25, 0xcf),
     (0x3b, 0x99, 0xac, 0xc8), (0xa7, 0x7d, 0x18, 0x10), (0x6e, 0x63, 0x9c, 0xe8), (0x7b, 0xbb, 0x3b, 0xdb),
     (9, 0x78, 0x26, 0xcd), (0xf4, 0x18, 0x59, 0x6e), (1, 0xb7, 0x9a, 0xec), (0xa8, 0x9a, 0x4f, 0x83),
     (0x65, 0x6e, 0x95, 0xe6), (0x7e, 0xe6, 0xff, 0xaa), (8, 0xcf, 0xbc, 0x21), (0xe6, 0xe8, 0x15, 0xef),
     (0xd9, 0x9b, 0xe7, 0xba), (0xce, 0x36, 0x6f, 0x4a), (0xd4, 9, 0x9f, 0xea), (0xd6, 0x7c, 0xb0, 0x29),
     (0xaf, 0xb2, 0xa4, 0x31), (0x31, 0x23, 0x3f, 0x2a), (0x30, 0x94, 0xa5, 0xc6), (0xc0, 0x66, 0xa2, 0x35),
     (0x37, 0xbc, 0x4e, 0x74), (0xa6, 0xca, 0x82, 0xfc), (0xb0, 0xd0, 0x90, 0xe0), (0x15, 0xd8, 0xa7, 0x33),
     (0x4a, 0x98, 4, 0xf1), (0xf7, 0xda, 0xec, 0x41), (0x0e, 0x50, 0xcd, 0x7f), (0x2f, 0xf6, 0x91, 0x17),
     (0x8d, 0xd6, 0x4d, 0x76), (0x4d, 0xb0, 0xef, 0x43), (0x54, 0x4d, 0xaa, 0xcc), (0xdf, 4, 0x96, 0xe4),
     (0xe3, 0xb5, 0xd1, 0x9e), (0x1b, 0x88, 0x6a, 0x4c), (0xb8, 0x1f, 0x2c, 0xc1), (0x7f, 0x51, 0x65, 0x46),
     (4, 0xea, 0x5e, 0x9d), (0x5d, 0x35, 0x8c, 1), (0x73, 0x74, 0x87, 0xfa), (0x2e, 0x41, 0x0b, 0xfb),
     (0x5a, 0x1d, 0x67, 0xb3), (0x52, 0xd2, 0xdb, 0x92), (0x33, 0x56, 0x10, 0xe9), (0x13, 0x47, 0xd6, 0x6d),
     (0x8c, 0x61, 0xd7, 0x9a), (0x7a, 0x0c, 0xa1, 0x37), (0x8e, 0x14, 0xf8, 0x59), (0x89, 0x3c, 0x13, 0xeb),
     (0xee, 0x27, 0xa9, 0xce), (0x35, 0xc9, 0x61, 0xb7), (0xed, 0xe5, 0x1c, 0xe1), (0x3c, 0xb1, 0x47, 0x7a),
     (0x59, 0xdf, 0xd2, 0x9c), (0x3f, 0x73, 0xf2, 0x55), (0x79, 0xce, 0x14, 0x18), (0xbf, 0x37, 0xc7, 0x73),
     (0xea, 0xcd, 0xf7, 0x53), (0x5b, 0xaa, 0xfd, 0x5f), (0x14, 0x6f, 0x3d, 0xdf), (0x86, 0xdb, 0x44, 0x78),
     (0x81, 0xf3, 0xaf, 0xca), (0x3e, 0xc4, 0x68, 0xb9), (0x2c, 0x34, 0x24, 0x38), (0x5f, 0x40, 0xa3, 0xc2),
     (0x72, 0xc3, 0x1d, 0x16), (0x0c, 0x25, 0xe2, 0xbc), (0x8b, 0x49, 0x3c, 0x28), (0x41, 0x95, 0x0d, 0xff),
     (0x71, 1, 0xa8, 0x39), (0xde, 0xb3, 0x0c, 8), (0x9c, 0xe4, 0xb4, 0xd8), (0x90, 0xc1, 0x56, 0x64),
     (0x61, 0x84, 0xcb, 0x7b), (0x70, 0xb6, 0x32, 0xd5), (0x74, 0x5c, 0x6c, 0x48), (0x42, 0x57, 0xb8, 0xd0)]"

definition RCON_rom :: "u32 list" where
  "RCON_rom = [1, 2, 4, 8, 0x10, 0x20, 0x40, 0x80, 0x1b, 0x36]"

text \<open>The macro \<open>V\<close>, which is defined anew for each of the four tables.\<close>

definition V :: "byte \<Rightarrow> byte \<Rightarrow> byte \<Rightarrow> byte \<Rightarrow> u32" where
  "V a b c d = push_bit 24 (ucast a) OR push_bit 16 (ucast b) OR push_bit 8 (ucast c) OR ucast d"

definition aes_rom_tables :: aes_tables where
  "aes_rom_tables = \<lparr>FSb = FSb_rom, RSb = RSb_rom,
     FT0 = map (\<lambda>(a, b, c, d). V a b c d) FT, FT1 = map (\<lambda>(a, b, c, d). V b c d a) FT,
     FT2 = map (\<lambda>(a, b, c, d). V c d a b) FT, FT3 = map (\<lambda>(a, b, c, d). V d a b c) FT,
     RT0 = map (\<lambda>(a, b, c, d). V a b c d) RT, RT1 = map (\<lambda>(a, b, c, d). V b c d a) RT,
     RT2 = map (\<lambda>(a, b, c, d). V c d a b) RT, RT3 = map (\<lambda>(a, b, c, d). V d a b c) RT,
     RCON = RCON_rom\<rparr>"

subsection \<open>The computed tables\<close>

definition ROTL8 :: "u32 \<Rightarrow> u32" where
  "ROTL8 x = (push_bit 8 x AND 0xFFFFFFFF) OR drop_bit 24 x"

definition XTIME :: "int \<Rightarrow> int" where
  "XTIME x = push_bit 1 x XOR (if x AND 0x80 \<noteq> 0 then 0x1B else 0)"

text \<open>The \<open>pow\<close> and \<open>log\<close> tables. The entry \<open>log[0]\<close> is not written and not read.\<close>

definition pow_log :: "int list \<times> int list \<times> int" where
  "pow_log = foldl (\<lambda>(pow, log, x) i. (pow[i := x], log[nat x := int i], (x XOR XTIME x) AND 0xFF))
     (replicate 256 0, replicate 256 0, 1) [0 ..< 256]"

definition MUL :: "int list \<Rightarrow> int list \<Rightarrow> int \<Rightarrow> int \<Rightarrow> int" where
  "MUL pow log x y = (if x \<noteq> 0 \<and> y \<noteq> 0 then pow ! nat ((log ! nat x + log ! nat y) mod 255) else 0)"

definition rcon_loop :: "u32 list \<times> int" where
  "rcon_loop = foldl (\<lambda>(rcon, x) i. (rcon[i := word_of_int x], XTIME x AND 0xFF)) (replicate 10 0, 1) [0 ..< 10]"

definition rotl1 :: "int \<Rightarrow> int" where
  "rotl1 y = (push_bit 1 y OR drop_bit 7 y) AND 0xFF"

definition affine :: "int \<Rightarrow> int" where
  "affine x = (let y = rotl1 x; x = x XOR y; y = rotl1 y; x = x XOR y; y = rotl1 y; x = x XOR y; y = rotl1 y
     in x XOR (y XOR 0x63))"

definition sbox_loop :: "int list \<Rightarrow> int list \<Rightarrow> byte list \<times> byte list" where
  "sbox_loop pow log =
     foldl (\<lambda>(fsb, rsb) i.
         let x = affine (pow ! nat (255 - log ! i)) in (fsb[i := word_of_int x], rsb[nat x := word_of_int (int i)]))
       ((replicate 256 0)[0 := 0x63], (replicate 256 0)[0x63 := 0]) [1 ..< 256]"

text \<open>One pass of the loop that fills the forward and the reverse tables.\<close>

definition table_step :: "int list \<Rightarrow> int list \<Rightarrow> aes_tables \<Rightarrow> nat \<Rightarrow> aes_tables" where
  "table_step pow log t i =
     (let x = uint (FSb t ! i); y = XTIME x AND 0xFF; z = (y XOR x) AND 0xFF;
          f0 = word_of_int y XOR push_bit 8 (word_of_int x) XOR push_bit 16 (word_of_int x) XOR push_bit 24 (word_of_int z);
          x = uint (RSb t ! i);
          r0 = word_of_int (MUL pow log 0x0E x) XOR push_bit 8 (word_of_int (MUL pow log 0x09 x)) XOR
               push_bit 16 (word_of_int (MUL pow log 0x0D x)) XOR push_bit 24 (word_of_int (MUL pow log 0x0B x))
      in t\<lparr>FT0 := (FT0 t)[i := f0], FT1 := (FT1 t)[i := ROTL8 f0], FT2 := (FT2 t)[i := ROTL8 (ROTL8 f0)],
           FT3 := (FT3 t)[i := ROTL8 (ROTL8 (ROTL8 f0))],
           RT0 := (RT0 t)[i := r0], RT1 := (RT1 t)[i := ROTL8 r0], RT2 := (RT2 t)[i := ROTL8 (ROTL8 r0)],
           RT3 := (RT3 t)[i := ROTL8 (ROTL8 (ROTL8 r0))]\<rparr>)"

definition aes_gen_tables :: aes_tables where
  "aes_gen_tables =
     (let (pow, log, _) = pow_log; (fsb, rsb) = sbox_loop pow log; z = replicate 256 0
      in foldl (table_step pow log)
           \<lparr>FSb = fsb, RSb = rsb, FT0 = z, FT1 = z, FT2 = z, FT3 = z, RT0 = z, RT1 = z, RT2 = z, RT3 = z, RCON = fst rcon_loop\<rparr>
           [0 ..< 256])"

subsection \<open>The tables agree\<close>

definition pow_table :: "int list" where
  "pow_table = [
     1, 3, 5, 15, 17, 51, 85, 255, 26, 46, 114, 150, 161, 248, 19, 53,
     95, 225, 56, 72, 216, 115, 149, 164, 247, 2, 6, 10, 30, 34, 102, 170,
     229, 52, 92, 228, 55, 89, 235, 38, 106, 190, 217, 112, 144, 171, 230, 49,
     83, 245, 4, 12, 20, 60, 68, 204, 79, 209, 104, 184, 211, 110, 178, 205,
     76, 212, 103, 169, 224, 59, 77, 215, 98, 166, 241, 8, 24, 40, 120, 136,
     131, 158, 185, 208, 107, 189, 220, 127, 129, 152, 179, 206, 73, 219, 118, 154,
     181, 196, 87, 249, 16, 48, 80, 240, 11, 29, 39, 105, 187, 214, 97, 163,
     254, 25, 43, 125, 135, 146, 173, 236, 47, 113, 147, 174, 233, 32, 96, 160,
     251, 22, 58, 78, 210, 109, 183, 194, 93, 231, 50, 86, 250, 21, 63, 65,
     195, 94, 226, 61, 71, 201, 64, 192, 91, 237, 44, 116, 156, 191, 218, 117,
     159, 186, 213, 100, 172, 239, 42, 126, 130, 157, 188, 223, 122, 142, 137, 128,
     155, 182, 193, 88, 232, 35, 101, 175, 234, 37, 111, 177, 200, 67, 197, 84,
     252, 31, 33, 99, 165, 244, 7, 9, 27, 45, 119, 153, 176, 203, 70, 202,
     69, 207, 74, 222, 121, 139, 134, 145, 168, 227, 62, 66, 198, 81, 243, 14,
     18, 54, 90, 238, 41, 123, 141, 140, 143, 138, 133, 148, 167, 242, 13, 23,
     57, 75, 221, 124, 132, 151, 162, 253, 28, 36, 108, 180, 199, 82, 246, 1]"

definition log_table :: "int list" where
  "log_table = [
     0, 255, 25, 1, 50, 2, 26, 198, 75, 199, 27, 104, 51, 238, 223, 3,
     100, 4, 224, 14, 52, 141, 129, 239, 76, 113, 8, 200, 248, 105, 28, 193,
     125, 194, 29, 181, 249, 185, 39, 106, 77, 228, 166, 114, 154, 201, 9, 120,
     101, 47, 138, 5, 33, 15, 225, 36, 18, 240, 130, 69, 53, 147, 218, 142,
     150, 143, 219, 189, 54, 208, 206, 148, 19, 92, 210, 241, 64, 70, 131, 56,
     102, 221, 253, 48, 191, 6, 139, 98, 179, 37, 226, 152, 34, 136, 145, 16,
     126, 110, 72, 195, 163, 182, 30, 66, 58, 107, 40, 84, 250, 133, 61, 186,
     43, 121, 10, 21, 155, 159, 94, 202, 78, 212, 172, 229, 243, 115, 167, 87,
     175, 88, 168, 80, 244, 234, 214, 116, 79, 174, 233, 213, 231, 230, 173, 232,
     44, 215, 117, 122, 235, 22, 11, 245, 89, 203, 95, 176, 156, 169, 81, 160,
     127, 12, 246, 111, 23, 196, 73, 236, 216, 67, 31, 45, 164, 118, 123, 183,
     204, 187, 62, 90, 251, 96, 177, 134, 59, 82, 161, 108, 170, 85, 41, 157,
     151, 178, 135, 144, 97, 190, 220, 252, 188, 149, 207, 205, 55, 63, 91, 209,
     83, 57, 132, 60, 65, 162, 109, 71, 20, 42, 158, 93, 86, 242, 211, 171,
     68, 17, 146, 217, 35, 32, 46, 137, 180, 124, 184, 38, 119, 153, 227, 165,
     103, 74, 237, 222, 197, 49, 254, 24, 13, 99, 140, 128, 192, 247, 112, 7]"


definition inv_table :: "int list" where
  "inv_table = [
     1, 141, 246, 203, 82, 123, 209, 232, 79, 41, 192, 176, 225, 229, 199, 116,
     180, 170, 75, 153, 43, 96, 95, 88, 63, 253, 204, 255, 64, 238, 178, 58,
     110, 90, 241, 85, 77, 168, 201, 193, 10, 152, 21, 48, 68, 162, 194, 44,
     69, 146, 108, 243, 57, 102, 66, 242, 53, 32, 111, 119, 187, 89, 25, 29,
     254, 55, 103, 45, 49, 245, 105, 167, 100, 171, 19, 84, 37, 233, 9, 237,
     92, 5, 202, 76, 36, 135, 191, 24, 62, 34, 240, 81, 236, 97, 23, 22,
     94, 175, 211, 73, 166, 54, 67, 244, 71, 145, 223, 51, 147, 33, 59, 121,
     183, 151, 133, 16, 181, 186, 60, 182, 112, 208, 6, 161, 250, 129, 130, 131,
     126, 127, 128, 150, 115, 190, 86, 155, 158, 149, 217, 247, 2, 185, 164, 222,
     106, 50, 109, 216, 138, 132, 114, 42, 20, 159, 136, 249, 220, 137, 154, 251,
     124, 46, 195, 143, 184, 101, 72, 38, 200, 18, 74, 206, 231, 210, 98, 12,
     224, 31, 239, 17, 117, 120, 113, 165, 142, 118, 61, 189, 188, 134, 87, 11,
     40, 47, 163, 218, 212, 228, 15, 169, 39, 83, 4, 27, 252, 172, 230, 122,
     7, 174, 99, 197, 219, 226, 234, 148, 139, 196, 213, 157, 248, 144, 107, 177,
     13, 214, 235, 198, 14, 207, 173, 8, 78, 215, 227, 93, 80, 30, 179, 91,
     35, 56, 52, 104, 70, 3, 140, 221, 156, 125, 160, 205, 26, 65, 28]"

lemma pow_log_eq: "pow_log = (pow_table, log_table, 3)"
  by code_simp

lemma rcon_eq: "fst rcon_loop = RCON_rom"
  by code_simp

lemma inv_table_eq: "map (\<lambda>l. pow_table ! nat (255 - l)) (tl log_table) = inv_table"
  by code_simp

lemma pow_of_log: "map (\<lambda>l. pow_table ! nat l) (tl log_table) = map int [1 ..< 256]"
  by code_simp

lemma log_range: "list_all (\<lambda>l. 0 \<le> l \<and> l \<le> 255) log_table"
  by code_simp

lemma affine_inv: "map affine inv_table = map uint (tl FSb_rom)"
  by code_simp

lemma RSb_FSb_rom: "map (\<lambda>x. RSb_rom ! unat x) FSb_rom = map word_of_int (map int [0 ..< 256])"
  by code_simp

lemma FSb_RSb_rom: "map (\<lambda>x. FSb_rom ! unat x) RSb_rom = map word_of_int (map int [0 ..< 256])"
  by code_simp

text \<open>Doubling in the field of the S-box, on bytes, and the multiples the tables hold.\<close>

definition xt :: "byte \<Rightarrow> byte" where
  "xt b = push_bit 1 b XOR (if bit b 7 then 0x1B else 0)"

definition g3 :: "byte \<Rightarrow> byte" where "g3 b = xt b XOR b"
definition g9 :: "byte \<Rightarrow> byte" where "g9 b = xt (xt (xt b)) XOR b"
definition gB :: "byte \<Rightarrow> byte" where "gB b = xt (xt (xt b)) XOR xt b XOR b"
definition gD :: "byte \<Rightarrow> byte" where "gD b = xt (xt (xt b)) XOR xt (xt b) XOR b"
definition gE :: "byte \<Rightarrow> byte" where "gE b = xt (xt (xt b)) XOR xt (xt b) XOR xt b"

lemma FT_eq: "FT = map (\<lambda>x. (g3 x, x, x, xt x)) FSb_rom"
  by code_simp

lemma RT_eq: "RT = map (\<lambda>x. (gB x, gD x, g9 x, gE x)) RSb_rom"
  by code_simp


lemma foldl_fill:
  "n \<le> length xs \<Longrightarrow> foldl (\<lambda>xs i. xs[i := f i]) xs [0 ..< n] = map f [0 ..< n] @ drop n xs"
proof (induction n)
  case (Suc n)
  then have "drop n xs = xs ! n # drop (Suc n) xs"
    by (simp add: Cons_nth_drop_Suc)
  then show ?case
    using Suc by (simp add: list_update_append)
qed simp

lemma foldl_assign:
  assumes "distinct (map fst kvs)" "\<forall>k \<in> fst ` set kvs. k < length xs"
  shows "length (foldl (\<lambda>xs (k, v). xs[k := v]) xs kvs) = length xs \<and>
    (\<forall>j < length xs. foldl (\<lambda>xs (k, v). xs[k := v]) xs kvs ! j = (case map_of kvs j of None \<Rightarrow> xs ! j | Some v \<Rightarrow> v))"
  using assms
proof (induction kvs arbitrary: xs)
  case (Cons kv kvs)
  obtain k v where kv: "kv = (k, v)" by force
  have "map_of kvs k = None"
    using Cons.prems kv by (simp add: map_of_eq_None_iff)
  then show ?case
    using Cons.IH [of "xs[k := v]"] Cons.prems kv by (auto simp: nth_list_update split: option.splits)
qed simp

lemma word_of_int_XTIME: "word_of_int (XTIME (uint b)) = xt b"
proof -
  have e: "(0x80 :: int) = 2 ^ 7"
    by simp
  have "(uint b AND 0x80 \<noteq> 0) = bit b 7"
    unfolding e and_exp_eq_0_iff_not_bit by (simp add: bit_uint_iff)
  then show ?thesis
    by (simp add: XTIME_def xt_def of_int_xor_eq push_bit_of_int)
qed

lemma XTIME_byte: "XTIME (uint b) AND 0xFF = uint (xt b)"
proof -
  have "(0xFF :: int) = mask 8"
    by (simp add: mask_eq_exp_minus_1)
  then have "XTIME (uint b) AND 0xFF = take_bit 8 (XTIME (uint b))"
    by (simp add: take_bit_eq_mask)
  then show ?thesis
    by (simp flip: word_of_int_XTIME add: uint_word_of_int_eq)
qed

lemma xt_xor: "xt (a XOR b) = xt a XOR xt b"
  unfolding xt_def by (intro byte_bits_eqI) (auto simp: bit_simps)


lemma foldl_pair:
  "foldl (\<lambda>(a, b) i. (f a i, g b i)) (a, b) is = (foldl f a is, foldl g b is)"
  by (induction "is" arbitrary: a b) auto

lemma rom_lengths: "length FSb_rom = 256" "length RSb_rom = 256" "length log_table = 256" "length pow_table = 256"
  by code_simp+

lemma rom_inverse:
  "RSb_rom ! unat (FSb_rom ! unat b) = b" "FSb_rom ! unat (RSb_rom ! unat b) = (b :: byte)"
proof -
  have b: "unat b < 256" by (rule unat_byte_less)
  show "RSb_rom ! unat (FSb_rom ! unat b) = b"
    using arg_cong [OF RSb_FSb_rom, of "\<lambda>xs. xs ! unat b"] b rom_lengths by simp
  show "FSb_rom ! unat (RSb_rom ! unat b) = b"
    using arg_cong [OF FSb_RSb_rom, of "\<lambda>xs. xs ! unat b"] b rom_lengths by simp
qed

lemma rom_inverse_nth:
  assumes "i < 256"
  shows "RSb_rom ! unat (FSb_rom ! i) = of_nat i" "FSb_rom ! unat (RSb_rom ! i) = of_nat i"
proof -
  have "unat (of_nat i :: byte) = i"
    using assms by (simp add: unat_of_nat)
  then show "RSb_rom ! unat (FSb_rom ! i) = of_nat i" "FSb_rom ! unat (RSb_rom ! i) = of_nat i"
    using rom_inverse [of "of_nat i"] by simp_all
qed

lemma affine_entry:
  assumes "1 \<le> i" "i < 256"
  shows "affine (pow_table ! nat (255 - log_table ! i)) = uint (FSb_rom ! i)"
proof -
  have "pow_table ! nat (255 - log_table ! i) = inv_table ! (i - 1)"
    using arg_cong [OF inv_table_eq, of "\<lambda>xs. xs ! (i - 1)"] assms rom_lengths by (simp add: nth_tl)
  moreover have "length inv_table = 255"
    using arg_cong [OF inv_table_eq, of length] rom_lengths by simp
  ultimately show ?thesis
    using arg_cong [OF affine_inv, of "\<lambda>xs. xs ! (i - 1)"] assms rom_lengths by (simp add: nth_tl)
qed

lemma upt_256: "[0 ..< 256] = 0 # [1 ..< 256]"
  using upt_rec [of 0 256] by simp

lemma sbox_fwd:
  "foldl (\<lambda>fsb i. fsb[i := word_of_int (affine (pow_table ! nat (255 - log_table ! i)))]) ((replicate 256 0)[0 := 0x63]) [1 ..< 256] = FSb_rom"
proof -
  have 0: "FSb_rom ! 0 = 0x63"
    by code_simp
  have "foldl (\<lambda>fsb i. fsb[i := word_of_int (affine (pow_table ! nat (255 - log_table ! i)))]) ((replicate 256 0)[0 := 0x63]) [1 ..< 256]
    = foldl (\<lambda>fsb i. fsb[i := FSb_rom ! i]) ((replicate 256 0)[0 := FSb_rom ! 0]) [1 ..< 256]"
    unfolding 0 by (rule foldl_cong) (simp_all add: affine_entry del: upt_rec_numeral)
  also have "\<dots> = foldl (\<lambda>fsb i. fsb[i := FSb_rom ! i]) (replicate 256 0) [0 ..< 256]"
    unfolding upt_256 by simp
  also have "\<dots> = map ((!) FSb_rom) [0 ..< 256]"
    by (subst foldl_fill) simp_all
  also have "\<dots> = FSb_rom"
    using map_nth [of FSb_rom] by (simp add: rom_lengths)
  finally show ?thesis .
qed

lemma assign_inverse:
  fixes F :: "nat \<Rightarrow> byte" and G :: "byte list"
  assumes "length z = 256" "length G = 256" "distinct ns" "set ns = {..<256}"
    and GF: "\<And>i. i < 256 \<Longrightarrow> G ! unat (F i) = of_nat i"
    and FG: "\<And>j. j < 256 \<Longrightarrow> unat (F (unat (G ! j))) = j"
  shows "foldl (\<lambda>xs i. xs[unat (F i) := of_nat i]) z ns = G"
proof -
  define kvs where "kvs = map (\<lambda>i. (unat (F i), of_nat i :: byte)) ns"
  let ?asg = "\<lambda>xs (k, v). xs[k := v] :: byte list"
  have inj: "i = j" if "unat (F i) = unat (F j)" "i < 256" "j < 256" for i j
  proof -
    have "of_nat i = (of_nat j :: byte)"
      using GF [of i] GF [of j] that by simp
    then show ?thesis
      using that(2,3) by (simp add: word_unat_eq_iff unat_of_nat)
  qed
  have dist: "distinct (map fst kvs)" "\<forall>k \<in> fst ` set kvs. k < length z"
    using inj unat_byte_less assms(1,3,4) by (auto simp: kvs_def distinct_map inj_on_def)
  note assign = foldl_assign [OF dist, unfolded assms(1)]
  have "foldl (\<lambda>xs i. xs[unat (F i) := of_nat i]) z ns = foldl ?asg z kvs"
    by (simp add: kvs_def foldl_map)
  also have "\<dots> = G"
  proof (rule nth_equalityI)
    show "length (foldl ?asg z kvs) = length G"
      using assign assms(2) by simp
  next
    fix j assume "j < length (foldl ?asg z kvs)"
    then have j: "j < 256"
      using assign by simp
    have "(j, G ! j) \<in> set kvs"
      unfolding kvs_def set_map using FG [OF j] unat_byte_less [of "G ! j"] assms(4)
      by (intro image_eqI [where x = "unat (G ! j)"]) simp_all
    then have "map_of kvs j = Some (G ! j)"
      by (rule map_of_is_SomeI [OF dist(1)])
    then show "foldl ?asg z kvs ! j = G ! j"
      using assign j by simp
  qed
  finally show ?thesis .
qed

lemma sbox_inv:
  assumes z: "length z = 256"
  shows "foldl (\<lambda>rsb i. rsb[nat (affine (pow_table ! nat (255 - log_table ! i))) := word_of_int (int i)]) (z[0x63 := 0]) [1 ..< 256]
    = RSb_rom"
proof -
  have 0: "unat (FSb_rom ! 0) = 0x63"
    by code_simp
  have "foldl (\<lambda>rsb i. rsb[nat (affine (pow_table ! nat (255 - log_table ! i))) := word_of_int (int i)]) (z[0x63 := 0]) [1 ..< 256]
    = foldl (\<lambda>rsb i. rsb[unat (FSb_rom ! i) := of_nat i]) (z[0x63 := 0]) [1 ..< 256]"
    by (rule foldl_cong) (simp_all add: affine_entry del: upt_rec_numeral)
  also have "\<dots> = foldl (\<lambda>rsb i. rsb[unat (FSb_rom ! i) := of_nat i]) z [0 ..< 256]"
    unfolding upt_256 foldl_Cons 0 by (simp only: semiring_1_class.of_nat_0)
  also have "\<dots> = RSb_rom"
  proof (rule assign_inverse [OF z rom_lengths(2)])
    show "unat (FSb_rom ! unat (RSb_rom ! j)) = j" if "j < 256" for j
      using rom_inverse_nth(2) [OF that] that by (simp add: unat_of_nat)
  qed (simp_all add: rom_inverse_nth atLeast0LessThan del: upt_rec_numeral)
  finally show ?thesis .
qed

lemma sbox_eq: "sbox_loop pow_table log_table = (FSb_rom, RSb_rom)"
  unfolding sbox_loop_def Let_def foldl_pair sbox_fwd sbox_inv [OF length_replicate] ..

text \<open>The powers of 3 that \<open>pow\<close> holds.\<close>

lemma pow_table_eq: "pow_table = map (\<lambda>i. uint ((g3 ^^ i) 1)) [0 ..< 256]"
proof -
  have step: "(uint b XOR XTIME (uint b)) AND 0xFF = uint (g3 b)" for b
  proof -
    have m: "(0xFF :: int) = mask 8"
      by (simp add: mask_eq_exp_minus_1)
    have "(uint b XOR XTIME (uint b)) AND 0xFF = take_bit 8 (uint b) XOR take_bit 8 (XTIME (uint b))"
      unfolding m by (simp add: take_bit_xor flip: take_bit_eq_mask)
    moreover have "take_bit 8 (XTIME (uint b)) = uint (xt b)"
      using XTIME_byte [of b] unfolding m by (simp flip: take_bit_eq_mask)
    moreover have "take_bit 8 (uint b) = uint b"
      using unsigned_less [of b, where 'a = int] by (simp add: take_bit_int_eq_self_iff)
    ultimately show ?thesis
      by (simp add: g3_def unsigned_xor_eq xor.commute)
  qed
  have "foldl (\<lambda>(pow, log, x) i. (pow[i := x], log[nat x := int i], (x XOR XTIME x) AND 0xFF)) (p, l, 1) [0 ..< n]
      = (foldl (\<lambda>pow i. pow[i := uint ((g3 ^^ i) 1)]) p [0 ..< n],
         foldl (\<lambda>log i. log[nat (uint ((g3 ^^ i) 1)) := int i]) l [0 ..< n], uint ((g3 ^^ n) 1))" for n p l
    by (induction n) (simp_all add: step)
  from this [of "replicate 256 0" "replicate 256 0" 256] have
    "pow_table = foldl (\<lambda>pow i. pow[i := uint ((g3 ^^ i) 1)]) (replicate 256 0) [0 ..< 256]"
    using pow_log_eq unfolding pow_log_def by (simp only: prod.inject)
  then show ?thesis
    by (simp only: foldl_fill length_replicate drop_replicate order.refl diff_self_eq_0 replicate_0 append_Nil2)
qed

text \<open>A multiple commutes with the multiplication by 3, so that \<open>MUL\<close> adds logarithms.\<close>

lemma g3_xt: "g3 (xt b) = xt (g3 b)" and g3_xor: "g3 (a XOR b) = g3 a XOR g3 b"
  by (simp_all add: g3_def xt_xor xor.assoc xor.left_commute)

lemma pow_entry: "i < 256 \<Longrightarrow> pow_table ! i = uint ((g3 ^^ i) 1)"
  unfolding pow_table_eq by (simp del: upt_rec_numeral)

lemma g3_255: "(g3 ^^ 255) 1 = 1"
proof -
  have "pow_table ! 255 = 1" by code_simp
  then show ?thesis
    using pow_entry [of 255] by (metis numeral_less_iff order.refl word_of_int_1 word_of_int_uint semiring_norm(76,78,80,81))
qed

lemma g3_mod: "(g3 ^^ (n mod 255)) 1 = (g3 ^^ n) 1"
proof -
  have k: "(g3 ^^ (255 * k)) 1 = 1" for k
    by (induction k) (simp_all add: funpow_add g3_255 del: funpow.simps)
  have "(g3 ^^ n) 1 = (g3 ^^ (n mod 255 + 255 * (n div 255))) 1"
    by simp
  also have "\<dots> = (g3 ^^ (n mod 255)) 1"
    by (simp only: funpow_add o_apply k)
  finally show ?thesis ..
qed

lemma MUL_log:
  assumes m: "\<And>b. m (g3 b) = g3 (m b)" "m 0 = 0"
    and c: "1 \<le> c" "c < 256" "uint (m 1) = c"
  shows "MUL pow_table log_table c (uint x) = uint (m x)"
proof (cases "x = 0")
  case False
  have commute: "m ((g3 ^^ i) b) = (g3 ^^ i) (m b)" for i b
    by (induction i) (simp_all add: m)
  have entry: "pow_table ! nat (log_table ! i) = int i \<and> 0 \<le> log_table ! i \<and> log_table ! i \<le> 255" if "1 \<le> i" "i < 256" for i
    using arg_cong [OF pow_of_log, of "\<lambda>xs. xs ! (i - 1)"] log_range that rom_lengths
    by (simp add: nth_tl list_all_length)
  define lx lc where "lx = nat (log_table ! unat x)" and "lc = nat (log_table ! nat c)"
  have x: "1 \<le> unat x" "unat x < 256"
    using False unat_byte_less [of x] by (auto simp: Suc_le_eq unat_gt_0)
  have "lx < 256" "lc < 256"
    using entry [OF x] entry [of "nat c"] c unfolding lx_def lc_def by linarith+
  then have lx: "(g3 ^^ lx) 1 = x" "int lx = log_table ! unat x" and lc: "(g3 ^^ lc) 1 = m 1" "int lc = log_table ! nat c"
    using entry [OF x] entry [of "nat c"] pow_entry [of lx] pow_entry [of lc] c
    by (simp_all add: lx_def lc_def word_uint_eq_iff)
  have "nat ((log_table ! nat c + log_table ! unat x) mod 255) = (lc + lx) mod 255"
    unfolding lx(2) [symmetric] lc(2) [symmetric] by (simp add: nat_mod_distrib flip: of_nat_add)
  then have "MUL pow_table log_table c (uint x) = uint ((g3 ^^ ((lc + lx) mod 255)) 1)"
    using False c pow_entry [of "(lc + lx) mod 255"] less_trans [OF mod_less_divisor, of 255 256 "lc + lx"]
    by (simp add: MUL_def uint_0_iff)
  also have "(g3 ^^ ((lc + lx) mod 255)) 1 = (g3 ^^ lx) (m 1)"
    unfolding g3_mod using lc(1) by (simp add: funpow_add add.commute [of lc])
  also have "\<dots> = m x"
    using commute [of lx 1] lx(1) by simp
  finally show ?thesis .
qed (simp add: MUL_def m)

lemma xt_0: "xt 0 = 0"
  by (simp add: xt_def)

lemma multiples_of_1: "uint (gE 1) = 0x0E" "uint (g9 1) = 0x09" "uint (gD 1) = 0x0D" "uint (gB 1) = 0x0B"
  by code_simp+

lemma MUL_consts:
  "MUL pow_table log_table 0x0E (uint x) = uint (gE x)" "MUL pow_table log_table 0x09 (uint x) = uint (g9 x)"
  "MUL pow_table log_table 0x0D (uint x) = uint (gD x)" "MUL pow_table log_table 0x0B (uint x) = uint (gB x)"
proof -
  have commute: "gE (g3 b) = g3 (gE b)" "g9 (g3 b) = g3 (g9 b)" "gD (g3 b) = g3 (gD b)" "gB (g3 b) = g3 (gB b)" for b
    by (simp_all add: gE_def g9_def gD_def gB_def g3_xt g3_xor)
  have zero: "gE 0 = 0" "g9 0 = 0" "gD 0 = 0" "gB 0 = 0"
    by (simp_all add: gE_def g9_def gD_def gB_def xt_0)
  show "MUL pow_table log_table 0x0E (uint x) = uint (gE x)" "MUL pow_table log_table 0x09 (uint x) = uint (g9 x)"
    "MUL pow_table log_table 0x0D (uint x) = uint (gD x)" "MUL pow_table log_table 0x0B (uint x) = uint (gB x)"
    by (rule MUL_log, simp_all add: commute zero multiples_of_1)+
qed

lemma ROTL8_V: "ROTL8 (V a b c d) = V b c d a"
proof (rule bit_word_eqI)
  fix k assume "k < LENGTH(32)"
  then consider "k < 8" | "8 \<le> k" "k < 16" | "16 \<le> k" "k < 24" | "24 \<le> k" "k < 32"
    by fastforce
  then show "bit (ROTL8 (V a b c d)) k = bit (V b c d a) k"
    by cases (auto simp: ROTL8_def V_def bit_simps dest: bit_imp_le_length)
qed

lemma V_xor: "word_of_int (uint d) XOR push_bit 8 (word_of_int (uint c)) XOR push_bit 16 (word_of_int (uint b)) XOR
  push_bit 24 (word_of_int (uint a)) = V a b c d"
proof (rule bit_word_eqI)
  fix k assume "k < LENGTH(32)"
  then consider "k < 8" | "8 \<le> k" "k < 16" | "16 \<le> k" "k < 24" | "24 \<le> k" "k < 32"
    by fastforce
  then show "bit (word_of_int (uint d) XOR push_bit 8 (word_of_int (uint c)) XOR push_bit 16 (word_of_int (uint b)) XOR
      push_bit 24 (word_of_int (uint a)) :: u32) k = bit (V a b c d) k"
    by cases (auto simp: V_def bit_simps dest: bit_imp_le_length)
qed


definition tab :: "(nat \<Rightarrow> u32) \<Rightarrow> nat \<Rightarrow> u32 list" where
  "tab f n = map f [0 ..< n] @ replicate (256 - n) 0"

lemma tab_step: "n < 256 \<Longrightarrow> (tab f n)[n := f n] = tab f (Suc n)"
proof -
  assume "n < 256"
  then have "replicate (256 - n) (0 :: u32) = 0 # replicate (256 - Suc n) 0"
    by (metis Suc_diff_Suc replicate_Suc)
  then show ?thesis
    by (simp add: tab_def list_update_append)
qed

lemma tab_full: "length xs = 256 \<Longrightarrow> (\<And>i. i < 256 \<Longrightarrow> f i = h (xs ! i)) \<Longrightarrow> tab f 256 = map h xs"
  by (rule nth_equalityI) (simp_all add: tab_def del: upt_rec_numeral)

text \<open>The entries as the macro \<open>V\<close> builds them.\<close>

definition ft_entry :: "nat \<Rightarrow> u32" where
  "ft_entry i = (let s = FSb_rom ! i in V (g3 s) s s (xt s))"

definition rt_entry :: "nat \<Rightarrow> u32" where
  "rt_entry i = (let s = RSb_rom ! i in V (gB s) (gD s) (g9 s) (gE s))"

definition filled :: "nat \<Rightarrow> aes_tables" where
  "filled n = \<lparr>FSb = FSb_rom, RSb = RSb_rom,
     FT0 = tab ft_entry n, FT1 = tab (\<lambda>i. ROTL8 (ft_entry i)) n, FT2 = tab (\<lambda>i. ROTL8 (ROTL8 (ft_entry i))) n,
     FT3 = tab (\<lambda>i. ROTL8 (ROTL8 (ROTL8 (ft_entry i)))) n,
     RT0 = tab rt_entry n, RT1 = tab (\<lambda>i. ROTL8 (rt_entry i)) n, RT2 = tab (\<lambda>i. ROTL8 (ROTL8 (rt_entry i))) n,
     RT3 = tab (\<lambda>i. ROTL8 (ROTL8 (ROTL8 (rt_entry i)))) n, RCON = RCON_rom\<rparr>"

lemma table_step_filled:
  assumes "n < 256"
  shows "table_step pow_table log_table (filled n) n = filled (Suc n)"
proof -
  define s where "s = FSb_rom ! n"
  define r where "r = RSb_rom ! n"
  have m: "(0xFF :: int) = mask 8"
    by (simp add: mask_eq_exp_minus_1)
  have z: "(uint (xt s) XOR uint s) AND 0xFF = uint (g3 s)"
    unfolding m g3_def unsigned_xor_eq [symmetric] take_bit_eq_mask [symmetric]
    using unsigned_less [of "xt s XOR s", where 'a = int] by (simp add: take_bit_int_eq_self_iff)
  have f: "word_of_int (uint (xt s)) XOR push_bit 8 (word_of_int (uint s)) XOR push_bit 16 (word_of_int (uint s)) XOR
      push_bit 24 (word_of_int (uint (g3 s))) = ft_entry n"
    unfolding V_xor ft_entry_def Let_def s_def ..
  have g: "word_of_int (uint (gE r)) XOR push_bit 8 (word_of_int (uint (g9 r))) XOR push_bit 16 (word_of_int (uint (gD r))) XOR
      push_bit 24 (word_of_int (uint (gB r))) = rt_entry n"
    unfolding V_xor rt_entry_def Let_def r_def ..
  have t: "FSb (filled n) ! n = s" "RSb (filled n) ! n = r"
    by (simp_all add: filled_def s_def r_def)
  show ?thesis
    unfolding table_step_def Let_def t XTIME_byte z MUL_consts f g
    using tab_step [OF assms, of ft_entry] tab_step [OF assms, of "\<lambda>i. ROTL8 (ft_entry i)"]
      tab_step [OF assms, of "\<lambda>i. ROTL8 (ROTL8 (ft_entry i))"] tab_step [OF assms, of "\<lambda>i. ROTL8 (ROTL8 (ROTL8 (ft_entry i)))"]
      tab_step [OF assms, of rt_entry] tab_step [OF assms, of "\<lambda>i. ROTL8 (rt_entry i)"]
      tab_step [OF assms, of "\<lambda>i. ROTL8 (ROTL8 (rt_entry i))"] tab_step [OF assms, of "\<lambda>i. ROTL8 (ROTL8 (ROTL8 (rt_entry i)))"]
    by (simp add: filled_def)
qed

lemma gen_tables_eq: "aes_gen_tables = aes_rom_tables"
proof -
  have "foldl (table_step pow_table log_table) (filled 0) [0 ..< n] = filled n" if "n \<le> 256" for n
    using that by (induction n) (simp_all add: table_step_filled)
  from this [of 256] have loop: "foldl (table_step pow_table log_table) (filled 0) [0 ..< 256] = filled 256"
    by simp
  have start: "filled 0 = \<lparr>FSb = FSb_rom, RSb = RSb_rom, FT0 = replicate 256 0, FT1 = replicate 256 0, FT2 = replicate 256 0,
      FT3 = replicate 256 0, RT0 = replicate 256 0, RT1 = replicate 256 0, RT2 = replicate 256 0, RT3 = replicate 256 0, RCON = RCON_rom\<rparr>"
    by (simp only: filled_def tab_def upt_0 list.map append_Nil diff_zero)
  have len: "length FT = 256" "length RT = 256"
    by (simp_all add: FT_eq RT_eq rom_lengths)
  have f: "tab (\<lambda>i. r (ft_entry i)) 256 = map (\<lambda>(a, b, c, d). v a b c d) FT" "tab (\<lambda>i. r (rt_entry i)) 256 = map (\<lambda>(a, b, c, d). v a b c d) RT"
    if "\<And>a b c d. r (V a b c d) = v a b c d" for r v
    by (rule tab_full; simp add: that len ft_entry_def rt_entry_def Let_def FT_eq RT_eq rom_lengths)+
  have "filled 256 = aes_rom_tables"
    unfolding filled_def aes_rom_tables_def
    using f [of "\<lambda>x. x" V] f [of ROTL8 "\<lambda>a b c d. V b c d a"] f [of "\<lambda>x. ROTL8 (ROTL8 x)" "\<lambda>a b c d. V c d a b"]
      f [of "\<lambda>x. ROTL8 (ROTL8 (ROTL8 x))" "\<lambda>a b c d. V d a b c"]
    by (simp only: ROTL8_V)
  then show ?thesis
    unfolding aes_gen_tables_def pow_log_eq prod.case sbox_eq rcon_eq Let_def start [symmetric] loop .
qed

end
