(* ===== verification/Aes.thy ===== *)
theory Aes
  imports Aes_Tables
begin


text \<open>
  The block cipher of \<open>mbedtls/library/aes.c\<close>: the key schedules and the rounds by
  tables, and the cipher and its inverse as FIPS 197 states them.
\<close>

record aes_context =
  aes_nr :: nat
  aes_rk :: "u32 list"

definition MBEDTLS_ERR_AES_INVALID_KEY_LENGTH :: int where "MBEDTLS_ERR_AES_INVALID_KEY_LENGTH = - 0x0020"
definition MBEDTLS_ERR_AES_INVALID_INPUT_LENGTH :: int where "MBEDTLS_ERR_AES_INVALID_INPUT_LENGTH = - 0x0022"

definition mbedtls_aes_init :: aes_context where
  "mbedtls_aes_init = \<lparr>aes_nr = 0, aes_rk = replicate 68 0\<rparr>"

text \<open>The tables, as the macros access them; the index is a masked word.\<close>

definition AES_FSb :: "u32 \<Rightarrow> u32" where "AES_FSb idx = ucast (FSb aes_gen_tables ! unat idx)"
definition AES_RSb :: "u32 \<Rightarrow> u32" where "AES_RSb idx = ucast (RSb aes_gen_tables ! unat idx)"
definition AES_FT0 :: "u32 \<Rightarrow> u32" where "AES_FT0 idx = FT0 aes_gen_tables ! unat idx"
definition AES_FT1 :: "u32 \<Rightarrow> u32" where "AES_FT1 idx = FT1 aes_gen_tables ! unat idx"
definition AES_FT2 :: "u32 \<Rightarrow> u32" where "AES_FT2 idx = FT2 aes_gen_tables ! unat idx"
definition AES_FT3 :: "u32 \<Rightarrow> u32" where "AES_FT3 idx = FT3 aes_gen_tables ! unat idx"
definition AES_RT0 :: "u32 \<Rightarrow> u32" where "AES_RT0 idx = RT0 aes_gen_tables ! unat idx"
definition AES_RT1 :: "u32 \<Rightarrow> u32" where "AES_RT1 idx = RT1 aes_gen_tables ! unat idx"
definition AES_RT2 :: "u32 \<Rightarrow> u32" where "AES_RT2 idx = RT2 aes_gen_tables ! unat idx"
definition AES_RT3 :: "u32 \<Rightarrow> u32" where "AES_RT3 idx = RT3 aes_gen_tables ! unat idx"

subsection \<open>Key schedules\<close>

text \<open>
  The four S-box lookups of the schedule, on the word rotated by a byte and on the word
  itself. The round keys are written from index \<open>k\<close> on, where \<open>RK\<close> points.
\<close>

definition sub_rot_word :: "u32 \<Rightarrow> u32" where
  "sub_rot_word w =
     AES_FSb (drop_bit 8 w AND 0xFF) XOR push_bit 8 (AES_FSb (drop_bit 16 w AND 0xFF)) XOR
     push_bit 16 (AES_FSb (drop_bit 24 w AND 0xFF)) XOR push_bit 24 (AES_FSb (w AND 0xFF))"

definition sub_word :: "u32 \<Rightarrow> u32" where
  "sub_word w =
     AES_FSb (w AND 0xFF) XOR push_bit 8 (AES_FSb (drop_bit 8 w AND 0xFF)) XOR
     push_bit 16 (AES_FSb (drop_bit 16 w AND 0xFF)) XOR push_bit 24 (AES_FSb (drop_bit 24 w AND 0xFF))"

definition key_step128 :: "u32 list \<Rightarrow> nat \<Rightarrow> u32 list" where
  "key_step128 rk i =
     (let k = 4 * i;
          rk = rk[k + 4 := rk ! k XOR RCON aes_gen_tables ! i XOR sub_rot_word (rk ! (k + 3))];
          rk = rk[k + 5 := rk ! (k + 1) XOR rk ! (k + 4)];
          rk = rk[k + 6 := rk ! (k + 2) XOR rk ! (k + 5)]
      in rk[k + 7 := rk ! (k + 3) XOR rk ! (k + 6)])"

definition key_step192 :: "u32 list \<Rightarrow> nat \<Rightarrow> u32 list" where
  "key_step192 rk i =
     (let k = 6 * i;
          rk = rk[k + 6 := rk ! k XOR RCON aes_gen_tables ! i XOR sub_rot_word (rk ! (k + 5))];
          rk = rk[k + 7 := rk ! (k + 1) XOR rk ! (k + 6)];
          rk = rk[k + 8 := rk ! (k + 2) XOR rk ! (k + 7)];
          rk = rk[k + 9 := rk ! (k + 3) XOR rk ! (k + 8)];
          rk = rk[k + 10 := rk ! (k + 4) XOR rk ! (k + 9)]
      in rk[k + 11 := rk ! (k + 5) XOR rk ! (k + 10)])"

definition key_step256 :: "u32 list \<Rightarrow> nat \<Rightarrow> u32 list" where
  "key_step256 rk i =
     (let k = 8 * i;
          rk = rk[k + 8 := rk ! k XOR RCON aes_gen_tables ! i XOR sub_rot_word (rk ! (k + 7))];
          rk = rk[k + 9 := rk ! (k + 1) XOR rk ! (k + 8)];
          rk = rk[k + 10 := rk ! (k + 2) XOR rk ! (k + 9)];
          rk = rk[k + 11 := rk ! (k + 3) XOR rk ! (k + 10)];
          rk = rk[k + 12 := rk ! (k + 4) XOR sub_word (rk ! (k + 11))];
          rk = rk[k + 13 := rk ! (k + 5) XOR rk ! (k + 12)];
          rk = rk[k + 14 := rk ! (k + 6) XOR rk ! (k + 13)]
      in rk[k + 15 := rk ! (k + 7) XOR rk ! (k + 14)])"

definition mbedtls_aes_setkey_enc :: "aes_context \<Rightarrow> byte list \<Rightarrow> nat \<Rightarrow> aes_context res" where
  "mbedtls_aes_setkey_enc ctx key keybits =
     (case (if keybits = 128 then Some 10 else if keybits = 192 then Some 12 else if keybits = 256 then Some 14 else None) of
        None \<Rightarrow> Inl MBEDTLS_ERR_AES_INVALID_KEY_LENGTH
      | Some nr \<Rightarrow>
          let rk = foldl (\<lambda>rk i. rk[i := GET_UINT32_LE key (4 * i)]) (aes_rk ctx) [0 ..< keybits div 32];
              rk = (if nr = 10 then foldl key_step128 rk [0 ..< 10]
                    else if nr = 12 then foldl key_step192 rk [0 ..< 8]
                    else foldl key_step256 rk [0 ..< 7])
          in Inr (ctx\<lparr>aes_nr := nr, aes_rk := rk\<rparr>))"

definition inv_key_word :: "u32 \<Rightarrow> u32" where
  "inv_key_word w =
     AES_RT0 (AES_FSb (w AND 0xFF)) XOR AES_RT1 (AES_FSb (drop_bit 8 w AND 0xFF)) XOR
     AES_RT2 (AES_FSb (drop_bit 16 w AND 0xFF)) XOR AES_RT3 (AES_FSb (drop_bit 24 w AND 0xFF))"

text \<open>The words of the round keys in the order in which the loop with \<open>SK\<close> writes them.\<close>

definition inv_keys :: "nat \<Rightarrow> u32 list \<Rightarrow> u32 list" where
  "inv_keys nr sk =
     take 4 (drop (4 * nr) sk) @
     concat (map (\<lambda>i. map inv_key_word (take 4 (drop (4 * i) sk))) (rev [1 ..< nr])) @
     take 4 sk"

definition mbedtls_aes_setkey_dec :: "aes_context \<Rightarrow> byte list \<Rightarrow> nat \<Rightarrow> aes_context res" where
  "mbedtls_aes_setkey_dec ctx key keybits =
     chk (mbedtls_aes_setkey_enc mbedtls_aes_init key keybits) (\<lambda>cty.
     Inr (ctx\<lparr>aes_nr := aes_nr cty, aes_rk := memcpy (aes_rk ctx) 0 (inv_keys (aes_nr cty) (aes_rk cty))\<rparr>))"

subsection \<open>Rounds\<close>

type_synonym quad = "u32 \<times> u32 \<times> u32 \<times> u32"

definition AES_FROUND :: "u32 list \<Rightarrow> quad \<Rightarrow> quad" where
  "AES_FROUND RK Y = (case Y of (Y0, Y1, Y2, Y3) \<Rightarrow>
     (RK ! 0 XOR AES_FT0 (Y0 AND 0xFF) XOR AES_FT1 (drop_bit 8 Y1 AND 0xFF) XOR AES_FT2 (drop_bit 16 Y2 AND 0xFF) XOR AES_FT3 (drop_bit 24 Y3 AND 0xFF),
      RK ! 1 XOR AES_FT0 (Y1 AND 0xFF) XOR AES_FT1 (drop_bit 8 Y2 AND 0xFF) XOR AES_FT2 (drop_bit 16 Y3 AND 0xFF) XOR AES_FT3 (drop_bit 24 Y0 AND 0xFF),
      RK ! 2 XOR AES_FT0 (Y2 AND 0xFF) XOR AES_FT1 (drop_bit 8 Y3 AND 0xFF) XOR AES_FT2 (drop_bit 16 Y0 AND 0xFF) XOR AES_FT3 (drop_bit 24 Y1 AND 0xFF),
      RK ! 3 XOR AES_FT0 (Y3 AND 0xFF) XOR AES_FT1 (drop_bit 8 Y0 AND 0xFF) XOR AES_FT2 (drop_bit 16 Y1 AND 0xFF) XOR AES_FT3 (drop_bit 24 Y2 AND 0xFF)))"

definition AES_RROUND :: "u32 list \<Rightarrow> quad \<Rightarrow> quad" where
  "AES_RROUND RK Y = (case Y of (Y0, Y1, Y2, Y3) \<Rightarrow>
     (RK ! 0 XOR AES_RT0 (Y0 AND 0xFF) XOR AES_RT1 (drop_bit 8 Y3 AND 0xFF) XOR AES_RT2 (drop_bit 16 Y2 AND 0xFF) XOR AES_RT3 (drop_bit 24 Y1 AND 0xFF),
      RK ! 1 XOR AES_RT0 (Y1 AND 0xFF) XOR AES_RT1 (drop_bit 8 Y0 AND 0xFF) XOR AES_RT2 (drop_bit 16 Y3 AND 0xFF) XOR AES_RT3 (drop_bit 24 Y2 AND 0xFF),
      RK ! 2 XOR AES_RT0 (Y2 AND 0xFF) XOR AES_RT1 (drop_bit 8 Y1 AND 0xFF) XOR AES_RT2 (drop_bit 16 Y0 AND 0xFF) XOR AES_RT3 (drop_bit 24 Y3 AND 0xFF),
      RK ! 3 XOR AES_RT0 (Y3 AND 0xFF) XOR AES_RT1 (drop_bit 8 Y2 AND 0xFF) XOR AES_RT2 (drop_bit 16 Y1 AND 0xFF) XOR AES_RT3 (drop_bit 24 Y0 AND 0xFF)))"

definition last_word :: "(u32 \<Rightarrow> u32) \<Rightarrow> u32 \<Rightarrow> u32 \<Rightarrow> u32 \<Rightarrow> u32 \<Rightarrow> u32 \<Rightarrow> u32" where
  "last_word sb k a b c d =
     k XOR sb (a AND 0xFF) XOR push_bit 8 (sb (drop_bit 8 b AND 0xFF)) XOR
     push_bit 16 (sb (drop_bit 16 c AND 0xFF)) XOR push_bit 24 (sb (drop_bit 24 d AND 0xFF))"

fun aes_fwd_loop :: "nat \<Rightarrow> u32 list \<Rightarrow> quad \<Rightarrow> u32 list \<times> quad" where
  "aes_fwd_loop 0 RK X = (RK, X)"
| "aes_fwd_loop (Suc i) RK X =
     (let Y = AES_FROUND RK X; X = AES_FROUND (drop 4 RK) Y in aes_fwd_loop i (drop 8 RK) X)"

fun aes_rev_loop :: "nat \<Rightarrow> u32 list \<Rightarrow> quad \<Rightarrow> u32 list \<times> quad" where
  "aes_rev_loop 0 RK X = (RK, X)"
| "aes_rev_loop (Suc i) RK X =
     (let Y = AES_RROUND RK X; X = AES_RROUND (drop 4 RK) Y in aes_rev_loop i (drop 8 RK) X)"

definition load_state :: "u32 list \<Rightarrow> byte list \<Rightarrow> quad" where
  "load_state RK input =
     (GET_UINT32_LE input 0 XOR RK ! 0, GET_UINT32_LE input 4 XOR RK ! 1,
      GET_UINT32_LE input 8 XOR RK ! 2, GET_UINT32_LE input 12 XOR RK ! 3)"

definition store_state :: "quad \<Rightarrow> byte list \<Rightarrow> byte list" where
  "store_state X output = (case X of (X0, X1, X2, X3) \<Rightarrow>
     PUT_UINT32_LE X3 (PUT_UINT32_LE X2 (PUT_UINT32_LE X1 (PUT_UINT32_LE X0 output 0) 4) 8) 12)"

definition mbedtls_internal_aes_encrypt :: "aes_context \<Rightarrow> byte list \<Rightarrow> byte list \<Rightarrow> byte list" where
  "mbedtls_internal_aes_encrypt ctx input output =
     (let RK = aes_rk ctx; X = load_state RK input;
          (RK, X) = aes_fwd_loop (aes_nr ctx div 2 - 1) (drop 4 RK) X;
          (Y0, Y1, Y2, Y3) = AES_FROUND RK X; RK = drop 4 RK
      in store_state
           (last_word AES_FSb (RK ! 0) Y0 Y1 Y2 Y3, last_word AES_FSb (RK ! 1) Y1 Y2 Y3 Y0,
            last_word AES_FSb (RK ! 2) Y2 Y3 Y0 Y1, last_word AES_FSb (RK ! 3) Y3 Y0 Y1 Y2) output)"

definition mbedtls_internal_aes_decrypt :: "aes_context \<Rightarrow> byte list \<Rightarrow> byte list \<Rightarrow> byte list" where
  "mbedtls_internal_aes_decrypt ctx input output =
     (let RK = aes_rk ctx; X = load_state RK input;
          (RK, X) = aes_rev_loop (aes_nr ctx div 2 - 1) (drop 4 RK) X;
          (Y0, Y1, Y2, Y3) = AES_RROUND RK X; RK = drop 4 RK
      in store_state
           (last_word AES_RSb (RK ! 0) Y0 Y3 Y2 Y1, last_word AES_RSb (RK ! 1) Y1 Y0 Y3 Y2,
            last_word AES_RSb (RK ! 2) Y2 Y1 Y0 Y3, last_word AES_RSb (RK ! 3) Y3 Y2 Y1 Y0) output)"

text \<open>The processor has no support for AES, so that the code in C runs.\<close>

definition mbedtls_aes_crypt_ecb :: "aes_context \<Rightarrow> bool \<Rightarrow> byte list \<Rightarrow> byte list \<Rightarrow> byte list" where
  "mbedtls_aes_crypt_ecb ctx encrypt input output =
     (if encrypt then mbedtls_internal_aes_encrypt ctx input output
      else mbedtls_internal_aes_decrypt ctx input output)"


subsection \<open>The cipher of FIPS 197\<close>

text \<open>The state is the list of its 16 bytes, column after column; a round key likewise.\<close>

definition Sbox :: "byte \<Rightarrow> byte" where "Sbox b = FSb_rom ! unat b"
definition InvSbox :: "byte \<Rightarrow> byte" where "InvSbox b = RSb_rom ! unat b"

definition SubBytes :: "byte list \<Rightarrow> byte list" where "SubBytes s = map Sbox s"
definition InvSubBytes :: "byte list \<Rightarrow> byte list" where "InvSubBytes s = map InvSbox s"

definition ShiftRows :: "byte list \<Rightarrow> byte list" where
  "ShiftRows s = map ((!) s) [0, 5, 10, 15, 4, 9, 14, 3, 8, 13, 2, 7, 12, 1, 6, 11]"

definition InvShiftRows :: "byte list \<Rightarrow> byte list" where
  "InvShiftRows s = map ((!) s) [0, 13, 10, 7, 4, 1, 14, 11, 8, 5, 2, 15, 12, 9, 6, 3]"

fun MixColumns :: "byte list \<Rightarrow> byte list" where
  "MixColumns (a # b # c # d # s) =
     [xt a XOR g3 b XOR c XOR d, a XOR xt b XOR g3 c XOR d, a XOR b XOR xt c XOR g3 d, g3 a XOR b XOR c XOR xt d] @ MixColumns s"
| "MixColumns s = s"

fun InvMixColumns :: "byte list \<Rightarrow> byte list" where
  "InvMixColumns (a # b # c # d # s) =
     [gE a XOR gB b XOR gD c XOR g9 d, g9 a XOR gE b XOR gB c XOR gD d,
      gD a XOR g9 b XOR gE c XOR gB d, gB a XOR gD b XOR g9 c XOR gE d] @ InvMixColumns s"
| "InvMixColumns s = s"

definition AddRoundKey :: "byte list \<Rightarrow> byte list \<Rightarrow> byte list" where
  "AddRoundKey k s = map2 (XOR) k s"

definition Round :: "byte list \<Rightarrow> byte list \<Rightarrow> byte list" where
  "Round k s = AddRoundKey k (MixColumns (ShiftRows (SubBytes s)))"

definition InvRound :: "byte list \<Rightarrow> byte list \<Rightarrow> byte list" where
  "InvRound k s = AddRoundKey k (InvMixColumns (InvSubBytes (InvShiftRows s)))"

text \<open>The cipher with the list of its round keys, and the inverse cipher in its equivalent form.\<close>

definition Cipher :: "byte list list \<Rightarrow> byte list \<Rightarrow> byte list" where
  "Cipher ks s = AddRoundKey (last ks) (ShiftRows (SubBytes (fold Round (butlast (tl ks)) (AddRoundKey (hd ks) s))))"

definition EqInvCipher :: "byte list list \<Rightarrow> byte list \<Rightarrow> byte list" where
  "EqInvCipher ks s = AddRoundKey (last ks) (InvShiftRows (InvSubBytes (fold InvRound (butlast (tl ks)) (AddRoundKey (hd ks) s))))"

subsection \<open>Words and bytes\<close>

lemma bit_V:
  "bit (V a b c d) k = (if k < 8 then bit d k else if k < 16 then bit c (k - 8) else if k < 24 then bit b (k - 16)
     else bit a (k - 24))"
  by (auto simp: V_def bit_simps not_less dest: bit_imp_le_length)

lemma word_V: "V (ucast (drop_bit 24 x)) (ucast (drop_bit 16 x)) (ucast (drop_bit 8 x)) (ucast x) = x"
  by (rule bit_word_eqI) (auto simp: bit_V bit_simps)

lemma word_cases_V: obtains a b c d where "x = V a b c d"
  using word_V [of x, symmetric] by blast

lemma le32_V [simp]: "le32 (V a b c d) = [d, c, b, a]"
  unfolding le32_def by (auto intro!: bit_word_eqI simp: bit_V bit_simps)

lemma and_FF_ucast: "(x :: u32) AND 0xFF = ucast (ucast x :: byte)"
proof -
  have m: "(0xFF :: u32) = mask 8"
    by (simp add: mask_eq_exp_minus_1)
  show ?thesis
    unfolding m by (auto intro!: bit_word_eqI simp: bit_simps)
qed

lemma V_bytes [simp]:
  "V a b c d AND 0xFF = ucast d" "drop_bit 8 (V a b c d) AND 0xFF = ucast c"
  "drop_bit 16 (V a b c d) AND 0xFF = ucast b" "drop_bit 24 (V a b c d) AND 0xFF = ucast a"
  unfolding and_FF_ucast by (auto intro!: bit_word_eqI arg_cong [where f = ucast] simp: bit_V bit_simps)

lemma V_xor_V [simp]: "V a b c d XOR V a' b' c' d' = V (a XOR a') (b XOR b') (c XOR c') (d XOR d')"
  by (rule bit_word_eqI) (auto simp: bit_V bit_simps)

lemma V_shifts [simp]:
  "push_bit 8 (V 0 0 0 c) = V 0 0 c 0" "push_bit 16 (V 0 0 0 b) = V 0 b 0 0" "push_bit 24 (V 0 0 0 a) = V a 0 0 0"
  by (simp_all add: V_def)

lemma GET_UINT32_LE_V: "GET_UINT32_LE b i = V (b ! (i + 3)) (b ! (i + 2)) (b ! (i + 1)) (b ! i)"
  by (simp only: GET_UINT32_LE_def V_def or.commute or.left_commute or.assoc)

lemma table_lookups [simp]:
  "AES_FSb (ucast b) = V 0 0 0 (Sbox b)" "AES_RSb (ucast b) = V 0 0 0 (InvSbox b)"
  "AES_FT0 (ucast b) = V (g3 (Sbox b)) (Sbox b) (Sbox b) (xt (Sbox b))"
  "AES_FT1 (ucast b) = V (Sbox b) (Sbox b) (xt (Sbox b)) (g3 (Sbox b))"
  "AES_FT2 (ucast b) = V (Sbox b) (xt (Sbox b)) (g3 (Sbox b)) (Sbox b)"
  "AES_FT3 (ucast b) = V (xt (Sbox b)) (g3 (Sbox b)) (Sbox b) (Sbox b)"
  "AES_RT0 (ucast b) = V (gB (InvSbox b)) (gD (InvSbox b)) (g9 (InvSbox b)) (gE (InvSbox b))"
  "AES_RT1 (ucast b) = V (gD (InvSbox b)) (g9 (InvSbox b)) (gE (InvSbox b)) (gB (InvSbox b))"
  "AES_RT2 (ucast b) = V (g9 (InvSbox b)) (gE (InvSbox b)) (gB (InvSbox b)) (gD (InvSbox b))"
  "AES_RT3 (ucast b) = V (gE (InvSbox b)) (gB (InvSbox b)) (gD (InvSbox b)) (g9 (InvSbox b))"
proof -
  have i: "unat (ucast b :: u32) = unat b"
    by (simp add: unsigned_ucast_eq take_bit_nat_eq_self unat_byte_less less_trans [OF unat_byte_less])
  have b: "unat b < length FSb_rom" "unat b < length RSb_rom"
    using unat_byte_less rom_lengths by simp_all
  show "AES_FSb (ucast b) = V 0 0 0 (Sbox b)" "AES_RSb (ucast b) = V 0 0 0 (InvSbox b)"
    "AES_FT0 (ucast b) = V (g3 (Sbox b)) (Sbox b) (Sbox b) (xt (Sbox b))"
    "AES_FT1 (ucast b) = V (Sbox b) (Sbox b) (xt (Sbox b)) (g3 (Sbox b))"
    "AES_FT2 (ucast b) = V (Sbox b) (xt (Sbox b)) (g3 (Sbox b)) (Sbox b)"
    "AES_FT3 (ucast b) = V (xt (Sbox b)) (g3 (Sbox b)) (Sbox b) (Sbox b)"
    "AES_RT0 (ucast b) = V (gB (InvSbox b)) (gD (InvSbox b)) (g9 (InvSbox b)) (gE (InvSbox b))"
    "AES_RT1 (ucast b) = V (gD (InvSbox b)) (g9 (InvSbox b)) (gE (InvSbox b)) (gB (InvSbox b))"
    "AES_RT2 (ucast b) = V (g9 (InvSbox b)) (gE (InvSbox b)) (gB (InvSbox b)) (gD (InvSbox b))"
    "AES_RT3 (ucast b) = V (gE (InvSbox b)) (gB (InvSbox b)) (gD (InvSbox b)) (g9 (InvSbox b))"
    using b by (simp_all add: AES_FSb_def AES_RSb_def AES_FT0_def AES_FT1_def AES_FT2_def AES_FT3_def
        AES_RT0_def AES_RT1_def AES_RT2_def AES_RT3_def gen_tables_eq aes_rom_tables_def i FT_eq RT_eq Sbox_def InvSbox_def)
      (simp_all add: V_def)
qed

lemma Sbox_inverse [simp]: "InvSbox (Sbox b) = b" "Sbox (InvSbox b) = b"
  by (simp_all add: Sbox_def InvSbox_def rom_inverse)

definition bytes_of :: "quad \<Rightarrow> byte list" where
  "bytes_of X = (case X of (X0, X1, X2, X3) \<Rightarrow> le32 X0 @ le32 X1 @ le32 X2 @ le32 X3)"

lemma xor_left_idem: "(a :: byte) XOR (a XOR b) = b"
  by (simp flip: xor.assoc)

lemmas xor_ac = xor.assoc xor.commute xor.left_commute xor_left_idem

lemma mix_column:
  "le32 (V p q r s XOR AES_FT0 (ucast a) XOR AES_FT1 (ucast b) XOR AES_FT2 (ucast c) XOR AES_FT3 (ucast d)) =
   map2 (XOR) [s, r, q, p] (MixColumns [Sbox a, Sbox b, Sbox c, Sbox d])"
  by (simp add: xor_ac)

lemma inv_mix_column:
  "le32 (V p q r s XOR AES_RT0 (ucast a) XOR AES_RT1 (ucast b) XOR AES_RT2 (ucast c) XOR AES_RT3 (ucast d)) =
   map2 (XOR) [s, r, q, p] (InvMixColumns [InvSbox a, InvSbox b, InvSbox c, InvSbox d])"
  by (simp add: xor_ac)

lemma FROUND_spec:
  assumes "length k = 4"
  shows "bytes_of (AES_FROUND (k @ r) Y) = Round (concat (map le32 k)) (bytes_of Y)"
proof -
  obtain k0 k1 k2 k3 where k: "k = [k0, k1, k2, k3]"
    using assms by (auto simp: list4_conv)
  obtain Y0 Y1 Y2 Y3 where Y: "Y = (Y0, Y1, Y2, Y3)"
    by (cases Y)
  obtain a0 b0 c0 d0 where v0: "Y0 = V a0 b0 c0 d0" by (rule word_cases_V)
  obtain a1 b1 c1 d1 where v1: "Y1 = V a1 b1 c1 d1" by (rule word_cases_V)
  obtain a2 b2 c2 d2 where v2: "Y2 = V a2 b2 c2 d2" by (rule word_cases_V)
  obtain a3 b3 c3 d3 where v3: "Y3 = V a3 b3 c3 d3" by (rule word_cases_V)
  obtain p0 q0 r0 s0 where w0: "k0 = V p0 q0 r0 s0" by (rule word_cases_V)
  obtain p1 q1 r1 s1 where w1: "k1 = V p1 q1 r1 s1" by (rule word_cases_V)
  obtain p2 q2 r2 s2 where w2: "k2 = V p2 q2 r2 s2" by (rule word_cases_V)
  obtain p3 q3 r3 s3 where w3: "k3 = V p3 q3 r3 s3" by (rule word_cases_V)
  show ?thesis
    unfolding Y k v0 v1 v2 v3 w0 w1 w2 w3 
    by (simp add: AES_FROUND_def bytes_of_def Round_def SubBytes_def ShiftRows_def AddRoundKey_def mix_column del: table_lookups)
qed


lemma RROUND_spec:
  assumes "length k = 4"
  shows "bytes_of (AES_RROUND (k @ r) Y) = InvRound (concat (map le32 k)) (bytes_of Y)"
proof -
  obtain k0 k1 k2 k3 where k: "k = [k0, k1, k2, k3]"
    using assms by (auto simp: list4_conv)
  obtain Y0 Y1 Y2 Y3 where Y: "Y = (Y0, Y1, Y2, Y3)"
    by (cases Y)
  obtain a0 b0 c0 d0 where v0: "Y0 = V a0 b0 c0 d0" by (rule word_cases_V)
  obtain a1 b1 c1 d1 where v1: "Y1 = V a1 b1 c1 d1" by (rule word_cases_V)
  obtain a2 b2 c2 d2 where v2: "Y2 = V a2 b2 c2 d2" by (rule word_cases_V)
  obtain a3 b3 c3 d3 where v3: "Y3 = V a3 b3 c3 d3" by (rule word_cases_V)
  obtain p0 q0 r0 s0 where w0: "k0 = V p0 q0 r0 s0" by (rule word_cases_V)
  obtain p1 q1 r1 s1 where w1: "k1 = V p1 q1 r1 s1" by (rule word_cases_V)
  obtain p2 q2 r2 s2 where w2: "k2 = V p2 q2 r2 s2" by (rule word_cases_V)
  obtain p3 q3 r3 s3 where w3: "k3 = V p3 q3 r3 s3" by (rule word_cases_V)
  show ?thesis
    unfolding Y k v0 v1 v2 v3 w0 w1 w2 w3
    by (simp add: AES_RROUND_def bytes_of_def InvRound_def InvSubBytes_def InvShiftRows_def AddRoundKey_def inv_mix_column del: table_lookups)
qed

lemma le32_xor: "le32 (x XOR y) = map2 (XOR) (le32 x) (le32 y)"
proof -
  obtain a b c d where x: "x = V a b c d" by (rule word_cases_V)
  obtain a' b' c' d' where y: "y = V a' b' c' d'" by (rule word_cases_V)
  show ?thesis by (simp add: x y)
qed

lemma le32_last_word:
  assumes "\<And>b. sb (ucast b) = V 0 0 0 (S b)"
  shows "le32 (last_word sb k a b c d) =
    map2 (XOR) (le32 k) [S (le32 a ! 0), S (le32 b ! 1), S (le32 c ! 2), S (le32 d ! 3)]"
proof -
  obtain a0 a1 a2 a3 where a: "a = V a3 a2 a1 a0" by (rule word_cases_V)
  obtain b0 b1 b2 b3 where b: "b = V b3 b2 b1 b0" by (rule word_cases_V)
  obtain c0 c1 c2 c3 where c: "c = V c3 c2 c1 c0" by (rule word_cases_V)
  obtain d0 d1 d2 d3 where d: "d = V d3 d2 d1 d0" by (rule word_cases_V)
  obtain k0 k1 k2 k3 where k: "k = V k3 k2 k1 k0" by (rule word_cases_V)
  show ?thesis
    by (simp add: last_word_def a b c d k assms)
qed

lemma length_bytes_of [simp]: "length (bytes_of X) = 16"
  by (cases X) (simp add: bytes_of_def)

lemma last_round_spec:
  assumes "length k = 4" "\<And>b. sb (ucast b) = V 0 0 0 (S b)"
  shows "bytes_of (last_word sb (k ! 0) Y0 Y1 Y2 Y3, last_word sb (k ! 1) Y1 Y2 Y3 Y0,
      last_word sb (k ! 2) Y2 Y3 Y0 Y1, last_word sb (k ! 3) Y3 Y0 Y1 Y2)
    = AddRoundKey (concat (map le32 k)) (ShiftRows (map S (bytes_of (Y0, Y1, Y2, Y3))))"
    and "bytes_of (last_word sb (k ! 0) Y0 Y3 Y2 Y1, last_word sb (k ! 1) Y1 Y0 Y3 Y2,
      last_word sb (k ! 2) Y2 Y1 Y0 Y3, last_word sb (k ! 3) Y3 Y2 Y1 Y0)
    = AddRoundKey (concat (map le32 k)) (InvShiftRows (map S (bytes_of (Y0, Y1, Y2, Y3))))"
proof -
  obtain k0 k1 k2 k3 where k: "k = [k0, k1, k2, k3]"
    using assms(1) by (auto simp: list4_conv)
  note words = bytes_of_def prod.case le32_last_word [where sb = sb and S = S, OF assms(2)] k
  show "bytes_of (last_word sb (k ! 0) Y0 Y1 Y2 Y3, last_word sb (k ! 1) Y1 Y2 Y3 Y0,
      last_word sb (k ! 2) Y2 Y3 Y0 Y1, last_word sb (k ! 3) Y3 Y0 Y1 Y2)
    = AddRoundKey (concat (map le32 k)) (ShiftRows (map S (bytes_of (Y0, Y1, Y2, Y3))))"
    unfolding words by (simp add: ShiftRows_def AddRoundKey_def le32_def)
  show "bytes_of (last_word sb (k ! 0) Y0 Y3 Y2 Y1, last_word sb (k ! 1) Y1 Y0 Y3 Y2,
      last_word sb (k ! 2) Y2 Y1 Y0 Y3, last_word sb (k ! 3) Y3 Y2 Y1 Y0)
    = AddRoundKey (concat (map le32 k)) (InvShiftRows (map S (bytes_of (Y0, Y1, Y2, Y3))))"
    unfolding words by (simp add: InvShiftRows_def AddRoundKey_def le32_def)
qed

lemma store_state_bytes: "length output = 16 \<Longrightarrow> store_state X output = bytes_of X"
  by (cases X) (simp add: store_state_def bytes_of_def bytes_simps, simp add: memcpy_def)

lemma load_state_spec:
  assumes "length k = 4" "length input = 16"
  shows "bytes_of (load_state (k @ r) input) = AddRoundKey (concat (map le32 k)) input"
proof -
  obtain k0 k1 k2 k3 where k: "k = [k0, k1, k2, k3]"
    using assms(1) by (auto simp: list4_conv)
  obtain a b c d e f g h i j l m n p q s where i: "input = [a, b, c, d, e, f, g, h, i, j, l, m, n, p, q, s]"
    using assms(2) by (auto simp: numeral_eq_Suc length_Suc_conv)
  show ?thesis
    by (simp add: load_state_def bytes_of_def le32_xor GET_UINT32_LE_V k i AddRoundKey_def le32_def [of k0] le32_def [of k1]
        le32_def [of k2] le32_def [of k3] xor.commute)
qed

subsection \<open>The loops\<close>

fun round_keys :: "nat \<Rightarrow> u32 list \<Rightarrow> byte list list" where
  "round_keys 0 RK = []"
| "round_keys (Suc n) RK = concat (map le32 (take 4 RK)) # round_keys n (drop 4 RK)"

lemma split4: "4 \<le> length RK \<Longrightarrow> \<exists>k r. RK = k @ r \<and> length k = 4"
  by (rule exI [of _ "take 4 RK"], rule exI [of _ "drop 4 RK"]) simp

lemma round_keys_add: "round_keys (m + n) RK = round_keys m RK @ round_keys n (drop (4 * m) RK)"
  by (induction m arbitrary: RK) (simp_all add: add.commute)

text \<open>Both directions run two rounds by tables in each pass of a loop.\<close>

locale table_rounds =
  fixes ROUND :: "u32 list \<Rightarrow> quad \<Rightarrow> quad" and loop :: "nat \<Rightarrow> u32 list \<Rightarrow> quad \<Rightarrow> u32 list \<times> quad"
    and step :: "byte list \<Rightarrow> byte list \<Rightarrow> byte list"
  assumes round: "length k = 4 \<Longrightarrow> bytes_of (ROUND (k @ r) Y) = step (concat (map le32 k)) (bytes_of Y)"
    and loop_0: "loop 0 RK X = (RK, X)"
    and loop_Suc: "loop (Suc i) RK X = loop i (drop 8 RK) (ROUND (drop 4 RK) (ROUND RK X))"
begin

lemma round_drop:
  assumes "4 * n + 4 \<le> length RK"
  shows "bytes_of (ROUND (drop (4 * n) RK) Y) = step (concat (map le32 (take 4 (drop (4 * n) RK)))) (bytes_of Y)"
  using round [of "take 4 (drop (4 * n) RK)" "drop 4 (drop (4 * n) RK)" Y] assms by (simp del: drop_drop)

lemma loop_spec:
  "8 * i \<le> length RK \<Longrightarrow>
   \<exists>X'. loop i RK X = (drop (8 * i) RK, X') \<and> bytes_of X' = fold step (round_keys (2 * i) RK) (bytes_of X)"
proof (induction i arbitrary: RK X)
  case (Suc i)
  then show ?case
    using Suc.IH [of "drop 8 RK" "ROUND (drop 4 RK) (ROUND RK X)"] round_drop [of 0 RK X] round_drop [of 1 RK "ROUND RK X"]
    by (simp add: loop_Suc add.commute)
qed (simp add: loop_0)

lemma all_rounds:
  assumes "8 * i + 4 \<le> length RK"
  obtains X' where "loop i RK X = (drop (8 * i) RK, X')"
    "bytes_of (ROUND (drop (8 * i) RK) X') = fold step (round_keys (2 * i + 1) RK) (bytes_of X)"
proof -
  obtain X' where X': "loop i RK X = (drop (8 * i) RK, X')" "bytes_of X' = fold step (round_keys (2 * i) RK) (bytes_of X)"
    using loop_spec [of i RK X] assms by auto
  moreover have "bytes_of (ROUND (drop (8 * i) RK) X') = fold step (round_keys (2 * i + 1) RK) (bytes_of X)"
    using round_drop [of "2 * i" RK X'] assms X'(2) unfolding round_keys_add by (simp add: mult.assoc)
  ultimately show ?thesis
    using that by blast
qed

end

interpretation fwd: table_rounds AES_FROUND aes_fwd_loop Round
  by unfold_locales (simp_all add: FROUND_spec)

interpretation bwd: table_rounds AES_RROUND aes_rev_loop InvRound
  by unfold_locales (simp_all add: RROUND_spec)

lemma crypt_frame:
  assumes "length rk = n" "8 * i + 12 \<le> n" "length input = 16"
  obtains k RK l where "rk = k @ RK" "length k = 4" "8 * i + 4 \<le> length RK" "l = take 4 (drop (8 * i + 4) RK)" "length l = 4"
    "round_keys (2 * i + 3) rk = concat (map le32 k) # round_keys (2 * i + 1) RK @ [concat (map le32 l)]"
    "bytes_of (load_state rk input) = AddRoundKey (concat (map le32 k)) input"
proof -
  obtain k RK where k: "rk = k @ RK" "length k = 4"
    using split4 [of rk] assms by auto
  have "round_keys (2 * i + 3) rk = concat (map le32 k) # round_keys (2 * i + 1 + 1) RK"
    using k by (simp add: numeral_3_eq_3)
  also have "round_keys (2 * i + 1 + 1) RK = round_keys (2 * i + 1) RK @ [concat (map le32 (take 4 (drop (8 * i + 4) RK)))]"
    unfolding round_keys_add by (simp add: add.commute)
  finally show ?thesis
    using that [of k RK "take 4 (drop (8 * i + 4) RK)"] k assms load_state_spec [OF k(2) assms(3), of RK] by simp
qed

lemma encrypt_spec:
  assumes "aes_nr ctx = 2 * i + 2" "8 * i + 12 \<le> length (aes_rk ctx)" "length input = 16" "length output = 16"
  shows "mbedtls_internal_aes_encrypt ctx input output = Cipher (round_keys (aes_nr ctx + 1) (aes_rk ctx)) input"
proof -
  let ?X = "load_state (aes_rk ctx) input"
  obtain k RK l where k: "aes_rk ctx = k @ RK" "length k = 4" "8 * i + 4 \<le> length RK" "l = take 4 (drop (8 * i + 4) RK)" "length l = 4"
    "round_keys (2 * i + 3) (aes_rk ctx) = concat (map le32 k) # round_keys (2 * i + 1) RK @ [concat (map le32 l)]"
    "bytes_of ?X = AddRoundKey (concat (map le32 k)) input"
    by (rule crypt_frame [OF refl assms(2,3)])
  obtain X' where X': "aes_fwd_loop i RK ?X = (drop (8 * i) RK, X')"
    "bytes_of (AES_FROUND (drop (8 * i) RK) X') = fold Round (round_keys (2 * i + 1) RK) (bytes_of ?X)"
    by (rule fwd.all_rounds [OF k(3)])
  obtain Y0 Y1 Y2 Y3 where Y: "AES_FROUND (drop (8 * i) RK) X' = (Y0, Y1, Y2, Y3)"
    by (cases "AES_FROUND (drop (8 * i) RK) X'")
  have nth: "drop (8 * i + 4) RK ! j = l ! j" if "j < 4" for j
    using that by (simp add: k(4))
  have "mbedtls_internal_aes_encrypt ctx input output = AddRoundKey (concat (map le32 l)) (ShiftRows (map Sbox (bytes_of (Y0, Y1, Y2, Y3))))"
    using last_round_spec(1) [OF k(5), of AES_FSb Sbox Y0 Y1 Y2 Y3] k(1,2) assms(1,4) X'(1) Y nth [of 0] nth [of 1] nth [of 2] nth [of 3]
    by (simp add: mbedtls_internal_aes_encrypt_def store_state_bytes Let_def add.commute)
  then show ?thesis
    using X'(2) Y k(6,7) assms(1) by (simp add: Cipher_def SubBytes_def numeral_3_eq_3 butlast_append del: round_keys.simps)
qed

lemma decrypt_spec:
  assumes "aes_nr ctx = 2 * i + 2" "8 * i + 12 \<le> length (aes_rk ctx)" "length input = 16" "length output = 16"
  shows "mbedtls_internal_aes_decrypt ctx input output = EqInvCipher (round_keys (aes_nr ctx + 1) (aes_rk ctx)) input"
proof -
  let ?X = "load_state (aes_rk ctx) input"
  obtain k RK l where k: "aes_rk ctx = k @ RK" "length k = 4" "8 * i + 4 \<le> length RK" "l = take 4 (drop (8 * i + 4) RK)" "length l = 4"
    "round_keys (2 * i + 3) (aes_rk ctx) = concat (map le32 k) # round_keys (2 * i + 1) RK @ [concat (map le32 l)]"
    "bytes_of ?X = AddRoundKey (concat (map le32 k)) input"
    by (rule crypt_frame [OF refl assms(2,3)])
  obtain X' where X': "aes_rev_loop i RK ?X = (drop (8 * i) RK, X')"
    "bytes_of (AES_RROUND (drop (8 * i) RK) X') = fold InvRound (round_keys (2 * i + 1) RK) (bytes_of ?X)"
    by (rule bwd.all_rounds [OF k(3)])
  obtain Y0 Y1 Y2 Y3 where Y: "AES_RROUND (drop (8 * i) RK) X' = (Y0, Y1, Y2, Y3)"
    by (cases "AES_RROUND (drop (8 * i) RK) X'")
  have nth: "drop (8 * i + 4) RK ! j = l ! j" if "j < 4" for j
    using that by (simp add: k(4))
  have "mbedtls_internal_aes_decrypt ctx input output = AddRoundKey (concat (map le32 l)) (InvShiftRows (map InvSbox (bytes_of (Y0, Y1, Y2, Y3))))"
    using last_round_spec(2) [OF k(5), of AES_RSb InvSbox Y0 Y3 Y2 Y1] k(1,2) assms(1,4) X'(1) Y nth [of 0] nth [of 1] nth [of 2] nth [of 3]
    by (simp add: mbedtls_internal_aes_decrypt_def store_state_bytes Let_def add.commute)
  then show ?thesis
    using X'(2) Y k(6,7) assms(1) by (simp add: EqInvCipher_def InvSubBytes_def numeral_3_eq_3 butlast_append del: round_keys.simps)
qed


subsection \<open>Decryption inverts encryption\<close>

lemmas multiples = g3_def g9_def gB_def gD_def gE_def

lemma list16_cases:
  assumes "length s = 16"
  obtains a b c d e f g h i j k l m n p q where "s = [a, b, c, d, e, f, g, h, i, j, k, l, m, n, p, q]"
  using assms by (auto simp: numeral_eq_Suc length_Suc_conv)

lemma InvMix_Mix_column:
  "gE (xt a XOR g3 b XOR c XOR d) XOR gB (a XOR xt b XOR g3 c XOR d) XOR gD (a XOR b XOR xt c XOR g3 d) XOR g9 (g3 a XOR b XOR c XOR xt d) = a"
  "g9 (xt a XOR g3 b XOR c XOR d) XOR gE (a XOR xt b XOR g3 c XOR d) XOR gB (a XOR b XOR xt c XOR g3 d) XOR gD (g3 a XOR b XOR c XOR xt d) = b"
  "gD (xt a XOR g3 b XOR c XOR d) XOR g9 (a XOR xt b XOR g3 c XOR d) XOR gE (a XOR b XOR xt c XOR g3 d) XOR gB (g3 a XOR b XOR c XOR xt d) = c"
  "gB (xt a XOR g3 b XOR c XOR d) XOR gD (a XOR xt b XOR g3 c XOR d) XOR g9 (a XOR b XOR xt c XOR g3 d) XOR gE (g3 a XOR b XOR c XOR xt d) = d"
  by (simp_all add: multiples xt_xor xor_ac)

lemma InvMix_Mix: "length s = 16 \<Longrightarrow> InvMixColumns (MixColumns s) = s"
  by (erule list16_cases) (simp add: InvMix_Mix_column)

lemma multiples_xor:
  "g9 (a XOR b) = g9 a XOR g9 b" "gB (a XOR b) = gB a XOR gB b" "gD (a XOR b) = gD a XOR gD b" "gE (a XOR b) = gE a XOR gE b"
  by (simp_all add: multiples xt_xor xor_ac)

lemma InvMix_AddRoundKey:
  assumes "length k = 16" "length s = 16"
  shows "InvMixColumns (AddRoundKey k s) = AddRoundKey (InvMixColumns k) (InvMixColumns s)"
  by (rule list16_cases [OF assms(1)], rule list16_cases [OF assms(2)])
     (simp add: AddRoundKey_def multiples_xor xor_ac)

lemma Shift_inverse:
  "length s = 16 \<Longrightarrow> InvShiftRows (ShiftRows s) = s" "length s = 16 \<Longrightarrow> ShiftRows (InvShiftRows s) = s"
  by (erule list16_cases, simp add: ShiftRows_def InvShiftRows_def)+

lemma Sub_inverse: "InvSubBytes (SubBytes s) = s"
  by (simp add: SubBytes_def InvSubBytes_def comp_def)

lemma Sub_Shift: "length s = 16 \<Longrightarrow> InvSubBytes (InvShiftRows s) = InvShiftRows (InvSubBytes s)"
  by (erule list16_cases) (simp add: InvSubBytes_def InvShiftRows_def)

lemma AddRoundKey_twice: "length k = length s \<Longrightarrow> AddRoundKey k (AddRoundKey k s) = s"
  by (induction k s rule: list_induct2) (simp_all add: AddRoundKey_def xor_left_idem)

lemma length_steps [simp]:
  "length (SubBytes s) = length s" "length (ShiftRows s) = 16" "length (InvSubBytes s) = length s" "length (InvShiftRows s) = 16"
  "length (AddRoundKey k s) = min (length k) (length s)"
  by (simp_all add: SubBytes_def ShiftRows_def InvSubBytes_def InvShiftRows_def AddRoundKey_def)

lemma length_Mix [simp]: "length (MixColumns s) = length s"
  by (induction s rule: MixColumns.induct) simp_all

lemma length_InvMix [simp]: "length (InvMixColumns s) = length s"
  by (induction s rule: InvMixColumns.induct) simp_all

lemma length_Round [simp]: "length k = 16 \<Longrightarrow> length (Round k s) = 16"
  by (simp add: Round_def)

lemma length_fold_Round: "\<forall>k \<in> set ks. length k = 16 \<Longrightarrow> length s = 16 \<Longrightarrow> length (fold Round ks s) = 16"
  by (induction ks arbitrary: s) simp_all

text \<open>A round of the inverse with the transformed key takes back a round of the cipher.\<close>

lemma InvRound_Round:
  assumes "length k = 16" "length s = 16"
  shows "InvRound (InvMixColumns k) (ShiftRows (SubBytes (Round k s))) = ShiftRows (SubBytes s)"
proof -
  have "InvRound (InvMixColumns k) (ShiftRows (SubBytes (Round k s))) = InvMixColumns (AddRoundKey k (Round k s))"
    using assms by (simp add: InvRound_def Shift_inverse Sub_inverse InvMix_AddRoundKey)
  then show ?thesis
    using assms by (simp add: Round_def AddRoundKey_twice InvMix_Mix)
qed

lemma rounds_inverse:
  "\<forall>k \<in> set ks. length k = 16 \<Longrightarrow> length s = 16 \<Longrightarrow>
   fold InvRound (map InvMixColumns (rev ks)) (ShiftRows (SubBytes (fold Round ks s))) = ShiftRows (SubBytes s)"
proof (induction ks rule: rev_induct)
  case (snoc k ks)
  then show ?case
    by (simp add: InvRound_Round length_fold_Round)
qed simp

lemma EqInv_Cipher:
  assumes "length k0 = 16" "length kn = 16" "\<forall>k \<in> set ks. length k = 16" "length s = 16"
  shows "EqInvCipher (kn # map InvMixColumns (rev ks) @ [k0]) (Cipher (k0 # ks @ [kn]) s) = s"
proof -
  define t where "t = fold Round ks (AddRoundKey k0 s)"
  have t: "length t = 16"
    unfolding t_def by (rule length_fold_Round) (use assms in simp_all)
  have "AddRoundKey kn (Cipher (k0 # ks @ [kn]) s) = ShiftRows (SubBytes t)"
    using assms t by (simp add: Cipher_def AddRoundKey_twice butlast_append t_def)
  then have "EqInvCipher (kn # map InvMixColumns (rev ks) @ [k0]) (Cipher (k0 # ks @ [kn]) s) =
    AddRoundKey k0 (InvShiftRows (InvSubBytes (ShiftRows (SubBytes (AddRoundKey k0 s)))))"
    using rounds_inverse [of ks "AddRoundKey k0 s"] assms by (simp add: EqInvCipher_def butlast_append t_def)
  also have "\<dots> = s"
    using assms by (simp add: Sub_Shift [symmetric] Shift_inverse Sub_inverse AddRoundKey_twice)
  finally show ?thesis .
qed

subsection \<open>The key schedules\<close>

lemma le32_inv_key_word: "le32 (inv_key_word w) = InvMixColumns (le32 w)"
proof -
  obtain a b c d where w: "w = V a b c d" by (rule word_cases_V)
  have low: "V 0 0 0 x = ucast x" for x
    by (simp add: V_def)
  show ?thesis
    by (simp add: inv_key_word_def w low xor_ac)
qed

lemma InvMix_blocks: "InvMixColumns (concat (map le32 ws)) = concat (map (\<lambda>w. le32 (inv_key_word w)) ws)"
proof (induction ws)
  case (Cons w ws)
  have "InvMixColumns (le32 w @ s) = InvMixColumns (le32 w) @ InvMixColumns s" for s
    by (simp add: le32_def)
  then show ?case
    using Cons by (simp add: le32_inv_key_word)
qed simp

lemma round_keys_map: "round_keys n RK = map (\<lambda>i. concat (map le32 (take 4 (drop (4 * i) RK)))) [0 ..< n]"
proof (induction n arbitrary: RK)
  case (Suc n)
  then show ?case
    by (simp add: upt_conv_Cons map_Suc_upt [symmetric] comp_def add.commute del: upt_Suc)
qed simp

lemma round_keys_blocks:
  "\<forall>b \<in> set bs. length b = 4 \<Longrightarrow> round_keys (length bs) (concat bs @ r) = map (\<lambda>b. concat (map le32 b)) bs"
  by (induction bs) simp_all

lemma round_keys_inv_keys:
  assumes "4 * (nr + 1) \<le> length sk" "nr \<ge> 1" "4 * (nr + 1) \<le> length buf"
    and ks: "round_keys (nr + 1) sk = k0 # ks @ [kn]"
  shows "round_keys (nr + 1) (memcpy buf 0 (inv_keys nr sk)) = kn # map InvMixColumns (rev ks) @ [k0]"
proof -
  define chunk where "chunk i = take 4 (drop (4 * i) sk)" for i
  define bs where "bs = chunk nr # map (\<lambda>i. map inv_key_word (chunk i)) (rev [1 ..< nr]) @ [chunk 0]"
  have len: "length (chunk i) = 4" if "i \<le> nr" for i
    using that assms(1) by (simp add: chunk_def)
  have "length bs = nr + 1" "\<forall>b \<in> set bs. length b = 4"
    using assms(2) len [of 0] len [of nr] len by (auto simp: bs_def)
  moreover have "inv_keys nr sk = concat bs"
    by (simp add: bs_def inv_keys_def chunk_def)
  ultimately have new: "round_keys (nr + 1) (memcpy buf 0 (inv_keys nr sk)) = map (\<lambda>b. concat (map le32 b)) bs"
    using round_keys_blocks [of bs "drop (length (concat bs)) buf"] by (simp add: memcpy_def del: round_keys.simps)
  have "[0 ..< nr + 1] = 0 # [1 ..< nr] @ [nr]"
    using assms(2) by (simp add: upt_conv_Cons)
  then have "k0 # ks @ [kn] = concat (map le32 (chunk 0)) # map (\<lambda>i. concat (map le32 (chunk i))) [1 ..< nr] @ [concat (map le32 (chunk nr))]"
    using ks unfolding round_keys_map chunk_def by simp
  then have "k0 = concat (map le32 (chunk 0))" "ks = map (\<lambda>i. concat (map le32 (chunk i))) [1 ..< nr]" "kn = concat (map le32 (chunk nr))"
    by simp_all
  then show ?thesis
    unfolding new by (simp add: bs_def rev_map comp_def InvMix_blocks)
qed

text \<open>The key expansion of FIPS 197; the words hold their first byte in the low bits.\<close>

definition SubWord :: "u32 \<Rightarrow> u32" where "SubWord w = GET_UINT32_LE (map Sbox (le32 w)) 0"
definition RotWord :: "u32 \<Rightarrow> u32" where "RotWord w = GET_UINT32_LE (rotate1 (le32 w)) 0"

function KeyExpansion :: "nat \<Rightarrow> byte list \<Rightarrow> nat \<Rightarrow> u32" where
  "KeyExpansion Nk key i =
     (if i < Nk \<or> Nk = 0 then GET_UINT32_LE key (4 * i)
      else KeyExpansion Nk key (i - Nk) XOR
        (let temp = KeyExpansion Nk key (i - 1) in
         if i mod Nk = 0 then SubWord (RotWord temp) XOR RCON_rom ! (i div Nk - 1)
         else if Nk > 6 \<and> i mod Nk = 4 then SubWord temp else temp))"
  by pat_completeness auto
termination
  by (relation "measure (\<lambda>(Nk, key, i). i)") auto

declare KeyExpansion.simps [simp del]

lemma sub_word_eq: "sub_word w = SubWord w" "sub_rot_word w = SubWord (RotWord w)"
proof -
  obtain a b c d where w: "w = V a b c d" by (rule word_cases_V)
  show "sub_word w = SubWord w" "sub_rot_word w = SubWord (RotWord w)"
    by (simp_all add: w sub_word_def sub_rot_word_def SubWord_def RotWord_def GET_UINT32_LE_V)
qed

definition expands :: "(nat \<Rightarrow> u32) \<Rightarrow> nat \<Rightarrow> u32 list \<Rightarrow> bool" where
  "expands w n rk \<longleftrightarrow> length rk = 68 \<and> (\<forall>j < n. rk ! j = w j)"

lemma expands_update: "expands w n rk \<Longrightarrow> n < 68 \<Longrightarrow> v = w n \<Longrightarrow> expands w (Suc n) (rk[n := v])"
  by (auto simp: expands_def nth_list_update less_Suc_eq)

lemma expands_nth: "expands w n rk \<Longrightarrow> j < n \<Longrightarrow> rk ! j = w j"
  by (simp add: expands_def)

lemma RCON_eq: "RCON aes_gen_tables = RCON_rom"
  by (simp add: gen_tables_eq aes_rom_tables_def)

lemma step_first:
  assumes "expands (KeyExpansion Nk key) n rk" "p + Nk = n" "Suc q = n" "n < 68" "Nk > 0" "n mod Nk = 0" "n div Nk = Suc i"
  shows "expands (KeyExpansion Nk key) (Suc n) (rk[n := rk ! p XOR RCON_rom ! i XOR sub_rot_word (rk ! q)])"
proof (rule expands_update [OF assms(1,4)])
  have idx: "n - Nk = p" "n - 1 = q" "n - Suc 0 = q" "\<not> n < Nk"
    using assms(2,3) by auto
  have "KeyExpansion Nk key n = KeyExpansion Nk key p XOR (SubWord (RotWord (KeyExpansion Nk key q)) XOR RCON_rom ! i)"
    using idx assms by (subst KeyExpansion.simps) (simp add: Let_def)
  then show "rk ! p XOR RCON_rom ! i XOR sub_rot_word (rk ! q) = KeyExpansion Nk key n"
    using expands_nth [OF assms(1), of p] expands_nth [OF assms(1), of q] assms(2,3,5)
    by (simp add: sub_word_eq xor.assoc xor.commute xor.left_commute)
qed

lemma step_plain:
  assumes "expands (KeyExpansion Nk key) n rk" "p + Nk = n" "Suc q = n" "n < 68" "Nk > 0" "n mod Nk \<noteq> 0" "\<not> (Nk > 6 \<and> n mod Nk = 4)"
  shows "expands (KeyExpansion Nk key) (Suc n) (rk[n := rk ! p XOR rk ! q])"
proof (rule expands_update [OF assms(1,4)])
  have idx: "n - Nk = p" "n - 1 = q" "n - Suc 0 = q" "\<not> n < Nk"
    using assms(2,3) by auto
  have "KeyExpansion Nk key n = KeyExpansion Nk key p XOR KeyExpansion Nk key q"
    using idx assms(5-7) by (subst KeyExpansion.simps) (auto simp: Let_def)
  then show "rk ! p XOR rk ! q = KeyExpansion Nk key n"
    using expands_nth [OF assms(1), of p] expands_nth [OF assms(1), of q] assms(2,3,5) by simp
qed

lemma step_sub:
  assumes "expands (KeyExpansion Nk key) n rk" "p + Nk = n" "Suc q = n" "n < 68" "Nk > 6" "n mod Nk = 4"
  shows "expands (KeyExpansion Nk key) (Suc n) (rk[n := rk ! p XOR sub_word (rk ! q)])"
proof (rule expands_update [OF assms(1,4)])
  have idx: "n - Nk = p" "n - 1 = q" "n - Suc 0 = q" "\<not> n < Nk"
    using assms(2,3) by auto
  have "KeyExpansion Nk key n = KeyExpansion Nk key p XOR SubWord (KeyExpansion Nk key q)"
    using idx assms by (subst KeyExpansion.simps) (simp add: Let_def)
  then show "rk ! p XOR sub_word (rk ! q) = KeyExpansion Nk key n"
    using expands_nth [OF assms(1), of p] expands_nth [OF assms(1), of q] assms(2,3,5) by (simp add: sub_word_eq)
qed

lemma key_mods: "(Nk * i + Nk) mod Nk = (0 :: nat)" "Nk > 0 \<Longrightarrow> (Nk * i + Nk) div Nk = Suc i"
  by simp_all

lemma key_step128_expands:
  assumes "expands (KeyExpansion 4 key) (4 * i + 4) rk" "i < 10"
  shows "expands (KeyExpansion 4 key) (4 * Suc i + 4) (key_step128 rk i)"
proof -
  note i = assms(2)
  define rk0 where "rk0 = rk[4 * i + 4 := rk ! (4 * i) XOR RCON_rom ! i XOR sub_rot_word (rk ! (4 * i + 3))]"
  have s0: "4 * i + 5 = Suc (4 * i + 4)" by simp
  have e0: "expands (KeyExpansion 4 key) (4 * i + 5) rk0"
    unfolding rk0_def s0 by (rule step_first [OF assms(1)]) (use i in \<open>simp_all add: key_mods\<close>)
  define rk1 where "rk1 = rk0[4 * i + 5 := rk0 ! (4 * i + 1) XOR rk0 ! (4 * i + 4)]"
  have s1: "4 * i + 6 = Suc (4 * i + 5)" by simp
  have e1: "expands (KeyExpansion 4 key) (4 * i + 6) rk1"
    unfolding rk1_def s1 by (rule step_plain [OF e0]) (use i in \<open>simp_all add: key_mods\<close>)
  define rk2 where "rk2 = rk1[4 * i + 6 := rk1 ! (4 * i + 2) XOR rk1 ! (4 * i + 5)]"
  have s2: "4 * i + 7 = Suc (4 * i + 6)" by simp
  have e2: "expands (KeyExpansion 4 key) (4 * i + 7) rk2"
    unfolding rk2_def s2 by (rule step_plain [OF e1]) (use i in \<open>simp_all add: key_mods\<close>)
  define rk3 where "rk3 = rk2[4 * i + 7 := rk2 ! (4 * i + 3) XOR rk2 ! (4 * i + 6)]"
  have s3: "4 * i + 8 = Suc (4 * i + 7)" by simp
  have e3: "expands (KeyExpansion 4 key) (4 * i + 8) rk3"
    unfolding rk3_def s3 by (rule step_plain [OF e2]) (use i in \<open>simp_all add: key_mods\<close>)
  have "key_step128 rk i = rk3"
    by (simp only: key_step128_def Let_def RCON_eq rk3_def rk2_def rk1_def rk0_def)
  moreover have "4 * Suc i + 4 = 4 * i + 8" by simp
  ultimately show ?thesis
    using e3 by (simp only:)
qed

lemma key_step192_expands:
  assumes "expands (KeyExpansion 6 key) (6 * i + 6) rk" "i < 8"
  shows "expands (KeyExpansion 6 key) (6 * Suc i + 6) (key_step192 rk i)"
proof -
  note i = assms(2)
  define rk0 where "rk0 = rk[6 * i + 6 := rk ! (6 * i) XOR RCON_rom ! i XOR sub_rot_word (rk ! (6 * i + 5))]"
  have s0: "6 * i + 7 = Suc (6 * i + 6)" by simp
  have e0: "expands (KeyExpansion 6 key) (6 * i + 7) rk0"
    unfolding rk0_def s0 by (rule step_first [OF assms(1)]) (use i in \<open>simp_all add: key_mods\<close>)
  define rk1 where "rk1 = rk0[6 * i + 7 := rk0 ! (6 * i + 1) XOR rk0 ! (6 * i + 6)]"
  have s1: "6 * i + 8 = Suc (6 * i + 7)" by simp
  have e1: "expands (KeyExpansion 6 key) (6 * i + 8) rk1"
    unfolding rk1_def s1 by (rule step_plain [OF e0]) (use i in \<open>simp_all add: key_mods\<close>)
  define rk2 where "rk2 = rk1[6 * i + 8 := rk1 ! (6 * i + 2) XOR rk1 ! (6 * i + 7)]"
  have s2: "6 * i + 9 = Suc (6 * i + 8)" by simp
  have e2: "expands (KeyExpansion 6 key) (6 * i + 9) rk2"
    unfolding rk2_def s2 by (rule step_plain [OF e1]) (use i in \<open>simp_all add: key_mods\<close>)
  define rk3 where "rk3 = rk2[6 * i + 9 := rk2 ! (6 * i + 3) XOR rk2 ! (6 * i + 8)]"
  have s3: "6 * i + 10 = Suc (6 * i + 9)" by simp
  have e3: "expands (KeyExpansion 6 key) (6 * i + 10) rk3"
    unfolding rk3_def s3 by (rule step_plain [OF e2]) (use i in \<open>simp_all add: key_mods\<close>)
  define rk4 where "rk4 = rk3[6 * i + 10 := rk3 ! (6 * i + 4) XOR rk3 ! (6 * i + 9)]"
  have s4: "6 * i + 11 = Suc (6 * i + 10)" by simp
  have e4: "expands (KeyExpansion 6 key) (6 * i + 11) rk4"
    unfolding rk4_def s4 by (rule step_plain [OF e3]) (use i in \<open>simp_all add: key_mods\<close>)
  define rk5 where "rk5 = rk4[6 * i + 11 := rk4 ! (6 * i + 5) XOR rk4 ! (6 * i + 10)]"
  have s5: "6 * i + 12 = Suc (6 * i + 11)" by simp
  have e5: "expands (KeyExpansion 6 key) (6 * i + 12) rk5"
    unfolding rk5_def s5 by (rule step_plain [OF e4]) (use i in \<open>simp_all add: key_mods\<close>)
  have "key_step192 rk i = rk5"
    by (simp only: key_step192_def Let_def RCON_eq rk5_def rk4_def rk3_def rk2_def rk1_def rk0_def)
  moreover have "6 * Suc i + 6 = 6 * i + 12" by simp
  ultimately show ?thesis
    using e5 by (simp only:)
qed

lemma key_step256_expands:
  assumes "expands (KeyExpansion 8 key) (8 * i + 8) rk" "i < 7"
  shows "expands (KeyExpansion 8 key) (8 * Suc i + 8) (key_step256 rk i)"
proof -
  note i = assms(2)
  define rk0 where "rk0 = rk[8 * i + 8 := rk ! (8 * i) XOR RCON_rom ! i XOR sub_rot_word (rk ! (8 * i + 7))]"
  have s0: "8 * i + 9 = Suc (8 * i + 8)" by simp
  have e0: "expands (KeyExpansion 8 key) (8 * i + 9) rk0"
    unfolding rk0_def s0 by (rule step_first [OF assms(1)]) (use i in \<open>simp_all add: key_mods\<close>)
  define rk1 where "rk1 = rk0[8 * i + 9 := rk0 ! (8 * i + 1) XOR rk0 ! (8 * i + 8)]"
  have s1: "8 * i + 10 = Suc (8 * i + 9)" by simp
  have e1: "expands (KeyExpansion 8 key) (8 * i + 10) rk1"
    unfolding rk1_def s1 by (rule step_plain [OF e0]) (use i in \<open>simp_all add: key_mods\<close>)
  define rk2 where "rk2 = rk1[8 * i + 10 := rk1 ! (8 * i + 2) XOR rk1 ! (8 * i + 9)]"
  have s2: "8 * i + 11 = Suc (8 * i + 10)" by simp
  have e2: "expands (KeyExpansion 8 key) (8 * i + 11) rk2"
    unfolding rk2_def s2 by (rule step_plain [OF e1]) (use i in \<open>simp_all add: key_mods\<close>)
  define rk3 where "rk3 = rk2[8 * i + 11 := rk2 ! (8 * i + 3) XOR rk2 ! (8 * i + 10)]"
  have s3: "8 * i + 12 = Suc (8 * i + 11)" by simp
  have e3: "expands (KeyExpansion 8 key) (8 * i + 12) rk3"
    unfolding rk3_def s3 by (rule step_plain [OF e2]) (use i in \<open>simp_all add: key_mods\<close>)
  define rk4 where "rk4 = rk3[8 * i + 12 := rk3 ! (8 * i + 4) XOR sub_word (rk3 ! (8 * i + 11))]"
  have s4: "8 * i + 13 = Suc (8 * i + 12)" by simp
  have e4: "expands (KeyExpansion 8 key) (8 * i + 13) rk4"
    unfolding rk4_def s4 by (rule step_sub [OF e3]) (use i in \<open>simp_all add: key_mods\<close>)
  define rk5 where "rk5 = rk4[8 * i + 13 := rk4 ! (8 * i + 5) XOR rk4 ! (8 * i + 12)]"
  have s5: "8 * i + 14 = Suc (8 * i + 13)" by simp
  have e5: "expands (KeyExpansion 8 key) (8 * i + 14) rk5"
    unfolding rk5_def s5 by (rule step_plain [OF e4]) (use i in \<open>simp_all add: key_mods\<close>)
  define rk6 where "rk6 = rk5[8 * i + 14 := rk5 ! (8 * i + 6) XOR rk5 ! (8 * i + 13)]"
  have s6: "8 * i + 15 = Suc (8 * i + 14)" by simp
  have e6: "expands (KeyExpansion 8 key) (8 * i + 15) rk6"
    unfolding rk6_def s6 by (rule step_plain [OF e5]) (use i in \<open>simp_all add: key_mods\<close>)
  define rk7 where "rk7 = rk6[8 * i + 15 := rk6 ! (8 * i + 7) XOR rk6 ! (8 * i + 14)]"
  have s7: "8 * i + 16 = Suc (8 * i + 15)" by simp
  have e7: "expands (KeyExpansion 8 key) (8 * i + 16) rk7"
    unfolding rk7_def s7 by (rule step_plain [OF e6]) (use i in \<open>simp_all add: key_mods\<close>)
  have "key_step256 rk i = rk7"
    by (simp only: key_step256_def Let_def RCON_eq rk7_def rk6_def rk5_def rk4_def rk3_def rk2_def rk1_def rk0_def)
  moreover have "8 * Suc i + 8 = 8 * i + 16" by simp
  ultimately show ?thesis
    using e7 by (simp only:)
qed


lemma expands_loop:
  assumes "expands w (Nk * 0 + Nk) rk" "\<And>i rk. i < n \<Longrightarrow> expands w (Nk * i + Nk) rk \<Longrightarrow> expands w (Nk * Suc i + Nk) (f rk i)"
  shows "expands w (Nk * n + Nk) (foldl f rk [0 ..< n])"
  using assms(2)
proof (induction n)
  case 0
  then show ?case using assms(1) by simp
next
  case (Suc n)
  have "expands w (Nk * n + Nk) (foldl f rk [0 ..< n])"
    by (rule Suc.IH) (use Suc.prems in auto)
  then show ?case
    using Suc.prems [of n] by simp
qed

lemma expands_start:
  assumes "length rk = 68" "Nk \<le> 68"
  shows "expands (KeyExpansion Nk key) Nk (foldl (\<lambda>rk i. rk[i := GET_UINT32_LE key (4 * i)]) rk [0 ..< Nk])"
proof -
  have "expands (KeyExpansion Nk key) n (foldl (\<lambda>rk i. rk[i := GET_UINT32_LE key (4 * i)]) rk [0 ..< n])" if "n \<le> Nk" for n
    using that
  proof (induction n)
    case (Suc n)
    then show ?case
      using assms by (auto intro!: expands_update simp: KeyExpansion.simps [of Nk key n])
  qed (use assms in \<open>simp add: expands_def\<close>)
  then show ?thesis by simp
qed

text \<open>The words of the round keys, for each of the three key lengths.\<close>

definition aes_key_size :: "nat \<Rightarrow> nat \<Rightarrow> bool" where
  "aes_key_size keybits nr \<longleftrightarrow> (keybits, nr) \<in> {(128, 10), (192, 12), (256, 14)}"

lemma setkey_enc_expands:
  assumes "aes_key_size keybits nr" "length (aes_rk ctx) = 68"
  obtains ctx' where "mbedtls_aes_setkey_enc ctx key keybits = Inr ctx'" "aes_nr ctx' = nr"
    "expands (KeyExpansion (keybits div 32) key) (4 * (nr + 1)) (aes_rk ctx')"
proof -
  have weaken: "expands w m rk \<Longrightarrow> n \<le> m \<Longrightarrow> expands w n rk" for w m n rk
    by (simp add: expands_def)
  consider "keybits = 128" "nr = 10" | "keybits = 192" "nr = 12" | "keybits = 256" "nr = 14"
    using assms(1) by (auto simp: aes_key_size_def)
  then show thesis
  proof cases
    case 1
    have "expands (KeyExpansion 4 key) (4 * 10 + 4)
        (foldl key_step128 (foldl (\<lambda>rk i. rk[i := GET_UINT32_LE key (4 * i)]) (aes_rk ctx) [0 ..< 4]) [0 ..< 10])"
      by (rule expands_loop) (use expands_start [OF assms(2), of 4 key] key_step128_expands in simp_all)
    then show thesis
      using that 1 by (simp add: mbedtls_aes_setkey_enc_def del: upt_rec_numeral)
  next
    case 2
    have "expands (KeyExpansion 6 key) (6 * 8 + 6)
        (foldl key_step192 (foldl (\<lambda>rk i. rk[i := GET_UINT32_LE key (4 * i)]) (aes_rk ctx) [0 ..< 6]) [0 ..< 8])"
      by (rule expands_loop) (use expands_start [OF assms(2), of 6 key] key_step192_expands in simp_all)
    from weaken [OF this, of 52] show thesis
      using that 2 by (simp add: mbedtls_aes_setkey_enc_def del: upt_rec_numeral)
  next
    case 3
    have "expands (KeyExpansion 8 key) (8 * 7 + 8)
        (foldl key_step256 (foldl (\<lambda>rk i. rk[i := GET_UINT32_LE key (4 * i)]) (aes_rk ctx) [0 ..< 8]) [0 ..< 7])"
      by (rule expands_loop) (use expands_start [OF assms(2), of 8 key] key_step256_expands in simp_all)
    from weaken [OF this, of 60] show thesis
      using that 3 by (simp add: mbedtls_aes_setkey_enc_def del: upt_rec_numeral)
  qed
qed


subsection \<open>Modes of operation\<close>

definition xor_bytes :: "byte list \<Rightarrow> byte list \<Rightarrow> byte list" where
  "xor_bytes a b = map2 (XOR) a b"

function cbc_loop :: "aes_context \<Rightarrow> bool \<Rightarrow> byte list \<Rightarrow> byte list \<Rightarrow> byte list \<times> byte list" where
  "cbc_loop ctx encrypt iv input =
     (if input = [] then (iv, [])
      else if encrypt
      then let out = xor_bytes (take 16 input) iv; out = mbedtls_aes_crypt_ecb ctx encrypt out out;
               (iv, rest) = cbc_loop ctx encrypt out (drop 16 input)
           in (iv, out @ rest)
      else let temp = take 16 input; out = mbedtls_aes_crypt_ecb ctx encrypt temp (replicate 16 0);
               out = xor_bytes out iv; (iv, rest) = cbc_loop ctx encrypt temp (drop 16 input)
           in (iv, out @ rest))"
  by pat_completeness auto
termination
  by (relation "measure (\<lambda>(ctx, e, iv, input). length input)") auto

declare cbc_loop.simps [simp del]

definition mbedtls_aes_crypt_cbc :: "aes_context \<Rightarrow> bool \<Rightarrow> byte list \<Rightarrow> byte list \<Rightarrow> (byte list \<times> byte list) res" where
  "mbedtls_aes_crypt_cbc ctx encrypt iv input =
     (if length input mod 16 \<noteq> 0 then Inl MBEDTLS_ERR_AES_INVALID_INPUT_LENGTH else Inr (cbc_loop ctx encrypt iv input))"

definition MBEDTLS_ERR_AES_BAD_INPUT_DATA :: int where "MBEDTLS_ERR_AES_BAD_INPUT_DATA = - 0x0021"

text \<open>The stream modes work byte by byte; \<open>n\<close> is the position in the current block.\<close>

fun cfb128_loop :: "aes_context \<Rightarrow> bool \<Rightarrow> nat \<Rightarrow> byte list \<Rightarrow> byte list \<Rightarrow> nat \<times> byte list \<times> byte list" where
  "cfb128_loop ctx encrypt n iv [] = (n, iv, [])"
| "cfb128_loop ctx encrypt n iv (c # input) =
     (let iv = (if n = 0 then mbedtls_aes_crypt_ecb ctx True iv iv else iv);
          out = c XOR iv ! n;
          iv = iv[n := if encrypt then out else c];
          (n', iv', rest) = cfb128_loop ctx encrypt ((n + 1) mod 16) iv input
      in (n', iv', out # rest))"

definition mbedtls_aes_crypt_cfb128 :: "aes_context \<Rightarrow> bool \<Rightarrow> nat \<Rightarrow> byte list \<Rightarrow> byte list \<Rightarrow> (nat \<times> byte list \<times> byte list) res" where
  "mbedtls_aes_crypt_cfb128 ctx encrypt iv_off iv input =
     (if iv_off > 15 then Inl MBEDTLS_ERR_AES_BAD_INPUT_DATA else Inr (cfb128_loop ctx encrypt iv_off iv input))"

fun mbedtls_aes_crypt_cfb8 :: "aes_context \<Rightarrow> bool \<Rightarrow> byte list \<Rightarrow> byte list \<Rightarrow> byte list \<times> byte list" where
  "mbedtls_aes_crypt_cfb8 ctx encrypt iv [] = (iv, [])"
| "mbedtls_aes_crypt_cfb8 ctx encrypt iv (i # input) =
     (let ov = iv; iv = mbedtls_aes_crypt_ecb ctx True iv iv;
          c = iv ! 0 XOR i;
          iv = tl ov @ [if encrypt then c else i];
          (iv', rest) = mbedtls_aes_crypt_cfb8 ctx encrypt iv input
      in (iv', c # rest))"

fun ofb_loop :: "aes_context \<Rightarrow> nat \<Rightarrow> byte list \<Rightarrow> byte list \<Rightarrow> nat \<times> byte list \<times> byte list" where
  "ofb_loop ctx n iv [] = (n, iv, [])"
| "ofb_loop ctx n iv (i # input) =
     (let iv = (if n = 0 then mbedtls_aes_crypt_ecb ctx True iv iv else iv);
          (n', iv', rest) = ofb_loop ctx ((n + 1) mod 16) iv input
      in (n', iv', (i XOR iv ! n) # rest))"

definition mbedtls_aes_crypt_ofb :: "aes_context \<Rightarrow> nat \<Rightarrow> byte list \<Rightarrow> byte list \<Rightarrow> (nat \<times> byte list \<times> byte list) res" where
  "mbedtls_aes_crypt_ofb ctx iv_off iv input =
     (if iv_off > 15 then Inl MBEDTLS_ERR_AES_BAD_INPUT_DATA else Inr (ofb_loop ctx iv_off iv input))"

text \<open>The counter is incremented from its last byte on, as long as bytes wrap to zero.\<close>

fun incr_from :: "nat \<Rightarrow> byte list \<Rightarrow> byte list" where
  "incr_from 0 b = b"
| "incr_from (Suc i) b = (let b = b[i := b ! i + 1] in if b ! i \<noteq> 0 then b else incr_from i b)"

fun ctr_loop :: "aes_context \<Rightarrow> nat \<Rightarrow> byte list \<Rightarrow> byte list \<Rightarrow> byte list \<Rightarrow> nat \<times> byte list \<times> byte list \<times> byte list" where
  "ctr_loop ctx n nonce_counter stream_block [] = (n, nonce_counter, stream_block, [])"
| "ctr_loop ctx n nonce_counter stream_block (c # input) =
     (let (nonce_counter, stream_block) =
            (if n = 0 then (incr_from 16 nonce_counter, mbedtls_aes_crypt_ecb ctx True nonce_counter stream_block)
             else (nonce_counter, stream_block));
          (n', nc', sb', rest) = ctr_loop ctx ((n + 1) mod 16) nonce_counter stream_block input
      in (n', nc', sb', (c XOR stream_block ! n) # rest))"

definition mbedtls_aes_crypt_ctr ::
    "aes_context \<Rightarrow> nat \<Rightarrow> byte list \<Rightarrow> byte list \<Rightarrow> byte list \<Rightarrow> (nat \<times> byte list \<times> byte list \<times> byte list) res" where
  "mbedtls_aes_crypt_ctr ctx nc_off nonce_counter stream_block input =
     (if nc_off > 15 then Inl MBEDTLS_ERR_AES_BAD_INPUT_DATA else Inr (ctr_loop ctx nc_off nonce_counter stream_block input))"

subsection \<open>Reading back what the modes wrote\<close>

lemma cfb128_inverse:
  "cfb128_loop ctx True n iv input = (n', iv', out) \<Longrightarrow> cfb128_loop ctx False n iv out = (n', iv', input)"
proof (induction input arbitrary: n iv out)
  case (Cons i input)
  then show ?case
    by (auto simp: Let_def xor_ac split: prod.splits)
qed simp

lemma cfb8_inverse:
  "mbedtls_aes_crypt_cfb8 ctx True iv input = (iv', out) \<Longrightarrow> mbedtls_aes_crypt_cfb8 ctx False iv out = (iv', input)"
proof (induction input arbitrary: iv out)
  case (Cons i input)
  then show ?case
    by (auto simp: Let_def xor_ac split: prod.splits)
qed simp

lemma ofb_inverse: "ofb_loop ctx n iv input = (n', iv', out) \<Longrightarrow> ofb_loop ctx n iv out = (n', iv', input)"
proof (induction input arbitrary: n iv out)
  case (Cons i input)
  then show ?case
    by (auto simp: Let_def xor_ac split: prod.splits)
qed simp

lemma ctr_inverse:
  "ctr_loop ctx n nc sb input = (n', nc', sb', out) \<Longrightarrow> ctr_loop ctx n nc sb out = (n', nc', sb', input)"
proof (induction input arbitrary: n nc sb out)
  case (Cons i input)
  then show ?case
    by (auto simp: Let_def xor_ac split: prod.splits if_splits)
qed simp

lemma xor_bytes_twice: "length a = length b \<Longrightarrow> xor_bytes (xor_bytes a b) b = a"
  by (induction a b rule: list_induct2) (simp_all add: xor_bytes_def xor_ac)

lemma cbc_inverse:
  assumes inv: "\<And>x o1 o2. length x = 16 \<Longrightarrow> length o1 = 16 \<Longrightarrow> length o2 = 16 \<Longrightarrow>
      length (mbedtls_aes_crypt_ecb e True x o1) = 16 \<and> mbedtls_aes_crypt_ecb d False (mbedtls_aes_crypt_ecb e True x o1) o2 = x"
  shows "cbc_loop e True iv input = (iv', out) \<Longrightarrow> length iv = 16 \<Longrightarrow> length input mod 16 = 0 \<Longrightarrow>
    cbc_loop d False iv out = (iv', input) \<and> length out = length input"
proof (induction "length input" arbitrary: iv input out rule: less_induct)
  case less
  show ?case
  proof (cases "input = []")
    case True
    then show ?thesis
      using less.prems by (simp add: cbc_loop.simps)
  next
    case False
    have len: "16 \<le> length input" "length (drop 16 input) mod 16 = 0" "length (drop 16 input) < length input"
      using False less.prems(3) by (cases "length input < 16", auto simp: mod_less le_mod_geq)
    define x where "x = xor_bytes (take 16 input) iv"
    define c where "c = mbedtls_aes_crypt_ecb e True x x"
    obtain iv2 r where r: "cbc_loop e True c (drop 16 input) = (iv2, r)"
      by (cases "cbc_loop e True c (drop 16 input)")
    have x: "length x = 16"
      using len less.prems(2) by (simp add: x_def xor_bytes_def)
    have c: "length c = 16" "mbedtls_aes_crypt_ecb d False c (replicate 16 0) = x"
      using inv [of x x "replicate 16 0"] x by (simp_all add: c_def)
    have out: "out = c @ r" "iv' = iv2"
    proof -
      have "cbc_loop e True iv input = (iv2, c @ r)"
        using r False by (subst cbc_loop.simps) (simp add: x_def c_def Let_def)
      then show "out = c @ r" "iv' = iv2"
        using less.prems(1) by simp_all
    qed
    have "cbc_loop d False c r = (iv', drop 16 input) \<and> length r = length (drop 16 input)"
      using less.hyps [OF len(3) r [folded out(2)] c(1) len(2)] .
    moreover have "xor_bytes x iv = take 16 input"
      unfolding x_def by (rule xor_bytes_twice) (use len less.prems(2) in simp)
    moreover have "out \<noteq> []" "take 16 out = c" "drop 16 out = r"
      using c(1) out by auto
    ultimately show ?thesis
      using c(1) c(2) len(1) out(1) by (subst cbc_loop.simps) (auto simp: Let_def)
  qed
qed

lemma cbc_roundtrip:
  assumes "\<And>x o1 o2. length x = 16 \<Longrightarrow> length o1 = 16 \<Longrightarrow> length o2 = 16 \<Longrightarrow>
      length (mbedtls_aes_crypt_ecb e True x o1) = 16 \<and> mbedtls_aes_crypt_ecb d False (mbedtls_aes_crypt_ecb e True x o1) o2 = x"
    and "length iv = 16"
  shows "if length data mod 16 \<noteq> 0 then mbedtls_aes_crypt_cbc e True iv data = Inl MBEDTLS_ERR_AES_INVALID_INPUT_LENGTH
     else \<exists>iv' c. mbedtls_aes_crypt_cbc e True iv data = Inr (iv', c) \<and> mbedtls_aes_crypt_cbc d False iv c = Inr (iv', data)"
proof (cases "length data mod 16 = 0")
  case True
  obtain iv' c where c: "cbc_loop e True iv data = (iv', c)"
    by (cases "cbc_loop e True iv data")
  have "cbc_loop d False iv c = (iv', data) \<and> length c = length data"
    by (rule cbc_inverse [OF _ c assms(2) True]) (rule assms(1))
  then show ?thesis
    using c True by (simp add: mbedtls_aes_crypt_cbc_def)
qed (simp add: mbedtls_aes_crypt_cbc_def)

lemma cfb128_roundtrip:
  assumes "n < 16"
  shows "\<exists>n' iv' c. mbedtls_aes_crypt_cfb128 ctx True n iv data = Inr (n', iv', c) \<and>
    mbedtls_aes_crypt_cfb128 ctx False n iv c = Inr (n', iv', data)"
proof -
  obtain n' iv' c where c: "cfb128_loop ctx True n iv data = (n', iv', c)"
    by (metis prod_cases3)
  then show ?thesis
    using assms cfb128_inverse [OF c] by (simp add: mbedtls_aes_crypt_cfb128_def)
qed

lemma cfb8_roundtrip:
  "\<exists>iv' c. mbedtls_aes_crypt_cfb8 ctx True iv data = (iv', c) \<and> mbedtls_aes_crypt_cfb8 ctx False iv c = (iv', data)"
proof -
  obtain iv' c where c: "mbedtls_aes_crypt_cfb8 ctx True iv data = (iv', c)"
    by (metis surj_pair)
  then show ?thesis
    using cfb8_inverse [OF c] by simp
qed

lemma ofb_roundtrip:
  assumes "n < 16"
  shows "\<exists>n' iv' c. mbedtls_aes_crypt_ofb ctx n iv data = Inr (n', iv', c) \<and> mbedtls_aes_crypt_ofb ctx n iv c = Inr (n', iv', data)"
proof -
  obtain n' iv' c where c: "ofb_loop ctx n iv data = (n', iv', c)"
    by (metis prod_cases3)
  then show ?thesis
    using assms ofb_inverse [OF c] by (simp add: mbedtls_aes_crypt_ofb_def)
qed

lemma ctr_roundtrip:
  assumes "n < 16"
  shows "\<exists>n' nc' sb' c. mbedtls_aes_crypt_ctr ctx n nc sb data = Inr (n', nc', sb', c) \<and>
    mbedtls_aes_crypt_ctr ctx n nc sb c = Inr (n', nc', sb', data)"
proof -
  obtain n' nc' sb' c where c: "ctr_loop ctx n nc sb data = (n', nc', sb', c)"
    by (metis prod_cases4)
  then show ?thesis
    using assms ctr_inverse [OF c] by (simp add: mbedtls_aes_crypt_ctr_def)
qed

lemma key_size_rounds: "aes_key_size keybits nr \<Longrightarrow> \<exists>i. nr = 2 * i + 2 \<and> 8 * i + 12 \<le> 60"
  by (auto simp: aes_key_size_def intro: exI [of _ 4] exI [of _ 5] exI [of _ 6])

text \<open>The round keys that FIPS 197 derives from a key.\<close>

definition fips_keys :: "nat \<Rightarrow> nat \<Rightarrow> byte list \<Rightarrow> byte list list" where
  "fips_keys keybits nr key =
     map (\<lambda>i. concat (map (\<lambda>j. le32 (KeyExpansion (keybits div 32) key (4 * i + j))) [0 ..< 4])) [0 ..< nr + 1]"

lemma round_keys_expands:
  assumes "expands w (4 * n) rk" "4 * n \<le> 68"
  shows "round_keys n rk = map (\<lambda>i. concat (map (\<lambda>j. le32 (w (4 * i + j))) [0 ..< 4])) [0 ..< n]"
proof -
  have "take 4 (drop (4 * i) rk) = map (\<lambda>j. w (4 * i + j)) [0 ..< 4]" if "i < n" for i
  proof (rule nth_equalityI)
    show "length (take 4 (drop (4 * i) rk)) = length (map (\<lambda>j. w (4 * i + j)) [0 ..< 4])"
      using that assms by (simp add: expands_def)
  qed (use that assms in \<open>auto simp: expands_def\<close>)
  then show ?thesis
    unfolding round_keys_map by (simp add: comp_def)
qed

lemma fips_keys_eq:
  assumes "aes_key_size keybits nr" "expands (KeyExpansion (keybits div 32) key) (4 * (nr + 1)) rk"
  shows "round_keys (nr + 1) rk = fips_keys keybits nr key"
  using round_keys_expands [OF assms(2)] assms(1) by (simp add: fips_keys_def aes_key_size_def del: round_keys.simps) auto

lemma length_fips_keys: "k \<in> set (fips_keys keybits nr key) \<Longrightarrow> length k = 16"
  by (auto simp: fips_keys_def length_concat comp_def sum_list_triv)

lemma length_Cipher_fips: "length (Cipher (fips_keys keybits nr key) x) = 16"
proof -
  have "fips_keys keybits nr key \<noteq> []"
    by (simp add: fips_keys_def)
  then have "length (last (fips_keys keybits nr key)) = 16"
    using length_fips_keys last_in_set by blast
  then show ?thesis
    by (simp add: Cipher_def)
qed

lemma aes_setkey_encrypts:
  assumes "aes_key_size keybits nr" "length (aes_rk ctx) = 68"
  obtains ctx' where "mbedtls_aes_setkey_enc ctx key keybits = Inr ctx'"
    "\<forall>input out. length input = 16 \<longrightarrow> length out = 16 \<longrightarrow>
       mbedtls_aes_crypt_ecb ctx' True input out = Cipher (fips_keys keybits nr key) input"
proof -
  obtain ctx' where c: "mbedtls_aes_setkey_enc ctx key keybits = Inr ctx'" "aes_nr ctx' = nr"
    "expands (KeyExpansion (keybits div 32) key) (4 * (nr + 1)) (aes_rk ctx')"
    by (rule setkey_enc_expands [OF assms])
  obtain i where i: "nr = 2 * i + 2" "8 * i + 12 \<le> 60"
    using key_size_rounds [OF assms(1)] by blast
  have "mbedtls_aes_crypt_ecb ctx' True input out = Cipher (fips_keys keybits nr key) input"
    if "length input = 16" "length out = 16" for input out
    using encrypt_spec [of ctx' i input out] fips_keys_eq [OF assms(1) c(3)] c i that
    by (simp add: mbedtls_aes_crypt_ecb_def expands_def del: round_keys.simps)
  then show thesis
    using that c(1) by blast
qed

section \<open>Properties\<close>

text \<open>
  Property C19. The tables that \<open>aes_gen_tables\<close> computes on first use, through logarithms in
  the field of the S-box, are the tables that the other build has as constants.
\<close>

theorem aes_generated_tables: "aes_gen_tables = aes_rom_tables"
  by (rule gen_tables_eq)

text \<open>
  Property C17. For keys of 128, 192 and 256 bits, \<open>mbedtls_aes_setkey_enc\<close> succeeds, and
  encrypting a block with the context by tables is the cipher of FIPS 197 with the
  round keys of its key expansion.
\<close>

theorem aes_encrypts_fips197:
  assumes "aes_key_size keybits nr" "length (aes_rk ctx) = 68"
  shows "\<exists>ctx'. mbedtls_aes_setkey_enc ctx key keybits = Inr ctx' \<and>
    (\<forall>input out. length input = 16 \<longrightarrow> length out = 16 \<longrightarrow>
       mbedtls_aes_crypt_ecb ctx' True input out = Cipher (fips_keys keybits nr key) input)"
  using aes_setkey_encrypts [OF assms, of key] by blast

theorem aes_encrypts_fips197_witness:
  "\<exists>ctx'. mbedtls_aes_setkey_enc mbedtls_aes_init (replicate 16 7) 128 = Inr ctx' \<and>
    (\<forall>input out. length input = 16 \<longrightarrow> length out = 16 \<longrightarrow>
       mbedtls_aes_crypt_ecb ctx' True input out = Cipher (fips_keys 128 10 (replicate 16 7)) input)"
  by (rule aes_encrypts_fips197) (simp_all add: aes_key_size_def mbedtls_aes_init_def)

lemma length_inv_keys: "4 * (nr + 1) \<le> length sk \<Longrightarrow> nr \<ge> 1 \<Longrightarrow> length (inv_keys nr sk) = 4 * (nr + 1)"
proof -
  assume a: "4 * (nr + 1) \<le> length sk" "nr \<ge> 1"
  have "map length (map (\<lambda>i. map inv_key_word (take 4 (drop (4 * i) sk))) (rev [1 ..< nr])) = replicate (nr - 1) 4"
    using a by (intro nth_equalityI) (auto simp: rev_nth)
  then show ?thesis
    using a by (simp add: inv_keys_def length_concat sum_list_replicate del: map_map)
qed

lemma aes_contexts:
  assumes "aes_key_size keybits nr" "length (aes_rk ctx) = 68" "length (aes_rk ctx2) = 68"
  obtains e d where "mbedtls_aes_setkey_enc ctx key keybits = Inr e" "mbedtls_aes_setkey_dec ctx2 key keybits = Inr d"
    "\<And>x o1 o2. length x = 16 \<Longrightarrow> length o1 = 16 \<Longrightarrow> length o2 = 16 \<Longrightarrow>
      length (mbedtls_aes_crypt_ecb e True x o1) = 16 \<and> mbedtls_aes_crypt_ecb d False (mbedtls_aes_crypt_ecb e True x o1) o2 = x"
proof -
  obtain e where e: "mbedtls_aes_setkey_enc ctx key keybits = Inr e" "aes_nr e = nr"
    "expands (KeyExpansion (keybits div 32) key) (4 * (nr + 1)) (aes_rk e)"
    by (rule setkey_enc_expands [OF assms(1,2)])
  obtain c where c: "mbedtls_aes_setkey_enc mbedtls_aes_init key keybits = Inr c" "aes_nr c = nr"
    "expands (KeyExpansion (keybits div 32) key) (4 * (nr + 1)) (aes_rk c)"
    by (rule setkey_enc_expands [OF assms(1), of mbedtls_aes_init key]) (simp_all add: mbedtls_aes_init_def)
  obtain i where i: "nr = 2 * i + 2" "8 * i + 12 \<le> 60"
    using key_size_rounds [OF assms(1)] by blast
  define d where "d = ctx2\<lparr>aes_nr := nr, aes_rk := memcpy (aes_rk ctx2) 0 (inv_keys nr (aes_rk c))\<rparr>"
  have len: "length (aes_rk e) = 68" "length (aes_rk c) = 68" "length (aes_rk d) = 68"
    using e(3) c(3) i length_inv_keys [of nr "aes_rk c"] assms(3) by (simp_all add: expands_def d_def length_memcpy)
  obtain k0 ks kn where ks: "fips_keys keybits nr key = k0 # ks @ [kn]"
  proof -
    have "length (fips_keys keybits nr key) = Suc (Suc (2 * i + 1))"
      by (simp add: fips_keys_def i)
    then show thesis
      using that by (metis append_butlast_last_id length_Suc_conv list.size(3) nat.simps(3))
  qed
  have k16: "length k0 = 16" "length kn = 16" "\<forall>k \<in> set ks. length k = 16"
    using length_fips_keys [of _ keybits nr key] ks by auto
  have dkeys: "round_keys (nr + 1) (aes_rk d) = kn # map InvMixColumns (rev ks) @ [k0]"
    using round_keys_inv_keys [of nr "aes_rk c" "aes_rk ctx2" k0 ks kn] fips_keys_eq [OF assms(1) c(3)] ks len i assms(3)
    by (simp add: d_def del: round_keys.simps)
  show thesis
  proof (rule that)
    show "mbedtls_aes_setkey_enc ctx key keybits = Inr e"
      by (rule e(1))
    show "mbedtls_aes_setkey_dec ctx2 key keybits = Inr d"
      using c by (simp add: mbedtls_aes_setkey_dec_def d_def)
  next
    fix x o1 o2 :: "byte list" assume x: "length x = 16" "length o1 = 16" "length o2 = 16"
    have enc: "mbedtls_aes_crypt_ecb e True x o1 = Cipher (k0 # ks @ [kn]) x"
      using encrypt_spec [of e i x o1] fips_keys_eq [OF assms(1) e(3)] e(2) i len x ks
      by (simp add: mbedtls_aes_crypt_ecb_def del: round_keys.simps)
    have l: "length (Cipher (k0 # ks @ [kn]) x) = 16"
      using k16 by (simp add: Cipher_def)
    have "mbedtls_aes_crypt_ecb d False (Cipher (k0 # ks @ [kn]) x) o2 = EqInvCipher (round_keys (nr + 1) (aes_rk d)) (Cipher (k0 # ks @ [kn]) x)"
      using decrypt_spec [of d i "Cipher (k0 # ks @ [kn]) x" o2] i len x l
      by (simp add: mbedtls_aes_crypt_ecb_def d_def del: round_keys.simps)
    then show "length (mbedtls_aes_crypt_ecb e True x o1) = 16 \<and> mbedtls_aes_crypt_ecb d False (mbedtls_aes_crypt_ecb e True x o1) o2 = x"
      using EqInv_Cipher [OF k16 x(1)] enc l dkeys by simp
  qed
qed

text \<open>
  Property C18. Decryption reads back what encryption wrote, for every key and any number
  of blocks: with the inverse key schedule in CBC, and with the same context in the
  stream modes CFB, OFB and CTR, whose state at the end is the same on both sides. CBC
  refuses a text that is no sequence of whole blocks.
\<close>

theorem aes_modes_roundtrip:
  assumes "aes_key_size keybits nr" "length (aes_rk ctx) = 68" "length (aes_rk ctx2) = 68" "length iv = 16"
  shows "\<exists>e d. mbedtls_aes_setkey_enc ctx key keybits = Inr e \<and> mbedtls_aes_setkey_dec ctx2 key keybits = Inr d \<and>
    (\<forall>data. if length data mod 16 \<noteq> 0 then mbedtls_aes_crypt_cbc e True iv data = Inl MBEDTLS_ERR_AES_INVALID_INPUT_LENGTH
       else \<exists>iv' c. mbedtls_aes_crypt_cbc e True iv data = Inr (iv', c) \<and> mbedtls_aes_crypt_cbc d False iv c = Inr (iv', data)) \<and>
    (\<forall>n data. n < 16 \<longrightarrow>
       (\<exists>n' iv' c. mbedtls_aes_crypt_cfb128 e True n iv data = Inr (n', iv', c) \<and> mbedtls_aes_crypt_cfb128 e False n iv c = Inr (n', iv', data)) \<and>
       (\<exists>iv' c. mbedtls_aes_crypt_cfb8 e True iv data = (iv', c) \<and> mbedtls_aes_crypt_cfb8 e False iv c = (iv', data)) \<and>
       (\<exists>n' iv' c. mbedtls_aes_crypt_ofb e n iv data = Inr (n', iv', c) \<and> mbedtls_aes_crypt_ofb e n iv c = Inr (n', iv', data)) \<and>
       (\<forall>sb. \<exists>n' nc sb' c. mbedtls_aes_crypt_ctr e n iv sb data = Inr (n', nc, sb', c) \<and>
          mbedtls_aes_crypt_ctr e n iv sb c = Inr (n', nc, sb', data)))"
proof (rule aes_contexts [OF assms(1-3), of key])
  fix e d assume e: "mbedtls_aes_setkey_enc ctx key keybits = Inr e" "mbedtls_aes_setkey_dec ctx2 key keybits = Inr d"
    and inv: "\<And>x o1 o2. length x = 16 \<Longrightarrow> length o1 = 16 \<Longrightarrow> length o2 = 16 \<Longrightarrow>
      length (mbedtls_aes_crypt_ecb e True x o1) = 16 \<and> mbedtls_aes_crypt_ecb d False (mbedtls_aes_crypt_ecb e True x o1) o2 = x"
  show ?thesis
  proof (rule exI [of _ e], rule exI [of _ d], intro conjI allI impI)
    fix data
    show "if length data mod 16 \<noteq> 0 then mbedtls_aes_crypt_cbc e True iv data = Inl MBEDTLS_ERR_AES_INVALID_INPUT_LENGTH
       else \<exists>iv' c. mbedtls_aes_crypt_cbc e True iv data = Inr (iv', c) \<and> mbedtls_aes_crypt_cbc d False iv c = Inr (iv', data)"
      by (rule cbc_roundtrip [OF _ assms(4)]) (rule inv)
  qed (rule e cfb128_roundtrip cfb8_roundtrip ofb_roundtrip ctr_roundtrip; assumption?)+
qed

theorem aes_modes_roundtrip_witness:
  "\<exists>e d. mbedtls_aes_setkey_enc mbedtls_aes_init (replicate 32 1) 256 = Inr e \<and> mbedtls_aes_setkey_dec mbedtls_aes_init (replicate 32 1) 256 = Inr d \<and>
    (\<forall>data. if length data mod 16 \<noteq> 0
       then mbedtls_aes_crypt_cbc e True (replicate 16 0) data = Inl MBEDTLS_ERR_AES_INVALID_INPUT_LENGTH
       else \<exists>iv' c. mbedtls_aes_crypt_cbc e True (replicate 16 0) data = Inr (iv', c) \<and> mbedtls_aes_crypt_cbc d False (replicate 16 0) c = Inr (iv', data))"
  using aes_modes_roundtrip [of 256 14 mbedtls_aes_init mbedtls_aes_init "replicate 16 0" "replicate 32 1"]
  by (auto simp: aes_key_size_def mbedtls_aes_init_def)

end
