(* ===== verification/Gcm.thy ===== *)
theory Gcm
  imports Aes
begin


text \<open>
  Galois/Counter Mode of \<open>mbedtls/library/gcm.c\<close>: the multiplication by 4-bit tables,
  the operations on a context and the mode as SP 800-38D states it.
\<close>

subsection \<open>The tables of multiples\<close>

definition vh_step :: "u64 \<Rightarrow> u64 \<Rightarrow> u64 \<times> u64" where
  "vh_step vh vl =
     (let T = ucast ((vl AND 1) * 0xe1000000) :: u32;
          vl = push_bit 63 vh OR drop_bit 1 vl;
          vh = drop_bit 1 vh XOR push_bit 32 (ucast T)
      in (vh, vl))"

definition halve_entry :: "(u64 \<times> u64) \<times> u64 list \<times> u64 list \<Rightarrow> nat \<Rightarrow> (u64 \<times> u64) \<times> u64 list \<times> u64 list" where
  "halve_entry s i = (case s of ((vh, vl), HH, HL) \<Rightarrow>
     let (vh, vl) = vh_step vh vl in ((vh, vl), HH[i := vh], HL[i := vl]))"

definition sum_entries :: "u64 list \<times> u64 list \<Rightarrow> nat \<Rightarrow> u64 list \<times> u64 list" where
  "sum_entries t i = (case t of (HH, HL) \<Rightarrow>
     let vh = HH ! i; vl = HL ! i
     in foldl (\<lambda>(HH, HL) j. (HH[i + j := vh XOR HH ! j], HL[i + j := vl XOR HL ! j])) (HH, HL) [1 ..< i])"

definition fill_tables :: "byte list \<Rightarrow> u64 list \<Rightarrow> u64 list \<Rightarrow> u64 list \<times> u64 list" where
  "fill_tables h HH HL =
     (let vh = push_bit 32 (ucast (GET_UINT32_BE h 0)) OR ucast (GET_UINT32_BE h 4);
          vl = push_bit 32 (ucast (GET_UINT32_BE h 8)) OR ucast (GET_UINT32_BE h 12);
          HL = HL[8 := vl]; HH = HH[8 := vh]; HH = HH[0 := 0]; HL = HL[0 := 0];
          (_, HH, HL) = foldl halve_entry ((vh, vl), HH, HL) [4, 2, 1]
      in foldl sum_entries (HH, HL) [2, 4, 8])"

definition last4 :: "u64 list" where
  "last4 = [0x0000, 0x1c20, 0x3840, 0x2460, 0x7080, 0x6ca0, 0x48c0, 0x54e0,
            0xe100, 0xfd20, 0xd940, 0xc560, 0x9180, 0x8da0, 0xa9c0, 0xb5e0]"

definition mult_nibble :: "u64 list \<Rightarrow> u64 list \<Rightarrow> u64 \<times> u64 \<Rightarrow> byte \<Rightarrow> u64 \<times> u64" where
  "mult_nibble HH HL z nib = (case z of (zh, zl) \<Rightarrow>
     let rem = ucast zl AND 0xf :: byte;
         zl = push_bit 60 zh OR drop_bit 4 zl;
         zh = drop_bit 4 zh;
         zh = zh XOR push_bit 48 (last4 ! unat rem);
         zh = zh XOR HH ! unat nib; zl = zl XOR HL ! unat nib
     in (zh, zl))"

definition mult_byte :: "u64 list \<Rightarrow> u64 list \<Rightarrow> byte list \<Rightarrow> u64 \<times> u64 \<Rightarrow> nat \<Rightarrow> u64 \<times> u64" where
  "mult_byte HH HL x z i =
     (let lo = x ! i AND 0xf; hi = drop_bit 4 (x ! i);
          z = (if i \<noteq> 15 then mult_nibble HH HL z lo else z)
      in mult_nibble HH HL z hi)"

definition gcm_mult :: "u64 list \<Rightarrow> u64 list \<Rightarrow> byte list \<Rightarrow> byte list \<Rightarrow> byte list" where
  "gcm_mult HH HL x output =
     (let lo = x ! 15 AND 0xf;
          (zh, zl) = foldl (mult_byte HH HL x) (HH ! unat lo, HL ! unat lo) (rev [0 ..< 16])
      in PUT_UINT32_BE (ucast zl) (PUT_UINT32_BE (ucast (drop_bit 32 zl))
           (PUT_UINT32_BE (ucast zh) (PUT_UINT32_BE (ucast (drop_bit 32 zh)) output 0) 4) 8) 12)"

subsection \<open>The product of SP 800-38D\<close>

text \<open>
  A block is a polynomial over two elements whose first bit is the constant term.
  \<open>mulx\<close> multiplies by the indeterminate modulo \<open>R\<close>; \<open>gf_mult\<close> is Algorithm 1.
\<close>

type_synonym u128 = "128 word"

definition R :: u128 where "R = push_bit 120 0xE1"

definition mulx :: "u128 \<Rightarrow> u128" where
  "mulx v = drop_bit 1 v XOR (if bit v 0 then R else 0)"

fun gf_bits :: "bool list \<Rightarrow> u128 \<Rightarrow> u128" where
  "gf_bits [] v = 0"
| "gf_bits (x # xs) v = (if x then v else 0) XOR gf_bits xs (mulx v)"

definition byte_bits :: "byte \<Rightarrow> bool list" where
  "byte_bits b = map (\<lambda>i. bit b (7 - i)) [0 ..< 8]"

definition block :: "byte list \<Rightarrow> u128" where
  "block x = push_bit 96 (ucast (GET_UINT32_BE x 0)) OR push_bit 64 (ucast (GET_UINT32_BE x 4)) OR
     push_bit 32 (ucast (GET_UINT32_BE x 8)) OR ucast (GET_UINT32_BE x 12)"

definition unblock :: "u128 \<Rightarrow> byte list" where
  "unblock z = be32 (ucast (drop_bit 96 z)) @ be32 (ucast (drop_bit 64 z)) @ be32 (ucast (drop_bit 32 z)) @ be32 (ucast z)"

definition gf_mult :: "byte list \<Rightarrow> byte list \<Rightarrow> byte list" where
  "gf_mult X Y = unblock (gf_bits (concat (map byte_bits X)) (block Y))"

subsection \<open>The tables hold multiples\<close>

definition pack :: "u64 \<times> u64 \<Rightarrow> u128" where
  "pack z = (case z of (zh, zl) \<Rightarrow> push_bit 64 (ucast zh) OR ucast zl)"

lemma bit_pack: "bit (pack (zh, zl)) n \<longleftrightarrow> (if n < 64 then bit zl n else n < 128 \<and> bit zh (n - 64))"
  by (auto simp: pack_def bit_simps dest: bit_imp_le_length)

lemma word128_eqI: "(\<And>n. n < 128 \<Longrightarrow> bit v n = bit w n) \<Longrightarrow> v = w" for v w :: u128
  by (rule bit_word_eqI) simp

lemma pack_xor: "pack (a XOR c, b XOR d) = pack (a, b) XOR pack (c, d)"
  by (rule word128_eqI) (simp add: bit_pack bit_simps)

lemma mulx_xor: "mulx (a XOR b) = mulx a XOR mulx b"
  by (rule word128_eqI) (auto simp: mulx_def bit_simps)

lemma mulx_0 [simp]: "mulx 0 = 0"
  by (simp add: mulx_def)

lemma pack_R: "pack (0xE100000000000000, 0) = R"
  by (simp add: pack_def R_def)

lemma pack_0: "pack (0, 0) = 0"
  by (simp add: pack_def)

lemma pack_shift: "pack (drop_bit 1 vh, push_bit 63 vh OR drop_bit 1 vl) = drop_bit 1 (pack (vh, vl))"
proof (rule word128_eqI)
  fix n :: nat assume n: "n < 128"
  have "63 < n \<Longrightarrow> Suc (n - 64) = n - 63"
    by simp
  with n show "bit (pack (drop_bit 1 vh, push_bit 63 vh OR drop_bit 1 vl)) n = bit (drop_bit 1 (pack (vh, vl))) n"
    by (cases "n < 63"; cases "n = 63") (auto simp: bit_pack bit_simps dest: bit_imp_le_length)
qed

lemma pack_vh_step: "pack (vh_step vh vl) = mulx (pack (vh, vl))"
proof -
  define T where "T = (ucast ((vl AND 1) * 0xe1000000 :: u64) :: u32)"
  have "vl AND 1 = (if bit vl 0 then 1 else 0)"
    by (simp add: and_one_eq bit_0 mod_2_eq_odd)
  then have "push_bit 32 (ucast T) = (if bit vl 0 then 0xE100000000000000 else 0 :: u64)"
    by (simp add: T_def)
  moreover have "bit (pack (vh, vl)) 0 = bit vl 0"
    by (simp add: bit_pack)
  moreover have "pack (drop_bit 1 vh XOR c, w) = pack (drop_bit 1 vh, w) XOR pack (c, 0)" for c w
    using pack_xor [of "drop_bit 1 vh" c w 0] by simp
  ultimately show ?thesis
    using pack_shift [of vh vl] pack_0 by (simp add: vh_step_def Let_def mulx_def pack_R flip: T_def)
qed

lemma pack_shift4: "pack (drop_bit 4 vh, push_bit 60 vh OR drop_bit 4 vl) = drop_bit 4 (pack (vh, vl))"
proof (rule word128_eqI)
  fix n :: nat assume "n < 128"
  then show "bit (pack (drop_bit 4 vh, push_bit 60 vh OR drop_bit 4 vl)) n = bit (drop_bit 4 (pack (vh, vl))) n"
    by (cases "n < 60"; cases "n < 64") (auto simp: bit_pack bit_simps dest: bit_imp_le_length)
qed

text \<open>Four multiplications by the indeterminate at once.\<close>

definition mulx4 :: "u128 \<Rightarrow> u128" where "mulx4 v = mulx (mulx (mulx (mulx v)))"

lemma mulx4_xor: "mulx4 (a XOR b) = mulx4 a XOR mulx4 b"
  by (simp add: mulx4_def mulx_xor)

lemma mulx_even: "\<not> bit v 0 \<Longrightarrow> mulx v = drop_bit 1 v"
  by (simp add: mulx_def)

lemma and_15: "v AND 15 = take_bit 4 v" for v :: "'a::len word"
  by (simp add: take_bit_eq_mask mask_eq_exp_minus_1)

lemma mulx4_high: "take_bit 4 v = 0 \<Longrightarrow> mulx4 v = drop_bit 4 v"
proof -
  assume a: "take_bit 4 v = 0"
  have "\<not> bit v k" if "k < 4" for k
  proof
    assume "bit v k"
    then have "bit (take_bit 4 v) k"
      using that by (simp add: bit_take_bit_iff)
    then show False
      using a by simp
  qed
  then show ?thesis
    by (simp add: mulx4_def mulx_even bit_simps numeral_eq_Suc)
qed

lemma less_16_cases: "n < 16 \<Longrightarrow> n \<in> {0, 1, 2, 3, 4, 5, 6, 7, 8, 9, 10, 11, 12, 13, 14, 15}" for n :: nat
  by (auto simp: numeral_eq_Suc less_Suc_eq)

lemma mulx4_low: "mulx4 (take_bit 4 v) = push_bit 112 (ucast (last4 ! unat (take_bit 4 v)))"
proof -
  define n where "n = unat (take_bit 4 v)"
  have "n < 16"
    using take_bit_nat_less_exp [of 4 "unat v"] by (simp add: n_def unsigned_take_bit_eq)
  moreover have "take_bit 4 v = word_of_nat n"
    by (simp add: n_def)
  ultimately show ?thesis
    using less_16_cases [OF \<open>n < 16\<close>]
    by (elim insertE emptyE) (simp_all add: mulx4_def mulx_def R_def last4_def bit_numeral_rec bit_0 unat_of_nat)
qed

lemma mulx4_table: "mulx4 v = drop_bit 4 v XOR push_bit 112 (ucast (last4 ! unat (take_bit 4 v)))"
proof -
  define h where "h = push_bit 4 (drop_bit 4 v)"
  have "v = h XOR take_bit 4 v"
    by (rule word128_eqI) (auto simp: h_def bit_simps)
  then have "mulx4 v = mulx4 h XOR mulx4 (take_bit 4 v)"
    by (metis mulx4_xor)
  moreover have "take_bit 4 h = 0"
    by (rule word128_eqI) (simp add: h_def bit_simps)
  moreover have "drop_bit 4 h = drop_bit 4 v"
    by (rule word128_eqI) (auto simp: h_def bit_simps dest: bit_imp_le_length)
  ultimately show ?thesis
    by (simp add: mulx4_high mulx4_low)
qed


definition entry :: "u64 list \<times> u64 list \<Rightarrow> nat \<Rightarrow> u128" where
  "entry t k = (case t of (HH, HL) \<Rightarrow> pack (HH ! k, HL ! k))"

lemma foldl_two: "foldl (\<lambda>(a, b) j. (f a j, g b j)) (a, b) js = (foldl f a js, foldl g b js)"
  by (induction js arbitrary: a b) simp_all

lemma sum_fold:
  assumes "2 * i \<le> length A" "m \<le> i"
  shows "foldl (\<lambda>A j. A[i + j := c XOR A ! j]) A [1 ..< m] =
    map (\<lambda>k. if i < k \<and> k < i + m then c XOR A ! (k - i) else A ! k) [0 ..< length A]"
  using assms(2)
proof (induction m)
  case 0
  show ?case by (rule nth_equalityI) auto
next
  case (Suc m)
  show ?case
  proof (cases "m = 0")
    case True
    then show ?thesis by (intro nth_equalityI) auto
  next
    case False
    have "foldl (\<lambda>A j. A[i + j := c XOR A ! j]) A [1 ..< Suc m] =
        (map (\<lambda>k. if i < k \<and> k < i + m then c XOR A ! (k - i) else A ! k) [0 ..< length A])[i + m := c XOR A ! m]"
      using Suc assms(1) False by simp
    then show ?thesis
      using False Suc.prems assms(1) by (auto intro!: nth_equalityI simp: nth_list_update less_Suc_eq)
  qed
qed

lemma sum_entries_nth:
  assumes "length HH = n" "length HL = n" "2 * i \<le> n" "sum_entries (HH, HL) i = (HH', HL')"
  shows "length HH' = n \<and> length HL' = n \<and>
    (\<forall>k < n. entry (HH', HL') k = (if i < k \<and> k < 2 * i then entry (HH, HL) i XOR entry (HH, HL) (k - i) else entry (HH, HL) k))"
proof -
  have "HH' = map (\<lambda>k. if i < k \<and> k < i + i then HH ! i XOR HH ! (k - i) else HH ! k) [0 ..< length HH]"
    "HL' = map (\<lambda>k. if i < k \<and> k < i + i then HL ! i XOR HL ! (k - i) else HL ! k) [0 ..< length HL]"
    using assms sum_fold [of i HH i "HH ! i"] sum_fold [of i HL i "HL ! i"]
    by (simp_all add: sum_entries_def foldl_two Let_def)
  then show ?thesis
    using assms(1,2) by (auto simp: entry_def pack_xor)
qed

definition table_of :: "u64 list \<times> u64 list \<Rightarrow> u128 \<Rightarrow> bool" where
  "table_of t H \<longleftrightarrow> (\<forall>n :: byte. unat n < 16 \<longrightarrow> entry t (unat n) = gf_bits [bit n 3, bit n 2, bit n 1, bit n 0] H)"

lemma halve_entry_entries:
  assumes "halve_entry (v, HH, HL) i = (v', HH', HL')" "length HH = 16" "length HL = 16" "i < 16"
  shows "pack v' = mulx (pack v)" "length HH' = 16" "length HL' = 16"
    "entry (HH', HL') k = (if k = i then mulx (pack v) else entry (HH, HL) k)"
proof -
  obtain vh vl where v: "v = (vh, vl)" by (cases v)
  obtain wh wl where w: "vh_step vh vl = (wh, wl)" by (cases "vh_step vh vl")
  then show "pack v' = mulx (pack v)" "length HH' = 16" "length HL' = 16"
    "entry (HH', HL') k = (if k = i then mulx (pack v) else entry (HH, HL) k)"
    using assms v pack_vh_step [of vh vl] by (auto simp: halve_entry_def entry_def nth_list_update)
qed

lemma block_pack: "block h = pack (push_bit 32 (ucast (GET_UINT32_BE h 0)) OR ucast (GET_UINT32_BE h 4),
    push_bit 32 (ucast (GET_UINT32_BE h 8)) OR ucast (GET_UINT32_BE h 12))"
proof (rule word128_eqI)
  fix n :: nat assume "n < 128"
  then show "bit (block h) n = bit (pack (push_bit 32 (ucast (GET_UINT32_BE h 0)) OR ucast (GET_UINT32_BE h 4),
    push_bit 32 (ucast (GET_UINT32_BE h 8)) OR ucast (GET_UINT32_BE h 12))) n"
    by (cases "n < 32"; cases "n < 64"; cases "n < 96") (auto simp: block_def bit_pack bit_simps dest: bit_imp_le_length)
qed

lemma fill_tables_entries:
  assumes "length HH = 16" "length HL = 16"
  shows "\<exists>A B. fill_tables h HH HL = (A, B) \<and> length A = 16 \<and> length B = 16 \<and> table_of (A, B) (block h)"
proof -
  define v where "v = (push_bit 32 (ucast (GET_UINT32_BE h 0)) OR ucast (GET_UINT32_BE h 4) :: u64,
    push_bit 32 (ucast (GET_UINT32_BE h 8)) OR ucast (GET_UINT32_BE h 12) :: u64)"
  define H where "H = pack v"
  obtain A0 B0 where a0: "A0 = HH[8 := fst v, 0 := 0]" "B0 = HL[8 := snd v, 0 := 0]" by blast
  have e0: "length A0 = 16" "length B0 = 16" "entry (A0, B0) 8 = H" "entry (A0, B0) 0 = 0"
    using assms by (simp_all add: a0 entry_def H_def pack_0)
  obtain v1 A1 B1 where h1: "halve_entry (v, A0, B0) 4 = (v1, A1, B1)" by (metis prod_cases3)
  note e1 = halve_entry_entries [OF h1 e0(1,2), simplified, folded H_def]
  obtain v2 A2 B2 where h2: "halve_entry (v1, A1, B1) 2 = (v2, A2, B2)" by (metis prod_cases3)
  note e2 = halve_entry_entries [OF h2 e1(2,3), simplified, unfolded e1]
  obtain v3 A3 B3 where h3: "halve_entry (v2, A2, B2) 1 = (v3, A3, B3)" by (metis prod_cases3)
  note e3 = halve_entry_entries [OF h3 e2(2,3), simplified, unfolded e2]
  obtain A4 B4 where s1: "sum_entries (A3, B3) 2 = (A4, B4)" by fastforce
  obtain A5 B5 where s2: "sum_entries (A4, B4) 4 = (A5, B5)" by fastforce
  obtain A6 B6 where s3: "sum_entries (A5, B5) 8 = (A6, B6)" by fastforce
  note t1 = sum_entries_nth [OF e3(2,3) _ s1]
  then have t1: "length A4 = 16" "length B4 = 16"
    "\<And>k. k < 16 \<Longrightarrow> entry (A4, B4) k = (if 2 < k \<and> k < 4 then entry (A3, B3) 2 XOR entry (A3, B3) (k - 2) else entry (A3, B3) k)"
    by simp_all
  have t2: "length A5 = 16" "length B5 = 16"
    "\<And>k. k < 16 \<Longrightarrow> entry (A5, B5) k = (if 4 < k \<and> k < 8 then entry (A4, B4) 4 XOR entry (A4, B4) (k - 4) else entry (A4, B4) k)"
    using sum_entries_nth [OF t1(1,2) _ s2] by simp_all
  have t3: "length A6 = 16" "length B6 = 16"
    "\<And>k. k < 16 \<Longrightarrow> entry (A6, B6) k = (if 8 < k \<and> k < 16 then entry (A5, B5) 8 XOR entry (A5, B5) (k - 8) else entry (A5, B5) k)"
    using sum_entries_nth [OF t2(1,2) _ s3] by simp_all
  have x3: "entry (A3, B3) 0 = 0" "entry (A3, B3) (Suc 0) = mulx (mulx (mulx H))" "entry (A3, B3) 2 = mulx (mulx H)"
    "entry (A3, B3) 4 = mulx H" "entry (A3, B3) 8 = H"
    using e0 by (simp_all add: e3 e2 e1)
  have "table_of (A6, B6) H"
    unfolding table_of_def
  proof (intro allI impI)
    fix n :: byte assume "unat n < 16"
    then obtain m where m: "m < 16" "n = word_of_nat m" "unat n = m"
      using that [of "unat n"] by simp
    then show "entry (A6, B6) (unat n) = gf_bits [bit n 3, bit n 2, bit n 1, bit n 0] H"
      using less_16_cases [OF m(1)] unfolding m(2,3)
      by (elim insertE emptyE) (simp_all add: t3 t2 t1 x3 bit_numeral_rec xor_ac)
  qed
  moreover have "fill_tables h HH HL = (A6, B6)"
    using h1 h2 h3 s1 s2 s3 by (simp add: fill_tables_def Let_def v_def a0)
  ultimately show ?thesis
    using t3 by (simp add: H_def v_def block_pack)
qed


subsection \<open>The multiplication\<close>

lemma gf_bits_mulx: "gf_bits xs (mulx v) = mulx (gf_bits xs v)"
  by (induction xs arbitrary: v) (auto simp: mulx_xor)

lemma gf_bits_append4:
  "length xs = 4 \<Longrightarrow> gf_bits (xs @ ys) v = gf_bits xs v XOR mulx4 (gf_bits ys v)"
  by (auto simp: numeral_eq_Suc length_Suc_conv gf_bits_mulx mulx4_def mulx_xor xor_ac)

definition nibble_bits :: "byte \<Rightarrow> bool list" where
  "nibble_bits n = [bit n 3, bit n 2, bit n 1, bit n 0]"

lemma byte_bits_nibbles: "byte_bits b = nibble_bits (drop_bit 4 b) @ nibble_bits (b AND 0xf)"
proof -
  have "b AND 0xf = take_bit 4 b"
    by (rule and_15)
  then show ?thesis
    by (simp add: byte_bits_def nibble_bits_def bit_simps upt_rec)
qed

lemma unat_nibbles: "unat (b AND 0xf) < 16" "unat (drop_bit 4 b) < 16" for b :: byte
proof -
  show "unat (b AND 0xf) < 16"
    using take_bit_nat_less_exp [of 4 "unat b"] by (simp add: and_15 unsigned_take_bit_eq)
  show "unat (drop_bit 4 b) < 16"
    using unsigned_less [of b, where 'a = nat] by (simp add: unsigned_drop_bit_eq drop_bit_nat_def take_bit_nat_eq_self less_mult_imp_div_less del: drop_bit_eq_div)
qed

lemma rem_pack: "unat (ucast zl AND 0xf :: byte) = unat (take_bit 4 (pack (zh, zl)))"
proof -
  have "ucast zl AND 0xf = (ucast (take_bit 4 (pack (zh, zl))) :: byte)"
    unfolding and_15 by (rule bit_word_eqI) (auto simp: bit_simps bit_pack)
  moreover have "unat (ucast (take_bit 4 (pack (zh, zl))) :: byte) = unat (take_bit 4 (pack (zh, zl)))"
    using take_bit_nat_less_exp [of 4 "unat (pack (zh, zl))"]
    by (simp add: unsigned_ucast_eq unsigned_take_bit_eq take_bit_nat_eq_self)
  ultimately show ?thesis
    by simp
qed

lemma pack_mult_nibble: "pack (mult_nibble HH HL z nib) = mulx4 (pack z) XOR entry (HH, HL) (unat nib)"
proof -
  obtain zh zl where z: "z = (zh, zl)" by (cases z)
  let ?l = "last4 ! unat (take_bit 4 (pack (zh, zl)))"
  have l: "pack (push_bit 48 ?l, 0) = push_bit 112 (ucast ?l)"
    by (rule word128_eqI) (auto simp: bit_pack bit_simps dest: bit_imp_le_length)
  have "pack (mult_nibble HH HL z nib) =
      pack ((drop_bit 4 zh XOR push_bit 48 ?l) XOR HH ! unat nib, (push_bit 60 zh OR drop_bit 4 zl) XOR HL ! unat nib)"
    by (simp add: mult_nibble_def z rem_pack [of _ zh] Let_def)
  also have "\<dots> = pack (drop_bit 4 zh XOR push_bit 48 ?l, push_bit 60 zh OR drop_bit 4 zl) XOR entry (HH, HL) (unat nib)"
    by (simp only: pack_xor entry_def prod.case)
  also have "\<dots> = mulx4 (pack z) XOR entry (HH, HL) (unat nib)"
    using pack_xor [of "drop_bit 4 zh" "push_bit 48 ?l" "push_bit 60 zh OR drop_bit 4 zl" 0]
    by (simp add: l pack_shift4 mulx4_table z)
  finally show ?thesis .
qed

lemma mult_loop:
  assumes "table_of (HH, HL) H" "length x = 16" "k \<le> 15"
  shows "pack (foldl (mult_byte HH HL x) (HH ! unat (x ! 15 AND 0xf), HL ! unat (x ! 15 AND 0xf)) (rev [k ..< 16]))
    = gf_bits (concat (map byte_bits (drop k x))) H"
  using assms(3)
proof (induction k rule: inc_induct)
  have e: "entry (HH, HL) (unat b) = gf_bits (nibble_bits b) H" if "unat b < 16" for b
    using assms(1) that by (simp add: table_of_def nibble_bits_def)
  have l4: "length (nibble_bits b) = 4" for b
    by (simp add: nibble_bits_def)
  {
    case base
    have "drop 15 x = [x ! 15]"
      using assms(2) Cons_nth_drop_Suc [of 15 x] by simp
    moreover have "rev [15 ..< 16] = [15 :: nat]"
      by (simp add: upt_rec_numeral)
    ultimately show ?case
      using e [OF unat_nibbles(1), of "x ! 15"] e [OF unat_nibbles(2), of "x ! 15"] 
      by (simp add: mult_byte_def pack_mult_nibble byte_bits_nibbles gf_bits_append4 l4 entry_def xor_ac)
  next
    case (step k)
    have "drop k x = x ! k # drop (Suc k) x"
      using assms(2) step Cons_nth_drop_Suc [of k x] by simp
    moreover have "rev [k ..< 16] = rev [Suc k ..< 16] @ [k]"
      using step by (simp add: upt_conv_Cons)
    ultimately show ?case
      using step e [OF unat_nibbles(1), of "x ! k"] e [OF unat_nibbles(2), of "x ! k"]
      by (simp add: mult_byte_def pack_mult_nibble byte_bits_nibbles gf_bits_append4 l4 xor_ac)
  }
qed

lemma gcm_mult_gf:
  assumes "table_of (HH, HL) (block h)" "length x = 16" "length out = 16"
  shows "gcm_mult HH HL x out = gf_mult x h"
proof -
  obtain zh zl where z: "foldl (mult_byte HH HL x) (HH ! unat (x ! 15 AND 0xf), HL ! unat (x ! 15 AND 0xf)) (rev [0 ..< 16]) = (zh, zl)"
    by fastforce
  have "pack (zh, zl) = gf_bits (concat (map byte_bits x)) (block h)"
    using mult_loop [OF assms(1,2), of 0] z by simp
  moreover have "ucast (drop_bit 32 zh) = (ucast (drop_bit 96 (pack (zh, zl))) :: u32)"
    "ucast zh = (ucast (drop_bit 64 (pack (zh, zl))) :: u32)"
    "ucast (drop_bit 32 zl) = (ucast (drop_bit 32 (pack (zh, zl))) :: u32)"
    "ucast zl = (ucast (pack (zh, zl)) :: u32)"
    by (rule bit_word_eqI; auto simp: bit_simps bit_pack dest: bit_imp_le_length)+
  moreover have "gcm_mult HH HL x out = be32 (ucast (drop_bit 32 zh)) @ be32 (ucast zh) @ be32 (ucast (drop_bit 32 zl)) @ be32 (ucast zl)"
    using z assms(3) by (simp add: gcm_mult_def Let_def bytes_simps) (simp add: memcpy_def)
  ultimately show ?thesis
    by (simp add: gf_mult_def unblock_def)
qed

lemma length_gf_mult [simp]: "length (gf_mult x h) = 16"
  by (simp add: gf_mult_def unblock_def)


subsection \<open>The generic cipher layer\<close>

text \<open>
  From \<open>cipher.c\<close> and \<open>cipher_wrap.c\<close>, what the mode uses: a table of ciphers with their
  functions, the set-up of a context and the encryption of a block. The two pointers of
  a context, to the description of the cipher and to its keyed state, are set together.
  The arguments \<open>alloc\<close> say whether \<open>calloc\<close> succeeds.
\<close>

record 'c cipher_info =
  ci_cipher :: int
  ci_mode :: int
  ci_key_bitlen :: nat
  ci_flags :: nat
  ci_block_size :: nat
  ecb_func :: "'c \<Rightarrow> bool \<Rightarrow> byte list \<Rightarrow> byte list \<Rightarrow> byte list res"
  setkey_enc_func :: "'c \<Rightarrow> byte list \<Rightarrow> nat \<Rightarrow> 'c res"
  setkey_dec_func :: "'c \<Rightarrow> byte list \<Rightarrow> nat \<Rightarrow> 'c res"
  ctx_alloc_func :: "bool \<Rightarrow> 'c option"

record 'c cipher_context =
  cc_cipher :: "('c cipher_info \<times> 'c) option"
  cc_key_bitlen :: nat
  cc_operation :: bool

definition MBEDTLS_ERR_CIPHER_BAD_INPUT_DATA :: int where "MBEDTLS_ERR_CIPHER_BAD_INPUT_DATA = - 0x6100"
definition MBEDTLS_ERR_CIPHER_ALLOC_FAILED :: int where "MBEDTLS_ERR_CIPHER_ALLOC_FAILED = - 0x6180"
definition MBEDTLS_ERR_CIPHER_FULL_BLOCK_EXPECTED :: int where "MBEDTLS_ERR_CIPHER_FULL_BLOCK_EXPECTED = - 0x6280"
definition MBEDTLS_ERR_CIPHER_INVALID_CONTEXT :: int where "MBEDTLS_ERR_CIPHER_INVALID_CONTEXT = - 0x6380"
definition MBEDTLS_CIPHER_ID_AES :: int where "MBEDTLS_CIPHER_ID_AES = 2"
definition MBEDTLS_MODE_ECB :: int where "MBEDTLS_MODE_ECB = 1"
definition MBEDTLS_MODE_CFB :: int where "MBEDTLS_MODE_CFB = 3"
definition MBEDTLS_MODE_OFB :: int where "MBEDTLS_MODE_OFB = 4"
definition MBEDTLS_MODE_CTR :: int where "MBEDTLS_MODE_CTR = 5"

definition mbedtls_cipher_init :: "'c cipher_context" where
  "mbedtls_cipher_init = \<lparr>cc_cipher = None, cc_key_bitlen = 0, cc_operation = False\<rparr>"

text \<open>Freeing erases the context; the memory of the keyed state is returned.\<close>

definition mbedtls_cipher_free :: "'c cipher_context \<Rightarrow> 'c cipher_context" where
  "mbedtls_cipher_free ctx = ctx\<lparr>cc_cipher := None, cc_key_bitlen := 0, cc_operation := False\<rparr>"

definition mbedtls_cipher_info_from_values :: "'c cipher_info list \<Rightarrow> int \<Rightarrow> nat \<Rightarrow> int \<Rightarrow> 'c cipher_info option" where
  "mbedtls_cipher_info_from_values mbedtls_cipher_definitions cipher_id key_bitlen mode =
     find (\<lambda>def. ci_cipher def = cipher_id \<and> ci_key_bitlen def = key_bitlen \<and> ci_mode def = mode) mbedtls_cipher_definitions"

definition mbedtls_cipher_setup :: "bool \<Rightarrow> 'c cipher_context \<Rightarrow> 'c cipher_info option \<Rightarrow> 'c cipher_context \<times> int" where
  "mbedtls_cipher_setup alloc ctx cipher_info = (case cipher_info of
       None \<Rightarrow> (ctx, MBEDTLS_ERR_CIPHER_BAD_INPUT_DATA)
     | Some info \<Rightarrow> (case ctx_alloc_func info alloc of
           None \<Rightarrow> (mbedtls_cipher_init, MBEDTLS_ERR_CIPHER_ALLOC_FAILED)
         | Some c \<Rightarrow> (mbedtls_cipher_init\<lparr>cc_cipher := Some (info, c)\<rparr>, 0)))"

definition mbedtls_cipher_setkey :: "'c cipher_context \<Rightarrow> byte list \<Rightarrow> nat \<Rightarrow> bool \<Rightarrow> 'c cipher_context \<times> int" where
  "mbedtls_cipher_setkey ctx key key_bitlen operation = (case cc_cipher ctx of
       None \<Rightarrow> (ctx, MBEDTLS_ERR_CIPHER_BAD_INPUT_DATA)
     | Some (info, c) \<Rightarrow>
         if \<not> bit (ci_flags info) 1 \<and> ci_key_bitlen info \<noteq> key_bitlen then (ctx, MBEDTLS_ERR_CIPHER_BAD_INPUT_DATA)
         else let ctx = ctx\<lparr>cc_key_bitlen := key_bitlen, cc_operation := operation\<rparr>;
                  r = (if operation \<or> ci_mode info \<in> {MBEDTLS_MODE_CFB, MBEDTLS_MODE_OFB, MBEDTLS_MODE_CTR}
                       then setkey_enc_func info c key key_bitlen else setkey_dec_func info c key key_bitlen)
              in (case r of Inl e \<Rightarrow> (ctx, e) | Inr c \<Rightarrow> (ctx\<lparr>cc_cipher := Some (info, c)\<rparr>, 0)))"

text \<open>\<open>mbedtls_cipher_update\<close> up to the end of its case for the mode ECB, the one set by \<open>gcm.c\<close>.\<close>

definition cipher_update_ecb :: "'c cipher_context \<Rightarrow> byte list \<Rightarrow> byte list \<Rightarrow> byte list res" where
  "cipher_update_ecb ctx input output = (case cc_cipher ctx of
       None \<Rightarrow> Inl MBEDTLS_ERR_CIPHER_BAD_INPUT_DATA
     | Some (info, c) \<Rightarrow>
         if ci_block_size info = 0 then Inl MBEDTLS_ERR_CIPHER_INVALID_CONTEXT
         else if length input \<noteq> ci_block_size info then Inl MBEDTLS_ERR_CIPHER_FULL_BLOCK_EXPECTED
         else ecb_func info c (cc_operation ctx) input output)"

definition aes_ctx_alloc :: "bool \<Rightarrow> aes_context option" where
  "aes_ctx_alloc alloc = (if alloc then Some mbedtls_aes_init else None)"

definition aes_ecb_info :: "nat \<Rightarrow> aes_context cipher_info" where
  "aes_ecb_info key_bitlen = \<lparr>ci_cipher = MBEDTLS_CIPHER_ID_AES, ci_mode = MBEDTLS_MODE_ECB, ci_key_bitlen = key_bitlen,
     ci_flags = 0, ci_block_size = 16,
     ecb_func = (\<lambda>c operation input output. Inr (mbedtls_aes_crypt_ecb c operation input output)),
     setkey_enc_func = mbedtls_aes_setkey_enc, setkey_dec_func = mbedtls_aes_setkey_dec, ctx_alloc_func = aes_ctx_alloc\<rparr>"

text \<open>The entries of the table of ciphers for AES in the mode ECB, which come first in it.\<close>

definition aes_ecb_definitions :: "aes_context cipher_info list" where
  "aes_ecb_definitions = [aes_ecb_info 128, aes_ecb_info 192, aes_ecb_info 256]"

subsection \<open>Operations on a context\<close>

record 'c gcm_context =
  gcm_cipher_ctx :: "'c cipher_context"
  gcm_HL :: "u64 list"
  gcm_HH :: "u64 list"
  gcm_len :: u64
  gcm_add_len :: u64
  gcm_base_ectr :: "byte list"
  gcm_y :: "byte list"
  gcm_buf :: "byte list"
  gcm_mode :: int

definition MBEDTLS_GCM_ENCRYPT :: int where "MBEDTLS_GCM_ENCRYPT = 1"
definition MBEDTLS_GCM_DECRYPT :: int where "MBEDTLS_GCM_DECRYPT = 0"
definition MBEDTLS_ERR_GCM_AUTH_FAILED :: int where "MBEDTLS_ERR_GCM_AUTH_FAILED = - 0x0012"
definition MBEDTLS_ERR_GCM_BAD_INPUT :: int where "MBEDTLS_ERR_GCM_BAD_INPUT = - 0x0014"

definition mbedtls_gcm_init :: "'c gcm_context" where
  "mbedtls_gcm_init = \<lparr>gcm_cipher_ctx = mbedtls_cipher_init, gcm_HL = replicate 16 0, gcm_HH = replicate 16 0,
     gcm_len = 0, gcm_add_len = 0, gcm_base_ectr = replicate 16 0, gcm_y = replicate 16 0, gcm_buf = replicate 16 0,
     gcm_mode = 0\<rparr>"

definition mbedtls_gcm_free :: "'c gcm_context \<Rightarrow> 'c gcm_context" where
  "mbedtls_gcm_free ctx = mbedtls_gcm_init\<lparr>gcm_cipher_ctx := mbedtls_cipher_free (gcm_cipher_ctx ctx)\<rparr>"

definition gcm_gen_table :: "'c gcm_context \<Rightarrow> 'c gcm_context \<times> int" where
  "gcm_gen_table ctx =
     (let h = replicate 16 0 in case cipher_update_ecb (gcm_cipher_ctx ctx) h h of
        Inl e \<Rightarrow> (ctx, e)
      | Inr h \<Rightarrow> let (hh, hl) = fill_tables h (gcm_HH ctx) (gcm_HL ctx) in (ctx\<lparr>gcm_HH := hh, gcm_HL := hl\<rparr>, 0))"

definition mbedtls_gcm_setkey :: "bool \<Rightarrow> 'c cipher_info list \<Rightarrow> 'c gcm_context \<Rightarrow> int \<Rightarrow> byte list \<Rightarrow> nat \<Rightarrow> 'c gcm_context \<times> int" where
  "mbedtls_gcm_setkey alloc defs ctx cipher key keybits =
     (case mbedtls_cipher_info_from_values defs cipher keybits MBEDTLS_MODE_ECB of
        None \<Rightarrow> (ctx, MBEDTLS_ERR_GCM_BAD_INPUT)
      | Some info \<Rightarrow>
          if ci_block_size info \<noteq> 16 then (ctx, MBEDTLS_ERR_GCM_BAD_INPUT)
          else let (cc, ret) = mbedtls_cipher_setup alloc (mbedtls_cipher_free (gcm_cipher_ctx ctx)) (Some info)
               in if ret \<noteq> 0 then (ctx\<lparr>gcm_cipher_ctx := cc\<rparr>, ret)
                  else let (cc, ret) = mbedtls_cipher_setkey cc key keybits True; ctx = ctx\<lparr>gcm_cipher_ctx := cc\<rparr>
                       in if ret \<noteq> 0 then (ctx, ret) else gcm_gen_table ctx)"

definition xor_into :: "byte list \<Rightarrow> byte list \<Rightarrow> byte list" where
  "xor_into buf p = xor_bytes (take (length p) buf) p @ drop (length p) buf"

definition mult_buf :: "'c gcm_context \<Rightarrow> byte list \<Rightarrow> byte list" where
  "mult_buf ctx b = gcm_mult (gcm_HH ctx) (gcm_HL ctx) b b"

function absorb :: "'c gcm_context \<Rightarrow> byte list \<Rightarrow> byte list \<Rightarrow> byte list" where
  "absorb ctx b p = (if p = [] then b else absorb ctx (mult_buf ctx (xor_into b (take 16 p))) (drop 16 p))"
  by pat_completeness auto
termination
  by (relation "measure (\<lambda>(ctx, b, p). length p)") auto

declare absorb.simps [simp del]

definition start_y :: "'c gcm_context \<Rightarrow> byte list \<Rightarrow> byte list" where
  "start_y ctx iv =
     (if length iv = 12 then (memcpy (gcm_y ctx) 0 iv)[15 := 1]
      else let work_buf = PUT_UINT32_BE (word_of_nat (length iv * 8)) (replicate 16 0) 12;
               y = absorb ctx (gcm_y ctx) iv
           in mult_buf ctx (xor_into y work_buf))"

definition mbedtls_gcm_starts :: "'c gcm_context \<Rightarrow> int \<Rightarrow> byte list \<Rightarrow> byte list \<Rightarrow> 'c gcm_context \<times> int" where
  "mbedtls_gcm_starts ctx mode iv add =
     (if iv = [] \<or> length iv div 2 ^ 61 \<noteq> 0 \<or> length add div 2 ^ 61 \<noteq> 0 then (ctx, MBEDTLS_ERR_GCM_BAD_INPUT)
      else let ctx = ctx\<lparr>gcm_y := replicate 16 0, gcm_buf := replicate 16 0, gcm_mode := mode, gcm_len := 0, gcm_add_len := 0\<rparr>;
               ctx = ctx\<lparr>gcm_y := start_y ctx iv\<rparr>
           in case cipher_update_ecb (gcm_cipher_ctx ctx) (gcm_y ctx) (gcm_base_ectr ctx) of
                Inl e \<Rightarrow> (ctx, e)
              | Inr b \<Rightarrow> (ctx\<lparr>gcm_base_ectr := b, gcm_add_len := word_of_nat (length add), gcm_buf := absorb ctx (gcm_buf ctx) add\<rparr>, 0))"

text \<open>The loop over the last four bytes of the counter block.\<close>

fun gcm_incr :: "nat \<Rightarrow> byte list \<Rightarrow> byte list" where
  "gcm_incr 0 y = y"
| "gcm_incr (Suc k) y = (let y = y[12 + k := y ! (12 + k) + 1] in if y ! (12 + k) \<noteq> 0 then y else gcm_incr k y)"

function update_loop :: "'c gcm_context \<Rightarrow> byte list \<Rightarrow> 'c gcm_context \<times> int \<times> byte list" where
  "update_loop ctx p =
     (if p = [] then (ctx, 0, [])
      else let ctx = ctx\<lparr>gcm_y := gcm_incr 4 (gcm_y ctx)\<rparr>
           in case cipher_update_ecb (gcm_cipher_ctx ctx) (gcm_y ctx) (replicate 16 0) of
                Inl e \<Rightarrow> (ctx, e, [])
              | Inr ectr \<Rightarrow>
                  let use = take 16 p; out = xor_bytes (take (length use) ectr) use;
                      b = (if gcm_mode ctx = MBEDTLS_GCM_DECRYPT then xor_into (gcm_buf ctx) use else gcm_buf ctx);
                      b = (if gcm_mode ctx = MBEDTLS_GCM_ENCRYPT then xor_into b out else b);
                      (ctx, ret, rest) = update_loop (ctx\<lparr>gcm_buf := mult_buf ctx b\<rparr>) (drop 16 p)
                  in (ctx, ret, out @ rest))"
  by pat_completeness auto
termination
  by (relation "measure (\<lambda>(ctx, p). length p)") auto

declare update_loop.simps [simp del]

text \<open>\<open>overlap\<close> is the value of the comparison of the pointers to input and output.\<close>

definition mbedtls_gcm_update :: "bool \<Rightarrow> 'c gcm_context \<Rightarrow> byte list \<Rightarrow> 'c gcm_context \<times> int \<times> byte list" where
  "mbedtls_gcm_update overlap ctx input =
     (let n = word_of_nat (length input)
      in if overlap then (ctx, MBEDTLS_ERR_GCM_BAD_INPUT, [])
         else if gcm_len ctx + n < gcm_len ctx \<or> gcm_len ctx + n > 0xFFFFFFFE0 then (ctx, MBEDTLS_ERR_GCM_BAD_INPUT, [])
         else update_loop (ctx\<lparr>gcm_len := gcm_len ctx + n\<rparr>) input)"

definition mbedtls_gcm_finish :: "'c gcm_context \<Rightarrow> nat \<Rightarrow> 'c gcm_context \<times> int \<times> byte list" where
  "mbedtls_gcm_finish ctx tag_len =
     (let orig_len = gcm_len ctx * 8; orig_add_len = gcm_add_len ctx * 8
      in if tag_len > 16 \<or> tag_len < 4 then (ctx, MBEDTLS_ERR_GCM_BAD_INPUT, [])
         else let tag = take tag_len (gcm_base_ectr ctx)
              in if orig_len \<noteq> 0 \<or> orig_add_len \<noteq> 0
                 then let work_buf = PUT_UINT32_BE (ucast (drop_bit 32 orig_add_len)) (replicate 16 0) 0;
                          work_buf = PUT_UINT32_BE (ucast orig_add_len) work_buf 4;
                          work_buf = PUT_UINT32_BE (ucast (drop_bit 32 orig_len)) work_buf 8;
                          work_buf = PUT_UINT32_BE (ucast orig_len) work_buf 12;
                          ctx = ctx\<lparr>gcm_buf := mult_buf ctx (xor_into (gcm_buf ctx) work_buf)\<rparr>
                      in (ctx, 0, xor_bytes tag (take tag_len (gcm_buf ctx)))
                 else (ctx, 0, tag))"

definition mbedtls_gcm_crypt_and_tag ::
    "bool \<Rightarrow> 'c gcm_context \<Rightarrow> int \<Rightarrow> byte list \<Rightarrow> byte list \<Rightarrow> byte list \<Rightarrow> nat \<Rightarrow> 'c gcm_context \<times> int \<times> byte list \<times> byte list" where
  "mbedtls_gcm_crypt_and_tag overlap ctx mode iv add input tag_len =
     (let (ctx, ret) = mbedtls_gcm_starts ctx mode iv add
      in if ret \<noteq> 0 then (ctx, ret, [], [])
         else let (ctx, ret, output) = mbedtls_gcm_update overlap ctx input
              in if ret \<noteq> 0 then (ctx, ret, output, [])
                 else let (ctx, ret, tag) = mbedtls_gcm_finish ctx tag_len in (ctx, ret, output, tag))"

definition mbedtls_gcm_auth_decrypt ::
    "bool \<Rightarrow> 'c gcm_context \<Rightarrow> byte list \<Rightarrow> byte list \<Rightarrow> byte list \<Rightarrow> byte list \<Rightarrow> 'c gcm_context \<times> int \<times> byte list" where
  "mbedtls_gcm_auth_decrypt overlap ctx iv add tag input =
     (let (ctx, ret, output, check_tag) = mbedtls_gcm_crypt_and_tag overlap ctx MBEDTLS_GCM_DECRYPT iv add input (length tag)
      in if ret \<noteq> 0 then (ctx, ret, output)
         else let diff = foldl (\<lambda>diff i. diff OR (tag ! i XOR check_tag ! i)) 0 [0 ..< length tag]
              in if diff \<noteq> 0 then (ctx, MBEDTLS_ERR_GCM_AUTH_FAILED, replicate (length input) 0) else (ctx, 0, output))"


subsection \<open>The mode of SP 800-38D\<close>

definition inc32 :: "byte list \<Rightarrow> byte list" where
  "inc32 y = take 12 y @ be32 (GET_UINT32_BE y 12 + 1)"

definition pad16 :: "byte list \<Rightarrow> byte list" where
  "pad16 x = x @ replicate ((16 - length x mod 16) mod 16) 0"

text \<open>\<open>GHASH\<close> continues from the block \<open>y\<close>; \<open>GCTR\<close> encrypts counter blocks from \<open>cb\<close> on.\<close>

function GHASH :: "byte list \<Rightarrow> byte list \<Rightarrow> byte list \<Rightarrow> byte list" where
  "GHASH h y x = (if x = [] then y else GHASH h (gf_mult (xor_bytes y (take 16 x)) h) (drop 16 x))"
  by pat_completeness auto
termination
  by (relation "measure (\<lambda>(h, y, x). length x)") auto

function GCTR :: "(byte list \<Rightarrow> byte list) \<Rightarrow> byte list \<Rightarrow> byte list \<Rightarrow> byte list" where
  "GCTR E cb x =
     (if x = [] then [] else xor_bytes (take (length (take 16 x)) (E cb)) (take 16 x) @ GCTR E (inc32 cb) (drop 16 x))"
  by pat_completeness auto
termination
  by (relation "measure (\<lambda>(E, cb, x). length x)") auto

declare GHASH.simps [simp del] GCTR.simps [simp del]

definition J0 :: "byte list \<Rightarrow> byte list \<Rightarrow> byte list" where
  "J0 h iv = (if length iv = 12 then iv @ [0, 0, 0, 1]
     else GHASH h (replicate 16 0) (pad16 iv @ replicate 8 0 @ be64 (word_of_nat (8 * length iv))))"

definition gcm_tag :: "(byte list \<Rightarrow> byte list) \<Rightarrow> byte list \<Rightarrow> byte list \<Rightarrow> byte list \<Rightarrow> nat \<Rightarrow> byte list" where
  "gcm_tag E iv A C t =
     (let h = E (replicate 16 0);
          S = GHASH h (replicate 16 0) (pad16 A @ pad16 C @ be64 (word_of_nat (8 * length A)) @ be64 (word_of_nat (8 * length C)))
      in take t (GCTR E (J0 h iv) S))"

definition gcm_ctr :: "(byte list \<Rightarrow> byte list) \<Rightarrow> byte list \<Rightarrow> byte list \<Rightarrow> byte list" where
  "gcm_ctr E iv P = GCTR E (inc32 (J0 (E (replicate 16 0)) iv)) P"

definition GCM_AE :: "(byte list \<Rightarrow> byte list) \<Rightarrow> byte list \<Rightarrow> byte list \<Rightarrow> byte list \<Rightarrow> nat \<Rightarrow> byte list \<times> byte list" where
  "GCM_AE E iv A P t = (let C = gcm_ctr E iv P in (C, gcm_tag E iv A C t))"

subsection \<open>The operations compute the mode\<close>

lemma length_xor_bytes [simp]: "length (xor_bytes a b) = min (length a) (length b)"
  by (simp add: xor_bytes_def)

lemma length_GHASH [simp]: "length y = 16 \<Longrightarrow> length (GHASH h y x) = 16"
proof (induction h y x rule: GHASH.induct)
  case (1 h y x)
  then show ?case
    by (subst GHASH.simps) simp
qed

lemma GHASH_append: "length a mod 16 = 0 \<Longrightarrow> GHASH h y (a @ b) = GHASH h (GHASH h y a) b"
proof (induction h y a rule: GHASH.induct)
  case (1 h y x)
  show ?case
  proof (cases "x = []")
    case True
    then show ?thesis by (simp add: GHASH.simps [of h y "[]"])
  next
    case False
    then have len: "16 \<le> length x" "length (drop 16 x) mod 16 = 0"
      using 1(2) by (cases "length x < 16"; simp add: le_mod_geq mod_less)+
    then show ?thesis
      using 1(1) [OF False len(2)] False by (simp add: GHASH.simps [of h y "x @ b"] GHASH.simps [of h y x])
  qed
qed

lemma xor_bytes_0: "length b = n \<Longrightarrow> xor_bytes b (replicate n 0) = b"
  by (induction b arbitrary: n) (auto simp: xor_bytes_def)

lemma xor_into_pad:
  assumes "length b = 16" "length p \<le> 16"
  shows "xor_into b p = xor_bytes b (p @ replicate (16 - length p) 0)"
proof -
  have "b = take (length p) b @ drop (length p) b"
    by simp
  moreover have "xor_bytes (drop (length p) b) (replicate (16 - length p) 0) = drop (length p) b"
    by (rule xor_bytes_0) (simp add: assms)
  ultimately show ?thesis
    using assms zip_append [of "take (length p) b" p "drop (length p) b" "replicate (16 - length p) 0"]
    by (simp add: xor_into_def xor_bytes_def)
qed

text \<open>A context with its cipher \<open>E\<close> and the tables for it.\<close>

definition gcm_keyed :: "(byte list \<Rightarrow> byte list) \<Rightarrow> 'c gcm_context \<Rightarrow> bool" where
  "gcm_keyed E ctx \<longleftrightarrow>
     (\<forall>x out. length x = 16 \<longrightarrow> length out = 16 \<longrightarrow> cipher_update_ecb (gcm_cipher_ctx ctx) x out = Inr (E x) \<and> length (E x) = 16) \<and>
     table_of (gcm_HH ctx, gcm_HL ctx) (block (E (replicate 16 0)))"

lemma gcm_keyed_updates [simp]:
  "gcm_keyed E (ctx\<lparr>gcm_y := y\<rparr>) = gcm_keyed E ctx"
  "gcm_keyed E (ctx\<lparr>gcm_buf := y\<rparr>) = gcm_keyed E ctx"
  "gcm_keyed E (ctx\<lparr>gcm_len := n\<rparr>) = gcm_keyed E ctx"
  "gcm_keyed E (ctx\<lparr>gcm_add_len := n\<rparr>) = gcm_keyed E ctx"
  "gcm_keyed E (ctx\<lparr>gcm_mode := m\<rparr>) = gcm_keyed E ctx"
  "gcm_keyed E (ctx\<lparr>gcm_base_ectr := y\<rparr>) = gcm_keyed E ctx"
  by (simp_all add: gcm_keyed_def)

lemma keyed_cipher:
  "gcm_keyed E ctx \<Longrightarrow> length x = 16 \<Longrightarrow> length out = 16 \<Longrightarrow> cipher_update_ecb (gcm_cipher_ctx ctx) x out = Inr (E x)"
  "gcm_keyed E ctx \<Longrightarrow> length x = 16 \<Longrightarrow> length (E x) = 16"
  unfolding gcm_keyed_def by (blast, metis length_replicate)

lemma keyed_mult: "gcm_keyed E ctx \<Longrightarrow> length x = 16 \<Longrightarrow> mult_buf ctx x = gf_mult x (E (replicate 16 0))"
  unfolding mult_buf_def gcm_keyed_def using gcm_mult_gf by blast

lemma length_xor_into [simp]: "length p \<le> length b \<Longrightarrow> length (xor_into b p) = length b"
  by (simp add: xor_into_def)

lemma pad_size:
  "0 < n \<Longrightarrow> (16 - n mod 16) mod 16 = (if n \<le> 16 then 16 - n else (16 - (n - 16) mod 16) mod 16)" for n :: nat
proof (cases "n < 16")
  case False
  then show ?thesis
    by (cases "n = 16") (simp_all add: le_mod_geq [of 16 n])
qed (simp add: mod_less)

lemma pad16_step:
  assumes "p \<noteq> []"
  shows "pad16 p = (take 16 p @ replicate (16 - length (take 16 p)) 0) @ pad16 (drop 16 p)"
proof (cases "length p \<le> 16")
  case True
  then show ?thesis
    using pad_size [of "length p"] assms by (simp add: pad16_def min_def)
next
  case False
  then show ?thesis
    using pad_size [of "length p"] assms by (simp add: pad16_def min_def)
qed

lemma pad16_Nil [simp]: "pad16 [] = []"
  by (simp add: pad16_def)

lemma pad16_eq_Nil [simp]: "pad16 p = [] \<longleftrightarrow> p = []"
  by (auto simp: pad16_def)

lemma length_pad16: "length (pad16 p) mod 16 = 0"
proof -
  define q r where "q = length p div 16" and "r = length p mod 16"
  have n: "length p = 16 * q + r" "r < 16"
    by (simp_all add: q_def r_def)
  then show ?thesis
    by (cases "r = 0") (simp_all add: pad16_def mod_less)
qed

lemma GHASH_pad16:
  assumes "p \<noteq> []" "length b = 16"
  shows "GHASH h b (pad16 p) = GHASH h (gf_mult (xor_into b (take 16 p)) h) (pad16 (drop 16 p))"
proof -
  define c where "c = take 16 p @ replicate (16 - length (take 16 p)) 0"
  have "pad16 p = c @ pad16 (drop 16 p)"
    using pad16_step [OF assms(1)] by (simp only: c_def)
  moreover have "length c = 16" "c \<noteq> []"
    using assms(1) by (auto simp: c_def)
  moreover have "xor_into b (take 16 p) = xor_bytes b c"
    unfolding c_def by (rule xor_into_pad [OF assms(2)]) simp
  ultimately show ?thesis
    by (simp add: GHASH.simps [of h b "c @ pad16 (drop 16 p)"])
qed

lemma absorb_GHASH:
  "gcm_keyed E ctx \<Longrightarrow> length b = 16 \<Longrightarrow> absorb ctx b p = GHASH (E (replicate 16 0)) b (pad16 p)"
proof (induction ctx b p rule: absorb.induct)
  case (1 ctx b p)
  show ?case
  proof (cases "p = []")
    case True
    then show ?thesis by (simp add: absorb.simps [of ctx b "[]"] GHASH.simps [of _ b "[]"])
  next
    case False
    then show ?thesis
      using 1 GHASH_pad16 [OF False 1(3)] by (subst absorb.simps) (simp add: keyed_mult)
  qed
qed


lemma get_sum: "GET_UINT32_BE y i =
  ucast (y ! i) * 0x1000000 + ucast (y ! (i + 1)) * 0x10000 + ucast (y ! (i + 2)) * 0x100 + ucast (y ! (i + 3))"
proof -
  have p: "ucast b * (0x1000000 :: u32) = push_bit 24 (ucast b)" "ucast b * (0x10000 :: u32) = push_bit 16 (ucast b)"
    "ucast b * (0x100 :: u32) = push_bit 8 (ucast b)" for b :: byte
    by (simp_all add: push_bit_eq_mult)
  have 1: "push_bit 24 (ucast (y ! i) :: u32) + push_bit 16 (ucast (y ! (i + 1))) = push_bit 24 (ucast (y ! i)) OR push_bit 16 (ucast (y ! (i + 1)))"
    by (rule disjunctive_add) (auto simp: bit_simps dest: bit_imp_le_length)
  have 2: "(push_bit 24 (ucast (y ! i) :: u32) OR push_bit 16 (ucast (y ! (i + 1)))) + push_bit 8 (ucast (y ! (i + 2)))
      = (push_bit 24 (ucast (y ! i)) OR push_bit 16 (ucast (y ! (i + 1)))) OR push_bit 8 (ucast (y ! (i + 2)))"
    by (rule disjunctive_add) (auto simp: bit_simps dest: bit_imp_le_length)
  have 3: "((push_bit 24 (ucast (y ! i) :: u32) OR push_bit 16 (ucast (y ! (i + 1)))) OR push_bit 8 (ucast (y ! (i + 2)))) + ucast (y ! (i + 3))
      = ((push_bit 24 (ucast (y ! i)) OR push_bit 16 (ucast (y ! (i + 1)))) OR push_bit 8 (ucast (y ! (i + 2)))) OR ucast (y ! (i + 3))"
    by (rule disjunctive_add) (auto simp: bit_simps dest: bit_imp_le_length)
  show ?thesis
    unfolding p 1 2 3 by (simp only: GET_UINT32_BE_def or.assoc)
qed

lemma be32_get: "be32 (GET_UINT32_BE y i) = [y ! i, y ! (i + 1), y ! (i + 2), y ! (i + 3)]"
proof -
  have "ucast (drop_bit 24 (GET_UINT32_BE y i)) = y ! i" "ucast (drop_bit 16 (GET_UINT32_BE y i)) = y ! (i + 1)"
    "ucast (drop_bit 8 (GET_UINT32_BE y i)) = y ! (i + 2)" "ucast (GET_UINT32_BE y i) = y ! (i + 3)"
    by (rule bit_word_eqI; auto simp: GET_UINT32_BE_def bit_simps dest: bit_imp_le_length)+
  then show ?thesis
    by (simp add: be32_def)
qed

lemma ucast_inc: "(ucast (b + 1) :: u32) = (if b + 1 = 0 then 0 else ucast b + 1)" "b + 1 = 0 \<Longrightarrow> ucast b = (0xFF :: u32)" for b :: byte
proof -
  show "b + 1 = 0 \<Longrightarrow> ucast b = (0xFF :: u32)"
  proof -
    assume "b + 1 = 0"
    then have "b = 0xFF"
      by (simp add: eq_neg_iff_add_eq_0 [symmetric])
    then show ?thesis by simp
  qed
  show "(ucast (b + 1) :: u32) = (if b + 1 = 0 then 0 else ucast b + 1)"
  proof (cases "b + 1 = 0")
    case False
    then have "unat (b + 1) = unat b + 1"
      by (metis Suc_eq_plus1 unatSuc add.commute)
    moreover have "(ucast c :: u32) = word_of_nat (unat c)" for c :: byte
      by simp
    ultimately show ?thesis
      using False by (simp only: of_nat_add of_nat_1 if_False)
  qed simp
qed

lemma length_gcm_incr [simp]: "length (gcm_incr k y) = length y"
  by (induction k arbitrary: y) (simp_all add: Let_def)

lemma gcm_incr_inc32:
  assumes "length y = 16"
  shows "gcm_incr 4 y = inc32 y"
proof -
  have d: "drop 12 z = be32 (GET_UINT32_BE z 12)" if "length z = 16" for z :: "byte list"
    using that unfolding be32_get by (intro nth_equalityI) (auto simp: less_Suc_eq numeral_eq_Suc nth_Cons')
  have t: "take 12 (gcm_incr k z) = take 12 z" for k z
    by (induction k arbitrary: z) (auto simp: Let_def)
  note steps = gcm_incr.simps(2) [of 3, simplified] gcm_incr.simps(2) [of 2, simplified]
    gcm_incr.simps(2) [of "Suc 0", folded numeral_2_eq_2, simplified] gcm_incr.simps(2) [of 0, simplified]
  have "GET_UINT32_BE (gcm_incr 4 y) 12 = GET_UINT32_BE y 12 + 1"
    using assms ucast_inc [of "y ! 12"] ucast_inc [of "y ! 13"] ucast_inc [of "y ! 14"] ucast_inc [of "y ! 15"]
    unfolding get_sum by (auto simp: steps Let_def)
  then show ?thesis
    using d [of "gcm_incr 4 y"] t [of 4 y] assms append_take_drop_id [of 12 "gcm_incr 4 y"] by (simp add: inc32_def)
qed


lemma length_inc32 [simp]: "length y = 16 \<Longrightarrow> length (inc32 y) = 16"
  by (simp add: inc32_def)

text \<open>The contract of a block cipher: blocks go to blocks.\<close>

locale block_cipher =
  fixes E :: "byte list \<Rightarrow> byte list"
  assumes length_E: "length x = 16 \<Longrightarrow> length (E x) = 16"
begin

lemma ctr_step:
  assumes "x \<noteq> []" "length cb = 16"
  obtains a where "a = xor_bytes (take (length (take 16 x)) (E cb)) (take 16 x)" "length a = length (take 16 x)"
    "GCTR E cb x = a @ GCTR E (inc32 cb) (drop 16 x)"
proof (rule that [OF refl])
  show "length (xor_bytes (take (length (take 16 x)) (E cb)) (take 16 x)) = length (take 16 x)"
    using length_E [OF assms(2)] by auto
  show "GCTR E cb x = xor_bytes (take (length (take 16 x)) (E cb)) (take 16 x) @ GCTR E (inc32 cb) (drop 16 x)"
    using assms(1) by (subst GCTR.simps) simp
qed

lemma length_ctr: "length cb = 16 \<Longrightarrow> length (GCTR E cb x) = length x"
proof (induction "length x" arbitrary: cb x rule: less_induct)
  case less
  show ?case
  proof (cases "x = []")
    case False
    obtain a where "length a = length (take 16 x)" "GCTR E cb x = a @ GCTR E (inc32 cb) (drop 16 x)"
      by (rule ctr_step [OF False less.prems])
    then show ?thesis
      using less.hyps [of "drop 16 x" "inc32 cb"] False less.prems by simp
  qed (simp add: GCTR.simps [of _ _ "[]"])
qed

lemma ctr_parts:
  assumes "length cb = 16" "x \<noteq> []"
  shows "take 16 (GCTR E cb x) = xor_bytes (take (length (take 16 x)) (E cb)) (take 16 x)"
    "drop 16 (GCTR E cb x) = GCTR E (inc32 cb) (drop 16 x)" "GCTR E cb x \<noteq> []"
proof -
  obtain a where a: "a = xor_bytes (take (length (take 16 x)) (E cb)) (take 16 x)" "length a = length (take 16 x)"
    "GCTR E cb x = a @ GCTR E (inc32 cb) (drop 16 x)"
    by (rule ctr_step [OF assms(2,1)])
  have "length x < 16 \<Longrightarrow> GCTR E (inc32 cb) (drop 16 x) = []"
    by (simp add: GCTR.simps [of _ _ "[]"])
  then have "take 16 (GCTR E cb x) = a" "drop 16 (GCTR E cb x) = GCTR E (inc32 cb) (drop 16 x)"
    using a(2,3) by (cases "length x < 16"; simp)+
  then show "take 16 (GCTR E cb x) = xor_bytes (take (length (take 16 x)) (E cb)) (take 16 x)"
    "drop 16 (GCTR E cb x) = GCTR E (inc32 cb) (drop 16 x)"
    using a(1) by blast+
  show "GCTR E cb x \<noteq> []"
    using length_ctr [OF assms(1), of x] assms(2) by auto
qed

lemma ctr_twice: "length cb = 16 \<Longrightarrow> GCTR E cb (GCTR E cb x) = x"
proof (induction "length x" arbitrary: cb x rule: less_induct)
  case less
  show ?case
  proof (cases "x = []")
    case False
    note p = ctr_parts [OF less.prems False]
    have t: "length (take (length (take 16 x)) (E cb)) = length (take 16 x)"
      using length_E [OF less.prems] by simp
    have "GCTR E cb (GCTR E cb x) = xor_bytes (take (length (take 16 (GCTR E cb x))) (E cb)) (take 16 (GCTR E cb x)) @
        GCTR E (inc32 cb) (drop 16 (GCTR E cb x))"
      using p(3) by (subst GCTR.simps) simp
    also have "GCTR E (inc32 cb) (drop 16 (GCTR E cb x)) = drop 16 x"
      using less.hyps [of "drop 16 x" "inc32 cb"] False less.prems by (simp add: p(2))
    also have "xor_bytes (take (length (take 16 (GCTR E cb x))) (E cb)) (take 16 (GCTR E cb x)) = take 16 x"
    proof -
      have "xor_bytes a (xor_bytes a b) = b" if "length a = length b" for a b
        using that by (induction a b rule: list_induct2) (simp_all add: xor_bytes_def xor.assoc [symmetric])
      moreover have "length (take 16 (GCTR E cb x)) = length (take 16 x)"
        using length_ctr [OF less.prems] by simp
      ultimately show ?thesis
        using p(1) t by simp
    qed
    finally show ?thesis by simp
  qed (simp add: GCTR.simps [of _ _ "[]"])
qed

lemma ctr_append:
  "length a mod 16 = 0 \<Longrightarrow> GCTR E cb (a @ b) = GCTR E cb a @ GCTR E ((inc32 ^^ (length a div 16)) cb) b"
proof (induction "length a" arbitrary: cb a rule: less_induct)
  case less
  show ?case
  proof (cases "a = []")
    case False
    then have len: "16 \<le> length a" "length (drop 16 a) mod 16 = 0"
      using less.prems by (cases "length a < 16"; simp add: le_mod_geq mod_less)+
    then have "length a div 16 = Suc (length (drop 16 a) div 16)"
      by (simp add: le_div_geq)
    then show ?thesis
      using less.hyps [of "drop 16 a" "inc32 cb"] len False
      by (simp add: GCTR.simps [of E cb "a @ b"] GCTR.simps [of E cb a] funpow_swap1)
  qed (simp add: GCTR.simps [of _ _ "[]"])
qed

end

lemma keyed_block_cipher: "gcm_keyed E ctx \<Longrightarrow> block_cipher E"
  by (rule block_cipher.intro) (rule keyed_cipher(2))

interpretation aes_cipher: block_cipher "Cipher (fips_keys keybits nr key)" for keybits nr key
  by (rule block_cipher.intro) (rule length_Cipher_fips)

definition cipher_part :: "'c gcm_context \<Rightarrow> byte list \<Rightarrow> byte list \<Rightarrow> byte list" where
  "cipher_part ctx p out = (if gcm_mode ctx = MBEDTLS_GCM_ENCRYPT then out else p)"

lemma update_loop_spec:
  assumes "gcm_keyed E ctx" "length (gcm_y ctx) = 16" "length (gcm_buf ctx) = 16"
    "gcm_mode ctx = MBEDTLS_GCM_ENCRYPT \<or> gcm_mode ctx = MBEDTLS_GCM_DECRYPT"
  shows "update_loop ctx p =
    (ctx\<lparr>gcm_y := (inc32 ^^ ((length p + 15) div 16)) (gcm_y ctx), gcm_buf := GHASH (E (replicate 16 0)) (gcm_buf ctx) (pad16 (cipher_part ctx p (GCTR E (inc32 (gcm_y ctx)) p)))\<rparr>,
     0, GCTR E (inc32 (gcm_y ctx)) p)"
  using assms
proof (induction "length p" arbitrary: ctx p rule: less_induct)
  case less
  show ?case
  proof (cases "p = []")
    case True
    then show ?thesis
      using less.prems by (simp add: update_loop.simps [of ctx "[]"] GCTR.simps [of _ _ "[]"] GHASH.simps [of _ _ "[]"] cipher_part_def)
  next
    case False
    define y where "y = inc32 (gcm_y ctx)"
    define out where "out = xor_bytes (take (length (take 16 p)) (E y)) (take 16 p)"
    define c where "c = cipher_part ctx (take 16 p) out"
    define ctx1 where "ctx1 = ctx\<lparr>gcm_y := y, gcm_buf := gf_mult (xor_into (gcm_buf ctx) c) (E (replicate 16 0))\<rparr>"
    have y: "length y = 16" "length (E y) = 16"
      using less.prems keyed_cipher(2) [OF less.prems(1)] by (simp_all add: y_def)
    have c: "length c \<le> 16"
      using y by (simp add: c_def cipher_part_def out_def)
    have rest: "update_loop ctx1 (drop 16 p) =
      (ctx1\<lparr>gcm_y := (inc32 ^^ ((length (drop 16 p) + 15) div 16)) y, gcm_buf := GHASH (E (replicate 16 0)) (gcm_buf ctx1)
         (pad16 (cipher_part ctx1 (drop 16 p) (GCTR E (inc32 y) (drop 16 p))))\<rparr>, 0, GCTR E (inc32 y) (drop 16 p))"
      using less.hyps [of "drop 16 p" ctx1] less.prems False y by (auto simp: ctx1_def)
    have "update_loop ctx p = (let (ctx, ret, rest) = update_loop ctx1 (drop 16 p) in (ctx, ret, out @ rest))"
      using False less.prems y c keyed_cipher(1) [OF less.prems(1) y(1), of "replicate 16 0"]
        keyed_mult [OF less.prems(1), of "xor_into (gcm_buf ctx) c"]
      by (subst update_loop.simps)
        (auto simp: gcm_incr_inc32 ctx1_def out_def c_def cipher_part_def Let_def mult_buf_def
          MBEDTLS_GCM_ENCRYPT_def MBEDTLS_GCM_DECRYPT_def y_def simp del: gcm_incr.simps)
    moreover have "out @ GCTR E (inc32 y) (drop 16 p) = GCTR E y p"
      using False by (subst (2) GCTR.simps) (simp add: out_def)
    moreover have "GHASH (E (replicate 16 0)) (gcm_buf ctx) (pad16 (cipher_part ctx p (GCTR E y p))) =
        GHASH (E (replicate 16 0)) (gcm_buf ctx1) (pad16 (cipher_part ctx1 (drop 16 p) (GCTR E (inc32 y) (drop 16 p))))"
      using GHASH_pad16 [of "cipher_part ctx p (GCTR E y p)" "gcm_buf ctx"] False less.prems
        block_cipher.ctr_parts [OF keyed_block_cipher [OF less.prems(1)] y(1) False]
      by (simp add: cipher_part_def ctx1_def c_def out_def)
    moreover have "(inc32 ^^ ((length (drop 16 p) + 15) div 16)) y = (inc32 ^^ ((length p + 15) div 16)) (gcm_y ctx)"
    proof -
      have "(length p + 15) div 16 = Suc ((length (drop 16 p) + 15) div 16)"
        using False by (cases "length p \<le> 16") (auto simp: le_div_geq neq_Nil_conv)
      then show ?thesis
        by (simp only: y_def funpow_Suc_right comp_def)
    qed
    ultimately show ?thesis
      using rest by (simp add: ctx1_def y_def)
  qed
qed


lemma xor_into_full: "length b = 16 \<Longrightarrow> length w = 16 \<Longrightarrow> xor_into b w = xor_bytes b w"
  by (simp add: xor_into_def)

lemma GHASH_block: "length w = 16 \<Longrightarrow> GHASH h y w = gf_mult (xor_bytes y w) h"
  by (subst GHASH.simps) (auto simp: GHASH.simps [of _ _ "[]"])

lemma be64_small: "n < 2 ^ 32 \<Longrightarrow> be64 (word_of_nat n) = replicate 4 0 @ be32 (word_of_nat n)"
proof -
  assume n: "n < 2 ^ 32"
  have "drop_bit 32 (word_of_nat n :: u64) = 0"
    using n by (intro unsigned_word_eqI [where 'a = nat]) (simp add: unsigned_drop_bit_eq unsigned_of_nat drop_bit_nat_def take_bit_nat_eq_self)
  moreover have "ucast (word_of_nat n :: u64) = (word_of_nat n :: u32)"
    by (rule bit_word_eqI) (simp add: bit_simps)
  moreover have "be32 0 = replicate 4 0"
    by (simp add: be32_def numeral_eq_Suc)
  ultimately show ?thesis
    by (simp only: be64_halves) simp
qed

lemma start_y_J0:
  assumes "gcm_keyed E ctx" "gcm_y ctx = replicate 16 0" "length iv < 2 ^ 29"
  shows "start_y ctx iv = J0 (E (replicate 16 0)) iv"
proof (cases "length iv = 12")
  case True
  have "iv @ [0, 0, 0, 0] = memcpy (gcm_y ctx) 0 iv"
    using True assms(2) by (simp add: memcpy_def numeral_eq_Suc)
  moreover have "(iv @ [0, 0, 0, 0])[15 := 1] = iv @ [0, 0, 0, 1]"
    using True by (simp add: list_update_append)
  ultimately show ?thesis
    using True by (simp add: start_y_def J0_def)
next
  case False
  let ?h = "E (replicate 16 0)"
  let ?w = "replicate 8 0 @ be64 (word_of_nat (8 * length iv))"
  have w: "PUT_UINT32_BE (word_of_nat (length iv * 8)) (replicate 16 0) 12 = ?w"
    using assms(3) be64_small [of "8 * length iv"] by (simp add: PUT_UINT32_BE_def memcpy_def mult.commute flip: replicate_add append_assoc)
  have "start_y ctx iv = gf_mult (xor_bytes (GHASH ?h (replicate 16 0) (pad16 iv)) ?w) ?h"
    unfolding start_y_def w using False assms absorb_GHASH [OF assms(1), of "gcm_y ctx" iv] keyed_mult [OF assms(1)]
    by (simp only: if_False Let_def xor_into_full length_append length_replicate length_be64 length_GHASH length_xor_bytes) simp?
  then show ?thesis
    using False GHASH_append [of "pad16 iv" ?h "replicate 16 0" ?w] length_pad16 [of iv] GHASH_block [of ?w ?h]
    by (simp add: J0_def)
qed

lemma length_J0: "length (J0 h iv) = 16"
  by (simp add: J0_def)

lemma starts_spec:
  assumes "gcm_keyed E ctx" "length (gcm_base_ectr ctx) = 16" "iv \<noteq> []" "length iv < 2 ^ 29" "length add < 2 ^ 61"
  shows "mbedtls_gcm_starts ctx mode iv add =
    (ctx\<lparr>gcm_y := J0 (E (replicate 16 0)) iv, gcm_buf := GHASH (E (replicate 16 0)) (replicate 16 0) (pad16 add),
       gcm_mode := mode, gcm_len := 0, gcm_add_len := word_of_nat (length add), gcm_base_ectr := E (J0 (E (replicate 16 0)) iv)\<rparr>, 0)"
proof -
  define c where "c = ctx\<lparr>gcm_y := replicate 16 0, gcm_buf := replicate 16 0, gcm_mode := mode, gcm_len := 0, gcm_add_len := 0\<rparr>"
  have k: "gcm_keyed E c"
    using assms(1) by (simp add: c_def)
  have "start_y c iv = J0 (E (replicate 16 0)) iv"
    using start_y_J0 [OF k] assms(4) by (simp add: c_def)
  moreover have "absorb (c\<lparr>gcm_y := y\<rparr>) (replicate 16 0) add = GHASH (E (replicate 16 0)) (replicate 16 0) (pad16 add)" for y
    using k by (intro absorb_GHASH) simp_all
  moreover have "cipher_update_ecb (gcm_cipher_ctx ctx) (J0 h iv) (gcm_base_ectr ctx) = Inr (E (J0 h iv))" for h
    using keyed_cipher(1) [OF assms(1) length_J0 assms(2)] by simp
  moreover have "length iv div 2 ^ 61 = 0" "length add div 2 ^ 61 = 0"
    using assms(4,5) by simp_all
  ultimately show ?thesis
    using assms(3) by (simp add: mbedtls_gcm_starts_def c_def Let_def)
qed

lemma word_of_nat_8: "word_of_nat n * 8 = (word_of_nat (8 * n) :: u64)"
  by simp

lemma word_of_nat_0: "n < 2 ^ 61 \<Longrightarrow> (word_of_nat (8 * n) :: u64) = 0 \<longleftrightarrow> n = 0"
  by (simp add: word_of_nat_eq_0_iff del: of_nat_mult) (auto dest: dvd_imp_le)

lemma gf_mult_0: "gf_mult (replicate 16 0) h = replicate 16 0"
proof -
  have z: "\<forall>x \<in> set xs. \<not> x \<Longrightarrow> gf_bits xs v = 0" for xs v
    by (induction xs arbitrary: v) auto
  have "gf_bits (concat (map byte_bits (replicate 16 0))) (block h) = 0"
    by (rule z) (auto simp: byte_bits_def)
  then show ?thesis
    by (simp add: gf_mult_def unblock_def be32_def numeral_eq_Suc)
qed

lemma GCTR_block:
  assumes "length s = 16" "length (E cb) = 16"
  shows "GCTR E cb s = xor_bytes (E cb) s"
  using assms by (subst GCTR.simps) (auto simp: GCTR.simps [of _ _ "[]"])

lemma take_xor_bytes: "take n (xor_bytes a b) = xor_bytes (take n a) (take n b)"
  by (simp add: xor_bytes_def take_map take_zip)

lemma finish_spec:
  assumes "gcm_keyed E ctx" "length j = 16" "gcm_base_ectr ctx = E j" "4 \<le> t" "t \<le> 16"
    "gcm_len ctx = word_of_nat n" "gcm_add_len ctx = word_of_nat a" "n < 2 ^ 61" "a < 2 ^ 61" "length (gcm_buf ctx) = 16"
    "n = 0 \<and> a = 0 \<Longrightarrow> gcm_buf ctx = replicate 16 0"
  shows "\<exists>ctx'. mbedtls_gcm_finish ctx t =
    (ctx', 0, take t (GCTR E j (GHASH (E (replicate 16 0)) (gcm_buf ctx) (be64 (word_of_nat (8 * a)) @ be64 (word_of_nat (8 * n))))))"
proof -
  let ?w = "be64 (word_of_nat (8 * a)) @ be64 (word_of_nat (8 * n))" and ?h = "E (replicate 16 0)"
  have g: "GHASH ?h (gcm_buf ctx) ?w = gf_mult (xor_bytes (gcm_buf ctx) ?w) ?h"
    by (rule GHASH_block) simp
  have tag: "take t (GCTR E j s) = xor_bytes (take t (E j)) (take t s)" if "length s = 16" for s
    using GCTR_block [of s E j] that keyed_cipher(2) [OF assms(1,2)] by (simp add: take_xor_bytes)
  show ?thesis
  proof (cases "n = 0 \<and> a = 0")
    case True
    have "xor_bytes (take t (E j)) (take t (replicate 16 0)) = take t (E j)"
      using xor_bytes_0 [of "take t (E j)" t] keyed_cipher(2) [OF assms(1,2)] assms(5) by (simp add: min_def)
    moreover have "?w = replicate 16 0"
      using True by (simp add: be64_def numeral_eq_Suc)
    ultimately show ?thesis
      using True assms g tag [of "gf_mult (xor_bytes (gcm_buf ctx) ?w) ?h"] xor_bytes_0 [of "replicate 16 0" 16]
      by (simp add: mbedtls_gcm_finish_def gf_mult_0)
  next
    case False
    have w: "PUT_UINT32_BE (ucast (word_of_nat (8 * n) :: u64)) (PUT_UINT32_BE (ucast (drop_bit 32 (word_of_nat (8 * n) :: u64)))
       (PUT_UINT32_BE (ucast (word_of_nat (8 * a) :: u64)) (PUT_UINT32_BE (ucast (drop_bit 32 (word_of_nat (8 * a) :: u64))) (replicate 16 0) 0) 4) 8) 12 = ?w"
      by (simp add: be64_halves bytes_simps del: of_nat_mult) (simp add: memcpy_def del: of_nat_mult)
    show ?thesis
      using False assms g tag [of "gf_mult (xor_bytes (gcm_buf ctx) ?w) ?h"] keyed_mult [OF assms(1), of "xor_bytes (gcm_buf ctx) ?w"]
        word_of_nat_0 [OF assms(8)] word_of_nat_0 [OF assms(9)] w
      by (cases "n = 0") (simp_all add: mbedtls_gcm_finish_def Let_def word_of_nat_8 xor_into_full del: of_nat_mult)
  qed
qed


text \<open>The lengths up to which counters and length fields do not wrap.\<close>

definition gcm_sizes :: "byte list \<Rightarrow> byte list \<Rightarrow> byte list \<Rightarrow> nat \<Rightarrow> bool" where
  "gcm_sizes iv add input t \<longleftrightarrow> iv \<noteq> [] \<and> length iv < 2 ^ 29 \<and> length add < 2 ^ 61 \<and> length input \<le> 0xFFFFFFFE0 \<and> 4 \<le> t \<and> t \<le> 16"

lemma update_spec:
  assumes "gcm_keyed E ctx" "length (gcm_y ctx) = 16" "length (gcm_buf ctx) = 16"
    "gcm_mode ctx = MBEDTLS_GCM_ENCRYPT \<or> gcm_mode ctx = MBEDTLS_GCM_DECRYPT"
    "gcm_len ctx = word_of_nat n" "n + length p \<le> 0xFFFFFFFE0"
  shows "mbedtls_gcm_update False ctx p =
    (ctx\<lparr>gcm_len := word_of_nat (n + length p), gcm_y := (inc32 ^^ ((length p + 15) div 16)) (gcm_y ctx),
       gcm_buf := GHASH (E (replicate 16 0)) (gcm_buf ctx) (pad16 (cipher_part ctx p (GCTR E (inc32 (gcm_y ctx)) p)))\<rparr>,
     0, GCTR E (inc32 (gcm_y ctx)) p)"
proof -
  have u: "unat (word_of_nat (n + length p) :: u64) = n + length p" "unat (word_of_nat n :: u64) = n"
    using assms(6) by (simp_all add: unsigned_of_nat take_bit_nat_eq_self del: of_nat_add)
  have "\<not> gcm_len ctx + word_of_nat (length p) < gcm_len ctx" "\<not> gcm_len ctx + word_of_nat (length p) > 0xFFFFFFFE0"
    using u assms(6) unfolding assms(5) of_nat_add [symmetric] word_less_nat_alt by simp_all
  then show ?thesis
    using update_loop_spec [of E "ctx\<lparr>gcm_len := gcm_len ctx + word_of_nat (length p)\<rparr>" p] assms(1-5)
    by (auto simp: mbedtls_gcm_update_def cipher_part_def)
qed

lemma update_Nil: "gcm_len ctx \<le> 0xFFFFFFFE0 \<Longrightarrow> mbedtls_gcm_update False ctx [] = (ctx, 0, [])"
  by (auto simp: mbedtls_gcm_update_def update_loop.simps [of _ "[]"] dest: leD)

lemma pad16_append: "length a mod 16 = 0 \<Longrightarrow> pad16 (a @ b) = pad16 a @ pad16 b"
  by (simp add: pad16_def mod_add_eq [symmetric, of "length a"])

lemma length_funpow_inc32 [simp]: "length y = 16 \<Longrightarrow> length ((inc32 ^^ k) y) = 16"
  by (induction k) simp_all

text \<open>Two calls of update, the first with whole blocks, as one stream.\<close>

lemma two_updates:
  assumes "gcm_keyed E ctx" "length (gcm_base_ectr ctx) = 16" "mode = MBEDTLS_GCM_ENCRYPT \<or> mode = MBEDTLS_GCM_DECRYPT"
    "gcm_sizes iv add (a @ b) t" "length a mod 16 = 0"
  obtains c0 c1 c2 c3 o1 o2 where "mbedtls_gcm_starts ctx mode iv add = (c0, 0)"
    "mbedtls_gcm_update False c0 a = (c1, 0, o1)" "mbedtls_gcm_update False c1 b = (c2, 0, o2)" "gcm_len c0 = 0"
    "mbedtls_gcm_finish c2 t = (c3, 0, gcm_tag E iv add (if mode = MBEDTLS_GCM_ENCRYPT then o1 @ o2 else a @ b) t)"
    "o1 @ o2 = gcm_ctr E iv (a @ b)" "length o1 = length a" "length o2 = length b"
proof -
  let ?h = "E (replicate 16 0)" and ?enc = "mode = MBEDTLS_GCM_ENCRYPT"
  define j where "j = J0 ?h iv"
  define k where "k = length a div 16"
  have j: "length j = 16" by (simp add: j_def length_J0)
  have k: "(length a + 15) div 16 = k"
    using assms(5) by (auto simp: k_def)
  define o1 o2 where "o1 = GCTR E (inc32 j) a" and "o2 = GCTR E (inc32 ((inc32 ^^ k) j)) b"
  define ca cb where "ca = (if ?enc then o1 else a)" and "cb = (if ?enc then o2 else b)"
  note ctr = block_cipher.length_ctr [OF keyed_block_cipher [OF assms(1)]] block_cipher.ctr_append [OF keyed_block_cipher [OF assms(1)] assms(5)]
  have len: "length o1 = length a" "length o2 = length b" "length ca = length a" "length cb = length b"
    using j by (simp_all add: o1_def o2_def ca_def cb_def ctr(1))
  have out: "o1 @ o2 = gcm_ctr E iv (a @ b)"
    by (simp add: gcm_ctr_def ctr(2) o1_def o2_def funpow_swap1 flip: j_def k_def)
  define c0 where "c0 = ctx\<lparr>gcm_y := j, gcm_buf := GHASH ?h (replicate 16 0) (pad16 add),
       gcm_mode := mode, gcm_len := 0, gcm_add_len := word_of_nat (length add), gcm_base_ectr := E j\<rparr>"
  define c1 where "c1 = c0\<lparr>gcm_len := word_of_nat (length a), gcm_y := (inc32 ^^ k) j, gcm_buf := GHASH ?h (gcm_buf c0) (pad16 ca)\<rparr>"
  define c2 where "c2 = c1\<lparr>gcm_len := word_of_nat (length a + length b), gcm_y := (inc32 ^^ ((length b + 15) div 16)) ((inc32 ^^ k) j),
       gcm_buf := GHASH ?h (gcm_buf c1) (pad16 cb)\<rparr>"
  have sizes: "length a + length b \<le> 0xFFFFFFFE0" "4 \<le> t" "t \<le> 16" "length add < 2 ^ 61"
    using assms(4) by (simp_all add: gcm_sizes_def)
  have starts: "mbedtls_gcm_starts ctx mode iv add = (c0, 0)"
    using starts_spec [OF assms(1,2), of iv add mode] assms(4) by (simp add: c0_def j_def gcm_sizes_def)
  have up1: "mbedtls_gcm_update False c0 a = (c1, 0, o1)"
    using update_spec [of E c0 0 a] assms(1,3) j k sizes
    by (simp add: c0_def c1_def ca_def o1_def cipher_part_def)
  have up2: "mbedtls_gcm_update False c1 b = (c2, 0, o2)"
    using update_spec [of E c1 "length a" b] assms(1,3) j sizes
    by (simp add: c0_def c1_def c2_def cb_def o2_def cipher_part_def)
  have buf: "GHASH ?h (gcm_buf c2) w = GHASH ?h (replicate 16 0) (pad16 add @ pad16 (ca @ cb) @ w)" for w
    using assms(5) len by (simp add: c0_def c1_def c2_def GHASH_append length_pad16 pad16_append)
  have empty: "gcm_buf c2 = replicate 16 0" if "length a + length b = 0 \<and> length add = 0"
    using that len by (simp add: c0_def c1_def c2_def GHASH.simps [of _ _ "[]"])
  obtain c3 where fin: "mbedtls_gcm_finish c2 t = (c3, 0, take t (GCTR E j (GHASH ?h (gcm_buf c2)
      (be64 (word_of_nat (8 * length add)) @ be64 (word_of_nat (8 * (length a + length b)))))))"
    using finish_spec [of E c2 j t "length a + length b" "length add"] assms(1) j empty sizes
    by (auto simp: c0_def c1_def c2_def simp del: of_nat_mult of_nat_add)
  have "mbedtls_gcm_finish c2 t = (c3, 0, gcm_tag E iv add (ca @ cb) t)"
    unfolding fin buf using len by (simp add: gcm_tag_def Let_def flip: j_def del: of_nat_mult of_nat_add)
  moreover have "ca @ cb = (if ?enc then o1 @ o2 else a @ b)"
    by (simp add: ca_def cb_def)
  ultimately show thesis
    using that [OF starts up1 up2 _ _ out] len by (simp add: c0_def)
qed

lemma crypt_and_tag_spec:
  assumes "gcm_keyed E ctx" "length (gcm_base_ectr ctx) = 16" "mode = MBEDTLS_GCM_ENCRYPT \<or> mode = MBEDTLS_GCM_DECRYPT"
    "gcm_sizes iv add input t"
  shows "\<exists>ctx'. mbedtls_gcm_crypt_and_tag False ctx mode iv add input t =
    (ctx', 0, gcm_ctr E iv input, gcm_tag E iv add (if mode = MBEDTLS_GCM_ENCRYPT then gcm_ctr E iv input else input) t)"
proof (rule two_updates [OF assms(1-3), of iv add "[]" input t])
  fix c0 c1 c2 c3 o1 o2
  assume a: "mbedtls_gcm_starts ctx mode iv add = (c0, 0)"
    "mbedtls_gcm_update False c0 [] = (c1, 0, o1)" "mbedtls_gcm_update False c1 input = (c2, 0, o2)" "gcm_len c0 = 0"
    "mbedtls_gcm_finish c2 t = (c3, 0, gcm_tag E iv add (if mode = MBEDTLS_GCM_ENCRYPT then o1 @ o2 else [] @ input) t)"
    "o1 @ o2 = gcm_ctr E iv ([] @ input)"
  have "c1 = c0" "o1 = []"
    using a(2,4) update_Nil [of c0] by simp_all
  then show ?thesis
    using a by (simp add: mbedtls_gcm_crypt_and_tag_def)
qed (use assms(4) in simp_all)

lemma xor_eq_0: "a XOR b = 0 \<longleftrightarrow> a = b" for a b :: byte
proof
  assume "a XOR b = 0"
  moreover have "a = (a XOR b) XOR b"
    by (simp add: xor.assoc)
  ultimately show "a = b"
    by simp
qed simp

lemma diff_fold:
  fixes f :: "nat \<Rightarrow> byte"
  shows "foldl (\<lambda>d i. d OR f i) d ks = 0 \<longleftrightarrow> d = 0 \<and> (\<forall>i \<in> set ks. f i = 0)"
  by (induction ks arbitrary: d) (simp_all add: or_eq_0_iff)

lemma diff_zero:
  fixes tag :: "byte list"
  assumes "length check = length tag"
  shows "foldl (\<lambda>d i. d OR (tag ! i XOR check ! i)) 0 [0 ..< length tag] = 0 \<longleftrightarrow> tag = check"
proof -
  have "(\<forall>i \<in> set [0 ..< length tag]. tag ! i XOR check ! i = 0) \<longleftrightarrow> tag = check"
    unfolding xor_eq_0 list_eq_iff_nth_eq using assms by auto
  then show ?thesis
    unfolding diff_fold by simp
qed

lemma auth_decrypt_spec:
  assumes "gcm_keyed E ctx" "length (gcm_base_ectr ctx) = 16" "gcm_sizes iv add input (length tag)"
  shows "\<exists>ctx'. mbedtls_gcm_auth_decrypt False ctx iv add tag input =
    (if tag = gcm_tag E iv add input (length tag) then (ctx', 0, gcm_ctr E iv input)
     else (ctx', MBEDTLS_ERR_GCM_AUTH_FAILED, replicate (length input) 0))"
proof -
  obtain ctx' where c: "mbedtls_gcm_crypt_and_tag False ctx MBEDTLS_GCM_DECRYPT iv add input (length tag) =
      (ctx', 0, gcm_ctr E iv input, gcm_tag E iv add input (length tag))"
    using crypt_and_tag_spec [OF assms(1,2) _ assms(3), of MBEDTLS_GCM_DECRYPT]
    by (auto simp: MBEDTLS_GCM_ENCRYPT_def MBEDTLS_GCM_DECRYPT_def)
  have "length (gcm_tag E iv add input (length tag)) = length tag"
    using assms(3) block_cipher.length_ctr [OF keyed_block_cipher [OF assms(1)]]
    by (simp add: gcm_tag_def gcm_sizes_def length_J0 Let_def del: of_nat_mult)
  then show ?thesis
    using c diff_zero [of "gcm_tag E iv add input (length tag)" tag] by (auto simp: mbedtls_gcm_auth_decrypt_def Let_def)
qed


subsection \<open>AES as the cipher\<close>

lemma gcm_setkey_spec:
  assumes "aes_key_size keybits nr" "length (gcm_HH ctx) = 16" "length (gcm_HL ctx) = 16"
  shows "\<exists>ctx'. mbedtls_gcm_setkey True aes_ecb_definitions ctx MBEDTLS_CIPHER_ID_AES key keybits = (ctx', 0) \<and>
    gcm_keyed (Cipher (fips_keys keybits nr key)) ctx' \<and> gcm_base_ectr ctx' = gcm_base_ectr ctx"
proof -
  let ?E = "Cipher (fips_keys keybits nr key)" and ?i = "aes_ecb_info keybits"
  obtain c where c: "mbedtls_aes_setkey_enc mbedtls_aes_init key keybits = Inr c"
    "\<forall>input out. length input = 16 \<longrightarrow> length out = 16 \<longrightarrow> mbedtls_aes_crypt_ecb c True input out = ?E input"
    by (rule aes_setkey_encrypts [OF assms(1), of mbedtls_aes_init key]) (simp add: mbedtls_aes_init_def)
  define cc where "cc = \<lparr>cc_cipher = Some (?i, c), cc_key_bitlen = keybits, cc_operation = True\<rparr>"
  have info: "mbedtls_cipher_info_from_values aes_ecb_definitions MBEDTLS_CIPHER_ID_AES keybits MBEDTLS_MODE_ECB = Some ?i"
    using assms(1) by (auto simp: mbedtls_cipher_info_from_values_def aes_ecb_definitions_def aes_ecb_info_def aes_key_size_def)
  have key: "mbedtls_cipher_setkey (mbedtls_cipher_init\<lparr>cc_cipher := Some (?i, mbedtls_aes_init)\<rparr>) key keybits True = (cc, 0)"
    using c(1) by (simp add: mbedtls_cipher_setkey_def cc_def mbedtls_cipher_init_def aes_ecb_info_def)
  have upd: "cipher_update_ecb cc x out = Inr (?E x)" if "length x = 16" "length out = 16" for x out
    using c(2) that by (simp add: cipher_update_ecb_def cc_def aes_ecb_info_def)
  obtain hh hl where t: "fill_tables (?E (replicate 16 0)) (gcm_HH ctx) (gcm_HL ctx) = (hh, hl)"
    "table_of (hh, hl) (block (?E (replicate 16 0)))"
    using fill_tables_entries [OF assms(2,3)] by blast
  let ?ctx = "ctx\<lparr>gcm_cipher_ctx := cc, gcm_HH := hh, gcm_HL := hl\<rparr>"
  have "gcm_gen_table (ctx\<lparr>gcm_cipher_ctx := cc\<rparr>) = (?ctx, 0)"
    using upd [of "replicate 16 0" "replicate 16 0"] t(1) by (simp add: gcm_gen_table_def)
  moreover have "ci_block_size ?i = 16" "ctx_alloc_func ?i True = Some mbedtls_aes_init"
    by (simp_all add: aes_ecb_info_def aes_ctx_alloc_def)
  ultimately have "mbedtls_gcm_setkey True aes_ecb_definitions ctx MBEDTLS_CIPHER_ID_AES key keybits = (?ctx, 0)"
    using info key by (simp add: mbedtls_gcm_setkey_def mbedtls_cipher_setup_def)
  moreover have "gcm_keyed ?E ?ctx"
    using upd t(2) by (simp add: gcm_keyed_def length_Cipher_fips)
  ultimately show ?thesis
    by auto
qed

text \<open>A context for a key of AES, as \<open>mbedtls_gcm_init\<close> and \<open>mbedtls_gcm_setkey\<close> make it.\<close>

definition aes_gcm_context :: "byte list \<Rightarrow> nat \<Rightarrow> aes_context gcm_context" where
  "aes_gcm_context key keybits =
     fst (mbedtls_gcm_setkey True aes_ecb_definitions mbedtls_gcm_init MBEDTLS_CIPHER_ID_AES key keybits)"

lemma aes_gcm_context_keyed:
  assumes "aes_key_size keybits nr"
  shows "gcm_keyed (Cipher (fips_keys keybits nr key)) (aes_gcm_context key keybits)"
    "length (gcm_base_ectr (aes_gcm_context key keybits)) = 16"
    "snd (mbedtls_gcm_setkey True aes_ecb_definitions mbedtls_gcm_init MBEDTLS_CIPHER_ID_AES key keybits) = 0"
  using gcm_setkey_spec [OF assms, of mbedtls_gcm_init key] by (auto simp: aes_gcm_context_def mbedtls_gcm_init_def)

section \<open>Properties\<close>

text \<open>
  The multiplication by 4-bit tables is the product of SP 800-38D in the field
  with \<open>2 ^ 128\<close> elements, for the tables filled for any \<open>h\<close>.
\<close>

theorem gcm_mult_correct:
  assumes "length hh = 16" "length hl = 16" "length x = 16" "length out = 16"
  shows "(case fill_tables h hh hl of (HH, HL) \<Rightarrow> gcm_mult HH HL x out) = gf_mult x h"
  using fill_tables_entries [OF assms(1,2), of h] gcm_mult_gf [OF _ assms(3,4)] by auto

theorem gcm_mult_correct_witness:
  "(case fill_tables (replicate 16 0x66) (replicate 16 0) (replicate 16 0) of (HH, HL) \<Rightarrow> gcm_mult HH HL (replicate 16 3) (replicate 16 0))
    = gf_mult (replicate 16 3) (replicate 16 0x66)"
  by (rule gcm_mult_correct) simp_all

text \<open>
  Property C15. With a key of AES, \<open>mbedtls_gcm_crypt_and_tag\<close> succeeds and computes the
  authenticated encryption of SP 800-38D over the cipher of FIPS 197: cipher text and tag,
  for any length of the vector, the additional data, the text and the tag within the limits
  of the mode.
\<close>

theorem gcm_encrypts_sp800_38d:
  assumes "aes_key_size keybits nr" "gcm_sizes iv add input t"
  shows "snd (mbedtls_gcm_setkey True aes_ecb_definitions mbedtls_gcm_init MBEDTLS_CIPHER_ID_AES key keybits) = 0 \<and>
    snd (mbedtls_gcm_crypt_and_tag False (aes_gcm_context key keybits) MBEDTLS_GCM_ENCRYPT iv add input t) =
      (0, GCM_AE (Cipher (fips_keys keybits nr key)) iv add input t)"
  using crypt_and_tag_spec [OF aes_gcm_context_keyed(1,2) [OF assms(1), of key] _ assms(2), of MBEDTLS_GCM_ENCRYPT]
    aes_gcm_context_keyed(3) [OF assms(1)]
  by (auto simp: GCM_AE_def Let_def)

theorem gcm_encrypts_sp800_38d_witness:
  "gcm_sizes (replicate 12 0) [1] (replicate 20 2) 16 \<and>
   snd (mbedtls_gcm_crypt_and_tag False (aes_gcm_context (replicate 16 7) 128) MBEDTLS_GCM_ENCRYPT (replicate 12 0) [1] (replicate 20 2) 16) =
     (0, GCM_AE (Cipher (fips_keys 128 10 (replicate 16 7))) (replicate 12 0) [1] (replicate 20 2) 16)"
  using gcm_encrypts_sp800_38d [of 128 10 "replicate 12 0" "[1]" "replicate 20 2" 16 "replicate 16 7"]
  by (simp add: gcm_sizes_def aes_key_size_def)

text \<open>
  Property C16. \<open>mbedtls_gcm_auth_decrypt\<close> accepts a message exactly if its tag is the one
  that encryption computes for the cipher text, and returns the text that was encrypted; for
  every other tag it reports the failure and clears the output.
\<close>

theorem gcm_authenticates:
  assumes "aes_key_size keybits nr" "gcm_sizes iv add input t" "length tag = t"
  shows "\<exists>c right. snd (mbedtls_gcm_crypt_and_tag False (aes_gcm_context key keybits) MBEDTLS_GCM_ENCRYPT iv add input t) = (0, c, right) \<and>
    snd (mbedtls_gcm_auth_decrypt False (aes_gcm_context key keybits) iv add tag c) =
      (if tag = right then (0, input) else (MBEDTLS_ERR_GCM_AUTH_FAILED, replicate (length input) 0))"
proof -
  let ?E = "Cipher (fips_keys keybits nr key)" and ?ctx = "aes_gcm_context key keybits"
  define c where "c = gcm_ctr ?E iv input"
  note k = aes_gcm_context_keyed(1,2) [OF assms(1), of key]
  have l: "length (inc32 (J0 (?E (replicate 16 0)) iv)) = 16"
    by (simp add: length_J0)
  have c: "length c = length input" "gcm_ctr ?E iv c = input"
    unfolding c_def gcm_ctr_def
    by (rule aes_cipher.length_ctr [OF l], rule aes_cipher.ctr_twice [OF l])
  obtain ctx' where e: "mbedtls_gcm_crypt_and_tag False ?ctx MBEDTLS_GCM_ENCRYPT iv add input t = (ctx', 0, c, gcm_tag ?E iv add c t)"
    using crypt_and_tag_spec [OF k _ assms(2), of MBEDTLS_GCM_ENCRYPT] by (auto simp: c_def)
  have "gcm_sizes iv add c (length tag)"
    using assms(2,3) c(1) by (simp add: gcm_sizes_def)
  from auth_decrypt_spec [OF k this] e c show ?thesis
    using assms(3) by auto
qed

theorem gcm_authenticates_witness:
  "\<exists>c right. snd (mbedtls_gcm_crypt_and_tag False (aes_gcm_context (replicate 32 7) 256) MBEDTLS_GCM_ENCRYPT [9] [] [1, 2, 3] 4) = (0, c, right) \<and>
    snd (mbedtls_gcm_auth_decrypt False (aes_gcm_context (replicate 32 7) 256) [9] [] [5, 5, 5, 5] c) =
      (if [5, 5, 5, 5] = right then (0, [1, 2, 3]) else (MBEDTLS_ERR_GCM_AUTH_FAILED, replicate (length [1 :: byte, 2, 3]) 0))"
  by (rule gcm_authenticates [where nr = 14]) (simp_all add: gcm_sizes_def aes_key_size_def)

end
