(* ===== verification/Tiny_Mac.thy ===== *)
theory Tiny_Mac
  imports Gcm
begin


text \<open>
  The frames of \<open>protocol/TinyMac.cpp\<close>: a header of command, address and counter, a payload
  encrypted with AES-GCM and four bytes of the tag. The members are uninitialised until they
  are set, so that a state has any contents. An access past the end of one of the arrays is
  \<open>OUT_OF_BOUNDS\<close>; \<open>alloc\<close> says whether the allocation in \<open>mbedtls_gcm_setkey\<close> succeeds. The return
  codes of the calls of mbedtls are ignored, as in the code.
\<close>

record tiny_mac =
  mScratch :: "byte list"
  mPacket :: "byte list"
  mKey :: "byte list"
  mPayloadSize :: byte
  mWrIndex :: byte
  mFrameCounter :: u32
  mDevAddr :: u32

definition TM_JOIN_REQ :: byte where "TM_JOIN_REQ = 0"
definition TM_DATA_REQ :: byte where "TM_DATA_REQ = 3"
definition TM_MAX_PAYLOAD_SIZE :: nat where "TM_MAX_PAYLOAD_SIZE = 240"
definition TM_MAC_HEADER_SIZE :: nat where "TM_MAC_HEADER_SIZE = 1 + 4 + 4"
definition TM_MAC_SIZE :: nat where "TM_MAC_SIZE = TM_MAC_HEADER_SIZE + 4"
definition TM_MAX_PACKET_SIZE :: nat where "TM_MAX_PACKET_SIZE = TM_MAX_PAYLOAD_SIZE + TM_MAC_SIZE"

lemmas tm_sizes = TM_MAX_PAYLOAD_SIZE_def TM_MAC_HEADER_SIZE_def TM_MAC_SIZE_def TM_MAX_PACKET_SIZE_def

definition read_at :: "byte list \<Rightarrow> nat \<Rightarrow> nat \<Rightarrow> byte list res" where
  "read_at src off n = (if off + n \<le> length src then Inr (take n (drop off src)) else Inl OUT_OF_BOUNDS)"

definition write_at :: "byte list \<Rightarrow> nat \<Rightarrow> byte list \<Rightarrow> byte list res" where
  "write_at dst off p = (if off + length p \<le> length dst then Inr (memcpy dst off p) else Inl OUT_OF_BOUNDS)"

definition crypt_part :: "aes_context gcm_context \<Rightarrow> byte list \<Rightarrow> nat \<Rightarrow> nat \<Rightarrow> byte list \<Rightarrow> nat \<Rightarrow> (aes_context gcm_context \<times> byte list) res" where
  "crypt_part ctx src off n scratch dst =
     chk (read_at src off n) (\<lambda>input.
     let (ctx, _, out) = mbedtls_gcm_update False ctx input
     in chk (write_at scratch dst out) (\<lambda>scratch. Inr (ctx, scratch)))"

definition Decrypt :: "bool \<Rightarrow> tiny_mac \<Rightarrow> byte list \<Rightarrow> byte \<Rightarrow> (tiny_mac \<times> bool) res" where
  "Decrypt alloc m data sz =
     (let m = m\<lparr>mPayloadSize := sz - word_of_nat TM_MAC_SIZE\<rparr>;
          ctx = fst (mbedtls_gcm_setkey alloc aes_ecb_definitions mbedtls_gcm_init MBEDTLS_CIPHER_ID_AES (mKey m) 128);
          n = unat (mPayloadSize m); bound_size = n div 16 * 16; last_packet_size = n - bound_size
      in chk (read_at data 0 TM_MAC_HEADER_SIZE) (\<lambda>hdr.
         let ctx = fst (mbedtls_gcm_starts ctx MBEDTLS_GCM_DECRYPT (replicate 12 0) hdr)
         in chk (if bound_size > 0 then crypt_part ctx data TM_MAC_HEADER_SIZE bound_size (mScratch m) 0 else Inr (ctx, mScratch m)) (\<lambda>(ctx, scratch).
            chk (if last_packet_size > 0 then crypt_part ctx data (TM_MAC_HEADER_SIZE + bound_size) last_packet_size scratch bound_size
                 else Inr (ctx, scratch)) (\<lambda>(ctx, scratch).
            let (_, _, mic) = mbedtls_gcm_finish ctx 16
            in chk (if unat sz < 4 then Inl OUT_OF_BOUNDS else read_at data (unat sz - 4) 4) (\<lambda>tail.
               Inr (m\<lparr>mScratch := scratch\<rparr>, take 4 mic = tail))))))"

definition MacFinish :: "bool \<Rightarrow> bool \<Rightarrow> tiny_mac \<Rightarrow> tiny_mac res" where
  "MacFinish alloc replace m =
     (let ctx = fst (mbedtls_gcm_setkey alloc aes_ecb_definitions mbedtls_gcm_init MBEDTLS_CIPHER_ID_AES (mKey m) 128);
          n = unat (mPayloadSize m); bound_size = n div 16 * 16; last_packet_size = n - bound_size
      in chk (read_at (mPacket m) 0 TM_MAC_HEADER_SIZE) (\<lambda>hdr.
         let ctx = fst (mbedtls_gcm_starts ctx MBEDTLS_GCM_ENCRYPT (replicate 12 0) hdr)
         in chk (crypt_part ctx (mPacket m) TM_MAC_HEADER_SIZE bound_size (mScratch m) 0) (\<lambda>(ctx, scratch).
            chk (if last_packet_size > 0 then crypt_part ctx (mPacket m) (TM_MAC_HEADER_SIZE + bound_size) last_packet_size scratch bound_size
                 else Inr (ctx, scratch)) (\<lambda>(ctx, scratch).
            let (_, _, mic) = mbedtls_gcm_finish ctx 16
            in chk (if replace then chk (read_at scratch 0 n) (write_at (mPacket m) TM_MAC_HEADER_SIZE) else Inr (mPacket m)) (\<lambda>packet.
               chk (write_at packet (unat (mWrIndex m)) (take 4 mic)) (\<lambda>packet.
               Inr (m\<lparr>mScratch := scratch, mPacket := packet, mWrIndex := mWrIndex m + 4\<rparr>)))))))"

definition Reset :: "tiny_mac \<Rightarrow> tiny_mac" where
  "Reset m = m\<lparr>mPayloadSize := 0, mWrIndex := 0\<rparr>"

definition AddHeader :: "tiny_mac \<Rightarrow> byte \<Rightarrow> tiny_mac res" where
  "AddHeader m cmd =
     (let m = Reset m
      in chk (write_at (mPacket m) 0 [cmd]) (\<lambda>packet.
         let w = mWrIndex m + 1
         in chk (write_at packet (unat w) (be32 (mDevAddr m))) (\<lambda>packet.
            let w = w + 4
            in chk (write_at packet (unat w) (be32 (mFrameCounter m))) (\<lambda>packet.
               Inr (m\<lparr>mPacket := packet, mWrIndex := w + 4\<rparr>)))))"

definition SetAddress :: "tiny_mac \<Rightarrow> u32 \<Rightarrow> tiny_mac" where
  "SetAddress m addr = m\<lparr>mDevAddr := addr\<rparr>"

definition AddBuffer :: "tiny_mac \<Rightarrow> byte list \<Rightarrow> byte \<Rightarrow> tiny_mac res" where
  "AddBuffer m data sz =
     chk (read_at data 0 (unat sz)) (\<lambda>p.
     chk (write_at (mPacket m) (unat (mWrIndex m)) p) (\<lambda>packet.
     Inr (m\<lparr>mPacket := packet, mWrIndex := mWrIndex m + sz, mPayloadSize := mPayloadSize m + sz\<rparr>)))"

definition AddPadding :: "byte list \<Rightarrow> byte \<Rightarrow> (byte list \<times> byte) res" where
  "AddPadding packet sz =
     (let padding = 16 - (sz AND 15)
      in chk (write_at packet (unat sz) (map word_of_nat [0 ..< unat padding])) (\<lambda>packet. Inr (packet, sz + padding)))"

definition BuildJoinNetwork :: "bool \<Rightarrow> tiny_mac \<Rightarrow> byte list \<Rightarrow> byte list \<Rightarrow> tiny_mac res" where
  "BuildJoinNetwork alloc m devEui appEui =
     chk (AddHeader (m\<lparr>mFrameCounter := 0, mDevAddr := 0\<rparr>) TM_JOIN_REQ) (\<lambda>m.
     chk (AddBuffer m devEui 8) (\<lambda>m.
     chk (AddBuffer m appEui 8) (\<lambda>m.
     MacFinish alloc False m)))"

definition BuildData :: "bool \<Rightarrow> tiny_mac \<Rightarrow> byte list \<Rightarrow> tiny_mac res" where
  "BuildData alloc m data =
     chk (AddHeader (m\<lparr>mFrameCounter := mFrameCounter m + 1\<rparr>) TM_DATA_REQ) (\<lambda>m.
     chk (AddBuffer m data (word_of_nat (length data))) (\<lambda>m.
     MacFinish alloc True m))"

definition SetKey :: "tiny_mac \<Rightarrow> byte list \<Rightarrow> tiny_mac res" where
  "SetKey m key = chk (read_at key 0 16) (\<lambda>k. Inr (m\<lparr>mKey := k\<rparr>))"

definition GetSize :: "tiny_mac \<Rightarrow> byte" where "GetSize m = word_of_nat TM_MAC_SIZE + mPayloadSize m"
definition GetDataSize :: "tiny_mac \<Rightarrow> byte" where "GetDataSize m = mPayloadSize m"

section \<open>What a frame holds\<close>

definition tm_iv :: "byte list" where "tm_iv = replicate 12 0"

abbreviation tm_cipher :: "byte list \<Rightarrow> byte list \<Rightarrow> byte list" where
  "tm_cipher key \<equiv> Cipher (fips_keys 128 10 key)"

lemma crypt_part_0: "off \<le> length src \<Longrightarrow> dst \<le> length scratch \<Longrightarrow> gcm_len ctx \<le> 0xFFFFFFFE0 \<Longrightarrow>
    crypt_part ctx src off 0 scratch dst = Inr (ctx, scratch)"
  by (simp add: crypt_part_def read_at_def write_at_def update_Nil)

lemma update_Nil_eq: "mbedtls_gcm_update False ctx [] = (c, 0, p) \<Longrightarrow> c = ctx \<and> p = []"
  by (auto simp: mbedtls_gcm_update_def update_loop.simps [of _ "[]"] MBEDTLS_ERR_GCM_BAD_INPUT_def split: if_splits)

lemma crypt_parts:
  assumes "mode = MBEDTLS_GCM_ENCRYPT \<or> mode = MBEDTLS_GCM_DECRYPT" "n < 256" "off + n \<le> length src" "n \<le> length scratch"
    "length hdr = 9" "bound_size = n div 16 * 16" "p = take n (drop off src)"
  obtains c0 c1 c2 c3 s1 where "mbedtls_gcm_starts (aes_gcm_context key 128) mode tm_iv hdr = (c0, 0)"
    "crypt_part c0 src off bound_size scratch 0 = Inr (c1, s1)" "length s1 = length scratch"
    "bound_size = 0 \<Longrightarrow> c1 = c0 \<and> s1 = scratch"
    "(if n - bound_size > 0 then crypt_part c1 src (off + bound_size) (n - bound_size) s1 bound_size else Inr (c1, s1)) =
       Inr (c2, memcpy scratch 0 (gcm_ctr (tm_cipher key) tm_iv p))"
    "mbedtls_gcm_finish c2 16 =
       (c3, 0, gcm_tag (tm_cipher key) tm_iv hdr (if mode = MBEDTLS_GCM_ENCRYPT then gcm_ctr (tm_cipher key) tm_iv p else p) 16)"
proof -
  let ?E = "tm_cipher key"
  define a b where "a = take bound_size p" and "b = drop bound_size p"
  have "p = a @ b"
    by (simp add: a_def b_def)
  moreover have "length p = n" "bound_size \<le> n" "bound_size mod 16 = 0"
    using assms by simp_all
  ultimately have p: "p = a @ b" "length p = n" "length a = bound_size" "length b = n - bound_size" "bound_size \<le> n" "length a mod 16 = 0"
    by (simp_all add: a_def b_def)
  note k = aes_gcm_context_keyed(1,2) [of 128 10 key]
  have sizes: "gcm_sizes tm_iv hdr (a @ b) 16" "aes_key_size 128 10"
    using p assms(2,5) by (simp_all add: gcm_sizes_def tm_iv_def aes_key_size_def)
  obtain c0 c1 c2 c3 o1 o2 where c: "mbedtls_gcm_starts (aes_gcm_context key 128) mode tm_iv hdr = (c0, 0)"
    "mbedtls_gcm_update False c0 a = (c1, 0, o1)" "mbedtls_gcm_update False c1 b = (c2, 0, o2)" "gcm_len c0 = 0"
    "mbedtls_gcm_finish c2 16 = (c3, 0, gcm_tag ?E tm_iv hdr (if mode = MBEDTLS_GCM_ENCRYPT then o1 @ o2 else a @ b) 16)"
    "o1 @ o2 = gcm_ctr ?E tm_iv (a @ b)" "length o1 = length a" "length o2 = length b"
    by (rule two_updates [OF k [OF sizes(2)] assms(1) sizes(1) p(6)])
  have parts: "take bound_size (drop off src) = a" "take (n - bound_size) (drop (off + bound_size) src) = b"
    using assms(7) p(5) by (simp_all add: a_def b_def drop_take add.commute)
  show thesis
  proof (rule that)
    show "mbedtls_gcm_starts (aes_gcm_context key 128) mode tm_iv hdr = (c0, 0)"
      by (rule c(1))
    show "crypt_part c0 src off bound_size scratch 0 = Inr (c1, memcpy scratch 0 o1)"
      using parts(1) c(2,7) p(3,5) assms(3,4) by (simp add: crypt_part_def read_at_def write_at_def)
    show "length (memcpy scratch 0 o1) = length scratch"
      using c(7) p(3,5) assms(4) by (simp add: length_memcpy)
    show "c1 = c0 \<and> memcpy scratch 0 o1 = scratch" if "bound_size = 0"
      using that p(3) c(2,4,7) update_Nil [of c0] by simp
    have "memcpy (memcpy scratch 0 o1) bound_size o2 = memcpy scratch 0 (gcm_ctr ?E tm_iv p)"
      using memcpy_adjacent [of 0 o1 scratch o2] c(6,7) p assms(4) by simp
    then show "(if n - bound_size > 0 then crypt_part c1 src (off + bound_size) (n - bound_size) (memcpy scratch 0 o1) bound_size
        else Inr (c1, memcpy scratch 0 o1)) = Inr (c2, memcpy scratch 0 (gcm_ctr ?E tm_iv p))"
      using parts(2) c(3,7,8) p assms(3,4) update_Nil_eq [of c1 c2 o2] length_memcpy [of 0 o1 scratch]
      by (auto simp: crypt_part_def read_at_def write_at_def)
    show "mbedtls_gcm_finish c2 16 =
       (c3, 0, gcm_tag ?E tm_iv hdr (if mode = MBEDTLS_GCM_ENCRYPT then gcm_ctr ?E tm_iv p else p) 16)"
      using c(5,6) p(1) by simp
  qed
qed


lemma length_gcm_ctr: "length (gcm_ctr (tm_cipher key) iv p) = length p"
  unfolding gcm_ctr_def by (rule aes_cipher.length_ctr) (simp add: length_J0)

lemma gcm_ctr_twice: "gcm_ctr (tm_cipher key) iv (gcm_ctr (tm_cipher key) iv p) = p"
  unfolding gcm_ctr_def by (rule aes_cipher.ctr_twice) (simp add: length_J0)

lemma length_gcm_tag: "length (gcm_tag (tm_cipher key) iv A C 16) = 16"
  by (simp add: gcm_tag_def Let_def aes_cipher.length_ctr length_J0 del: of_nat_mult)

definition tm_header :: "tiny_mac \<Rightarrow> byte \<Rightarrow> byte list" where
  "tm_header m cmd = cmd # be32 (mDevAddr m) @ be32 (mFrameCounter m)"

lemma length_tm_header [simp]: "length (tm_header m cmd) = 9"
  by (simp add: tm_header_def)

lemma AddHeader_spec:
  assumes "length (mPacket m) = TM_MAX_PACKET_SIZE"
  shows "AddHeader m cmd = Inr (m\<lparr>mPayloadSize := 0, mWrIndex := 9, mPacket := memcpy (mPacket m) 0 (tm_header m cmd)\<rparr>)"
proof -
  have "write_at (mPacket m) 0 [cmd] = Inr (memcpy (mPacket m) 0 [cmd])"
    using assms by (simp add: write_at_def tm_sizes)
  moreover have "write_at (memcpy (mPacket m) 0 [cmd]) 1 (be32 a) = Inr (memcpy (mPacket m) 0 (cmd # be32 a))" for a
    using assms memcpy_adjacent [of 0 "[cmd]" "mPacket m" "be32 a"] by (simp add: write_at_def tm_sizes length_memcpy)
  moreover have "write_at (memcpy (mPacket m) 0 (cmd # be32 a)) 5 (be32 b) = Inr (memcpy (mPacket m) 0 (cmd # be32 a @ be32 b))" for a b
    using assms memcpy_adjacent [of 0 "cmd # be32 a" "mPacket m" "be32 b"] by (simp add: write_at_def tm_sizes length_memcpy)
  ultimately show ?thesis
    by (simp add: AddHeader_def Reset_def tm_header_def Let_def)
qed

lemma MacFinish_spec:
  assumes "length (mPacket m) = TM_MAX_PACKET_SIZE" "length (mScratch m) = TM_MAX_PACKET_SIZE"
    "take (9 + n) (mPacket m) = hdr @ p" "length hdr = 9" "length p = n" "mPayloadSize m = word_of_nat n" "mWrIndex m = word_of_nat (9 + n)"
    "n < 245"
  defines "c \<equiv> gcm_ctr (tm_cipher (mKey m)) tm_iv p"
  shows "MacFinish True True m = (if n \<le> TM_MAX_PAYLOAD_SIZE
    then Inr (m\<lparr>mScratch := memcpy (mScratch m) 0 c,
      mPacket := memcpy (mPacket m) 0 (hdr @ c @ take 4 (gcm_tag (tm_cipher (mKey m)) tm_iv hdr c 16)), mWrIndex := mWrIndex m + 4\<rparr>)
    else Inl OUT_OF_BOUNDS)"
proof -
  have u: "unat (mPayloadSize m) = n" "unat (mWrIndex m) = 9 + n"
    using assms(6-8) by (simp_all add: unsigned_of_nat take_bit_nat_eq_self del: of_nat_add)
  have h: "take 9 (mPacket m) = hdr" "take n (drop 9 (mPacket m)) = p"
  proof -
    have "take 9 (take (9 + n) (mPacket m)) = hdr" "drop 9 (take (9 + n) (mPacket m)) = p"
      unfolding assms(3) using assms(4) by simp_all
    then show "take 9 (mPacket m) = hdr" "take n (drop 9 (mPacket m)) = p"
      by (simp_all add: drop_take)
  qed
  define b where "b = n div 16 * 16"
  define w where "w = take 4 (gcm_tag (tm_cipher (mKey m)) tm_iv hdr c 16)"
  have lc: "length c = n" "length w = 4"
    using assms(5) by (simp_all add: c_def length_gcm_ctr w_def length_gcm_tag)
  have r: "read_at (memcpy (mScratch m) 0 c) 0 n = Inr c"
    using assms(2,8) lc by (simp add: read_at_def tm_sizes length_memcpy) (simp add: memcpy_def)
  have wp: "write_at (mPacket m) 9 c = Inr (memcpy (mPacket m) 0 (hdr @ c))"
    using assms(1,4,8) lc h(1) by (simp add: write_at_def tm_sizes memcpy_def)
  have wm: "write_at (memcpy (mPacket m) 0 (hdr @ c)) (9 + n) w = (if n \<le> TM_MAX_PAYLOAD_SIZE then Inr (memcpy (mPacket m) 0 (hdr @ c @ w)) else Inl OUT_OF_BOUNDS)"
    using assms(1,4,8) lc memcpy_adjacent [of 0 "hdr @ c" "mPacket m" w] by (simp add: write_at_def tm_sizes length_memcpy)
  have hdr: "read_at (mPacket m) 0 9 = Inr hdr"
    using assms(1) h by (simp add: read_at_def tm_sizes)
  have cn: "fst (mbedtls_gcm_setkey True aes_ecb_definitions mbedtls_gcm_init MBEDTLS_CIPHER_ID_AES (mKey m) 128) = aes_gcm_context (mKey m) 128"
    "replicate 12 0 = tm_iv" "TM_MAC_HEADER_SIZE = 9" "n div 16 * 16 = b"
    using u by (simp_all add: aes_gcm_context_def tm_iv_def TM_MAC_HEADER_SIZE_def b_def)
  show ?thesis
  proof (rule crypt_parts [of MBEDTLS_GCM_ENCRYPT n 9 "mPacket m" "mScratch m" hdr b p "mKey m"])
    fix c0 c1 c2 c3 s1
    assume f: "mbedtls_gcm_starts (aes_gcm_context (mKey m) 128) MBEDTLS_GCM_ENCRYPT tm_iv hdr = (c0, 0)"
      "crypt_part c0 (mPacket m) 9 b (mScratch m) 0 = Inr (c1, s1)"
      "(if n - b > 0 then crypt_part c1 (mPacket m) (9 + b) (n - b) s1 b else Inr (c1, s1)) =
         Inr (c2, memcpy (mScratch m) 0 (gcm_ctr (tm_cipher (mKey m)) tm_iv p))"
      "mbedtls_gcm_finish c2 16 = (c3, 0, gcm_tag (tm_cipher (mKey m)) tm_iv hdr
         (if MBEDTLS_GCM_ENCRYPT = MBEDTLS_GCM_ENCRYPT then gcm_ctr (tm_cipher (mKey m)) tm_iv p else p) 16)"
    have f4: "mbedtls_gcm_finish c2 16 = (c3, 0, gcm_tag (tm_cipher (mKey m)) tm_iv hdr c 16)"
      using f(4) by (simp add: c_def)
    show ?thesis
      unfolding MacFinish_def Let_def cn u(1) hdr chk_Inr f(1) fst_conv f(2) prod.case f(3) f4 if_True
      unfolding c_def [symmetric] w_def [symmetric] r wp chk_Inr u(2) wm by simp
  qed (use assms(1,2,4,8) in \<open>simp_all add: tm_sizes h b_def\<close>)
qed

lemma BuildData_spec:
  assumes "length (mPacket m) = TM_MAX_PACKET_SIZE" "length (mScratch m) = TM_MAX_PACKET_SIZE" "n = length data mod 256"
  defines "c \<equiv> gcm_ctr (tm_cipher (mKey m)) tm_iv (take n data)"
    and "hdr \<equiv> tm_header (m\<lparr>mFrameCounter := mFrameCounter m + 1\<rparr>) TM_DATA_REQ"
  shows "if n \<le> TM_MAX_PAYLOAD_SIZE
    then \<exists>m'. BuildData True m data = Inr m' \<and> mPayloadSize m' = word_of_nat n \<and>
      take (13 + n) (mPacket m') = hdr @ c @ take 4 (gcm_tag (tm_cipher (mKey m)) tm_iv hdr c 16)
    else BuildData True m data = Inl OUT_OF_BOUNDS"
proof -
  let ?m = "m\<lparr>mFrameCounter := mFrameCounter m + 1\<rparr>" and ?s = "word_of_nat (length data) :: byte"
  have n: "n < 256" "n \<le> length data"
    using assms(3) by simp_all
  have s: "unat ?s = n" "?s = word_of_nat n"
    using assms(3) by (simp_all add: unsigned_of_nat take_bit_eq_mod) (simp add: word_of_nat_eq_iff take_bit_eq_mod)
  define m1 where "m1 = ?m\<lparr>mPayloadSize := 0, mWrIndex := 9, mPacket := memcpy (mPacket m) 0 hdr\<rparr>"
  have h: "AddHeader ?m TM_DATA_REQ = Inr m1"
    using AddHeader_spec [of ?m TM_DATA_REQ] assms(1) by (simp add: m1_def hdr_def)
  have wa: "write_at (mPacket m1) 9 (take n data) = (if n < 245 then Inr (memcpy (mPacket m) 0 (hdr @ take n data)) else Inl OUT_OF_BOUNDS)"
    using assms(1) n memcpy_adjacent [of 0 hdr "mPacket m" "take n data"] by (simp add: m1_def hdr_def write_at_def tm_sizes length_memcpy)
  show ?thesis
  proof (cases "n < 245")
    case False
    then show ?thesis
      using h wa s n by (simp add: BuildData_def AddBuffer_def read_at_def m1_def tm_sizes)
  next
    case True
    define m2 where "m2 = m1\<lparr>mPacket := memcpy (mPacket m) 0 (hdr @ take n data), mWrIndex := 9 + ?s, mPayloadSize := ?s\<rparr>"
    have "AddBuffer m1 data ?s = Inr m2"
      using wa True s n by (simp add: AddBuffer_def read_at_def m1_def m2_def)
    moreover have "length (mPacket m2) = TM_MAX_PACKET_SIZE" "take (9 + n) (mPacket m2) = hdr @ take n data"
      using assms(1) True n by (simp_all add: m2_def hdr_def tm_sizes length_memcpy) (simp add: memcpy_def)
    moreover have "mScratch m2 = mScratch m" "mKey m2 = mKey m" "mPayloadSize m2 = word_of_nat n" "mWrIndex m2 = word_of_nat (9 + n)" "length hdr = 9"
      using s(2) by (simp_all add: m2_def m1_def hdr_def)
    moreover have "length c = n"
      using n by (simp add: c_def length_gcm_ctr)
    moreover have "take (13 + n) (memcpy (mPacket m2) 0 (hdr @ c @ w)) = hdr @ c @ w" if "length w = 4" for w
      using that calculation by (simp add: memcpy_def)
    ultimately show ?thesis
      using MacFinish_spec [of m2 n hdr "take n data"] h True n assms(2) length_gcm_tag [of "mKey m" tm_iv hdr c]
      by (simp add: BuildData_def c_def [symmetric])
  qed
qed


lemma unat_byte: "k < 256 \<Longrightarrow> unat (word_of_nat k :: byte) = k"
  by (simp add: unsigned_of_nat take_bit_nat_eq_self)

lemma payload_size:
  assumes "13 \<le> unat sz"
  shows "unat (sz - word_of_nat TM_MAC_SIZE :: byte) = unat sz - 13"
  using assms by (simp add: tm_sizes unat_sub word_le_nat_alt)

lemma Decrypt_spec:
  assumes "length (mScratch m) = TM_MAX_PACKET_SIZE" "13 \<le> unat sz" "unat sz \<le> length data" "n = unat sz - 13"
  defines "hdr \<equiv> take 9 data" and "p \<equiv> take n (drop 9 data)"
  shows "Decrypt True m data sz = Inr (m\<lparr>mPayloadSize := sz - word_of_nat TM_MAC_SIZE, mScratch := memcpy (mScratch m) 0 (gcm_ctr (tm_cipher (mKey m)) tm_iv p)\<rparr>,
    take 4 (gcm_tag (tm_cipher (mKey m)) tm_iv hdr p 16) = take 4 (drop (unat sz - 4) data))"
proof -
  have n: "n < 243" "unat (sz - word_of_nat TM_MAC_SIZE) = n"
    using payload_size [OF assms(2)] unsigned_less [of sz, where 'a = nat] assms(4) by simp_all
  define b where "b = n div 16 * 16"
  have hdr: "read_at data 0 9 = Inr hdr" "length hdr = 9"
    using assms(2,3) by (simp_all add: read_at_def hdr_def)
  have mic: "(if unat sz < 4 then Inl OUT_OF_BOUNDS else read_at data (unat sz - 4) 4) = Inr (take 4 (drop (unat sz - 4) data))"
    using assms(2,3) by (simp add: read_at_def)
  have cn: "fst (mbedtls_gcm_setkey True aes_ecb_definitions mbedtls_gcm_init MBEDTLS_CIPHER_ID_AES (mKey m) 128) = aes_gcm_context (mKey m) 128"
    "replicate 12 0 = tm_iv" "TM_MAC_HEADER_SIZE = 9" "n div 16 * 16 = b"
    by (simp_all add: aes_gcm_context_def tm_iv_def TM_MAC_HEADER_SIZE_def b_def)
  show ?thesis
  proof (rule crypt_parts [of MBEDTLS_GCM_DECRYPT n 9 data "mScratch m" hdr b p "mKey m"])
    fix c0 c1 c2 c3 s1
    assume f: "mbedtls_gcm_starts (aes_gcm_context (mKey m) 128) MBEDTLS_GCM_DECRYPT tm_iv hdr = (c0, 0)"
      "crypt_part c0 data 9 b (mScratch m) 0 = Inr (c1, s1)" "b = 0 \<Longrightarrow> c1 = c0 \<and> s1 = mScratch m"
      "(if n - b > 0 then crypt_part c1 data (9 + b) (n - b) s1 b else Inr (c1, s1)) =
         Inr (c2, memcpy (mScratch m) 0 (gcm_ctr (tm_cipher (mKey m)) tm_iv p))"
      "mbedtls_gcm_finish c2 16 = (c3, 0, gcm_tag (tm_cipher (mKey m)) tm_iv hdr
         (if MBEDTLS_GCM_DECRYPT = MBEDTLS_GCM_ENCRYPT then gcm_ctr (tm_cipher (mKey m)) tm_iv p else p) 16)"
    have f5: "mbedtls_gcm_finish c2 16 = (c3, 0, gcm_tag (tm_cipher (mKey m)) tm_iv hdr p 16)"
      using f(5) by (simp add: MBEDTLS_GCM_DECRYPT_def MBEDTLS_GCM_ENCRYPT_def)
    have f2: "(if b > 0 then crypt_part c0 data 9 b (mScratch m) 0 else Inr (c0, mScratch m)) = Inr (c1, s1)"
      using f(2,3) by auto
    have sel: "mKey (m\<lparr>mPayloadSize := x\<rparr>) = mKey m" "mPayloadSize (m\<lparr>mPayloadSize := x\<rparr>) = x" "mScratch (m\<lparr>mPayloadSize := x\<rparr>) = mScratch m" for x
      by simp_all
    show ?thesis
      unfolding Decrypt_def Let_def sel cn n(2) hdr(1) chk_Inr f(1) fst_conv f2 prod.case f(4) f5 mic by simp
  qed (use assms(1,2,3,4) n hdr in \<open>simp_all add: tm_sizes b_def p_def\<close>)
qed

section \<open>Properties\<close>

text \<open>
  Property C22. A receiver with the key of the sender accepts a frame made by \<open>BuildData\<close> and
  finds the payload in its buffer. The payload is the text up to its length modulo 256, since
  the length is cut to a byte; if more than 240 bytes remain, the frame is written past the
  end of its array.
\<close>

theorem tiny_mac_roundtrip:
  assumes "length (mPacket s) = TM_MAX_PACKET_SIZE" "length (mScratch s) = TM_MAX_PACKET_SIZE"
    "length (mScratch r) = TM_MAX_PACKET_SIZE" "mKey r = mKey s"
  shows "if length data mod 256 \<le> TM_MAX_PAYLOAD_SIZE
    then \<exists>s' r'. BuildData True s data = Inr s' \<and>
      Decrypt True r (take (unat (GetSize s')) (mPacket s')) (GetSize s') = Inr (r', True) \<and>
      take (unat (GetDataSize r')) (mScratch r') = take (length data mod 256) data
    else BuildData True s data = Inl OUT_OF_BOUNDS"
proof (cases "length data mod 256 \<le> TM_MAX_PAYLOAD_SIZE")
  case False
  then show ?thesis
    using BuildData_spec [OF assms(1,2) refl, of data] by simp
next
  case True
  define n where "n = length data mod 256"
  define c where "c = gcm_ctr (tm_cipher (mKey s)) tm_iv (take n data)"
  define hdr where "hdr = tm_header (s\<lparr>mFrameCounter := mFrameCounter s + 1\<rparr>) TM_DATA_REQ"
  define w where "w = take 4 (gcm_tag (tm_cipher (mKey s)) tm_iv hdr c 16)"
  obtain s' where s': "BuildData True s data = Inr s'" "mPayloadSize s' = word_of_nat n" "take (13 + n) (mPacket s') = hdr @ c @ w"
    using BuildData_spec [OF assms(1,2) n_def] True unfolding n_def [symmetric] c_def [symmetric] hdr_def [symmetric] w_def [symmetric] by auto
  have n: "n \<le> 240" "n \<le> length data"
    using True by (simp_all add: n_def tm_sizes)
  have len: "length hdr = 9" "length c = n" "length w = 4"
    using n by (simp_all add: hdr_def c_def w_def length_gcm_ctr length_gcm_tag)
  have gs: "GetSize s' = word_of_nat (13 + n)"
    using s'(2) by (simp add: GetSize_def tm_sizes)
  have gs2: "unat (GetSize s') = 13 + n"
    unfolding gs by (rule unat_byte) (use n(1) in simp)
  have d: "Decrypt True r (hdr @ c @ w) (GetSize s') = Inr (r\<lparr>mPayloadSize := GetSize s' - word_of_nat TM_MAC_SIZE,
      mScratch := memcpy (mScratch r) 0 (gcm_ctr (tm_cipher (mKey s)) tm_iv c)\<rparr>, True)"
  proof -
    have p: "take 9 (hdr @ c @ w) = hdr" "take n (drop 9 (hdr @ c @ w)) = c" "take 4 (drop (13 + n - 4) (hdr @ c @ w)) = w"
      using len by simp_all
    have q: "13 \<le> unat (GetSize s')" "unat (GetSize s') \<le> length (hdr @ c @ w)" "n = unat (GetSize s') - 13"
      using len gs2 by simp_all
    show ?thesis
      using Decrypt_spec [OF assms(3) q] unfolding gs2 p assms(4) w_def [symmetric] by (simp only: HOL.simp_thms)
  qed
  have "unat (GetSize s' - word_of_nat TM_MAC_SIZE) = n"
    using payload_size [of "GetSize s'"] gs2 by simp
  moreover have "gcm_ctr (tm_cipher (mKey s)) tm_iv c = take n data"
    unfolding c_def by (rule gcm_ctr_twice)
  ultimately show ?thesis
    using True s'(1,3) d gs2 n len by (simp add: GetDataSize_def memcpy_def flip: n_def)
qed


theorem tiny_mac_roundtrip_witness:
  "\<exists>s' r'. BuildData True \<lparr>mScratch = replicate 253 0, mPacket = replicate 253 0, mKey = replicate 16 5, mPayloadSize = 0,
      mWrIndex = 0, mFrameCounter = 0, mDevAddr = 7\<rparr> [1, 2, 3] = Inr s' \<and>
    Decrypt True \<lparr>mScratch = replicate 253 9, mPacket = [], mKey = replicate 16 5, mPayloadSize = 0,
      mWrIndex = 0, mFrameCounter = 0, mDevAddr = 0\<rparr> (take (unat (GetSize s')) (mPacket s')) (GetSize s') = Inr (r', True) \<and>
    take (unat (GetDataSize r')) (mScratch r') = [1, 2, 3]"
  using tiny_mac_roundtrip [of "\<lparr>mScratch = replicate 253 0, mPacket = replicate 253 0, mKey = replicate 16 5, mPayloadSize = 0,
      mWrIndex = 0, mFrameCounter = 0, mDevAddr = 7\<rparr>" "\<lparr>mScratch = replicate 253 9, mPacket = [], mKey = replicate 16 5, mPayloadSize = 0,
      mWrIndex = 0, mFrameCounter = 0, mDevAddr = 0\<rparr>" "[1, 2, 3]"]
  by (simp add: tm_sizes)

context block_cipher
begin

lemma ctr_xor:
  "length cb = 16 \<Longrightarrow> length x = length y \<Longrightarrow> xor_bytes (GCTR E cb x) (GCTR E cb y) = xor_bytes x y"
proof (induction "length x" arbitrary: cb x y rule: less_induct)
  case less
  show ?case
  proof (cases "x = []")
    case True
    then show ?thesis
      using less.prems by (simp add: GCTR.simps [of _ _ "[]"])
  next
    case False
    then have y: "y \<noteq> []"
      using less.prems by auto
    obtain a where a: "a = xor_bytes (take (length (take 16 x)) (E cb)) (take 16 x)" "length a = length (take 16 x)"
      "GCTR E cb x = a @ GCTR E (inc32 cb) (drop 16 x)"
      by (rule ctr_step [OF False less.prems(1)])
    obtain b where b: "b = xor_bytes (take (length (take 16 y)) (E cb)) (take 16 y)" "length b = length (take 16 y)"
      "GCTR E cb y = b @ GCTR E (inc32 cb) (drop 16 y)"
      by (rule ctr_step [OF y less.prems(1)])
    have app: "xor_bytes (u @ u') (v @ v') = xor_bytes u v @ xor_bytes u' v'" if "length u = length v" for u u' v v'
      using that by (simp add: xor_bytes_def)
    have "xor_bytes (xor_bytes k u) (xor_bytes k v) = xor_bytes u v" if "length k = length u" "length u = length v" for k u v
      using that by (induction k u v rule: list_induct3) (auto simp: xor_bytes_def xor_ac)
    then have "xor_bytes a b = xor_bytes (take 16 x) (take 16 y)"
      using a(1) b(1) less.prems length_E [OF less.prems(1)] by simp
    moreover have "xor_bytes (GCTR E (inc32 cb) (drop 16 x)) (GCTR E (inc32 cb) (drop 16 y)) = xor_bytes (drop 16 x) (drop 16 y)"
      using False y less.prems by (intro less.hyps) simp_all
    moreover have "xor_bytes x y = xor_bytes (take 16 x) (take 16 y) @ xor_bytes (drop 16 x) (drop 16 y)"
      using app [of "take 16 x" "take 16 y" "drop 16 x" "drop 16 y"] less.prems by simp
    ultimately show ?thesis
      using a b less.prems app [of a b] by simp
  qed
qed

end

text \<open>
  Property C23. Every frame is encrypted with the same initialization vector: for two frames made
  under one key, at whatever counters and addresses, the exclusive or of the encrypted payloads is
  the exclusive or of the texts.
\<close>

theorem tiny_mac_keystream_reused:
  assumes "length (mPacket s) = TM_MAX_PACKET_SIZE" "length (mScratch s) = TM_MAX_PACKET_SIZE"
    "length (mPacket t) = TM_MAX_PACKET_SIZE" "length (mScratch t) = TM_MAX_PACKET_SIZE" "mKey s = mKey t"
    "length d = length e" "length e \<le> TM_MAX_PAYLOAD_SIZE"
  shows "\<exists>s' t'. BuildData True s d = Inr s' \<and> BuildData True t e = Inr t' \<and>
    xor_bytes (take (length d) (drop TM_MAC_HEADER_SIZE (mPacket s'))) (take (length e) (drop TM_MAC_HEADER_SIZE (mPacket t')))
      = xor_bytes d e"
proof -
  have *: "\<exists>m'. BuildData True m x = Inr m' \<and> take (length x) (drop 9 (mPacket m')) = gcm_ctr (tm_cipher (mKey m)) tm_iv x"
    if l: "length (mPacket m) = TM_MAX_PACKET_SIZE" "length (mScratch m) = TM_MAX_PACKET_SIZE" "length x \<le> TM_MAX_PAYLOAD_SIZE" for m x
  proof -
    define h where "h = tm_header (m\<lparr>mFrameCounter := mFrameCounter m + 1\<rparr>) TM_DATA_REQ"
    define c where "c = gcm_ctr (tm_cipher (mKey m)) tm_iv x"
    have n: "length x = length x mod 256"
      using l(3) by (simp add: tm_sizes)
    have len: "length c = length x" "length h = 9"
      by (simp_all add: c_def h_def length_gcm_ctr)
    obtain m' where m': "BuildData True m x = Inr m'"
      "take (13 + length x) (mPacket m') = h @ c @ take 4 (gcm_tag (tm_cipher (mKey m)) tm_iv h c 16)"
      using BuildData_spec [OF l(1,2) n] l(3) unfolding h_def c_def by auto
    have "take (length x) (drop 9 (take (13 + length x) (mPacket m'))) = c"
      unfolding m'(2) using len by simp
    then show ?thesis
      using m'(1) by (simp add: drop_take min_def c_def)
  qed
  obtain s' t' where "BuildData True s d = Inr s'" "take (length d) (drop 9 (mPacket s')) = gcm_ctr (tm_cipher (mKey t)) tm_iv d"
    "BuildData True t e = Inr t'" "take (length e) (drop 9 (mPacket t')) = gcm_ctr (tm_cipher (mKey t)) tm_iv e"
    using * [OF assms(1,2), of d] * [OF assms(3,4), of e] assms(5-7) by auto
  moreover have "xor_bytes (gcm_ctr (tm_cipher (mKey t)) tm_iv d) (gcm_ctr (tm_cipher (mKey t)) tm_iv e) = xor_bytes d e"
    unfolding gcm_ctr_def by (rule aes_cipher.ctr_xor) (simp_all add: length_J0 assms(6))
  ultimately show ?thesis
    by (simp add: TM_MAC_HEADER_SIZE_def)
qed

theorem tiny_mac_keystream_reused_witness:
  "\<exists>s' t'. BuildData True \<lparr>mScratch = replicate 253 0, mPacket = replicate 253 0, mKey = replicate 16 5, mPayloadSize = 0,
      mWrIndex = 0, mFrameCounter = 0, mDevAddr = 7\<rparr> [1, 2, 3] = Inr s' \<and>
    BuildData True \<lparr>mScratch = replicate 253 0, mPacket = replicate 253 0, mKey = replicate 16 5, mPayloadSize = 0,
      mWrIndex = 0, mFrameCounter = 41, mDevAddr = 8\<rparr> [4, 5, 6] = Inr t' \<and>
    xor_bytes (take (length [1 :: byte, 2, 3]) (drop TM_MAC_HEADER_SIZE (mPacket s')))
      (take (length [4 :: byte, 5, 6]) (drop TM_MAC_HEADER_SIZE (mPacket t'))) = xor_bytes [1, 2, 3] [4, 5, 6]"
  by (rule tiny_mac_keystream_reused) (simp_all add: tm_sizes)


text \<open>
  Property C24. \<open>Decrypt\<close> stays within the frame and its buffers exactly for frames of at
  least 13 bytes: it then decides by the tag of the received bytes. For a shorter frame the size of the
  payload wraps around to at least 243, and it reads past the end of the frame.
\<close>

theorem tiny_mac_decrypt_bounds:
  assumes "length (mScratch r) = TM_MAX_PACKET_SIZE" "length frame = unat sz"
  shows "if TM_MAC_SIZE \<le> unat sz
    then \<exists>r'. Decrypt True r frame sz = Inr (r',
      take 4 (gcm_tag (tm_cipher (mKey r)) tm_iv (take 9 frame) (take (unat sz - 13) (drop 9 frame)) 16) = drop (unat sz - 4) frame)
    else Decrypt True r frame sz = Inl OUT_OF_BOUNDS"
proof (cases "13 \<le> unat sz")
  case True
  have "take 4 (drop (unat sz - 4) frame) = drop (unat sz - 4) frame"
    using assms(2) True by simp
  then show ?thesis
    using Decrypt_spec [OF assms(1) True _ refl, of frame] assms(2) True by (simp add: tm_sizes)
next
  case False
  have w: "unat (sz - word_of_nat TM_MAC_SIZE) = unat sz + 243"
  proof -
    have "sz - word_of_nat TM_MAC_SIZE = word_of_nat (unat sz + 243)"
      by (simp add: tm_sizes)
    then show ?thesis
      using False by (simp add: unat_byte del: of_nat_add)
  qed
  have big: "15 \<le> (unat sz + 243) div 16"
    using div_le_mono [of 243 "unat sz + 243" 16] by simp
  then have "crypt_part c frame 9 ((unat sz + 243) div 16 * 16) s 0 = Inl OUT_OF_BOUNDS" for c s
    using False assms(2) by (simp add: crypt_part_def read_at_def)
  then show ?thesis
    using False w big by (simp add: Decrypt_def Let_def tm_sizes read_at_def)
qed

theorem tiny_mac_decrypt_bounds_witness:
  "Decrypt True \<lparr>mScratch = replicate 253 9, mPacket = [], mKey = replicate 16 5, mPayloadSize = 0,
      mWrIndex = 0, mFrameCounter = 0, mDevAddr = 0\<rparr> (replicate 12 0) 12 = Inl OUT_OF_BOUNDS"
  using tiny_mac_decrypt_bounds [of "\<lparr>mScratch = replicate 253 9, mPacket = [], mKey = replicate 16 5, mPayloadSize = 0,
      mWrIndex = 0, mFrameCounter = 0, mDevAddr = 0\<rparr>" "replicate 12 0" 12]
  by (simp add: tm_sizes)

lemma zero_tables: "table_of (replicate 16 0, replicate 16 0) (block (replicate 16 0))"
proof -
  have "block (replicate 16 0) = 0"
    by (simp add: block_def GET_UINT32_BE_def)
  moreover have "gf_bits xs 0 = 0" for xs
    by (induction xs) simp_all
  ultimately show ?thesis
    by (simp add: table_of_def entry_def pack_0 del: gf_bits.simps)
qed

lemma gf_mult_zero: "gf_mult x (replicate 16 0) = replicate 16 0"
proof -
  have "block (replicate 16 0) = 0"
    by (simp add: block_def GET_UINT32_BE_def)
  moreover have "gf_bits xs 0 = 0" for xs
    by (induction xs) simp_all
  ultimately show ?thesis
    by (simp add: gf_mult_def unblock_def be32_def numeral_eq_Suc)
qed

text \<open>A context whose cipher was not set up, as long as no call sets anything but counters.\<close>

definition unkeyed :: "'c gcm_context \<Rightarrow> bool" where
  "unkeyed ctx \<longleftrightarrow> cc_cipher (gcm_cipher_ctx ctx) = None \<and> gcm_HH ctx = replicate 16 0 \<and> gcm_HL ctx = replicate 16 0 \<and>
     gcm_base_ectr ctx = replicate 16 0 \<and> length (gcm_buf ctx) = 16"

lemma unkeyed_cipher: "unkeyed ctx \<Longrightarrow> cipher_update_ecb (gcm_cipher_ctx ctx) x out = Inl MBEDTLS_ERR_CIPHER_BAD_INPUT_DATA"
  by (simp add: unkeyed_def cipher_update_ecb_def)

lemma unkeyed_setkey:
  "unkeyed (fst (mbedtls_gcm_setkey False aes_ecb_definitions mbedtls_gcm_init MBEDTLS_CIPHER_ID_AES key 128))"
  by (simp add: mbedtls_gcm_setkey_def mbedtls_cipher_info_from_values_def aes_ecb_definitions_def aes_ecb_info_def
      mbedtls_cipher_setup_def aes_ctx_alloc_def MBEDTLS_ERR_CIPHER_ALLOC_FAILED_def unkeyed_def mbedtls_gcm_init_def mbedtls_cipher_init_def)

lemma unkeyed_starts: "unkeyed ctx \<Longrightarrow> unkeyed (fst (mbedtls_gcm_starts ctx mode iv add))"
  by (simp add: mbedtls_gcm_starts_def Let_def unkeyed_def cipher_update_ecb_def)

lemma unkeyed_update:
  assumes "unkeyed ctx"
  shows "\<exists>ctx' ret. mbedtls_gcm_update False ctx p = (ctx', ret, []) \<and> unkeyed ctx'"
  using assms by (auto simp: mbedtls_gcm_update_def Let_def update_loop.simps [of _ p] unkeyed_def cipher_update_ecb_def)

lemma unkeyed_finish:
  assumes "unkeyed ctx"
  shows "\<exists>ctx'. mbedtls_gcm_finish ctx 16 = (ctx', 0, replicate 16 0)"
proof -
  have m: "mult_buf ctx b = replicate 16 0" if "length b = 16" for b
    using assms gcm_mult_gf [OF zero_tables that that] by (simp add: mult_buf_def unkeyed_def gf_mult_zero)
  define w where "w = PUT_UINT32_BE (ucast (gcm_len ctx * 8)) (PUT_UINT32_BE (ucast (drop_bit 32 (gcm_len ctx * 8)))
     (PUT_UINT32_BE (ucast (gcm_add_len ctx * 8)) (PUT_UINT32_BE (ucast (drop_bit 32 (gcm_add_len ctx * 8))) (replicate 16 0) 0) 4) 8) 12"
  have "length w = 16"
    by (simp add: w_def PUT_UINT32_BE_def length_memcpy)
  then have "mult_buf ctx (xor_into (gcm_buf ctx) w) = replicate 16 0"
    using assms m by (simp add: unkeyed_def)
  then show ?thesis
    using assms xor_bytes_0 [of "replicate 16 0" 16]
    by (simp add: mbedtls_gcm_finish_def Let_def unkeyed_def flip: w_def)
qed

lemma unkeyed_crypt_part:
  assumes "unkeyed ctx" "off + n \<le> length src" "dst \<le> length scratch"
  shows "\<exists>ctx'. crypt_part ctx src off n scratch dst = Inr (ctx', scratch) \<and> unkeyed ctx'"
  using unkeyed_update [OF assms(1), of "take n (drop off src)"] assms(2,3)
  by (auto simp: crypt_part_def read_at_def write_at_def)

text \<open>
  Property C25. The return codes of mbedtls are not checked: if the allocation of the cipher
  context fails, the tag is computed as zero, whatever the key and the frame. \<open>Decrypt\<close> then accepts exactly the
  frames that end in four zero bytes, and leaves the old contents of the buffer as the payload.
\<close>

theorem tiny_mac_accepts_without_memory:
  assumes "length (mScratch r) = TM_MAX_PACKET_SIZE" "TM_MAC_SIZE \<le> unat sz" "length frame = unat sz"
  shows "Decrypt False r frame sz =
    Inr (r\<lparr>mPayloadSize := sz - word_of_nat TM_MAC_SIZE\<rparr>, drop (unat sz - 4) frame = replicate 4 0)"
proof -
  define n where "n = unat (sz - word_of_nat TM_MAC_SIZE)"
  define b where "b = n div 16 * 16"
  have n: "n = unat sz - 13" "b \<le> n" "n < 243"
    using payload_size [of sz] assms(2) unsigned_less [of sz, where 'a = nat] by (simp_all add: n_def b_def tm_sizes)
  define c0 where "c0 = fst (mbedtls_gcm_starts (fst (mbedtls_gcm_setkey False aes_ecb_definitions mbedtls_gcm_init MBEDTLS_CIPHER_ID_AES (mKey r) 128))
    MBEDTLS_GCM_DECRYPT (replicate 12 0) (take 9 frame))"
  have c0: "unkeyed c0"
    unfolding c0_def by (intro unkeyed_starts unkeyed_setkey)
  have fits: "9 + b \<le> length frame" "9 + b + (n - b) \<le> length frame" "b \<le> length (mScratch r)"
    using n assms by (simp_all add: tm_sizes)
  obtain c1 where c1: "(if b > 0 then crypt_part c0 frame 9 b (mScratch r) 0 else Inr (c0, mScratch r)) = Inr (c1, mScratch r)" "unkeyed c1"
    using unkeyed_crypt_part [OF c0, of 9 b frame 0 "mScratch r"] c0 fits by (cases "b > 0") auto
  obtain c2 where c2: "(if n - b > 0 then crypt_part c1 frame (9 + b) (n - b) (mScratch r) b else Inr (c1, mScratch r)) = Inr (c2, mScratch r)" "unkeyed c2"
    using unkeyed_crypt_part [OF c1(2), of "9 + b" "n - b" frame b "mScratch r"] c1(2) fits by (cases "n - b > 0") auto
  obtain c3 where c3: "mbedtls_gcm_finish c2 16 = (c3, 0, replicate 16 0)"
    using unkeyed_finish [OF c2(2)] by blast
  have hdr: "read_at frame 0 9 = Inr (take 9 frame)"
    using assms(2,3) by (simp add: read_at_def tm_sizes)
  have mic: "(if unat sz < 4 then Inl OUT_OF_BOUNDS else read_at frame (unat sz - 4) 4) = Inr (drop (unat sz - 4) frame)"
    using assms(2,3) by (simp add: read_at_def tm_sizes)
  have sel: "mKey (r\<lparr>mPayloadSize := x\<rparr>) = mKey r" "mPayloadSize (r\<lparr>mPayloadSize := x\<rparr>) = x" "mScratch (r\<lparr>mPayloadSize := x\<rparr>) = mScratch r" for x
    by simp_all
  have hs: "TM_MAC_HEADER_SIZE = 9"
    by (simp add: tm_sizes)
  show ?thesis
    unfolding Decrypt_def Let_def sel hs n_def [symmetric] b_def [symmetric] hdr chk_Inr c0_def [symmetric] c1(1) prod.case c2(1) c3 mic by auto
qed

theorem tiny_mac_accepts_without_memory_witness:
  "Decrypt False \<lparr>mScratch = replicate 253 9, mPacket = [], mKey = replicate 16 5, mPayloadSize = 0,
      mWrIndex = 0, mFrameCounter = 0, mDevAddr = 0\<rparr> (replicate 20 0) 20 =
    Inr (\<lparr>mScratch = replicate 253 9, mPacket = [], mKey = replicate 16 5, mPayloadSize = 7,
      mWrIndex = 0, mFrameCounter = 0, mDevAddr = 0\<rparr>, True)"
  using tiny_mac_accepts_without_memory [of "\<lparr>mScratch = replicate 253 9, mPacket = [], mKey = replicate 16 5, mPayloadSize = 0,
      mWrIndex = 0, mFrameCounter = 0, mDevAddr = 0\<rparr>" 20 "replicate 20 0"]
  by (simp add: tm_sizes)

end
