(* ===== verification/Util_Classes.thy ===== *)
theory Util_Classes
  imports Prelude
begin


text \<open>
  Small classes of \<open>util/\<close>: the allocator of identifiers \<open>UniqueId\<close>, the order of
  \<open>SemanticVersion\<close> and the observers of \<open>Observer.h\<close>.
\<close>

section \<open>Identifiers\<close>

record unique_id =
  mMin :: u32
  mMax :: u32
  mUsedIds :: "u32 list"

definition cInvalidId :: u32 where "cInvalidId = 0"

definition UniqueId :: "u32 \<Rightarrow> u32 \<Rightarrow> unique_id" where
  "UniqueId mn mx =
     (let lo = (if mn = 0 then 1 else mn)
      in \<lparr>mMin = lo, mMax = (if mx \<le> lo then lo + 1 else mx), mUsedIds = []\<rparr>)"

text \<open>
  The loop of \<open>TakeId\<close> and \<open>FindId\<close>. Its counter is unsigned, so that it does not end by its
  condition if \<open>mMax\<close> is the largest number; a loop that runs forever is \<open>None\<close>.
\<close>

partial_function (option) find_free :: "u32 list \<Rightarrow> u32 \<Rightarrow> u32 \<Rightarrow> u32 option option" where
  "find_free used mx i =
     (if i \<le> mx then (if i \<notin> set used then Some (Some i) else find_free used mx (i + 1)) else Some None)"

declare find_free.simps [code]

definition TakeId :: "unique_id \<Rightarrow> (unique_id \<times> u32) option" where
  "TakeId u = map_option (\<lambda>r. case r of None \<Rightarrow> (u, cInvalidId) | Some i \<Rightarrow> (u\<lparr>mUsedIds := mUsedIds u @ [i]\<rparr>, i))
     (find_free (mUsedIds u) (mMax u) (mMin u))"

definition FindId :: "unique_id \<Rightarrow> u32 option" where
  "FindId u = map_option (\<lambda>r. case r of None \<Rightarrow> 0 | Some i \<Rightarrow> i) (find_free (mUsedIds u) (mMax u) (mMin u))"

definition IsTaken :: "unique_id \<Rightarrow> u32 \<Rightarrow> bool" where
  "IsTaken u i \<longleftrightarrow> i \<in> set (mUsedIds u)"

definition AddId :: "unique_id \<Rightarrow> u32 \<Rightarrow> unique_id" where
  "AddId u i = (if \<not> IsTaken u i then u\<lparr>mUsedIds := mUsedIds u @ [i]\<rparr> else u)"

definition ReleaseId :: "unique_id \<Rightarrow> u32 \<Rightarrow> unique_id \<times> bool" where
  "ReleaseId u i =
     (if i \<in> set (mUsedIds u)
      then let u = u\<lparr>mUsedIds := remove1 i (mUsedIds u)\<rparr> in (u, i \<notin> set (mUsedIds u))
      else (u, False))"

definition Clear_ids :: "unique_id \<Rightarrow> unique_id" where
  "Clear_ids u = u\<lparr>mUsedIds := []\<rparr>"

datatype id_op = Op_Take | Op_Add u32 | Op_Release u32 | Op_Clear

definition id_step :: "unique_id option \<Rightarrow> id_op \<Rightarrow> unique_id option" where
  "id_step r p = Option.bind r (\<lambda>u. case p of
       Op_Take \<Rightarrow> map_option fst (TakeId u)
     | Op_Add i \<Rightarrow> Some (AddId u i)
     | Op_Release i \<Rightarrow> Some (fst (ReleaseId u i))
     | Op_Clear \<Rightarrow> Some (Clear_ids u))"

lemma find_free_first:
  assumes "mx \<noteq> - 1"
  shows "\<exists>r. find_free used mx i = Some r \<and> (case r of
     Some j \<Rightarrow> i \<le> j \<and> j \<le> mx \<and> j \<notin> set used \<and> (\<forall>k. i \<le> k \<longrightarrow> k < j \<longrightarrow> k \<in> set used)
   | None \<Rightarrow> (\<forall>k. i \<le> k \<longrightarrow> k \<le> mx \<longrightarrow> k \<in> set used))"
proof (induction "unat mx + 1 - unat i" arbitrary: i rule: less_induct)
  case less
  show ?case
  proof (cases "i \<le> mx \<and> i \<in> set used")
    case False
    then show ?thesis
      by (subst find_free.simps) (auto dest: order_trans)
  next
    case True
    have "mx < - 1"
      using assms by (simp add: word_order.not_eq_extremum)
    then have i: "i < - 1"
      using True by (meson order_le_less_trans)
    then have "1 + i \<noteq> 0"
      by (metis add_eq_0_iff order_less_irrefl)
    then have s: "unat (i + 1) = unat i + 1"
      using unatSuc [of i] by (simp add: add.commute)
    have k: "i \<le> k \<longleftrightarrow> k = i \<or> i + 1 \<le> k" "i < k \<longleftrightarrow> i + 1 \<le> k" for k
      unfolding word_le_nat_alt word_less_nat_alt s by (auto simp: word_unat_eq_iff)
    have "unat mx + 1 - unat (i + 1) < unat mx + 1 - unat i"
      using True s by (simp add: word_le_nat_alt Suc_diff_le)
    from less [OF this] obtain r where r: "find_free used mx (i + 1) = Some r" "case r of
        Some j \<Rightarrow> i + 1 \<le> j \<and> j \<le> mx \<and> j \<notin> set used \<and> (\<forall>k. i + 1 \<le> k \<longrightarrow> k < j \<longrightarrow> k \<in> set used)
      | None \<Rightarrow> (\<forall>k. i + 1 \<le> k \<longrightarrow> k \<le> mx \<longrightarrow> k \<in> set used)"
      by blast
    then have "find_free used mx i = Some r"
      using True by (subst find_free.simps) simp
    then show ?thesis
      using r(2) True k by (auto split: option.splits)
  qed
qed


definition ids_ok :: "unique_id \<Rightarrow> bool" where
  "ids_ok u \<longleftrightarrow> mMin u \<noteq> 0 \<and> mMax u \<noteq> - 1 \<and> distinct (mUsedIds u)"

lemma TakeId_cases:
  assumes "ids_ok u"
  obtains (full) "TakeId u = Some (u, cInvalidId)" "\<forall>k. mMin u \<le> k \<longrightarrow> k \<le> mMax u \<longrightarrow> IsTaken u k"
  | (free) i where "TakeId u = Some (u\<lparr>mUsedIds := mUsedIds u @ [i]\<rparr>, i)" "mMin u \<le> i" "i \<le> mMax u" "\<not> IsTaken u i"
      "\<forall>k. mMin u \<le> k \<longrightarrow> k < i \<longrightarrow> IsTaken u k" "i \<noteq> 0"
proof -
  obtain r where r: "find_free (mUsedIds u) (mMax u) (mMin u) = Some r" "case r of
     Some j \<Rightarrow> mMin u \<le> j \<and> j \<le> mMax u \<and> j \<notin> set (mUsedIds u) \<and> (\<forall>k. mMin u \<le> k \<longrightarrow> k < j \<longrightarrow> k \<in> set (mUsedIds u))
   | None \<Rightarrow> (\<forall>k. mMin u \<le> k \<longrightarrow> k \<le> mMax u \<longrightarrow> k \<in> set (mUsedIds u))"
    using find_free_first assms unfolding ids_ok_def by blast
  show thesis
  proof (cases r)
    case None
    then show ?thesis
      using r full by (simp add: TakeId_def IsTaken_def)
  next
    case (Some j)
    have "j \<noteq> 0"
      using r(2) Some assms by (auto simp: ids_ok_def)
    then show ?thesis
      using r Some free [of j] by (simp add: TakeId_def IsTaken_def)
  qed
qed

lemma id_step_ok: "ids_ok u \<Longrightarrow> \<exists>u'. id_step (Some u) p = Some u' \<and> ids_ok u' \<and> mMin u' = mMin u \<and> mMax u' = mMax u"
proof (cases p)
  case Op_Take
  assume u: "ids_ok u"
  then show ?thesis
    by (rule TakeId_cases) (use u Op_Take in \<open>auto simp: id_step_def ids_ok_def IsTaken_def\<close>)
qed (auto simp: id_step_def ids_ok_def AddId_def IsTaken_def ReleaseId_def Clear_ids_def Let_def)

lemma id_steps_ok:
  "ids_ok u \<Longrightarrow> \<exists>u'. foldl id_step (Some u) ps = Some u' \<and> ids_ok u' \<and> mMin u' = mMin u \<and> mMax u' = mMax u"
proof (induction ps arbitrary: u)
  case (Cons p ps)
  obtain v where "id_step (Some u) p = Some v" "ids_ok v" "mMin v = mMin u" "mMax v = mMax u"
    using id_step_ok [OF Cons.prems] by blast
  then show ?case
    using Cons.IH [of v] by auto
qed simp

section \<open>Versions\<close>

datatype semantic_version = SemanticVersion (major: byte) (minor: byte) (patch: byte)

definition sv_IsValid :: "semantic_version \<Rightarrow> bool" where
  "sv_IsValid v \<longleftrightarrow> major v \<noteq> 0"

definition sv_less :: "semantic_version \<Rightarrow> semantic_version \<Rightarrow> bool" where
  "sv_less a v =
     (if major a < major v then True
      else if major a = major v
      then (if minor a < minor v then True
            else if minor a = minor v then (if patch a < patch v then True else False)
            else False)
      else False)"

definition sv_eq :: "semantic_version \<Rightarrow> semantic_version \<Rightarrow> bool" where
  "sv_eq a v \<longleftrightarrow> major a = major v \<and> minor a = minor v \<and> patch a = patch v"

definition sv_greater :: "semantic_version \<Rightarrow> semantic_version \<Rightarrow> bool" where
  "sv_greater a v = (if sv_less a v then False else if sv_eq a v then False else True)"

text \<open>The operators of the class make versions a linear order.\<close>

instantiation semantic_version :: linorder
begin

definition less_semantic_version :: "semantic_version \<Rightarrow> semantic_version \<Rightarrow> bool" where
  "a < b \<longleftrightarrow> sv_less a b"

definition less_eq_semantic_version :: "semantic_version \<Rightarrow> semantic_version \<Rightarrow> bool" where
  "a \<le> b \<longleftrightarrow> sv_less a b \<or> sv_eq a b"

instance
proof
  fix a b c :: semantic_version
  show "(a < b) = (a \<le> b \<and> \<not> b \<le> a)"
    by (auto simp: less_semantic_version_def less_eq_semantic_version_def sv_less_def sv_eq_def)
  show "a \<le> a"
    by (simp add: less_eq_semantic_version_def sv_eq_def)
  show "a \<le> b \<Longrightarrow> b \<le> c \<Longrightarrow> a \<le> c"
    by (auto simp: less_eq_semantic_version_def sv_less_def sv_eq_def split: if_splits)
  show "a \<le> b \<Longrightarrow> b \<le> a \<Longrightarrow> a = b"
    by (cases a; cases b) (auto simp: less_eq_semantic_version_def sv_less_def sv_eq_def split: if_splits)
  show "a \<le> b \<or> b \<le> a"
    by (auto simp: less_eq_semantic_version_def sv_less_def sv_eq_def)
qed

end

lemma sv_greater_iff: "sv_greater a b \<longleftrightarrow> b < a"
  unfolding sv_greater_def less_semantic_version_def by (auto simp: sv_less_def sv_eq_def)

section \<open>Observers\<close>

text \<open>
  An observer is its address with the mask it has; \<open>Notify\<close> returns the observers whose
  \<open>Update\<close> is called, in this order.
\<close>

type_synonym 'o subject = "'o list"

definition Attach :: "'o subject \<Rightarrow> 'o \<Rightarrow> 'o subject" where "Attach mList ob = mList @ [ob]"
definition Detach :: "'o subject \<Rightarrow> 'o \<Rightarrow> 'o subject" where "Detach mList ob = removeAll ob mList"

fun Notify :: "('o \<Rightarrow> byte) \<Rightarrow> 'o subject \<Rightarrow> byte \<Rightarrow> 'o list" where
  "Notify GetMask [] flags = []"
| "Notify GetMask (ob # mList) flags =
     (if GetMask ob AND flags \<noteq> 0 then ob # Notify GetMask mList flags else Notify GetMask mList flags)"

lemma notify_after_detach: "ob \<notin> set (Notify mask (Detach l ob) flags)"
  by (induction l) (auto simp: Detach_def)

lemma notify_after_attach:
  "Notify mask (Attach l ob) flags = Notify mask l flags @ (if mask ob AND flags \<noteq> 0 then [ob] else [])"
  by (induction l) (auto simp: Attach_def)

section \<open>Properties\<close>

text \<open>
  Property C37. Whatever operations were applied to a constructed allocator whose range ends below the largest
  number, they all return, and \<open>TakeId\<close> then returns the least identifier of the range that is not taken, never zero,
  and takes it, or zero if there is none; releasing it is reported as done and restores the state.
\<close>

theorem unique_id_allocates:
  assumes "mMax (UniqueId mn mx) \<noteq> - 1"
  shows "\<exists>u. foldl id_step (Some (UniqueId mn mx)) ps = Some u \<and>
    (if \<forall>k. mMin u \<le> k \<longrightarrow> k \<le> mMax u \<longrightarrow> IsTaken u k then TakeId u = Some (u, cInvalidId)
     else \<exists>u' i. TakeId u = Some (u', i) \<and> FindId u = Some i \<and> i \<noteq> cInvalidId \<and> mMin (UniqueId mn mx) \<le> i \<and> i \<le> mMax (UniqueId mn mx) \<and>
       \<not> IsTaken u i \<and> (\<forall>k. mMin u \<le> k \<longrightarrow> k < i \<longrightarrow> IsTaken u k) \<and> IsTaken u' i \<and> ReleaseId u' i = (u, True))"
proof -
  have "mMin (UniqueId mn mx) \<noteq> 0"
    by (simp add: UniqueId_def Let_def)
  then have "ids_ok (UniqueId mn mx)"
    using assms by (simp add: ids_ok_def) (simp add: UniqueId_def Let_def)
  then obtain u where u: "foldl id_step (Some (UniqueId mn mx)) ps = Some u" "ids_ok u"
    "mMin u = mMin (UniqueId mn mx)" "mMax u = mMax (UniqueId mn mx)"
    using id_steps_ok by blast
  from u(2) have "if \<forall>k. mMin u \<le> k \<longrightarrow> k \<le> mMax u \<longrightarrow> IsTaken u k then TakeId u = Some (u, cInvalidId)
     else \<exists>u' i. TakeId u = Some (u', i) \<and> FindId u = Some i \<and> i \<noteq> cInvalidId \<and> mMin u \<le> i \<and> i \<le> mMax u \<and>
       \<not> IsTaken u i \<and> (\<forall>k. mMin u \<le> k \<longrightarrow> k < i \<longrightarrow> IsTaken u k) \<and> IsTaken u' i \<and> ReleaseId u' i = (u, True)"
  proof (cases rule: TakeId_cases)
    case (free i)
    have "FindId u = Some i"
      using free(1) by (auto simp: TakeId_def FindId_def cInvalidId_def split: option.splits)
    moreover have "ReleaseId (u\<lparr>mUsedIds := mUsedIds u @ [i]\<rparr>) i = (u, True)"
      using free(4) by (simp add: ReleaseId_def IsTaken_def remove1_append)
    ultimately show ?thesis
      using free by (auto simp: IsTaken_def cInvalidId_def)
  qed simp
  then show ?thesis
    unfolding u(3) [symmetric] u(4) [symmetric] using u(1) by (intro exI [of _ u] conjI)
qed

theorem unique_id_allocates_witness:
  "\<exists>u. foldl id_step (Some (UniqueId 5 9)) [Op_Take, Op_Add 6, Op_Release 5] = Some u \<and>
    (if \<forall>k. mMin u \<le> k \<longrightarrow> k \<le> mMax u \<longrightarrow> IsTaken u k then TakeId u = Some (u, cInvalidId)
     else \<exists>u' i. TakeId u = Some (u', i) \<and> FindId u = Some i \<and> i \<noteq> cInvalidId \<and> mMin (UniqueId 5 9) \<le> i \<and> i \<le> mMax (UniqueId 5 9) \<and>
       \<not> IsTaken u i \<and> (\<forall>k. mMin u \<le> k \<longrightarrow> k < i \<longrightarrow> IsTaken u k) \<and> IsTaken u' i \<and> ReleaseId u' i = (u, True))"
  by (rule unique_id_allocates) (simp add: UniqueId_def)

text \<open>
  At the end of the numbers the loop goes on at zero: with a range up to the largest number
  that is taken completely, zero, which means that there is no identifier, is taken as well.
\<close>

lemma unique_id_wraps:
  assumes "mMax u = - 1" "mUsedIds u = [- 1]" "mMin u = - 1"
  shows "TakeId u = Some (u\<lparr>mUsedIds := [- 1, 0]\<rparr>, 0)"
proof -
  have "find_free [- 1] (- 1) 0 = Some (Some 0)"
    by (subst find_free.simps) simp
  then have "find_free [- 1] (- 1) (- 1) = Some (Some 0)"
    by (subst find_free.simps) simp
  then show ?thesis
    using assms by (simp add: TakeId_def)
qed

text \<open>A range that starts at the largest number is empty, since its end wraps to zero.\<close>

lemma unique_id_empty_range: "TakeId (UniqueId (- 1) mx) = Some (UniqueId (- 1) mx, cInvalidId)"
  by (simp add: TakeId_def UniqueId_def) (subst find_free.simps, simp)

end
