(* ===== verification/Event_Loop.thy ===== *)
theory Event_Loop
  imports Std_Map Transition_System
begin


text \<open>
  The loop of \<open>util/EventLoop.cpp\<close> as interleavings of its thread with the one thread that
  starts it, adds and changes timers and stops it. Times are milliseconds of the steady clock, whose
  readings are arguments; a callback is known by the name of its timer and does not call the
  loop again, which would lock the mutex twice. \<open>Loop\<close> runs in the thread that \<open>Start\<close> creates,
  and \<open>Start\<close> is called only when there is no such thread: assigning to a joinable \<open>std::thread\<close>
  ends the program.
\<close>

record timer =
  tm_period :: int
  tm_next :: int

text \<open>
  The thread of the loop: none, created but before the first statement of \<open>Loop\<close>, in the
  loop, at its end. The call of \<open>Stop\<close>: none or returned, or waiting in \<open>join\<close>.
\<close>

datatype loop_thread = NoThread | Created | Looping | Finished

record event_loop =
  mStopRequested :: bool
  mTimers :: "(byte list, timer) smap"
  mThread :: loop_thread
  el_joining :: bool
  el_called :: "byte list list"

definition EventLoop :: event_loop where
  "EventLoop = \<lparr>mStopRequested = False, mTimers = [], mThread = NoThread, el_joining = False, el_called = []\<rparr>"

definition Next :: "int \<Rightarrow> int \<Rightarrow> int" where
  "Next now delay = now + delay"

definition AddTimer :: "int \<Rightarrow> byte list \<Rightarrow> int \<Rightarrow> event_loop \<Rightarrow> event_loop" where
  "AddTimer now name period s = s\<lparr>mTimers := smap_insert name \<lparr>tm_period = period, tm_next = Next now period\<rparr> (mTimers s)\<rparr>"

definition ModifyTimer :: "int \<Rightarrow> byte list \<Rightarrow> int \<Rightarrow> event_loop \<Rightarrow> event_loop \<times> bool" where
  "ModifyTimer now name new_period s = (case map_of (mTimers s) name of
       None \<Rightarrow> (s, False)
     | Some t \<Rightarrow> (s\<lparr>mTimers := smap_set name (t\<lparr>tm_period := new_period, tm_next := Next now new_period\<rparr>) (mTimers s)\<rparr>, True))"

text \<open>\<open>now\<close> gives the time at which a timer is reloaded.\<close>

fun update_timers :: "int \<Rightarrow> (byte list \<Rightarrow> int) \<Rightarrow> (byte list, timer) smap \<Rightarrow> (byte list, timer) smap \<times> byte list list" where
  "update_timers tp now [] = ([], [])"
| "update_timers tp now ((n, t) # ts) =
     (let (ts', calls) = update_timers tp now ts
      in if tp \<ge> tm_next t then ((n, t\<lparr>tm_next := Next (now n) (tm_period t)\<rparr>) # ts', n # calls)
         else ((n, t) # ts', calls))"

definition UpdateTimers :: "int \<Rightarrow> (byte list \<Rightarrow> int) \<Rightarrow> event_loop \<Rightarrow> event_loop" where
  "UpdateTimers tp now s = (case update_timers tp now (mTimers s) of (ts, calls) \<Rightarrow> s\<lparr>mTimers := ts, el_called := el_called s @ calls\<rparr>)"

definition Start :: "event_loop \<Rightarrow> event_loop" where
  "Start s = s\<lparr>mThread := Created\<rparr>"

definition Loop_begin :: "event_loop \<Rightarrow> event_loop" where
  "Loop_begin s = s\<lparr>mStopRequested := False, mThread := Looping\<rparr>"

definition Loop_iteration :: "int \<Rightarrow> (byte list \<Rightarrow> int) \<Rightarrow> event_loop \<Rightarrow> event_loop" where
  "Loop_iteration tp now s =
     (let s = UpdateTimers tp now s; stop = mStopRequested s in s\<lparr>mThread := if \<not> stop then Looping else Finished\<rparr>)"

text \<open>\<open>Stop\<close> up to the test whether there is a thread to wait for, and the end of the wait.\<close>

definition Stop_request :: "event_loop \<Rightarrow> event_loop" where
  "Stop_request s = s\<lparr>mStopRequested := True, el_joining := mThread s \<noteq> NoThread\<rparr>"

definition Stop_joined :: "event_loop \<Rightarrow> event_loop" where
  "Stop_joined s = s\<lparr>el_joining := False, mThread := NoThread\<rparr>"

inductive el_step :: "event_loop \<Rightarrow> event_loop \<Rightarrow> bool" where
  step_start: "\<not> el_joining s \<Longrightarrow> mThread s = NoThread \<Longrightarrow> el_step s (Start s)"
| step_begin: "mThread s = Created \<Longrightarrow> el_step s (Loop_begin s)"
| step_iterate: "mThread s = Looping \<Longrightarrow> el_step s (Loop_iteration tp now s)"
| step_stop: "\<not> el_joining s \<Longrightarrow> el_step s (Stop_request s)"
| step_joined: "el_joining s \<Longrightarrow> mThread s = Finished \<Longrightarrow> el_step s (Stop_joined s)"
| step_add: "\<not> el_joining s \<Longrightarrow> el_step s (AddTimer t name period s)"
| step_modify: "\<not> el_joining s \<Longrightarrow> el_step s (fst (ModifyTimer t name period s))"

interpretation el: transition_system "(=) EventLoop" el_step .

inductive_cases el_stepE: "el_step s s'"

section \<open>Timers\<close>

lemma fst_update_timers: "map fst (fst (update_timers tp now ts)) = map fst ts"
  by (induction tp now ts rule: update_timers.induct) (auto split: prod.splits)

lemma update_timers_calls: "snd (update_timers tp now ts) = map fst (filter (\<lambda>(n, t). tm_next t \<le> tp) ts)"
  by (induction tp now ts rule: update_timers.induct) (auto split: prod.splits)

lemma update_timers_reload:
  "map_of (fst (update_timers tp now ts)) n =
     map_option (\<lambda>t. if tm_next t \<le> tp then t\<lparr>tm_next := now n + tm_period t\<rparr> else t) (map_of ts n)"
  by (induction tp now ts rule: update_timers.induct) (auto simp: Next_def split: prod.splits)

lemma step_timers_ok: "el_step s s' \<Longrightarrow> smap_ok (mTimers s) \<Longrightarrow> smap_ok (mTimers s')"
proof (erule el_stepE)
  fix tp now assume "smap_ok (mTimers s)" "s' = Loop_iteration tp now s"
  then show "smap_ok (mTimers s')"
    using fst_update_timers [of tp now "mTimers s"]
    by (auto simp: Loop_iteration_def UpdateTimers_def Let_def smap_ok_def split: prod.splits)
qed (auto simp: Start_def Loop_begin_def Stop_request_def Stop_joined_def AddTimer_def ModifyTimer_def sm.wf_ins sm.wf_upd split: option.splits)

text \<open>
  In every reachable state, a pass over the timers calls the callbacks that are due, each
  once and in the order of their names, and reloads exactly these with their period.
\<close>

theorem event_loop_timers:
  assumes "el.reach s"
  shows "el_called (UpdateTimers tp now s) = el_called s @ map fst (filter (\<lambda>(n, t). tm_next t \<le> tp) (mTimers s)) \<and>
    sorted_wrt (<) (map fst (mTimers s)) \<and>
    map_of (mTimers (UpdateTimers tp now s)) n =
      map_option (\<lambda>t. if tm_next t \<le> tp then t\<lparr>tm_next := now n + tm_period t\<rparr> else t) (map_of (mTimers s) n)"
proof -
  have "smap_ok (mTimers s)"
    using assms by (rule el.invariant) (auto simp: EventLoop_def dest: step_timers_ok)
  then show ?thesis
    using update_timers_calls [of tp now "mTimers s"] update_timers_reload [of tp now "mTimers s" n]
    by (auto simp: UpdateTimers_def smap_ok_def split: prod.splits)
qed

theorem event_loop_timers_witness:
  "el_called (UpdateTimers 7 (\<lambda>_. 7) (AddTimer 0 [97] 5 EventLoop)) = [[97]]"
proof -
  have "el.reach (AddTimer 0 [97] 5 EventLoop)"
    by (rule el.reach_step [OF el.reach_init step_add]) (simp_all add: EventLoop_def)
  from event_loop_timers [OF this, of 7 "\<lambda>_. 7" "[97]"] show ?thesis
    by (simp add: AddTimer_def EventLoop_def Next_def)
qed

section \<open>Stopping\<close>

text \<open>
  \<open>Stop\<close> waits for a thread that has not yet cleared the request, or has cleared it: no step of
  the thread of the loop leads out of these states, and the caller of \<open>Stop\<close> is in \<open>join\<close>.
\<close>

definition lost :: "event_loop \<Rightarrow> bool" where
  "lost s \<longleftrightarrow> el_joining s \<and> (mThread s = Created \<or> mThread s = Looping \<and> \<not> mStopRequested s)"

lemma lost_step: "el_step s s' \<Longrightarrow> lost s \<Longrightarrow> lost s'"
  by (auto simp: lost_def Loop_begin_def Loop_iteration_def UpdateTimers_def Let_def elim!: el_stepE split: prod.splits)

lemma lost_forever: "el_step\<^sup>*\<^sup>* s s' \<Longrightarrow> lost s \<Longrightarrow> lost s'"
  by (induction rule: rtranclp_induct) (auto intro: lost_step)

lemma request_before_begin: "mThread s = Created \<Longrightarrow> lost (Stop_request s)"
  by (simp add: lost_def Stop_request_def)

text \<open>The steps of a loop that is running and of one that has ended, while \<open>Stop\<close> waits.\<close>

lemma joining_steps:
  assumes "el_joining s"
  shows "mThread s = Looping \<Longrightarrow> el_step s r \<longleftrightarrow> (\<exists>tp now. r = Loop_iteration tp now s)"
    and "mThread s = Finished \<Longrightarrow> el_step s r \<longleftrightarrow> r = Stop_joined s"
  using assms by (auto elim!: el_stepE intro: step_iterate step_joined)

lemma iteration_after_request:
  "mThread (Loop_iteration tp now (Stop_request s)) = Finished"
  "el_joining (Loop_iteration tp now (Stop_request s)) = el_joining (Stop_request s)"
  by (simp_all add: Loop_iteration_def Stop_request_def UpdateTimers_def Let_def split: prod.splits)

text \<open>
  Property C36. \<open>Stop\<close> ends a loop that is running: after the request the only steps are a pass of the loop, which
  ends the thread, and then the end of the wait. But whenever \<open>Stop\<close> is called before the thread has executed the
  first statement of \<open>Loop\<close>, which clears the request, then, in every state of every continuation, \<open>Stop\<close> is still
  waiting, the thread has not ended, and once it is in its loop the request is gone.
\<close>

theorem event_loop_stop:
  assumes "\<not> el_joining s"
  shows "(mThread s = Looping \<longrightarrow>
      (\<forall>r. el_step (Stop_request s) r \<longleftrightarrow> (\<exists>tp now. r = Loop_iteration tp now (Stop_request s))) \<and>
      (\<forall>r. el_step (Stop_request s) r \<longrightarrow> mThread r = Finished \<and> (\<forall>t. el_step r t \<longleftrightarrow> t = Stop_joined r))) \<and>
    (mThread s = Created \<longrightarrow> el_step s (Stop_request s) \<and>
      (\<forall>s'. el_step\<^sup>*\<^sup>* (Stop_request s) s' \<longrightarrow>
         el_joining s' \<and> mThread s' \<in> {Created, Looping} \<and> (mThread s' = Looping \<longrightarrow> \<not> mStopRequested s')))"
proof (intro conjI impI allI)
  assume t: "mThread s = Looping"
  then have j: "el_joining (Stop_request s)" "mThread (Stop_request s) = Looping"
    by (simp_all add: Stop_request_def)
  then show "el_step (Stop_request s) r \<longleftrightarrow> (\<exists>tp now. r = Loop_iteration tp now (Stop_request s))" for r
    by (rule joining_steps(1))
  fix r assume "el_step (Stop_request s) r"
  then obtain tp now where r: "r = Loop_iteration tp now (Stop_request s)"
    using joining_steps(1) [OF j] by blast
  show f: "mThread r = Finished"
    by (simp add: r iteration_after_request)
  have "el_joining r"
    using j by (simp add: r iteration_after_request)
  then show "el_step r t \<longleftrightarrow> t = Stop_joined r" for t
    using f joining_steps(2) by blast
next
  show "el_step s (Stop_request s)"
    using assms by (rule step_stop)
next
  fix s' assume "mThread s = Created" "el_step\<^sup>*\<^sup>* (Stop_request s) s'"
  then have "lost s'"
    using lost_forever request_before_begin by blast
  then show "el_joining s'" "mThread s' \<in> {Created, Looping}" "mThread s' = Looping \<Longrightarrow> \<not> mStopRequested s'"
    by (auto simp: lost_def)
qed

theorem event_loop_stop_witness:
  "el.reach (Start EventLoop) \<and> el_step (Start EventLoop) (Stop_request (Start EventLoop)) \<and>
   Collect (el_step\<^sup>*\<^sup>* (Stop_request (Start EventLoop))) \<subseteq> {s'. el_joining s' \<and> mThread s' \<in> {Created, Looping}} \<and>
   (\<exists>r. el_step (Stop_request (Loop_begin (Start EventLoop))) r \<and> mThread r = Finished \<and> el_step r (Stop_joined r))"
proof (intro conjI)
  let ?s = "Start EventLoop" and ?l = "Loop_begin (Start EventLoop)"
  have s: "\<not> el_joining ?s" "mThread ?s = Created" "\<not> el_joining ?l" "mThread ?l = Looping"
    by (simp_all add: Start_def EventLoop_def Loop_begin_def)
  have "el_step EventLoop ?s"
    by (rule step_start) (simp_all add: EventLoop_def)
  then show "el.reach ?s"
    by (blast intro: el.reach_init el.reach_step)
  note before = event_loop_stop [OF s(1), THEN conjunct2, rule_format, OF s(2)]
  from before show "el_step ?s (Stop_request ?s)"
    by blast
  from before show "Collect (el_step\<^sup>*\<^sup>* (Stop_request ?s)) \<subseteq> {s'. el_joining s' \<and> mThread s' \<in> {Created, Looping}}"
    by blast
  note running = event_loop_stop [OF s(3), THEN conjunct1, rule_format, OF s(4)]
  let ?r = "Loop_iteration 0 (\<lambda>_. 0) (Stop_request ?l)"
  have "el_step (Stop_request ?l) ?r"
    using running by blast
  then show "\<exists>r. el_step (Stop_request ?l) r \<and> mThread r = Finished \<and> el_step r (Stop_joined r)"
    using running by blast
qed

end
