(* ===== verification/Spec2Isabelle.thy ===== *)
theory Spec2Isabelle
  imports Prelude Hash_Stream Md5 Sha1 Sha256 Sha512 Ripemd160 Bignum_Binary Bignum_Mod
    Byte_Array Base64 Sha_One Util_String Std_Map Web_Socket Http_Protocol Transition_System Thread_Pool
    Tcp_Server Json_Parser Json Aes_Tables Aes Gcm Tiny_Mac
    Util_Classes Event_Loop
begin

text \<open>
  Verification of the core of ICL (a C++ library of network, protocol, data and
  utility classes) and of the parts of mbedtls it builds on.

  \<^bold>\<open>The program and its parts.\<close> A server (\<open>network/TcpServerEpoll.cpp\<close>) accepts
  connections, reads them through \<open>network/TcpSocket.cpp\<close>, performs the WebSocket
  handshake with \<open>protocol/HttpProtocol.cpp\<close>, whose accept key is a SHA-1
  (\<open>security/ShaOne.cpp\<close>) in Base64 (\<open>security/Base64Util.cpp\<close>), and reports events to
  an observer; applications put work on a thread pool (\<open>util/Pool.h\<close> over
  \<open>util/ThreadQueue.h\<close>), exchange JSON (\<open>json/\<close>) and typed byte streams (\<open>io/\<close>), and use
  the hashes, ciphers and big integers of \<open>mbedtls/library\<close>.

  \<^bold>\<open>Theories and sources.\<close>
  \<^item> \<open>Prelude\<close>: machine words, return codes as sums, \<open>memcpy\<close>, byte-order macros.
  \<^item> \<open>Hash_Stream\<close>: the locale of a block hash with a buffered context, interpreted by
    \<open>Md5\<close>, \<open>Sha1\<close>, \<open>Sha256\<close>, \<open>Sha512\<close> and \<open>Ripemd160\<close> (the files of these names in
    \<open>mbedtls/library\<close>): any sequence of updates followed by finish is the padded
    one-shot hash of the concatenation. \<open>Sha256\<close> also shows the unrolled rounds equal
    to the rolled ones.
  \<^item> \<open>Bignum\<close>, \<open>Bignum_Bits\<close>, \<open>Bignum_Arith\<close>, \<open>Bignum_Binary\<close>, \<open>Bignum_Mod\<close>:
    \<open>bignum.c\<close> and \<open>bn_mul.h\<close>. A number is its limbs and a sign; every operation is shown
    to compute on the value, with the allocation failures as errors. Aliasing of
    arguments is written out as the variants the code distinguishes.
  \<^item> \<open>Byte_Array\<close>: \<open>io/\<close>. \<open>Base64\<close>: both Base64 coders and their agreement. \<open>Sha_One\<close>:
    the SHA-1 of ICL equals that of mbedtls.
  \<^item> \<open>Util_String\<close>: the string functions of \<open>util/Util.cpp\<close>. \<open>Std_Map\<close>: the locale of an
    ordered map and its implementation by sorted lists.
  \<^item> \<open>Web_Socket\<close>: frames, fragments and sending in \<open>network/TcpSocket.cpp\<close>.
    \<open>Http_Protocol\<close>: requests, replies and the handshake. \<open>Tcp_Server\<close>: the epoll server
    as a transition system over its events, with invariants of descriptors and of the
    order in which the calls of the event handler are handed to the thread pool.
  \<^item> \<open>Transition_System\<close>: the locale of a system with invariants and bounded runs;
    \<open>Thread_Pool\<close>: queue, pool and semaphore as interleavings of worker steps; what the
    pool takes, calls and completes, and that it shuts down.
  \<^item> \<open>Json_Parser\<close>, \<open>Json\<close>: values, printer, parser and path access of \<open>json/\<close>. The parser
    is refined by a stack machine; printing and parsing are inverse.
  \<^item> \<open>Aes_Tables\<close>, \<open>Aes\<close>: \<open>aes.c\<close>. The tables that are computed on first use are the constant
    ones; encryption by tables is the cipher of FIPS 197, the inverse key schedule and
    the inverse rounds undo it, and so do the modes CBC, CFB, OFB and CTR. XTS, AES-NI
    and PadLock are left out.
  \<^item> \<open>Gcm\<close>: \<open>gcm.c\<close> and what it uses of \<open>cipher.c\<close> and \<open>cipher_wrap.c\<close>. Multiplication by 4-bit
    tables is the product of SP 800-38D, encryption is its mode over the cipher of
    FIPS 197, and decryption accepts exactly the right tag. The locale \<open>block_cipher\<close>
    holds what counter mode needs of a cipher.
  \<^item> \<open>Tiny_Mac\<close>: the frames of \<open>protocol/TinyMac.cpp\<close> over GCM: what a receiver reads back, and
    what goes wrong with long texts, short frames, a constant vector and ignored errors.
  \<^item> \<open>Util_Classes\<close>: \<open>UniqueId\<close>, \<open>SemanticVersion\<close> and \<open>Observer\<close> of \<open>util/\<close>. \<open>Event_Loop\<close>: the loop of
    \<open>util/EventLoop.cpp\<close> as interleavings of two threads, when \<open>Stop\<close> ends it and when its
    request is lost.

  \<^bold>\<open>Conventions.\<close> A class or a context is a record, passed and returned. A C function
  that can fail returns \<open>Inl\<close> of its code; undefined behaviour of C or C++ is the value
  \<open>Undefined\<close> or \<open>OUT_OF_BOUNDS\<close>, and the theorems on safety show when it is not
  reached. Loops over data recurse on it; the loops of \<open>Split\<close>,
  \<open>ReplaceCharacter\<close> and \<open>TakeId\<close>, which can run forever, are partial functions whose result \<open>None\<close> means that they do, and
  that they return is proved. No fuel is used. Sizes are natural numbers where the
  code cannot reach the limit of the type, words where it can.

  \<^bold>\<open>Parameters.\<close> What lies outside the sources is an argument: what \<open>recv\<close>, \<open>send\<close>,
  \<open>accept\<close> and \<open>epoll_wait\<close> return, the results of \<open>calloc\<close>, a random generator, the
  wake-ups of condition variables, uninitialised memory, the operations of \<open>double\<close>.

  \<^bold>\<open>Limits.\<close> Of the code that is selected at compile time or at run time the portable C
  variants are modelled: the double-width \<open>MULADDC\<close>, not the assembly; no AES-NI, CLMUL or
  PadLock. The bit count of \<open>mbedtls_mpi_shift_l\<close>, the indentation and the positions of the JSON code and
  the result of \<open>send\<close> are not reduced to the width of their type. \<open>ws_unmask\<close> counts every store at or
  behind the end of the string as undefined. Strings are read from a byte stream into an empty
  variable. \<open>Tiny_Mac\<close> reads the part of a frame that it decrypts also when the cipher has failed and the
  code would return before. The transition system of \<open>Tcp_Server\<close> ends with the last round; the clean-up
  that follows it is the definition \<open>cleanup\<close>.

  \<^bold>\<open>Not modelled.\<close> The JavaScript engine, SQLite and its shell, miniz and the date
  library are third-party programs of their own size. The public-key, certificate and
  TLS parts of mbedtls build on the modelled arithmetic and hashes but are not
  modelled. Console, logging, shared libraries, file access and the UDP and TLS
  clients are calls of the operating system. The tests and the mbedtls example
  programs are not part of the library.
\<close>

end
